(* ===== verification/Prelude.thy ===== *)
theory Prelude
  imports Main "HOL-Library.Word" "HOL-Library.List_Lexorder" "HOL-Library.Product_Lexorder"
begin

unbundle bit_operations_syntax

text \<open>
  Shared vocabulary of the development: the machine types of the Rust sources, the result
  type and its sequencing, the byte encodings of the standard library (\<open>to_be_bytes\<close>,
  \<open>from_le_bytes\<close>, ...), slices and chunks, and the lemma collections the component
  theories use.
  Arrays \<open>[T; N]\<close> and vectors are lists, a \<open>usize\<close> is a \<open>nat\<close> (the sources only run on
  targets whose \<open>usize\<close> has 64 bits; where the code checks for overflow the check is
  modelled), the other integers are words of their width.
\<close>

section \<open>Machine types\<close>

type_synonym u8 = "8 word"
type_synonym u16 = "16 word"
type_synonym u32 = "32 word"
type_synonym u64 = "64 word"
type_synonym u128 = "128 word"
type_synonym bytes = "u8 list"

text \<open>A Rust \<open>String\<close> or \<open>&str\<close> is its UTF-8 bytes.\<close>

type_synonym str = "u8 list"

text \<open>A byte string literal \<open>b"..."\<close>, written as a list of characters.\<close>

definition ascii :: "string \<Rightarrow> bytes" where
  "ascii cs = map (\<lambda>c. of_nat (of_char c)) cs"

lemma length_ascii [simp]: "length (ascii cs) = length cs"
  by (simp add: ascii_def)

lemma ascii_Nil [simp]: "ascii [] = []"
  by (simp add: ascii_def)

lemma ascii_Cons [simp]: "ascii (c # cs) = of_nat (of_char c) # ascii cs"
  by (simp add: ascii_def)

named_theorems byte_len \<open>lengths of encodings\<close>
named_theorems result_simps \<open>inversion of sequenced results\<close>

section \<open>Results\<close>

text \<open>\<open>Result<T, E>\<close> is \<open>'e + 'a\<close>; the operator \<open>?\<close> is \<open>rbind\<close>.\<close>

definition rbind :: "'e + 'a \<Rightarrow> ('a \<Rightarrow> 'e + 'b) \<Rightarrow> 'e + 'b" where
  "rbind m f = (case m of Inl e \<Rightarrow> Inl e | Inr a \<Rightarrow> f a)"

definition map_err :: "('e \<Rightarrow> 'f) \<Rightarrow> 'e + 'a \<Rightarrow> 'f + 'a" where
  "map_err g m = (case m of Inl e \<Rightarrow> Inl (g e) | Inr a \<Rightarrow> Inr a)"

definition ok_or :: "'a option \<Rightarrow> 'e \<Rightarrow> 'e + 'a" where
  "ok_or m e = (case m of None \<Rightarrow> Inl e | Some a \<Rightarrow> Inr a)"

text \<open>A guard clause \<open>if c { return Err(e) }\<close>.\<close>

definition reject :: "bool \<Rightarrow> 'e \<Rightarrow> 'e + unit" where
  "reject c e = (if c then Inl e else Inr ())"

lemma rbind_simps [simp]:
  "rbind (Inl e) f = Inl e" "rbind (Inr a) f = f a"
  by (simp_all add: rbind_def)

lemma map_err_simps [simp]:
  "map_err g (Inl e) = Inl (g e)" "map_err g (Inr a) = Inr a"
  by (simp_all add: map_err_def)

lemma ok_or_simps [simp]:
  "ok_or None e = Inl e" "ok_or (Some a) e = Inr a"
  by (simp_all add: ok_or_def)

lemma rbind_eq_Inr [result_simps]:
  "rbind m f = Inr b \<longleftrightarrow> (\<exists>a. m = Inr a \<and> f a = Inr b)"
  by (cases m) auto

lemma rbind_eq_Inl [result_simps]:
  "rbind m f = Inl e \<longleftrightarrow> m = Inl e \<or> (\<exists>a. m = Inr a \<and> f a = Inl e)"
  by (cases m) auto

lemma map_err_eq_Inr [result_simps]: "map_err g m = Inr a \<longleftrightarrow> m = Inr a"
  by (cases m) auto

lemma map_err_eq_Inl [result_simps]: "map_err g m = Inl f \<longleftrightarrow> (\<exists>e. m = Inl e \<and> f = g e)"
  by (cases m) auto

lemma ok_or_eq_Inr [result_simps]: "ok_or m e = Inr a \<longleftrightarrow> m = Some a"
  by (cases m) auto

lemma ok_or_eq_Inl [result_simps]: "ok_or m e = Inl f \<longleftrightarrow> m = None \<and> f = e"
  by (cases m) auto

lemma reject_eq_Inr [result_simps]: "reject c e = Inr u \<longleftrightarrow> \<not> c"
  by (simp add: reject_def)

lemma reject_eq_Inl [result_simps]: "reject c e = Inl f \<longleftrightarrow> c \<and> f = e"
  by (auto simp: reject_def)

lemma reject_simps [simp]: "reject True e = Inl e" "reject False e = Inr ()"
  by (simp_all add: reject_def)

section \<open>Byte encodings\<close>

text \<open>\<open>to_be k n\<close> is the \<open>k\<close>-byte big-endian encoding of \<open>n mod 256 ^ k\<close>.\<close>

fun to_be :: "nat \<Rightarrow> nat \<Rightarrow> bytes" where
  "to_be 0 n = []"
| "to_be (Suc k) n = to_be k (n div 256) @ [of_nat n]"

fun to_le :: "nat \<Rightarrow> nat \<Rightarrow> bytes" where
  "to_le 0 n = []"
| "to_le (Suc k) n = of_nat n # to_le k (n div 256)"

fun from_le :: "bytes \<Rightarrow> nat" where
  "from_le [] = 0"
| "from_le (b # bs) = unat b + 256 * from_le bs"

definition from_be :: "bytes \<Rightarrow> nat" where
  "from_be bs = from_le (rev bs)"

lemma length_to_be [simp, byte_len]: "length (to_be k n) = k"
  by (induction k arbitrary: n) auto

lemma length_to_le [simp, byte_len]: "length (to_le k n) = k"
  by (induction k arbitrary: n) auto

lemma to_be_rev_to_le: "to_be k n = rev (to_le k n)"
  by (induction k arbitrary: n) auto

lemma from_le_bound: "from_le bs < 256 ^ length bs"
proof (induction bs)
  case (Cons b bs)
  have "unat b < 256" by (rule order_less_le_trans [OF unsigned_less]) simp
  with Cons show ?case by simp
qed simp

lemma from_le_to_le: "from_le (to_le k n) = n mod 256 ^ k"
proof (induction k arbitrary: n)
  case (Suc k)
  have "unat (of_nat n :: u8) = n mod 256" by (simp add: unat_of_nat)
  then show ?case by (simp add: Suc mod_mult2_eq)
qed simp

lemma to_le_from_le: "to_le (length bs) (from_le bs) = bs"
proof (induction bs)
  case (Cons b bs)
  have b: "unat b < 256" by (rule order_less_le_trans [OF unsigned_less]) simp
  have "(256 :: u8) = 0"
    by (rule word_unat_eq_iff [THEN iffD2]) simp
  then have "(of_nat (unat b) :: u8) + 256 * of_nat (from_le bs) = of_nat (unat b) + 0 * of_nat (from_le bs)"
    by (simp only:)
  then have "(of_nat (unat b + 256 * from_le bs) :: u8) = b"
    by simp
  with Cons b show ?case by simp
qed simp

lemma from_be_bound: "from_be bs < 256 ^ length bs"
  using from_le_bound [of "rev bs"] by (simp add: from_be_def)

lemma from_be_to_be: "from_be (to_be k n) = n mod 256 ^ k"
  by (simp add: from_be_def to_be_rev_to_le from_le_to_le)

lemma to_be_from_be: "length bs = k \<Longrightarrow> to_be k (from_be bs) = bs"
  using to_le_from_le [of "rev bs"] by (auto simp: from_be_def to_be_rev_to_le)

lemma to_be_inj: "to_be k m = to_be k n \<Longrightarrow> m < 256 ^ k \<Longrightarrow> n < 256 ^ k \<Longrightarrow> m = n"
  by (metis from_be_to_be mod_less)

lemma from_le_append: "from_le (xs @ ys) = from_le xs + 256 ^ length xs * from_le ys"
  by (induction xs) (auto simp: algebra_simps)

text \<open>The fixed-width encodings of the standard library.\<close>

definition u16_to_be :: "u16 \<Rightarrow> bytes" where "u16_to_be w = to_be 2 (unat w)"
definition u32_to_be :: "u32 \<Rightarrow> bytes" where "u32_to_be w = to_be 4 (unat w)"
definition u64_to_be :: "u64 \<Rightarrow> bytes" where "u64_to_be w = to_be 8 (unat w)"
definition u128_to_be :: "u128 \<Rightarrow> bytes" where "u128_to_be w = to_be 16 (unat w)"
definition u32_to_le :: "u32 \<Rightarrow> bytes" where "u32_to_le w = to_le 4 (unat w)"
definition u64_to_le :: "u64 \<Rightarrow> bytes" where "u64_to_le w = to_le 8 (unat w)"
definition u16_from_be :: "bytes \<Rightarrow> u16" where "u16_from_be bs = of_nat (from_be bs)"
definition u32_from_be :: "bytes \<Rightarrow> u32" where "u32_from_be bs = of_nat (from_be bs)"
definition u64_from_be :: "bytes \<Rightarrow> u64" where "u64_from_be bs = of_nat (from_be bs)"
definition u32_from_le :: "bytes \<Rightarrow> u32" where "u32_from_le bs = of_nat (from_le bs)"
definition u64_from_le :: "bytes \<Rightarrow> u64" where "u64_from_le bs = of_nat (from_le bs)"

lemmas enc_defs =
  u16_to_be_def u32_to_be_def u64_to_be_def u128_to_be_def u32_to_le_def u64_to_le_def
lemmas dec_defs =
  u16_from_be_def u32_from_be_def u64_from_be_def u32_from_le_def u64_from_le_def

lemma length_enc [simp, byte_len]:
  "length (u16_to_be a) = 2" "length (u32_to_be b) = 4" "length (u64_to_be c) = 8"
  "length (u128_to_be d) = 16" "length (u32_to_le b) = 4" "length (u64_to_le c) = 8"
  by (simp_all add: enc_defs)

lemma unat_bounds:
  "unat (a :: u8) < 256" "unat (b :: u16) < 65536" "unat (c :: u32) < 4294967296"
  "unat (d :: u64) < 18446744073709551616"
  by (rule order_less_le_trans [OF unsigned_less], simp)+

lemma dec_enc [simp]:
  "u16_from_be (u16_to_be a) = a" "u32_from_be (u32_to_be b) = b" "u64_from_be (u64_to_be c) = c"
  "u32_from_le (u32_to_le b) = b" "u64_from_le (u64_to_le c) = c"
  using unat_bounds by (simp_all add: enc_defs dec_defs from_be_to_be from_le_to_le)

lemma u16_enc_dec [simp]: "length bs = 2 \<Longrightarrow> u16_to_be (u16_from_be bs) = bs"
  using from_be_bound [of bs]
  by (simp add: enc_defs dec_defs unat_of_nat to_be_from_be)

lemma u32_enc_dec [simp]: "length bs = 4 \<Longrightarrow> u32_to_be (u32_from_be bs) = bs"
  using from_be_bound [of bs]
  by (simp add: enc_defs dec_defs unat_of_nat to_be_from_be)

lemma u64_enc_dec [simp]: "length bs = 8 \<Longrightarrow> u64_to_be (u64_from_be bs) = bs"
  using from_be_bound [of bs]
  by (simp add: enc_defs dec_defs unat_of_nat to_be_from_be)

lemma enc_inj [simp]:
  "u16_to_be a = u16_to_be a' \<longleftrightarrow> a = a'" "u32_to_be b = u32_to_be b' \<longleftrightarrow> b = b'"
  "u64_to_be c = u64_to_be c' \<longleftrightarrow> c = c'" "u32_to_le b = u32_to_le b' \<longleftrightarrow> b = b'"
  "u64_to_le c = u64_to_le c' \<longleftrightarrow> c = c'"
  by (metis dec_enc)+

section \<open>Checked and saturating arithmetic\<close>

definition checked_add64 :: "u64 \<Rightarrow> u64 \<Rightarrow> u64 option" where
  "checked_add64 a b = (if unat a + unat b < 2 ^ 64 then Some (a + b) else None)"

definition saturating_add64 :: "u64 \<Rightarrow> u64 \<Rightarrow> u64" where
  "saturating_add64 a b = (if unat a + unat b < 2 ^ 64 then a + b else - 1)"

definition usize_max :: nat where
  "usize_max = 18446744073709551615"

definition checked_add_usize :: "nat \<Rightarrow> nat \<Rightarrow> nat option" where
  "checked_add_usize a b = (if a + b \<le> usize_max then Some (a + b) else None)"

definition saturating_add_usize :: "nat \<Rightarrow> nat \<Rightarrow> nat" where
  "saturating_add_usize a b = (if a + b \<le> usize_max then a + b else usize_max)"

lemma unat_u64_max [simp]: "unat (- 1 :: u64) = 18446744073709551615"
  by (simp add: unsigned_minus_1_eq_mask mask_eq_exp_minus_1)

lemma checked_add64_Some:
  "checked_add64 a b = Some c \<longleftrightarrow> unat a + unat b < 2 ^ 64 \<and> c = a + b"
  by (auto simp: checked_add64_def)

lemma checked_add64_unat: "checked_add64 a b = Some c \<Longrightarrow> unat c = unat a + unat b"
  by (auto simp: checked_add64_def unat_word_ariths split: if_splits)

section \<open>Slices\<close>

text \<open>\<open>buf[off..off + src.len()].copy_from_slice(src)\<close>.\<close>

definition copy_into :: "'a list \<Rightarrow> nat \<Rightarrow> 'a list \<Rightarrow> 'a list" where
  "copy_into buf off src = take off buf @ src @ drop (off + length src) buf"

lemma length_copy_into [simp]:
  "off + length src \<le> length buf \<Longrightarrow> length (copy_into buf off src) = length buf"
  by (simp add: copy_into_def)

lemma take_copy_into:
  "off + length src \<le> length buf \<Longrightarrow>
   take (off + length src) (copy_into buf off src) = take off buf @ src"
  by (simp add: copy_into_def)

text \<open>\<open>data.chunks(n)\<close> and \<open>data.chunks_exact(n)\<close>.\<close>

function chunks :: "nat \<Rightarrow> 'a list \<Rightarrow> 'a list list" where
  "chunks n xs = (if n = 0 \<or> xs = [] then [] else take n xs # chunks n (drop n xs))"
  by pat_completeness auto
termination
  by (relation "measure (\<lambda>(n, xs). length xs)") auto

function chunks_exact :: "nat \<Rightarrow> 'a list \<Rightarrow> 'a list list" where
  "chunks_exact n xs =
     (if n = 0 \<or> length xs < n then [] else take n xs # chunks_exact n (drop n xs))"
  by pat_completeness auto
termination
  by (relation "measure (\<lambda>(n, xs). length xs)") auto

declare chunks.simps [simp del] chunks_exact.simps [simp del]

lemma chunks_Nil [simp]: "chunks n [] = []"
  by (simp add: chunks.simps)

lemma chunks_exact_short [simp]: "length xs < n \<Longrightarrow> chunks_exact n xs = []"
  by (simp add: chunks_exact.simps)

lemma concat_chunks: "0 < n \<Longrightarrow> concat (chunks n xs) = xs"
proof (induction n xs rule: chunks.induct)
  case (1 n xs)
  then show ?case by (cases "xs = []") (simp_all add: chunks.simps [of n xs])
qed

lemma chunks_length:
  "0 < n \<Longrightarrow> c \<in> set (chunks n xs) \<Longrightarrow> 0 < length c \<and> length c \<le> n"
proof (induction n xs rule: chunks.induct)
  case (1 n xs)
  then show ?case by (cases "xs = []") (auto simp: chunks.simps [of n xs])
qed

lemma chunks_exact_length:
  "c \<in> set (chunks_exact n xs) \<Longrightarrow> length c = n"
proof (induction n xs rule: chunks_exact.induct)
  case (1 n xs)
  then show ?case
    by (cases "n = 0 \<or> length xs < n") (auto simp: chunks_exact.simps [of n xs])
qed

lemma chunks_exact_append:
  assumes "0 < n"
  shows "length xs mod n = 0 \<Longrightarrow> chunks_exact n (xs @ ys) = chunks_exact n xs @ chunks_exact n ys"
proof (induction n xs rule: chunks_exact.induct)
  case (1 n xs)
  show ?case
  proof (cases "n = 0 \<or> length xs < n")
    case True
    with 1 show ?thesis
      by (cases "n = 0") (simp_all add: chunks_exact.simps)
  next
    case False
    then have "length (drop n xs) mod n = 0"
      using "1.prems" by (simp add: le_mod_geq)
    with False "1.IH" show ?thesis
      by (simp add: chunks_exact.simps [of n xs] chunks_exact.simps [of n "xs @ ys"])
  qed
qed

lemma chunks_exact_single: "0 < length b \<Longrightarrow> chunks_exact (length b) b = [b]"
  by (simp add: chunks_exact.simps)

lemma chunks_exact_take:
  assumes "0 < n"
  shows "chunks_exact n (take (length xs div n * n) xs) = chunks_exact n xs"
proof -
  have m: "length (take (length xs div n * n) xs) mod n = 0"
    by simp
  have s: "length (drop (length xs div n * n) xs) < n"
    using assms mod_less_divisor [of n "length xs"] by (simp add: minus_div_mult_eq_mod)
  show ?thesis
    using chunks_exact_append [OF assms m, of "drop (length xs div n * n) xs"] s by simp
qed

end
