(* ===== verification/BlockStream.thy ===== *)
theory BlockStream
  imports Prelude "HOL-Library.While_Combinator"
begin

text \<open>
  The buffering discipline shared by \<open>Sha256::update\<close> (crates/blindplane-crypto/src/sha2/sha256/mod.rs),
  \<open>Sha512::update\<close> (sha2/sha512/mod.rs) and \<open>Poly1305::update\<close> (poly1305/mod.rs): a fixed
  buffer with a fill count, whole blocks absorbed as soon as they are complete, the tail kept
  for the next call. The locale states the discipline once over the block size and the
  absorption function; the three primitives interpret it.
\<close>

section \<open>The shared update step\<close>

definition stream_fill ::
  "nat \<Rightarrow> ('s \<Rightarrow> bytes \<Rightarrow> 's) \<Rightarrow> 's \<times> bytes \<times> nat \<Rightarrow> bytes \<Rightarrow> ('s \<times> bytes \<times> nat) \<times> bytes" where
  "stream_fill B f st data =
    (case st of (s, buffer, buffered) \<Rightarrow>
      if 0 < buffered then
        let tk = min (B - buffered) (length data);
            buffer = copy_into buffer buffered (take tk data);
            buffered = buffered + tk;
            data = drop tk data
        in (if buffered = B then ((f s buffer, buffer, 0), data)
            else ((s, buffer, buffered), data))
      else ((s, buffer, buffered), data))"

definition stream_tail ::
  "nat \<Rightarrow> ('s \<Rightarrow> bytes \<Rightarrow> 's) \<Rightarrow> ('s \<times> bytes \<times> nat) \<times> bytes \<Rightarrow> 's \<times> bytes \<times> nat" where
  "stream_tail B f std =
    (case std of ((s, buffer, buffered), data) \<Rightarrow>
      let full = length data div B * B;
          (s, data) =
            (if 0 < full then (foldl f s (chunks_exact B (take full data)), drop full data)
             else (s, data))
      in (if data \<noteq> [] then (s, copy_into buffer 0 data, length data)
          else (s, buffer, buffered)))"

definition stream_update ::
  "nat \<Rightarrow> ('s \<Rightarrow> bytes \<Rightarrow> 's) \<Rightarrow> 's \<times> bytes \<times> nat \<Rightarrow> bytes \<Rightarrow> 's \<times> bytes \<times> nat" where
  "stream_update B f st data = stream_tail B f (stream_fill B f st data)"

text \<open>
  \<open>absorbed B f s0 st xs\<close>: the streaming state \<open>st\<close> is what absorbing \<open>xs\<close> from the
  chaining value \<open>s0\<close> leaves behind.
\<close>

definition absorbed ::
  "nat \<Rightarrow> ('s \<Rightarrow> bytes \<Rightarrow> 's) \<Rightarrow> 's \<Rightarrow> 's \<times> bytes \<times> nat \<Rightarrow> bytes \<Rightarrow> bool" where
  "absorbed B f s0 st xs \<longleftrightarrow>
    (case st of (s, buffer, buffered) \<Rightarrow>
       length buffer = B \<and> buffered = length xs mod B \<and>
       s = foldl f s0 (chunks_exact B xs) \<and>
       take buffered buffer = drop (length xs div B * B) xs)"

lemmas stream_defs = stream_update_def stream_fill_def stream_tail_def

locale block_stream =
  fixes B :: nat and f :: "'s \<Rightarrow> bytes \<Rightarrow> 's"
  assumes B_pos: "0 < B"
begin

lemma absorbed_init: "length buffer = B \<Longrightarrow> absorbed B f s0 (s0, buffer, 0) []"
  using B_pos by (simp add: absorbed_def)

text \<open>The tail of an input, and the two ways of reaching it.\<close>

lemma length_tail: "length (drop (length xs div B * B) xs) = length xs mod B"
  by (simp add: minus_div_mult_eq_mod)

lemma update_empty_eq:
  "stream_update B f (s, buffer, 0) data =
    (foldl f s (chunks_exact B data),
     (let tl = drop (length data div B * B) data in if tl \<noteq> [] then copy_into buffer 0 tl else buffer),
     length data mod B)"
proof -
  have "length data < B" if "length data div B * B = 0"
    using that B_pos by (simp add: div_eq_0_iff)
  moreover have "length data mod B = 0" if "drop (length data div B * B) data = []"
    using that length_tail [of data] by simp
  ultimately show ?thesis
    using chunks_exact_take [OF B_pos, of data] length_tail [of data]
    by (auto simp: stream_defs Let_def simp del: drop_eq_Nil drop_eq_Nil2)
qed

lemma absorbed_update_empty:
  assumes "length buffer = B"
  shows "absorbed B f s0 (stream_update B f (s0, buffer, 0) data) data"
proof -
  have lt: "length data mod B < B"
    using B_pos by simp
  have "length data mod B = 0" if "drop (length data div B * B) data = []"
    using that length_tail [of data] by simp
  with assms lt length_tail [of data] show ?thesis
    by (auto simp: update_empty_eq absorbed_def Let_def copy_into_def
        simp del: drop_eq_Nil drop_eq_Nil2)
qed

text \<open>An aligned prefix can be absorbed first.\<close>

lemma absorbed_prefix:
  assumes "absorbed B f (foldl f s0 (chunks_exact B xs)) st ys" "length xs mod B = 0"
  shows "absorbed B f s0 st (xs @ ys)"
proof -
  have len: "length xs = length xs div B * B"
    using assms(2) by (metis add.right_neutral div_mult_mod_eq)
  have "(length xs + length ys) mod B = length ys mod B"
    using assms(2) by (metis add_0 mod_add_left_eq)
  moreover have "(length xs + length ys) div B * B = length xs + length ys div B * B"
    using assms(2) len by (metis add_mult_distrib div_add dvd_eq_mod_eq_0 mod_0_imp_dvd
        add.commute div_plus_div_distrib_dvd_left)
  ultimately show ?thesis
    using assms by (auto simp: absorbed_def chunks_exact_append [OF B_pos])
qed

text \<open>Filling up a partial buffer: either it stays partial, or one block completes.\<close>

lemma update_partial:
  assumes "0 < n" "n < B" "length data < B - n"
  shows "stream_update B f (s, buffer, n) data = (s, copy_into buffer n data, n + length data)"
  using assms by (simp add: stream_defs Let_def)

lemma update_complete:
  assumes "0 < n" "n < B" "B - n \<le> length data"
  shows "stream_update B f (s, buffer, n) data =
    stream_update B f
      (f s (copy_into buffer n (take (B - n) data)), copy_into buffer n (take (B - n) data), 0)
      (drop (B - n) data)"
  using assms by (simp add: stream_defs Let_def min_def)

lemma absorbed_partial:
  assumes "absorbed B f s0 (s, buffer, n) xs" "length ys < B - n"
  shows "absorbed B f s0 (s, copy_into buffer n ys, n + length ys) (xs @ ys)"
proof -
  let ?q = "take (length xs div B * B) xs" and ?t = "drop (length xs div B * B) xs"
  have n: "n = length xs mod B" and buf: "length buffer = B" "take n buffer = ?t"
    and s: "s = foldl f s0 (chunks_exact B xs)"
    using assms(1) by (auto simp: absorbed_def)
  have e: "length xs + length ys = (n + length ys) + length xs div B * B"
    by (simp add: n)
  have m: "(length xs + length ys) mod B = n + length ys"
    unfolding e using assms(2) by simp
  have d: "(length xs + length ys) div B = length xs div B"
    unfolding e using assms(2) B_pos by simp
  have "chunks_exact B (?q @ (?t @ ys)) = chunks_exact B ?q"
    using chunks_exact_append [OF B_pos, of ?q "?t @ ys"] assms(2) n length_tail [of xs]
    by simp
  then have "chunks_exact B (xs @ ys) = chunks_exact B xs"
    using chunks_exact_take [OF B_pos, of xs] by (simp add: append_assoc [symmetric])
  with m d s buf assms(2) take_copy_into [of n ys buffer] show ?thesis
    by (simp add: absorbed_def)
qed

theorem absorbed_update:
  assumes "absorbed B f s0 st xs"
  shows "absorbed B f s0 (stream_update B f st ys) (xs @ ys)"
proof -
  obtain s buffer n where st: "st = (s, buffer, n)" by (cases st)
  have n: "n = length xs mod B" and buf: "length buffer = B" "take n buffer = drop (length xs div B * B) xs"
    and s: "s = foldl f s0 (chunks_exact B xs)"
    using assms by (auto simp: absorbed_def st)
  have nB: "n < B" using B_pos by (simp add: n)
  consider "n = 0" | "0 < n" "length ys < B - n" | "0 < n" "B - n \<le> length ys" by linarith
  then show ?thesis
  proof cases
    case 1
    with n have al: "length xs mod B = 0" by simp
    show ?thesis
      unfolding st 1 s by (rule absorbed_prefix [OF absorbed_update_empty [OF buf(1)] al])
  next
    case 2
    then show ?thesis
      using absorbed_partial [OF assms [unfolded st]] by (simp add: st update_partial nB)
  next
    case 3
    let ?b = "copy_into buffer n (take (B - n) ys)" and ?z = "xs @ take (B - n) ys"
    have b: "?b = drop (length xs div B * B) xs @ take (B - n) ys"
      using buf nB 3 by (simp add: copy_into_def)
    have b2: "length ?b = B"
      using buf(1) nB 3 by (simp add: copy_into_def)
    have q: "length (take (length xs div B * B) xs) mod B = 0" by simp
    have "chunks_exact B ?z = chunks_exact B (take (length xs div B * B) xs @ ?b)"
      unfolding b append_assoc [symmetric] append_take_drop_id ..
    also have "\<dots> = chunks_exact B xs @ [?b]"
      using chunks_exact_append [OF B_pos q, of ?b] chunks_exact_take [OF B_pos, of xs]
        chunks_exact_single [of ?b] b2 B_pos by simp
    finally have fz: "f s ?b = foldl f s0 (chunks_exact B ?z)"
      by (simp add: s)
    have e: "length xs = length xs div B * B + n"
      by (simp add: n)
    have "length ?z = length xs + (B - n)"
      using 3 by simp
    then have "length ?z = length xs div B * B + B"
      using e nB by linarith
    then have al: "length ?z mod B = 0" by simp
    have "absorbed B f s0 (stream_update B f (f s ?b, ?b, 0) (drop (B - n) ys)) (?z @ drop (B - n) ys)"
      by (rule absorbed_prefix [OF _ al]) (simp only: fz [symmetric] absorbed_update_empty b2)
    then show ?thesis
      by (simp add: st update_complete [OF 3(1) nB 3(2)])
  qed
qed

text \<open>Any way of cutting the input into updates leads to the same state.\<close>

lemma absorbed_updates:
  assumes "absorbed B f s0 st xs"
  shows "absorbed B f s0 (foldl (stream_update B f) st ds) (xs @ concat ds)"
  using assms
proof (induction ds arbitrary: st xs)
  case (Cons d ds)
  from Cons.IH [OF absorbed_update [OF Cons.prems]] show ?case by simp
qed simp

text \<open>
  The padding loop of \<open>finalize\<close>: zero bytes are absorbed one at a time until the buffer
  holds \<open>T\<close> bytes. It stops, after exactly the number of zero bytes that reaches \<open>T\<close>.
\<close>

lemma pad_distance:
  "n < B \<Longrightarrow> T < B \<Longrightarrow> (B + T - n) mod B = (if n \<le> T then T - n else B + T - n)"
  using mod_add_self1 [of B "T - n"] by (cases "n \<le> T") simp_all

lemma pad_reaches:
  assumes "T < B"
  shows "(n + (B + T - n mod B) mod B) mod B = T"
proof -
  have n: "n mod B < B" using B_pos by simp
  have "(n + (B + T - n mod B) mod B) mod B = (n mod B + (B + T - n mod B) mod B) mod B"
    by (simp add: mod_add_left_eq)
  also have "\<dots> = T"
  proof (cases "n mod B \<le> T")
    case True
    with assms show ?thesis by (simp add: pad_distance [OF n assms])
  next
    case False
    have "n mod B + (B + T - n mod B) = B + T" using n by simp
    with False assms show ?thesis by (simp only: pad_distance [OF n assms] if_False) simp
  qed
  finally show ?thesis .
qed

lemma pad_distance_step:
  assumes "n < B" "T < B" "n \<noteq> T"
  shows "(B + T - n) mod B = Suc ((B + T - Suc n mod B) mod B)"
proof (cases "Suc n = B")
  case True
  then show ?thesis
    using assms pad_distance [OF assms(1,2)] pad_distance [OF B_pos assms(2)] by simp
next
  case False
  then have "Suc n < B" using assms by simp
  then show ?thesis
    using assms pad_distance [OF assms(1,2)] pad_distance [of "Suc n" T] by (simp split: if_splits)
qed

lemma pad_loop:
  fixes proj :: "'h \<Rightarrow> 's \<times> bytes \<times> nat" and step :: "'h \<Rightarrow> 'h"
  assumes proj: "\<And>h ys. absorbed B f s0 (proj h) ys \<Longrightarrow> proj (step h) = stream_update B f (proj h) [0]"
    and T: "T < B"
  shows "absorbed B f s0 (proj h) xs \<Longrightarrow>
    \<exists>h'. while_option (\<lambda>h. snd (snd (proj h)) \<noteq> T) step h = Some h' \<and>
      absorbed B f s0 (proj h') (xs @ replicate ((B + T - length xs mod B) mod B) 0)"
proof (induction "(B + T - length xs mod B) mod B" arbitrary: h xs)
  case 0
  have "length xs mod B < B" using B_pos by simp
  then have "length xs mod B = T"
    using "0.hyps" pad_distance_step [OF _ T, of "length xs mod B"] by fastforce
  then have "snd (snd (proj h)) = T"
    using "0.prems" by (auto simp: absorbed_def split: prod.splits)
  with 0 show ?case by (auto simp: while_option_unfold)
next
  case (Suc d)
  let ?n = "length xs mod B"
  have n: "?n < B" using B_pos by simp
  have ne: "?n \<noteq> T" using Suc.hyps(2) by auto
  have buf: "snd (snd (proj h)) = ?n"
    using Suc.prems by (auto simp: absorbed_def split: prod.splits)
  have dist: "(B + T - ?n) mod B = Suc ((B + T - Suc (length xs) mod B) mod B)"
    using pad_distance_step [OF n T ne] by (simp add: mod_Suc_eq)
  have "absorbed B f s0 (proj (step h)) (xs @ [0])"
    unfolding proj [OF Suc.prems] by (rule absorbed_update [OF Suc.prems])
  moreover have "d = (B + T - length (xs @ [0]) mod B) mod B"
    using dist Suc.hyps(2) by simp
  ultimately obtain h' where
    "while_option (\<lambda>h. snd (snd (proj h)) \<noteq> T) step (step h) = Some h'"
    "absorbed B f s0 (proj h') ((xs @ [0]) @ replicate d 0)"
    using Suc.hyps(1) [of "xs @ [0]" "step h"] by auto
  then show ?case
    using buf ne Suc.hyps(2) [symmetric] by (auto simp: while_option_unfold [of _ step h])
qed

end

end
