(* ===== verification/MachineInts.thy ===== *)
theory MachineInts
  imports Prelude
begin

text \<open>
  Reading 64- and 128-bit arithmetic as arithmetic on naturals: casts, shifts, masks, and sums
  and products that are shown not to wrap. The limb code of Poly1305 and of the field and scalar
  modules is verified through these equations.
\<close>

text \<open>\<open>u128::from(x)\<close> and \<open>t as u64\<close>.\<close>

abbreviation low64 :: "u128 \<Rightarrow> u64" where "low64 t \<equiv> ucast t"
abbreviation wide :: "u64 \<Rightarrow> u128" where "wide x \<equiv> ucast x"

abbreviation B64 :: nat where "B64 \<equiv> 18446744073709551616"
abbreviation B128 :: nat where "B128 \<equiv> 340282366920938463463374607431768211456"

lemma unat_wide [simp]: "unat (wide a) = unat a"
  using unat_bounds(4) [of a] by (simp add: unsigned_ucast_eq take_bit_nat_eq_self)

lemma unat_low64: "unat (low64 t) = unat t mod B64"
  by (simp add: unsigned_ucast_eq take_bit_eq_mod)

lemma unat_high64: "unat (drop_bit 64 (t :: u128)) = unat t div B64"
  using unat_drop_bit_eq [of 64 t] by (simp add: drop_bit_eq_div [of 64 "unat t"])

lemma unat_u128: "unat (t :: u128) < B128"
  by (rule order_less_le_trans [OF unsigned_less]) simp

lemma unat_add128: "unat a + unat b < B128 \<Longrightarrow> unat (a + b :: u128) = unat a + unat b"
  by (simp add: unat_word_ariths)

lemma unat_mul128: "unat a * unat b < B128 \<Longrightarrow> unat (a * b :: u128) = unat a * unat b"
  by (simp add: unat_word_ariths)

lemma unat_add64: "unat a + unat b < B64 \<Longrightarrow> unat (a + b :: u64) = unat a + unat b"
  by (simp add: unat_word_ariths)

lemma unat_mul64: "unat a * unat b < B64 \<Longrightarrow> unat (a * b :: u64) = unat a * unat b"
  by (simp add: unat_word_ariths)

lemma unat_add3_64: "unat (a + b + c :: u64) = (unat a + unat b + unat c) mod B64"
  by (simp add: unat_word_ariths mod_add_left_eq)

lemma power_numeral_B64: "(2 :: nat) ^ 64 = B64"
  by simp

text \<open>Products of bounded factors.\<close>

lemma mult_bound: "(a :: nat) \<le> x \<Longrightarrow> b \<le> y \<Longrightarrow> a * b \<le> x * y"
  by (rule mult_le_mono)

lemma unat_wide_mul: "unat (wide a * wide b) = unat a * unat b"
proof -
  have "unat a * unat b \<le> 18446744073709551615 * 18446744073709551615"
    using unat_bounds(4) [of a] unat_bounds(4) [of b] by (intro mult_bound) simp_all
  then show ?thesis by (simp add: unat_mul128)
qed

text \<open>Shifts and masks of a \<open>u64\<close>.\<close>

lemma unat_shr: "unat (drop_bit k (w :: u64)) = unat w div 2 ^ k"
  using unat_drop_bit_eq [of k w] by (simp add: drop_bit_eq_div [of k "unat w"])

lemma unat_and_mask: "unat (w AND mask k :: u64) = unat w mod 2 ^ k"
  by (simp add: take_bit_eq_mask [symmetric] unsigned_take_bit_eq) (simp add: take_bit_eq_mod)

lemma unat_and_not_mask:
  assumes "k \<le> 64"
  shows "unat (w AND NOT (mask k) :: u64) = 2 ^ k * (unat w div 2 ^ k)"
proof -
  have "w AND NOT (mask k) = push_bit k (drop_bit k w)"
    by (rule bit_word_eqI) (auto simp: bit_simps)
  then have "unat (w AND NOT (mask k)) = take_bit 64 (push_bit k (unat (drop_bit k w)))"
    by (simp add: unsigned_push_bit_eq)
  also have "\<dots> = push_bit k (unat (drop_bit k w)) mod 2 ^ 64"
    by (simp only: take_bit_eq_mod)
  also have "\<dots> = (2 ^ k * (unat w div 2 ^ k)) mod 2 ^ 64"
    by (simp only: push_bit_eq_mult unat_shr mult.commute)
  also have "\<dots> = 2 ^ k * (unat w div 2 ^ k)"
  proof (rule mod_less)
    have "2 ^ k * (unat w div 2 ^ k) \<le> unat w" by simp
    then show "2 ^ k * (unat w div 2 ^ k) < 2 ^ 64"
      using unat_bounds(4) [of w] by (simp only: power_numeral_B64)
  qed
  finally show ?thesis .
qed

lemma unat_and_3: "unat (w AND 3 :: u64) = unat w mod 4"
  using unat_and_mask [of w 2] by (simp add: mask_eq_exp_minus_1)

lemma unat_and_not_3: "unat (w AND NOT 3 :: u64) = 4 * (unat w div 4)"
  using unat_and_not_mask [of 2 w] by (simp add: mask_eq_exp_minus_1)

lemma unat_and_m4: "unat (w AND - 4 :: u64) = 4 * (unat w div 4)"
  using unat_and_not_3 [of w] by simp

text \<open>Selection by an all-ones or all-zeros mask.\<close>

lemma select_mask:
  "(a AND NOT (- 1)) OR (b AND - 1) = (b :: u64)" "(a AND NOT 0) OR (b AND 0) = (a :: u64)"
  by simp_all

end
