(* ===== verification/Fips180.thy ===== *)
theory Fips180
  imports Prelude
begin

text \<open>
  The SHA-2 compression functions as FIPS 180-4 describes them: the constants from the fractional
  parts of the square and cube roots of the first eighty primes (sections 4.2.2, 4.2.3, 5.3.3, 5.3.5), the
  logical functions (4.1.2, 4.1.3), the message schedule as a recursion and the rounds (6.2.2,
  6.4.2). This is a specification, written from the standard.
\<close>

section \<open>Constants\<close>

definition first_primes :: "nat list" where
  "first_primes = [
    2, 3, 5, 7, 11, 13, 17, 19, 23, 29, 31, 37, 41, 43, 47, 53, 59, 61, 67, 71,
    73, 79, 83, 89, 97, 101, 103, 107, 109, 113, 127, 131, 137, 139, 149, 151, 157, 163, 167, 173,
    179, 181, 191, 193, 197, 199, 211, 223, 227, 229, 233, 239, 241, 251, 257, 263, 269, 271, 277, 281,
    283, 293, 307, 311, 313, 317, 331, 337, 347, 349, 353, 359, 367, 373, 379, 383, 389, 397, 401, 409]"

text \<open>The integer part of the \<open>k\<close>-th root of \<open>n\<close>.\<close>

definition floor_root :: "nat \<Rightarrow> nat \<Rightarrow> nat" where
  "floor_root k n = (GREATEST r. r ^ k \<le> n)"

text \<open>The first \<open>bits\<close> bits of the fractional part of the \<open>k\<close>-th root of \<open>p\<close>.\<close>

definition root_fraction :: "nat \<Rightarrow> nat \<Rightarrow> nat \<Rightarrow> nat" where
  "root_fraction k bits p = floor_root k (p * 2 ^ (k * bits)) mod 2 ^ bits"

definition fips_K256 :: "nat \<Rightarrow> u32" where
  "fips_K256 t = of_nat (root_fraction 3 32 (first_primes ! t))"

definition fips_K512 :: "nat \<Rightarrow> u64" where
  "fips_K512 t = of_nat (root_fraction 3 64 (first_primes ! t))"

definition fips_IV256 :: "nat \<Rightarrow> u32" where
  "fips_IV256 i = of_nat (root_fraction 2 32 (first_primes ! i))"

definition fips_IV512 :: "nat \<Rightarrow> u64" where
  "fips_IV512 i = of_nat (root_fraction 2 64 (first_primes ! i))"

lemma floor_rootI: "r ^ k \<le> n \<Longrightarrow> n < Suc r ^ k \<Longrightarrow> floor_root k n = r"
  unfolding floor_root_def
proof (rule Greatest_equality)
  fix y
  assume "n < Suc r ^ k" "y ^ k \<le> n"
  then have "y ^ k < Suc r ^ k" by simp
  then show "y \<le> r" using power_less_imp_less_base [of y k "Suc r"] by simp
qed

text \<open>A table is checked entry by entry, with the integer parts of the roots as certificates.\<close>

definition roots_ok :: "nat \<Rightarrow> nat \<Rightarrow> int list \<Rightarrow> int list \<Rightarrow> int list \<Rightarrow> bool" where
  "roots_ok k bits ps is xs \<longleftrightarrow> length is = length ps \<and> length xs = length ps \<and>
    list_all (\<lambda>(p, i, x). 0 \<le> p \<and> 0 \<le> i \<and> 0 \<le> x \<and> x < 2 ^ bits \<and> (i * 2 ^ bits + x) ^ k \<le> p * 2 ^ (k * bits) \<and>
      p * 2 ^ (k * bits) < (i * 2 ^ bits + x + 1) ^ k) (zip ps (zip is xs))"

lemma root_entry:
  assumes "0 \<le> x" "x < 2 ^ bits" "0 \<le> i" "(i * 2 ^ bits + x) ^ k \<le> int p * 2 ^ (k * bits)"
    "int p * 2 ^ (k * bits) < (i * 2 ^ bits + x + 1) ^ k"
  shows "root_fraction k bits p = nat x"
proof -
  define r where "r = nat i * 2 ^ bits + nat x"
  have r: "int r = i * 2 ^ bits + x" using assms(1,3) by (simp add: r_def)
  have "int (r ^ k) \<le> int (p * 2 ^ (k * bits))" "int (p * 2 ^ (k * bits)) < int (Suc r ^ k)"
    using assms(4,5) by (simp_all add: r add.commute)
  then have "floor_root k (p * 2 ^ (k * bits)) = r"
    by (intro floor_rootI) (simp_all only: of_nat_le_iff of_nat_less_iff)
  moreover have "nat x < 2 ^ bits" using assms(1,2) by (simp add: nat_less_iff)
  ultimately show ?thesis by (simp add: root_fraction_def r_def)
qed

lemma roots_ok_nth:
  assumes "roots_ok k bits (map int ps) is xs" and "t < length ps"
  shows "root_fraction k bits (ps ! t) = nat (xs ! t)"
proof -
  have "(map int ps ! t, is ! t, xs ! t) \<in> set (zip (map int ps) (zip is xs))"
    using assms by (auto simp: roots_ok_def in_set_conv_nth intro!: exI [of _ t])
  then show ?thesis
    using assms by (intro root_entry [of _ _ "is ! t"]) (auto simp: roots_ok_def list_all_iff)
qed

lemma table_entry:
  fixes xs :: "'a :: len word list"
  assumes "roots_ok k bits (map int (take n first_primes)) is (map uint xs)" and "t < n" and "n \<le> 80"
  shows "of_nat (root_fraction k bits (first_primes ! t)) = xs ! t"
proof -
  have t: "t < length (take n first_primes)" using assms(2,3) by (simp add: first_primes_def)
  then have "t < length xs" using assms(1) by (simp add: roots_ok_def)
  then have "root_fraction k bits (first_primes ! t) = unat (xs ! t)"
    using roots_ok_nth [OF assms(1) t] assms(2) by simp
  then show ?thesis by simp
qed

lemma eight_indices: "[0..<8] = [0, 1, 2, 3, 4, 5, 6, 7]"
  by (simp add: upt_rec numeral_eq_Suc)

section \<open>SHA-256\<close>

definition fips_Ch :: "'a :: len word \<Rightarrow> 'a word \<Rightarrow> 'a word \<Rightarrow> 'a word" where
  "fips_Ch x y z = (x AND y) XOR (NOT x AND z)"

definition fips_Maj :: "'a :: len word \<Rightarrow> 'a word \<Rightarrow> 'a word \<Rightarrow> 'a word" where
  "fips_Maj x y z = (x AND y) XOR (x AND z) XOR (y AND z)"

definition fips_Sigma0_256 :: "u32 \<Rightarrow> u32" where
  "fips_Sigma0_256 x = word_rotr 2 x XOR word_rotr 13 x XOR word_rotr 22 x"

definition fips_Sigma1_256 :: "u32 \<Rightarrow> u32" where
  "fips_Sigma1_256 x = word_rotr 6 x XOR word_rotr 11 x XOR word_rotr 25 x"

definition fips_sigma0_256 :: "u32 \<Rightarrow> u32" where
  "fips_sigma0_256 x = word_rotr 7 x XOR word_rotr 18 x XOR drop_bit 3 x"

definition fips_sigma1_256 :: "u32 \<Rightarrow> u32" where
  "fips_sigma1_256 x = word_rotr 17 x XOR word_rotr 19 x XOR drop_bit 10 x"

fun fips_W256 :: "(nat \<Rightarrow> u32) \<Rightarrow> nat \<Rightarrow> u32" where
  "fips_W256 m t =
    (if t < 16 then m t
     else fips_sigma1_256 (fips_W256 m (t - 2)) + fips_W256 m (t - 7) +
       fips_sigma0_256 (fips_W256 m (t - 15)) + fips_W256 m (t - 16))"

text \<open>The working variables \<open>a, \<dots>, h\<close> after \<open>t\<close> rounds.\<close>

primrec fips_vars256 :: "(nat \<Rightarrow> u32) \<Rightarrow> (nat \<Rightarrow> u32) \<Rightarrow> nat \<Rightarrow> u32 \<times> u32 \<times> u32 \<times> u32 \<times> u32 \<times> u32 \<times> u32 \<times> u32" where
  "fips_vars256 W H 0 = (H 0, H 1, H 2, H 3, H 4, H 5, H 6, H 7)"
| "fips_vars256 W H (Suc t) =
    (case fips_vars256 W H t of (a, b, c, d, e, f, g, h) \<Rightarrow>
      let T1 = h + fips_Sigma1_256 e + fips_Ch e f g + fips_K256 t + W t;
          T2 = fips_Sigma0_256 a + fips_Maj a b c
      in (T1 + T2, a, b, c, d + T1, e, f, g))"

definition fips_compress256 :: "u32 list \<Rightarrow> bytes \<Rightarrow> u32 list" where
  "fips_compress256 H block =
    (let W = fips_W256 (\<lambda>t. u32_from_be (take 4 (drop (4 * t) block)))
     in case fips_vars256 W (\<lambda>i. H ! i) 64 of (a, b, c, d, e, f, g, h) \<Rightarrow>
       map (\<lambda>(i, v). v + H ! i) (zip [0..<8] [a, b, c, d, e, f, g, h]))"

section \<open>SHA-512\<close>

definition fips_Sigma0_512 :: "u64 \<Rightarrow> u64" where
  "fips_Sigma0_512 x = word_rotr 28 x XOR word_rotr 34 x XOR word_rotr 39 x"

definition fips_Sigma1_512 :: "u64 \<Rightarrow> u64" where
  "fips_Sigma1_512 x = word_rotr 14 x XOR word_rotr 18 x XOR word_rotr 41 x"

definition fips_sigma0_512 :: "u64 \<Rightarrow> u64" where
  "fips_sigma0_512 x = word_rotr 1 x XOR word_rotr 8 x XOR drop_bit 7 x"

definition fips_sigma1_512 :: "u64 \<Rightarrow> u64" where
  "fips_sigma1_512 x = word_rotr 19 x XOR word_rotr 61 x XOR drop_bit 6 x"

fun fips_W512 :: "(nat \<Rightarrow> u64) \<Rightarrow> nat \<Rightarrow> u64" where
  "fips_W512 m t =
    (if t < 16 then m t
     else fips_sigma1_512 (fips_W512 m (t - 2)) + fips_W512 m (t - 7) +
       fips_sigma0_512 (fips_W512 m (t - 15)) + fips_W512 m (t - 16))"

primrec fips_vars512 :: "(nat \<Rightarrow> u64) \<Rightarrow> (nat \<Rightarrow> u64) \<Rightarrow> nat \<Rightarrow> u64 \<times> u64 \<times> u64 \<times> u64 \<times> u64 \<times> u64 \<times> u64 \<times> u64" where
  "fips_vars512 W H 0 = (H 0, H 1, H 2, H 3, H 4, H 5, H 6, H 7)"
| "fips_vars512 W H (Suc t) =
    (case fips_vars512 W H t of (a, b, c, d, e, f, g, h) \<Rightarrow>
      let T1 = h + fips_Sigma1_512 e + fips_Ch e f g + fips_K512 t + W t;
          T2 = fips_Sigma0_512 a + fips_Maj a b c
      in (T1 + T2, a, b, c, d + T1, e, f, g))"

definition fips_compress512 :: "u64 list \<Rightarrow> bytes \<Rightarrow> u64 list" where
  "fips_compress512 H block =
    (let W = fips_W512 (\<lambda>t. u64_from_be (take 8 (drop (8 * t) block)))
     in case fips_vars512 W (\<lambda>i. H ! i) 80 of (a, b, c, d, e, f, g, h) \<Rightarrow>
       map (\<lambda>(i, v). v + H ! i) (zip [0..<8] [a, b, c, d, e, f, g, h]))"

declare fips_W256.simps [simp del] fips_W512.simps [simp del]

end
