(* ===== verification/Sha2.thy ===== *)
theory Sha2
  imports BlockStream Fips180
begin

text \<open>
  SHA-256 and SHA-512, the portable paths of crates/blindplane-crypto/src/sha2/sha256/mod.rs and
  sha2/sha512/mod.rs: message schedule, compression function, the streaming hasher structs
  and their \<open>update\<close> and \<open>finalize\<close>. The schedule and the rounds are shown to
  be the compression functions of the standard (theory Fips180), and the theorems reduce the streaming
  interface to its one-shot padding. The ARMv8 paths (sha256/arm.rs, sha512/arm.rs) are
  intrinsics and are not modelled.
\<close>

section \<open>SHA-256\<close>

definition K256 :: "u32 list" where
  "K256 = concat [
    [0x428a2f98, 0x71374491, 0xb5c0fbcf, 0xe9b5dba5],
    [0x3956c25b, 0x59f111f1, 0x923f82a4, 0xab1c5ed5],
    [0xd807aa98, 0x12835b01, 0x243185be, 0x550c7dc3],
    [0x72be5d74, 0x80deb1fe, 0x9bdc06a7, 0xc19bf174],
    [0xe49b69c1, 0xefbe4786, 0x0fc19dc6, 0x240ca1cc],
    [0x2de92c6f, 0x4a7484aa, 0x5cb0a9dc, 0x76f988da],
    [0x983e5152, 0xa831c66d, 0xb00327c8, 0xbf597fc7],
    [0xc6e00bf3, 0xd5a79147, 0x06ca6351, 0x14292967],
    [0x27b70a85, 0x2e1b2138, 0x4d2c6dfc, 0x53380d13],
    [0x650a7354, 0x766a0abb, 0x81c2c92e, 0x92722c85],
    [0xa2bfe8a1, 0xa81a664b, 0xc24b8b70, 0xc76c51a3],
    [0xd192e819, 0xd6990624, 0xf40e3585, 0x106aa070],
    [0x19a4c116, 0x1e376c08, 0x2748774c, 0x34b0bcb5],
    [0x391c0cb3, 0x4ed8aa4a, 0x5b9cca4f, 0x682e6ff3],
    [0x748f82ee, 0x78a5636f, 0x84c87814, 0x8cc70208],
    [0x90befffa, 0xa4506ceb, 0xbef9a3f7, 0xc67178f2]]"

definition H256 :: "u32 list" where
  "H256 = [
    0x6a09e667, 0xbb67ae85, 0x3c6ef372, 0xa54ff53a,
    0x510e527f, 0x9b05688c, 0x1f83d9ab, 0x5be0cd19]"

text \<open>The message schedule: sixteen words of the block, extended in place to 64.\<close>

definition schedule256_step :: "u32 list \<Rightarrow> nat \<Rightarrow> u32 list" where
  "schedule256_step w i =
    (let x = w ! (i - 15); y = w ! (i - 2);
         s0 = word_rotr 7 x XOR word_rotr 18 x XOR drop_bit 3 x;
         s1 = word_rotr 17 y XOR word_rotr 19 y XOR drop_bit 10 y
     in w[i := w ! (i - 16) + s0 + w ! (i - 7) + s1])"

definition schedule256 :: "bytes \<Rightarrow> u32 list" where
  "schedule256 block =
    foldl schedule256_step
      (map (\<lambda>i. u32_from_be (take 4 (drop (i * 4) block))) [0..<16] @ replicate 48 0)
      [16..<64]"

type_synonym vars256 = "u32 \<times> u32 \<times> u32 \<times> u32 \<times> u32 \<times> u32 \<times> u32 \<times> u32"

definition round256 :: "u32 list \<Rightarrow> vars256 \<Rightarrow> nat \<Rightarrow> vars256" where
  "round256 w v i =
    (case v of (a, b, c, d, e, f, g, h) \<Rightarrow>
      let s1 = word_rotr 6 e XOR word_rotr 11 e XOR word_rotr 25 e;
          ch = (e AND f) XOR (NOT e AND g);
          t1 = h + s1 + ch + K256 ! i + w ! i;
          s0 = word_rotr 2 a XOR word_rotr 13 a XOR word_rotr 22 a;
          maj = (a AND b) XOR (a AND c) XOR (b AND c);
          t2 = s0 + maj
      in (t1 + t2, a, b, c, d + t1, e, f, g))"

definition compress256 :: "u32 list \<Rightarrow> bytes \<Rightarrow> u32 list" where
  "compress256 st block =
    (case foldl (round256 (schedule256 block))
        (st ! 0, st ! 1, st ! 2, st ! 3, st ! 4, st ! 5, st ! 6, st ! 7) [0..<64] of
      (a, b, c, d, e, f, g, h) \<Rightarrow>
        [st ! 0 + a, st ! 1 + b, st ! 2 + c, st ! 3 + d,
         st ! 4 + e, st ! 5 + f, st ! 6 + g, st ! 7 + h])"

section \<open>The compression function of SHA-256 and the standard\<close>

text \<open>The tables are the fractional parts of the roots of the first primes.\<close>

lemma K256_roots: "roots_ok 3 32 (map int (take 64 first_primes))
    [1, 1, 1, 1, 2, 2, 2, 2, 2, 3, 3, 3, 3, 3, 3, 3, 3, 3, 4, 4,
      4, 4, 4, 4, 4, 4, 4, 4, 4, 4, 5, 5, 5, 5, 5, 5, 5, 5, 5, 5,
      5, 5, 5, 5, 5, 5, 5, 6, 6, 6, 6, 6, 6, 6, 6, 6, 6, 6, 6, 6,
      6, 6, 6, 6]
    (map uint K256)"
  by code_simp

lemma K256_fips: "t < 64 \<Longrightarrow> K256 ! t = fips_K256 t"
  using table_entry [OF K256_roots] by (simp add: fips_K256_def)

lemma H256_roots: "roots_ok 2 32 (map int (take 8 first_primes)) [1, 1, 2, 2, 3, 3, 4, 4] (map uint H256)"
  by code_simp

lemma H256_nth: "i < 8 \<Longrightarrow> H256 ! i = fips_IV256 i"
  using table_entry [OF H256_roots] by (simp add: fips_IV256_def)

lemma H256_fips: "map fips_IV256 [0..<8] = H256"
  by (rule nth_equalityI) (simp_all add: H256_nth, simp add: H256_def)

text \<open>The array of the message schedule holds the recursively defined words.\<close>

lemma schedule256_prefix:
  fixes m :: "nat \<Rightarrow> u32"
  assumes "n \<le> 48"
  defines "w \<equiv> \<lambda>n. foldl schedule256_step (map m [0..<16] @ replicate 48 0) [16..<16 + n]"
  shows "length (w n) = 64 \<and> (\<forall>t < 16 + n. w n ! t = fips_W256 m t)"
  using assms(1)
proof (induction n)
  case 0
  then show ?case by (simp add: w_def nth_append fips_W256.simps)
next
  case (Suc n)
  then have IH: "length (w n) = 64" "\<And>t. t < 16 + n \<Longrightarrow> w n ! t = fips_W256 m t" by simp_all
  have "w (Suc n) = schedule256_step (w n) (16 + n)" unfolding w_def using upt_Suc_append [of 16 "16 + n"] by simp
  also have "\<dots> = (w n)[16 + n := fips_W256 m (16 + n)]"
  proof -
    have old: "w n ! (16 + n - 15) = fips_W256 m (16 + n - 15)" "w n ! (16 + n - 2) = fips_W256 m (16 + n - 2)"
        "w n ! (16 + n - 16) = fips_W256 m (16 + n - 16)" "w n ! (16 + n - 7) = fips_W256 m (16 + n - 7)"
      by (rule IH(2), simp)+
    have big: "\<not> 16 + n < 16" by simp
    have "fips_W256 m (16 + n) = fips_W256 m (16 + n - 16) + fips_sigma0_256 (fips_W256 m (16 + n - 15)) +
        fips_W256 m (16 + n - 7) + fips_sigma1_256 (fips_W256 m (16 + n - 2))"
      unfolding fips_W256.simps [of m "16 + n"] if_not_P [OF big] by (simp only: add_ac)
    then show ?thesis
      unfolding schedule256_step_def Let_def old by (simp only: fips_sigma0_256_def fips_sigma1_256_def)
  qed
  finally have "w (Suc n) = (w n)[16 + n := fips_W256 m (16 + n)]" .
  then show ?case using IH Suc.prems by (auto simp: nth_list_update less_Suc_eq)
qed

lemma schedule256_fips:
  "t < 64 \<Longrightarrow> schedule256 block ! t = fips_W256 (\<lambda>t. u32_from_be (take 4 (drop (4 * t) block))) t"
  using schedule256_prefix [of 48 "\<lambda>t. u32_from_be (take 4 (drop (4 * t) block))"]
  by (simp add: schedule256_def mult.commute)

lemma rounds256_fips:
  assumes "\<And>t. t < 64 \<Longrightarrow> w ! t = W t"
  shows "n \<le> 64 \<Longrightarrow> foldl (round256 w) (st ! 0, st ! 1, st ! 2, st ! 3, st ! 4, st ! 5, st ! 6, st ! 7) [0..<n] =
    fips_vars256 W ((!) st) n"
proof (induction n)
  case (Suc n)
  then show ?case
    by (auto simp: round256_def assms K256_fips fips_Sigma0_256_def fips_Sigma1_256_def fips_Ch_def fips_Maj_def Let_def
        split: prod.split)
qed simp

lemma compress256_fips: "compress256 = fips_compress256"
proof (intro ext)
  fix st block
  show "compress256 st block = fips_compress256 st block"
    unfolding compress256_def fips_compress256_def Let_def
    by (subst rounds256_fips [OF schedule256_fips])
      (simp_all add: eight_indices add.commute split: prod.split)
qed

section \<open>SHA-256 in pieces\<close>

text \<open>The portable body of the block loop.\<close>

definition compress256_blocks :: "u32 list \<Rightarrow> bytes \<Rightarrow> u32 list" where
  "compress256_blocks st data = foldl compress256 st (chunks_exact 64 data)"

record sha256 =
  s256_state :: "u32 list"
  s256_buffer :: bytes
  s256_buffered :: nat
  s256_length :: "u64"

definition sha256_new :: sha256 where
  "sha256_new = \<lparr>s256_state = H256, s256_buffer = replicate 64 0, s256_buffered = 0, s256_length = 0\<rparr>"

text \<open>\<open>update\<close>: top up a partial buffer, then whole blocks, then keep the tail.\<close>

definition sha256_fill :: "sha256 \<Rightarrow> bytes \<Rightarrow> sha256 \<times> bytes" where
  "sha256_fill h data =
    (if 0 < s256_buffered h then
       let tk = min (64 - s256_buffered h) (length data);
           h = h\<lparr>s256_buffer := copy_into (s256_buffer h) (s256_buffered h) (take tk data),
                  s256_buffered := s256_buffered h + tk\<rparr>;
           data = drop tk data
       in (if s256_buffered h = 64
           then (h\<lparr>s256_state := compress256_blocks (s256_state h) (s256_buffer h), s256_buffered := 0\<rparr>, data)
           else (h, data))
     else (h, data))"

definition sha256_update :: "sha256 \<Rightarrow> bytes \<Rightarrow> sha256" where
  "sha256_update h data =
    (let h = h\<lparr>s256_length := s256_length h + of_nat (length data)\<rparr>;
         (h, data) = sha256_fill h data;
         full = length data div 64 * 64;
         (h, data) = (if 0 < full
            then (h\<lparr>s256_state := compress256_blocks (s256_state h) (take full data)\<rparr>, drop full data)
            else (h, data))
     in (if data \<noteq> [] then h\<lparr>s256_buffer := copy_into (s256_buffer h) 0 data, s256_buffered := length data\<rparr>
         else h))"

text \<open>\<open>finalize\<close>: the bit length is read first; \<open>update\<close> counts the padding bytes, which is undone.\<close>

definition sha256_pad_byte :: "sha256 \<Rightarrow> u8 \<Rightarrow> sha256" where
  "sha256_pad_byte h b =
    (let h = sha256_update h [b] in h\<lparr>s256_length := s256_length h - 1\<rparr>)"

definition sha256_finalize :: "sha256 \<Rightarrow> bytes" where
  "sha256_finalize h =
    (let bit_length = s256_length h * 8;
         h = sha256_pad_byte h 0x80;
         h = while (\<lambda>h. s256_buffered h \<noteq> 56) (\<lambda>h. sha256_pad_byte h 0) h;
         h = sha256_update h (u64_to_be bit_length)
     in concat (map u32_to_be (s256_state h)))"

definition sha256_digest :: "bytes \<Rightarrow> bytes" where
  "sha256_digest data = sha256_finalize (sha256_update sha256_new data)"

text \<open>The FIPS 180-4 hash: pad the whole message, then chain the compression function of the standard.\<close>

definition sha256_pad :: "bytes \<Rightarrow> bytes" where
  "sha256_pad m =
    m @ [0x80] @ replicate ((64 + 56 - Suc (length m) mod 64) mod 64) 0 @
    u64_to_be (of_nat (8 * length m))"

definition sha256_spec :: "bytes \<Rightarrow> bytes" where
  "sha256_spec m =
    concat (map u32_to_be (foldl fips_compress256 (map fips_IV256 [0..<8]) (chunks_exact 64 (sha256_pad m))))"

lemma sha256_spec_code:
  "sha256_spec m = concat (map u32_to_be (foldl compress256 H256 (chunks_exact 64 (sha256_pad m))))"
  by (simp only: sha256_spec_def compress256_fips H256_fips)

interpretation stream256: block_stream 64 compress256
  by unfold_locales simp

abbreviation sha256_core :: "sha256 \<Rightarrow> u32 list \<times> bytes \<times> nat" where
  "sha256_core h \<equiv> (s256_state h, s256_buffer h, s256_buffered h)"

lemma compress256_blocks_one: "length b = 64 \<Longrightarrow> compress256_blocks st b = compress256 st b"
  using chunks_exact_single [of b] by (simp add: compress256_blocks_def)

lemma sha256_fill_core:
  assumes "length (s256_buffer h) = 64" "s256_buffered h < 64"
  shows "stream_fill 64 compress256 (sha256_core h) data =
    (sha256_core (fst (sha256_fill h data)), snd (sha256_fill h data))"
proof -
  let ?b = "copy_into (s256_buffer h) (s256_buffered h) (take (64 - s256_buffered h) data)"
  have "compress256_blocks (s256_state h) ?b = compress256 (s256_state h) ?b"
    if "s256_buffered h + min (64 - s256_buffered h) (length data) = 64"
    by (rule compress256_blocks_one) (use that assms in simp)
  then show ?thesis
    by (auto simp: sha256_fill_def stream_fill_def Let_def)
qed

lemma sha256_fill_length [simp]: "s256_length (fst (sha256_fill h data)) = s256_length h"
  by (simp add: sha256_fill_def Let_def)

lemma sha256_fill_cong:
  "sha256_fill (h\<lparr>s256_length := l\<rparr>) data =
    ((fst (sha256_fill h data))\<lparr>s256_length := l\<rparr>, snd (sha256_fill h data))"
  by (simp add: sha256_fill_def Let_def)

lemma sha256_update_core:
  assumes "length (s256_buffer h) = 64" "s256_buffered h < 64"
  shows "sha256_core (sha256_update h data) = stream_update 64 compress256 (sha256_core h) data"
  by (simp add: stream_update_def sha256_fill_core [OF assms] stream_tail_def sha256_update_def
      sha256_fill_cong case_prod_beta Let_def compress256_blocks_def)

lemma sha256_update_length [simp]:
  "s256_length (sha256_update h data) = s256_length h + of_nat (length data)"
  by (simp add: sha256_update_def sha256_fill_cong case_prod_beta Let_def)

text \<open>\<open>sha256_holds h xs\<close>: the hasher has absorbed exactly the bytes \<open>xs\<close>.\<close>

definition sha256_holds :: "sha256 \<Rightarrow> bytes \<Rightarrow> bool" where
  "sha256_holds h xs \<longleftrightarrow>
    absorbed 64 compress256 H256 (sha256_core h) xs \<and> s256_length h = of_nat (length xs)"

lemma absorbed256_bounds:
  "absorbed 64 compress256 s0 (sha256_core h) xs \<Longrightarrow>
   length (s256_buffer h) = 64 \<and> s256_buffered h < 64"
  by (simp add: absorbed_def)

lemma sha256_holds_new: "sha256_holds sha256_new []"
  using stream256.absorbed_init [of "replicate 64 0"]
  by (simp add: sha256_holds_def sha256_new_def)

lemma sha256_holds_update: "sha256_holds h xs \<Longrightarrow> sha256_holds (sha256_update h ys) (xs @ ys)"
  using sha256_update_core [of h ys] stream256.absorbed_update absorbed256_bounds
  by (fastforce simp: sha256_holds_def)

lemma sha256_holds_updates:
  "sha256_holds h xs \<Longrightarrow> sha256_holds (foldl sha256_update h ds) (xs @ concat ds)"
proof (induction ds arbitrary: h xs)
  case (Cons d ds)
  from Cons.IH [OF sha256_holds_update [OF Cons.prems]] show ?case by simp
qed simp

text \<open>The padding loop stops and leaves a message whose length field fits the last block.\<close>

lemma sha256_pad_byte_core:
  assumes "length (s256_buffer h) = 64" "s256_buffered h < 64"
  shows "sha256_core (sha256_pad_byte h b) = stream_update 64 compress256 (sha256_core h) [b]"
  using sha256_update_core [OF assms, of "[b]"] by (simp add: sha256_pad_byte_def Let_def)

lemma sha256_pad_loop:
  assumes "absorbed 64 compress256 H256 (sha256_core h) xs"
  shows "\<exists>h'. while_option (\<lambda>h. s256_buffered h \<noteq> 56) (\<lambda>h. sha256_pad_byte h 0) h = Some h' \<and>
    absorbed 64 compress256 H256 (sha256_core h')
      (xs @ replicate ((64 + 56 - length xs mod 64) mod 64) 0)"
  using stream256.pad_loop [of H256 sha256_core "\<lambda>h. sha256_pad_byte h 0" 56 h xs] assms
    sha256_pad_byte_core absorbed256_bounds by auto

lemma sha256_pad_aligned: "length (sha256_pad m) mod 64 = 0"
proof -
  let ?k = "Suc (length m) + (64 + 56 - Suc (length m) mod 64) mod 64"
  have "?k mod 64 = 56"
    by (rule stream256.pad_reaches) simp
  then have "(?k + 8) mod 64 = 0"
    using mod_add_left_eq [of ?k 64 8] by (simp only:) simp
  then show ?thesis
    by (simp add: sha256_pad_def ac_simps)
qed

lemma sha256_finalize_spec:
  assumes "sha256_holds h xs"
  shows "sha256_finalize h = sha256_spec xs"
proof -
  let ?bits = "s256_length h * 8"
  let ?z = "replicate ((64 + 56 - Suc (length xs) mod 64) mod 64) (0 :: u8)"
  have bits: "?bits = of_nat (8 * length xs)"
    using assms by (simp add: sha256_holds_def)
  have a: "absorbed 64 compress256 H256 (sha256_core h) xs"
    using assms by (simp add: sha256_holds_def)
  let ?h1 = "sha256_pad_byte h 0x80"
  have "absorbed 64 compress256 H256 (sha256_core ?h1) (xs @ [0x80])"
    using stream256.absorbed_update [OF a] sha256_pad_byte_core absorbed256_bounds [OF a] by simp
  from sha256_pad_loop [OF this] obtain h2 where
    h2: "while_option (\<lambda>h. s256_buffered h \<noteq> 56) (\<lambda>h. sha256_pad_byte h 0) ?h1 = Some h2"
    and a2: "absorbed 64 compress256 H256 (sha256_core h2) (xs @ [0x80] @ ?z)"
    by auto
  have "absorbed 64 compress256 H256 (sha256_core (sha256_update h2 (u64_to_be ?bits)))
      (sha256_pad xs)"
    using stream256.absorbed_update [OF a2, of "u64_to_be ?bits"] sha256_update_core
      absorbed256_bounds [OF a2] by (simp add: sha256_pad_def bits)
  then have "s256_state (sha256_update h2 (u64_to_be ?bits)) =
      foldl compress256 H256 (chunks_exact 64 (sha256_pad xs))"
    by (simp add: absorbed_def)
  then show ?thesis
    by (simp add: sha256_finalize_def sha256_spec_code Let_def while_def h2)
qed

lemma compress256_length [simp]: "length (compress256 st b) = 8"
  by (simp add: compress256_def split: prod.split)

lemma foldl_compress256_length: "length s = 8 \<Longrightarrow> length (foldl compress256 s bs) = 8"
  by (induction bs arbitrary: s) auto

lemma sha256_spec_length [simp, byte_len]: "length (sha256_spec m) = 32"
proof -
  have "length (foldl compress256 H256 bs) = 8" for bs
    by (rule foldl_compress256_length) (simp add: H256_def)
  then show ?thesis
    by (simp add: sha256_spec_code length_concat comp_def sum_list_triv)
qed

lemma sha256_digest_spec: "sha256_digest m = sha256_spec m"
  using sha256_finalize_spec [OF sha256_holds_update [OF sha256_holds_new, of m]]
  by (simp add: sha256_digest_def)

lemma sha256_digest_length [simp, byte_len]: "length (sha256_digest m) = 32"
  by (simp add: sha256_digest_spec)

section \<open>SHA-512\<close>

definition K512 :: "u64 list" where
  "K512 = concat [
    [0x428a2f98d728ae22, 0x7137449123ef65cd, 0xb5c0fbcfec4d3b2f, 0xe9b5dba58189dbbc],
    [0x3956c25bf348b538, 0x59f111f1b605d019, 0x923f82a4af194f9b, 0xab1c5ed5da6d8118],
    [0xd807aa98a3030242, 0x12835b0145706fbe, 0x243185be4ee4b28c, 0x550c7dc3d5ffb4e2],
    [0x72be5d74f27b896f, 0x80deb1fe3b1696b1, 0x9bdc06a725c71235, 0xc19bf174cf692694],
    [0xe49b69c19ef14ad2, 0xefbe4786384f25e3, 0x0fc19dc68b8cd5b5, 0x240ca1cc77ac9c65],
    [0x2de92c6f592b0275, 0x4a7484aa6ea6e483, 0x5cb0a9dcbd41fbd4, 0x76f988da831153b5],
    [0x983e5152ee66dfab, 0xa831c66d2db43210, 0xb00327c898fb213f, 0xbf597fc7beef0ee4],
    [0xc6e00bf33da88fc2, 0xd5a79147930aa725, 0x06ca6351e003826f, 0x142929670a0e6e70],
    [0x27b70a8546d22ffc, 0x2e1b21385c26c926, 0x4d2c6dfc5ac42aed, 0x53380d139d95b3df],
    [0x650a73548baf63de, 0x766a0abb3c77b2a8, 0x81c2c92e47edaee6, 0x92722c851482353b],
    [0xa2bfe8a14cf10364, 0xa81a664bbc423001, 0xc24b8b70d0f89791, 0xc76c51a30654be30],
    [0xd192e819d6ef5218, 0xd69906245565a910, 0xf40e35855771202a, 0x106aa07032bbd1b8],
    [0x19a4c116b8d2d0c8, 0x1e376c085141ab53, 0x2748774cdf8eeb99, 0x34b0bcb5e19b48a8],
    [0x391c0cb3c5c95a63, 0x4ed8aa4ae3418acb, 0x5b9cca4f7763e373, 0x682e6ff3d6b2b8a3],
    [0x748f82ee5defb2fc, 0x78a5636f43172f60, 0x84c87814a1f0ab72, 0x8cc702081a6439ec],
    [0x90befffa23631e28, 0xa4506cebde82bde9, 0xbef9a3f7b2c67915, 0xc67178f2e372532b],
    [0xca273eceea26619c, 0xd186b8c721c0c207, 0xeada7dd6cde0eb1e, 0xf57d4f7fee6ed178],
    [0x06f067aa72176fba, 0x0a637dc5a2c898a6, 0x113f9804bef90dae, 0x1b710b35131c471b],
    [0x28db77f523047d84, 0x32caab7b40c72493, 0x3c9ebe0a15c9bebc, 0x431d67c49c100d4c],
    [0x4cc5d4becb3e42b6, 0x597f299cfc657e2a, 0x5fcb6fab3ad6faec, 0x6c44198c4a475817]]"

definition H512 :: "u64 list" where
  "H512 = [
    0x6a09e667f3bcc908, 0xbb67ae8584caa73b, 0x3c6ef372fe94f82b, 0xa54ff53a5f1d36f1,
    0x510e527fade682d1, 0x9b05688c2b3e6c1f, 0x1f83d9abfb41bd6b, 0x5be0cd19137e2179]"

text \<open>The message schedule: sixteen words of the block, extended in place to 80.\<close>

definition schedule512_step :: "u64 list \<Rightarrow> nat \<Rightarrow> u64 list" where
  "schedule512_step w i =
    (let x = w ! (i - 15); y = w ! (i - 2);
         s0 = word_rotr 1 x XOR word_rotr 8 x XOR drop_bit 7 x;
         s1 = word_rotr 19 y XOR word_rotr 61 y XOR drop_bit 6 y
     in w[i := w ! (i - 16) + s0 + w ! (i - 7) + s1])"

definition schedule512 :: "bytes \<Rightarrow> u64 list" where
  "schedule512 block =
    foldl schedule512_step
      (map (\<lambda>i. u64_from_be (take 8 (drop (i * 8) block))) [0..<16] @ replicate 64 0)
      [16..<80]"

type_synonym vars512 = "u64 \<times> u64 \<times> u64 \<times> u64 \<times> u64 \<times> u64 \<times> u64 \<times> u64"

definition round512 :: "u64 list \<Rightarrow> vars512 \<Rightarrow> nat \<Rightarrow> vars512" where
  "round512 w v i =
    (case v of (a, b, c, d, e, f, g, h) \<Rightarrow>
      let s1 = word_rotr 14 e XOR word_rotr 18 e XOR word_rotr 41 e;
          ch = (e AND f) XOR (NOT e AND g);
          t1 = h + s1 + ch + K512 ! i + w ! i;
          s0 = word_rotr 28 a XOR word_rotr 34 a XOR word_rotr 39 a;
          maj = (a AND b) XOR (a AND c) XOR (b AND c);
          t2 = s0 + maj
      in (t1 + t2, a, b, c, d + t1, e, f, g))"

definition compress512 :: "u64 list \<Rightarrow> bytes \<Rightarrow> u64 list" where
  "compress512 st block =
    (case foldl (round512 (schedule512 block))
        (st ! 0, st ! 1, st ! 2, st ! 3, st ! 4, st ! 5, st ! 6, st ! 7) [0..<80] of
      (a, b, c, d, e, f, g, h) \<Rightarrow>
        [st ! 0 + a, st ! 1 + b, st ! 2 + c, st ! 3 + d,
         st ! 4 + e, st ! 5 + f, st ! 6 + g, st ! 7 + h])"

section \<open>The compression function of SHA-512 and the standard\<close>

text \<open>The tables are the fractional parts of the roots of the first primes.\<close>

lemma K512_roots: "roots_ok 3 64 (map int (take 80 first_primes))
    [1, 1, 1, 1, 2, 2, 2, 2, 2, 3, 3, 3, 3, 3, 3, 3, 3, 3, 4, 4,
      4, 4, 4, 4, 4, 4, 4, 4, 4, 4, 5, 5, 5, 5, 5, 5, 5, 5, 5, 5,
      5, 5, 5, 5, 5, 5, 5, 6, 6, 6, 6, 6, 6, 6, 6, 6, 6, 6, 6, 6,
      6, 6, 6, 6, 6, 6, 6, 6, 7, 7, 7, 7, 7, 7, 7, 7, 7, 7, 7, 7]
    (map uint K512)"
  by code_simp

lemma K512_fips: "t < 80 \<Longrightarrow> K512 ! t = fips_K512 t"
  using table_entry [OF K512_roots] by (simp add: fips_K512_def)

lemma H512_roots: "roots_ok 2 64 (map int (take 8 first_primes)) [1, 1, 2, 2, 3, 3, 4, 4] (map uint H512)"
  by code_simp

lemma H512_nth: "i < 8 \<Longrightarrow> H512 ! i = fips_IV512 i"
  using table_entry [OF H512_roots] by (simp add: fips_IV512_def)

lemma H512_fips: "map fips_IV512 [0..<8] = H512"
  by (rule nth_equalityI) (simp_all add: H512_nth, simp add: H512_def)

text \<open>The array of the message schedule holds the recursively defined words.\<close>

lemma schedule512_prefix:
  fixes m :: "nat \<Rightarrow> u64"
  assumes "n \<le> 64"
  defines "w \<equiv> \<lambda>n. foldl schedule512_step (map m [0..<16] @ replicate 64 0) [16..<16 + n]"
  shows "length (w n) = 80 \<and> (\<forall>t < 16 + n. w n ! t = fips_W512 m t)"
  using assms(1)
proof (induction n)
  case 0
  then show ?case by (simp add: w_def nth_append fips_W512.simps)
next
  case (Suc n)
  then have IH: "length (w n) = 80" "\<And>t. t < 16 + n \<Longrightarrow> w n ! t = fips_W512 m t" by simp_all
  have "w (Suc n) = schedule512_step (w n) (16 + n)" unfolding w_def using upt_Suc_append [of 16 "16 + n"] by simp
  also have "\<dots> = (w n)[16 + n := fips_W512 m (16 + n)]"
  proof -
    have old: "w n ! (16 + n - 15) = fips_W512 m (16 + n - 15)" "w n ! (16 + n - 2) = fips_W512 m (16 + n - 2)"
        "w n ! (16 + n - 16) = fips_W512 m (16 + n - 16)" "w n ! (16 + n - 7) = fips_W512 m (16 + n - 7)"
      by (rule IH(2), simp)+
    have big: "\<not> 16 + n < 16" by simp
    have "fips_W512 m (16 + n) = fips_W512 m (16 + n - 16) + fips_sigma0_512 (fips_W512 m (16 + n - 15)) +
        fips_W512 m (16 + n - 7) + fips_sigma1_512 (fips_W512 m (16 + n - 2))"
      unfolding fips_W512.simps [of m "16 + n"] if_not_P [OF big] by (simp only: add_ac)
    then show ?thesis
      unfolding schedule512_step_def Let_def old by (simp only: fips_sigma0_512_def fips_sigma1_512_def)
  qed
  finally have "w (Suc n) = (w n)[16 + n := fips_W512 m (16 + n)]" .
  then show ?case using IH Suc.prems by (auto simp: nth_list_update less_Suc_eq)
qed

lemma schedule512_fips:
  "t < 80 \<Longrightarrow> schedule512 block ! t = fips_W512 (\<lambda>t. u64_from_be (take 8 (drop (8 * t) block))) t"
  using schedule512_prefix [of 64 "\<lambda>t. u64_from_be (take 8 (drop (8 * t) block))"]
  by (simp add: schedule512_def mult.commute)

lemma rounds512_fips:
  assumes "\<And>t. t < 80 \<Longrightarrow> w ! t = W t"
  shows "n \<le> 80 \<Longrightarrow> foldl (round512 w) (st ! 0, st ! 1, st ! 2, st ! 3, st ! 4, st ! 5, st ! 6, st ! 7) [0..<n] =
    fips_vars512 W ((!) st) n"
proof (induction n)
  case (Suc n)
  then show ?case
    by (auto simp: round512_def assms K512_fips fips_Sigma0_512_def fips_Sigma1_512_def fips_Ch_def fips_Maj_def Let_def
        split: prod.split)
qed simp

lemma compress512_fips: "compress512 = fips_compress512"
proof (intro ext)
  fix st block
  show "compress512 st block = fips_compress512 st block"
    unfolding compress512_def fips_compress512_def Let_def
    by (subst rounds512_fips [OF schedule512_fips])
      (simp_all add: eight_indices add.commute split: prod.split)
qed

section \<open>SHA-512 in pieces\<close>

text \<open>The portable body of the block loop.\<close>

definition compress512_blocks :: "u64 list \<Rightarrow> bytes \<Rightarrow> u64 list" where
  "compress512_blocks st data = foldl compress512 st (chunks_exact 128 data)"

record sha512 =
  s512_state :: "u64 list"
  s512_buffer :: bytes
  s512_buffered :: nat
  s512_length :: "u128"

definition sha512_new :: sha512 where
  "sha512_new = \<lparr>s512_state = H512, s512_buffer = replicate 128 0, s512_buffered = 0, s512_length = 0\<rparr>"

text \<open>\<open>update\<close>: top up a partial buffer, then whole blocks, then keep the tail.\<close>

definition sha512_fill :: "sha512 \<Rightarrow> bytes \<Rightarrow> sha512 \<times> bytes" where
  "sha512_fill h data =
    (if 0 < s512_buffered h then
       let tk = min (128 - s512_buffered h) (length data);
           h = h\<lparr>s512_buffer := copy_into (s512_buffer h) (s512_buffered h) (take tk data),
                  s512_buffered := s512_buffered h + tk\<rparr>;
           data = drop tk data
       in (if s512_buffered h = 128
           then (h\<lparr>s512_state := compress512_blocks (s512_state h) (s512_buffer h), s512_buffered := 0\<rparr>, data)
           else (h, data))
     else (h, data))"

definition sha512_update :: "sha512 \<Rightarrow> bytes \<Rightarrow> sha512" where
  "sha512_update h data =
    (let h = h\<lparr>s512_length := s512_length h + of_nat (length data)\<rparr>;
         (h, data) = sha512_fill h data;
         full = length data div 128 * 128;
         (h, data) = (if 0 < full
            then (h\<lparr>s512_state := compress512_blocks (s512_state h) (take full data)\<rparr>, drop full data)
            else (h, data))
     in (if data \<noteq> [] then h\<lparr>s512_buffer := copy_into (s512_buffer h) 0 data, s512_buffered := length data\<rparr>
         else h))"

text \<open>\<open>finalize\<close>: the bit length is read first; \<open>update\<close> counts the padding bytes, which is undone.\<close>

definition sha512_pad_byte :: "sha512 \<Rightarrow> u8 \<Rightarrow> sha512" where
  "sha512_pad_byte h b =
    (let h = sha512_update h [b] in h\<lparr>s512_length := s512_length h - 1\<rparr>)"

definition sha512_finalize :: "sha512 \<Rightarrow> bytes" where
  "sha512_finalize h =
    (let bit_length = s512_length h * 8;
         h = sha512_pad_byte h 0x80;
         h = while (\<lambda>h. s512_buffered h \<noteq> 112) (\<lambda>h. sha512_pad_byte h 0) h;
         h = sha512_update h (u128_to_be bit_length)
     in concat (map u64_to_be (s512_state h)))"

definition sha512_digest :: "bytes \<Rightarrow> bytes" where
  "sha512_digest data = sha512_finalize (sha512_update sha512_new data)"

text \<open>The FIPS 180-4 hash: pad the whole message, then chain the compression function of the standard.\<close>

definition sha512_pad :: "bytes \<Rightarrow> bytes" where
  "sha512_pad m =
    m @ [0x80] @ replicate ((128 + 112 - Suc (length m) mod 128) mod 128) 0 @
    u128_to_be (of_nat (8 * length m))"

definition sha512_spec :: "bytes \<Rightarrow> bytes" where
  "sha512_spec m =
    concat (map u64_to_be (foldl fips_compress512 (map fips_IV512 [0..<8]) (chunks_exact 128 (sha512_pad m))))"

lemma sha512_spec_code:
  "sha512_spec m = concat (map u64_to_be (foldl compress512 H512 (chunks_exact 128 (sha512_pad m))))"
  by (simp only: sha512_spec_def compress512_fips H512_fips)

interpretation stream512: block_stream 128 compress512
  by unfold_locales simp

abbreviation sha512_core :: "sha512 \<Rightarrow> u64 list \<times> bytes \<times> nat" where
  "sha512_core h \<equiv> (s512_state h, s512_buffer h, s512_buffered h)"

lemma compress512_blocks_one: "length b = 128 \<Longrightarrow> compress512_blocks st b = compress512 st b"
  using chunks_exact_single [of b] by (simp add: compress512_blocks_def)

lemma sha512_fill_core:
  assumes "length (s512_buffer h) = 128" "s512_buffered h < 128"
  shows "stream_fill 128 compress512 (sha512_core h) data =
    (sha512_core (fst (sha512_fill h data)), snd (sha512_fill h data))"
proof -
  let ?b = "copy_into (s512_buffer h) (s512_buffered h) (take (128 - s512_buffered h) data)"
  have "compress512_blocks (s512_state h) ?b = compress512 (s512_state h) ?b"
    if "s512_buffered h + min (128 - s512_buffered h) (length data) = 128"
    by (rule compress512_blocks_one) (use that assms in simp)
  then show ?thesis
    by (auto simp: sha512_fill_def stream_fill_def Let_def)
qed

lemma sha512_fill_length [simp]: "s512_length (fst (sha512_fill h data)) = s512_length h"
  by (simp add: sha512_fill_def Let_def)

lemma sha512_fill_cong:
  "sha512_fill (h\<lparr>s512_length := l\<rparr>) data =
    ((fst (sha512_fill h data))\<lparr>s512_length := l\<rparr>, snd (sha512_fill h data))"
  by (simp add: sha512_fill_def Let_def)

lemma sha512_update_core:
  assumes "length (s512_buffer h) = 128" "s512_buffered h < 128"
  shows "sha512_core (sha512_update h data) = stream_update 128 compress512 (sha512_core h) data"
  by (simp add: stream_update_def sha512_fill_core [OF assms] stream_tail_def sha512_update_def
      sha512_fill_cong case_prod_beta Let_def compress512_blocks_def)

lemma sha512_update_length [simp]:
  "s512_length (sha512_update h data) = s512_length h + of_nat (length data)"
  by (simp add: sha512_update_def sha512_fill_cong case_prod_beta Let_def)

text \<open>\<open>sha512_holds h xs\<close>: the hasher has absorbed exactly the bytes \<open>xs\<close>.\<close>

definition sha512_holds :: "sha512 \<Rightarrow> bytes \<Rightarrow> bool" where
  "sha512_holds h xs \<longleftrightarrow>
    absorbed 128 compress512 H512 (sha512_core h) xs \<and> s512_length h = of_nat (length xs)"

lemma absorbed512_bounds:
  "absorbed 128 compress512 s0 (sha512_core h) xs \<Longrightarrow>
   length (s512_buffer h) = 128 \<and> s512_buffered h < 128"
  by (simp add: absorbed_def)

lemma sha512_holds_new: "sha512_holds sha512_new []"
  using stream512.absorbed_init [of "replicate 128 0"]
  by (simp add: sha512_holds_def sha512_new_def)

lemma sha512_holds_update: "sha512_holds h xs \<Longrightarrow> sha512_holds (sha512_update h ys) (xs @ ys)"
  using sha512_update_core [of h ys] stream512.absorbed_update absorbed512_bounds
  by (fastforce simp: sha512_holds_def)

lemma sha512_holds_updates:
  "sha512_holds h xs \<Longrightarrow> sha512_holds (foldl sha512_update h ds) (xs @ concat ds)"
proof (induction ds arbitrary: h xs)
  case (Cons d ds)
  from Cons.IH [OF sha512_holds_update [OF Cons.prems]] show ?case by simp
qed simp

text \<open>The padding loop stops and leaves a message whose length field fits the last block.\<close>

lemma sha512_pad_byte_core:
  assumes "length (s512_buffer h) = 128" "s512_buffered h < 128"
  shows "sha512_core (sha512_pad_byte h b) = stream_update 128 compress512 (sha512_core h) [b]"
  using sha512_update_core [OF assms, of "[b]"] by (simp add: sha512_pad_byte_def Let_def)

lemma sha512_pad_loop:
  assumes "absorbed 128 compress512 H512 (sha512_core h) xs"
  shows "\<exists>h'. while_option (\<lambda>h. s512_buffered h \<noteq> 112) (\<lambda>h. sha512_pad_byte h 0) h = Some h' \<and>
    absorbed 128 compress512 H512 (sha512_core h')
      (xs @ replicate ((128 + 112 - length xs mod 128) mod 128) 0)"
  using stream512.pad_loop [of H512 sha512_core "\<lambda>h. sha512_pad_byte h 0" 112 h xs] assms
    sha512_pad_byte_core absorbed512_bounds by auto

lemma sha512_pad_aligned: "length (sha512_pad m) mod 128 = 0"
proof -
  let ?k = "Suc (length m) + (128 + 112 - Suc (length m) mod 128) mod 128"
  have "?k mod 128 = 112"
    by (rule stream512.pad_reaches) simp
  then have "(?k + 16) mod 128 = 0"
    using mod_add_left_eq [of ?k 128 16] by (simp only:) simp
  then show ?thesis
    by (simp add: sha512_pad_def ac_simps)
qed

lemma sha512_finalize_spec:
  assumes "sha512_holds h xs"
  shows "sha512_finalize h = sha512_spec xs"
proof -
  let ?bits = "s512_length h * 8"
  let ?z = "replicate ((128 + 112 - Suc (length xs) mod 128) mod 128) (0 :: u8)"
  have bits: "?bits = of_nat (8 * length xs)"
    using assms by (simp add: sha512_holds_def)
  have a: "absorbed 128 compress512 H512 (sha512_core h) xs"
    using assms by (simp add: sha512_holds_def)
  let ?h1 = "sha512_pad_byte h 0x80"
  have "absorbed 128 compress512 H512 (sha512_core ?h1) (xs @ [0x80])"
    using stream512.absorbed_update [OF a] sha512_pad_byte_core absorbed512_bounds [OF a] by simp
  from sha512_pad_loop [OF this] obtain h2 where
    h2: "while_option (\<lambda>h. s512_buffered h \<noteq> 112) (\<lambda>h. sha512_pad_byte h 0) ?h1 = Some h2"
    and a2: "absorbed 128 compress512 H512 (sha512_core h2) (xs @ [0x80] @ ?z)"
    by auto
  have "absorbed 128 compress512 H512 (sha512_core (sha512_update h2 (u128_to_be ?bits)))
      (sha512_pad xs)"
    using stream512.absorbed_update [OF a2, of "u128_to_be ?bits"] sha512_update_core
      absorbed512_bounds [OF a2] by (simp add: sha512_pad_def bits)
  then have "s512_state (sha512_update h2 (u128_to_be ?bits)) =
      foldl compress512 H512 (chunks_exact 128 (sha512_pad xs))"
    by (simp add: absorbed_def)
  then show ?thesis
    by (simp add: sha512_finalize_def sha512_spec_code Let_def while_def h2)
qed

lemma compress512_length [simp]: "length (compress512 st b) = 8"
  by (simp add: compress512_def split: prod.split)

lemma foldl_compress512_length: "length s = 8 \<Longrightarrow> length (foldl compress512 s bs) = 8"
  by (induction bs arbitrary: s) auto

lemma sha512_spec_length [simp, byte_len]: "length (sha512_spec m) = 64"
proof -
  have "length (foldl compress512 H512 bs) = 8" for bs
    by (rule foldl_compress512_length) (simp add: H512_def)
  then show ?thesis
    by (simp add: sha512_spec_code length_concat comp_def sum_list_triv)
qed

lemma sha512_digest_spec: "sha512_digest m = sha512_spec m"
  using sha512_finalize_spec [OF sha512_holds_update [OF sha512_holds_new, of m]]
  by (simp add: sha512_digest_def)

lemma sha512_digest_length [simp, byte_len]: "length (sha512_digest m) = 64"
  by (simp add: sha512_digest_spec)

section \<open>Properties\<close>

text \<open>
  C39. SHA-2 in pieces: feeding a message to \<open>update\<close> in any number of pieces of any sizes and
  finishing gives the FIPS 180-4 digest of the whole message (pad, split into blocks, chain), so
  buffering, topping up and padding are correct, for the 8-byte length field of SHA-256 and the
  16-byte one of SHA-512.
\<close>

theorem sha2_streaming:
  "sha256_finalize (foldl sha256_update sha256_new parts) = sha256_spec (concat parts) \<and>
   sha512_finalize (foldl sha512_update sha512_new parts) = sha512_spec (concat parts)"
  using sha256_finalize_spec [OF sha256_holds_updates [OF sha256_holds_new]]
    sha512_finalize_spec [OF sha512_holds_updates [OF sha512_holds_new]] by simp

end
