(* ===== verification/CryptoTypes.thy ===== *)
theory CryptoTypes
  imports Prelude
begin

text \<open>
  The types of \<open>blindplane-crypto\<close> its clients see: the AEAD suites and their wire codes
  (crates/blindplane-crypto/src/aead/mod.rs), the failures of the AEAD, of Ed25519
  (edwards/keys.rs) and of the entropy source (rand.rs).
\<close>

definition TAG_LEN :: nat where
  "TAG_LEN = 16"

datatype suite = Aes256Gcm | XChaCha20Poly1305 | ChaCha20Poly1305

definition suite_ALL :: "suite list" where
  "suite_ALL = [Aes256Gcm, XChaCha20Poly1305, ChaCha20Poly1305]"

fun nonce_len :: "suite \<Rightarrow> nat" where
  "nonce_len Aes256Gcm = 12"
| "nonce_len ChaCha20Poly1305 = 12"
| "nonce_len XChaCha20Poly1305 = 24"

fun suite_code :: "suite \<Rightarrow> u8" where
  "suite_code Aes256Gcm = 1"
| "suite_code XChaCha20Poly1305 = 2"
| "suite_code ChaCha20Poly1305 = 3"

lemma suite_code_inj [simp]: "suite_code s = suite_code t \<longleftrightarrow> s = t"
  by (cases s; cases t) simp_all

lemma suite_ALL_complete: "s \<in> set suite_ALL"
  by (cases s) (simp_all add: suite_ALL_def)

datatype aead_error = Unauthenticated | Unsupported | MessageTooLong

datatype signature_error =
    InvalidPublicKey
  | SmallOrderPublicKey
  | InvalidSignatureR
  | NonCanonicalSignatureS
  | VerificationFailed

datatype random_error = RandomError

text \<open>
  A signature check: public key, message, signature. The wire format is parametric in it
  (it never looks inside a signature), as \<open>blindplane-wire\<close> links \<open>verify_strict\<close> and
  nothing else of the Ed25519 module.
\<close>

type_synonym signature_check = "bytes \<Rightarrow> bytes \<Rightarrow> bytes \<Rightarrow> signature_error + unit"

text \<open>The two methods of a \<open>PreparedVerifier\<close> the wire format calls.\<close>

record prepared_verifier =
  pv_public_key :: bytes
  pv_verify_strict :: "bytes \<Rightarrow> bytes \<Rightarrow> signature_error + unit"

end
