(* ===== verification/Utf8.thy ===== *)
theory Utf8
  imports Prelude
begin

text \<open>
  The validity test behind \<open>core::str::from_utf8\<close>: well-formed UTF-8 byte sequences as in
  Table 3-7 of the Unicode standard, which is what the Rust standard library accepts.
\<close>

definition utf8_cont :: "u8 \<Rightarrow> bool" where
  "utf8_cont b \<longleftrightarrow> 0x80 \<le> b \<and> b \<le> 0xBF"

fun utf8_valid :: "bytes \<Rightarrow> bool" where
  "utf8_valid [] = True"
| "utf8_valid (b # bs) =
    (if b < 0x80 then utf8_valid bs
     else if 0xC2 \<le> b \<and> b \<le> 0xDF then
       (case bs of c # r \<Rightarrow> utf8_cont c \<and> utf8_valid r | _ \<Rightarrow> False)
     else if 0xE0 \<le> b \<and> b \<le> 0xEF then
       (case bs of c # d # r \<Rightarrow>
          (if b = 0xE0 then 0xA0 \<le> c \<and> c \<le> 0xBF
           else if b = 0xED then 0x80 \<le> c \<and> c \<le> 0x9F else utf8_cont c) \<and>
          utf8_cont d \<and> utf8_valid r
        | _ \<Rightarrow> False)
     else if 0xF0 \<le> b \<and> b \<le> 0xF4 then
       (case bs of c # d # e # r \<Rightarrow>
          (if b = 0xF0 then 0x90 \<le> c \<and> c \<le> 0xBF
           else if b = 0xF4 then 0x80 \<le> c \<and> c \<le> 0x8F else utf8_cont c) \<and>
          utf8_cont d \<and> utf8_cont e \<and> utf8_valid r
        | _ \<Rightarrow> False)
     else False)"

declare utf8_valid.simps(2) [simp del]

text \<open>\<open>core::str::from_utf8(bytes).map(str::to_owned)\<close>.\<close>

definition from_utf8 :: "bytes \<Rightarrow> str option" where
  "from_utf8 bs = (if utf8_valid bs then Some bs else None)"

lemma from_utf8_Some [simp]: "from_utf8 bs = Some s \<longleftrightarrow> utf8_valid bs \<and> s = bs"
  by (auto simp: from_utf8_def)

lemma utf8_valid_ascii: "\<forall>b\<in>set bs. b < 0x80 \<Longrightarrow> utf8_valid bs"
  by (induction bs) (auto simp: utf8_valid.simps(2))

end
