(* ===== verification/WireTypes.thy ===== *)
theory WireTypes
  imports CryptoTypes Sha2 Utf8
begin

text \<open>
  The data of \<open>blindplane-wire\<close>: limits and signer pins (policy.rs), the routing context,
  recipient envelopes and blind indexes (context.rs), the validation errors (error.rs), the
  sealed record and the bytes that are signed (record.rs, the length-prefixed building blocks
  of encode.rs). The lemmas rewrite the imperative buffer building into concatenations.
\<close>

section \<open>Constants\<close>

definition FORMAT_VERSION :: u16 where "FORMAT_VERSION = 1"
definition INDEX_TOKEN_LEN :: nat where "INDEX_TOKEN_LEN = 16"
definition X25519_KEY_LEN :: nat where "X25519_KEY_LEN = 32"
definition WRAPPED_DEK_LEN :: nat where "WRAPPED_DEK_LEN = 48"

lemmas wire_consts =
  FORMAT_VERSION_def INDEX_TOKEN_LEN_def X25519_KEY_LEN_def WRAPPED_DEK_LEN_def TAG_LEN_def

section \<open>Data\<close>

record validation_policy =
  max_ciphertext_bytes :: nat
  max_recipients :: nat
  max_indexes :: nat
  max_identifier_bytes :: nat
  allowed_signers :: "bytes set"

definition default_policy :: validation_policy where
  "default_policy = \<lparr>max_ciphertext_bytes = 8 * 1024 * 1024, max_recipients = 256,
     max_indexes = 32, max_identifier_bytes = 255, allowed_signers = {}\<rparr>"

record record_context =
  rc_tenant :: str
  rc_object_id :: str
  rc_field :: str
  rc_epoch :: u64
  rc_version :: u64
  rc_schema_version :: u32

record recipient_envelope =
  re_recipient_id :: str
  re_key_epoch :: u64
  re_recipient_key_id :: bytes
  re_encapsulated_key :: bytes
  re_wrapped_dek :: bytes

record blind_index =
  bi_label :: str
  bi_schema_version :: u32
  bi_canonicalizer_id :: str
  bi_canonicalizer_version :: u16
  bi_key_epoch :: u64
  bi_token :: bytes

record sealed_record =
  sr_format_version :: u16
  sr_suite :: suite
  sr_context :: record_context
  sr_manifest_revision :: u64
  sr_previous_manifest_hash :: bytes
  sr_key_commitment :: bytes
  sr_nonce :: bytes
  sr_ciphertext :: bytes
  sr_recipients :: "recipient_envelope list"
  sr_indexes :: "blind_index list"
  sr_signer_public_key :: bytes
  sr_signature :: bytes

datatype wire_error =
    UnsupportedFormat u16
  | IdentifierLength nat
  | InvalidVersion
  | InvalidManifestChain
  | InvalidKeyEpoch
  | InvalidIndexDefinition
  | InvalidNonceLength nat nat
  | CiphertextSize nat
  | RecipientCount nat
  | NonCanonicalRecipients
  | InvalidEncapsulatedKeyLength nat
  | InvalidWrappedDekLength nat
  | IndexCount nat
  | NonCanonicalIndexes
  | InvalidSignature
  | InvalidSignatureLength nat
  | UntrustedSigner
  | NoTrustedSigners
  | RollbackDetected
  | Truncated
  | TrailingBytes
  | LengthLimit nat
  | NonCanonicalEncoding
  | InvalidUtf8

section \<open>Length-prefixed building blocks\<close>

definition push_len :: "bytes \<Rightarrow> nat \<Rightarrow> bytes" where
  "push_len out n = out @ u64_to_be (of_nat n)"

definition push_bytes :: "bytes \<Rightarrow> bytes \<Rightarrow> bytes" where
  "push_bytes out bs = push_len out (length bs) @ bs"

text \<open>The length-prefixed form of one byte string.\<close>

definition lp :: "bytes \<Rightarrow> bytes" where
  "lp bs = u64_to_be (of_nat (length bs)) @ bs"

lemma push_bytes_lp: "push_bytes out bs = out @ lp bs"
  by (simp add: push_bytes_def push_len_def lp_def)

lemma length_lp [simp, byte_len]: "length (lp bs) = 8 + length bs"
  by (simp add: lp_def)

definition canonical_bytes :: "record_context \<Rightarrow> bytes" where
  "canonical_bytes c =
    (let out = push_bytes [] (ascii ''blindplane/context/v1'');
         out = push_bytes out (rc_tenant c);
         out = push_bytes out (rc_object_id c);
         out = push_bytes out (rc_field c);
         out = out @ u64_to_be (rc_epoch c);
         out = out @ u64_to_be (rc_version c);
         out = out @ u32_to_be (rc_schema_version c)
     in out)"

definition payload_aad :: "suite \<Rightarrow> record_context \<Rightarrow> bytes" where
  "payload_aad s c =
    (let out = push_bytes [] (ascii ''blindplane/payload-aad/v1'');
         out = out @ [suite_code s];
         out = push_bytes out (canonical_bytes c)
     in out)"

definition push_envelope :: "bytes \<Rightarrow> recipient_envelope \<Rightarrow> bytes" where
  "push_envelope out e =
    (let out = push_bytes out (re_recipient_id e);
         out = out @ u64_to_be (re_key_epoch e);
         out = out @ re_recipient_key_id e;
         out = push_bytes out (re_encapsulated_key e);
         out = push_bytes out (re_wrapped_dek e)
     in out)"

definition push_index :: "bytes \<Rightarrow> blind_index \<Rightarrow> bytes" where
  "push_index out i =
    (let out = push_bytes out (bi_label i);
         out = out @ u32_to_be (bi_schema_version i);
         out = push_bytes out (bi_canonicalizer_id i);
         out = out @ u16_to_be (bi_canonicalizer_version i);
         out = out @ u64_to_be (bi_key_epoch i);
         out = out @ bi_token i
     in out)"

definition RECORD_DOMAIN :: bytes where
  "RECORD_DOMAIN = ascii ''blindplane/record-signature/v1''"

definition signing_bytes :: "sealed_record \<Rightarrow> bytes" where
  "signing_bytes r =
    (let out = push_bytes [] RECORD_DOMAIN;
         out = out @ u16_to_be (sr_format_version r);
         out = out @ [suite_code (sr_suite r)];
         out = push_bytes out (canonical_bytes (sr_context r));
         out = out @ u64_to_be (sr_manifest_revision r);
         out = out @ sr_previous_manifest_hash r;
         out = out @ sr_key_commitment r;
         out = push_bytes out (sr_nonce r);
         out = push_bytes out (sr_ciphertext r);
         out = push_len out (length (sr_recipients r));
         out = foldl push_envelope out (sr_recipients r);
         out = push_len out (length (sr_indexes r));
         out = foldl push_index out (sr_indexes r);
         out = out @ sr_signer_public_key r
     in out)"

definition sr_payload_aad :: "sealed_record \<Rightarrow> bytes" where
  "sr_payload_aad r = payload_aad (sr_suite r) (sr_context r)"

definition manifest_hash :: "sealed_record \<Rightarrow> bytes" where
  "manifest_hash r =
    (let hasher = sha256_new;
         hasher = sha256_update hasher (ascii ''blindplane/manifest-hash/v1'');
         hasher = sha256_update hasher (signing_bytes r);
         hasher = sha256_update hasher (sr_signature r)
     in sha256_finalize hasher)"

definition encode :: "sealed_record \<Rightarrow> bytes" where
  "encode r = push_bytes (signing_bytes r) (sr_signature r)"

section \<open>The encodings as concatenations\<close>

definition context_put :: "record_context \<Rightarrow> bytes" where
  "context_put c = lp (rc_tenant c) @ lp (rc_object_id c) @ lp (rc_field c) @
     u64_to_be (rc_epoch c) @ u64_to_be (rc_version c) @ u32_to_be (rc_schema_version c)"

definition envelope_put :: "recipient_envelope \<Rightarrow> bytes" where
  "envelope_put e = lp (re_recipient_id e) @ u64_to_be (re_key_epoch e) @
     re_recipient_key_id e @ lp (re_encapsulated_key e) @ lp (re_wrapped_dek e)"

definition index_put :: "blind_index \<Rightarrow> bytes" where
  "index_put i = lp (bi_label i) @ u32_to_be (bi_schema_version i) @ lp (bi_canonicalizer_id i) @
     u16_to_be (bi_canonicalizer_version i) @ u64_to_be (bi_key_epoch i) @ bi_token i"

definition many_put :: "('a \<Rightarrow> bytes) \<Rightarrow> 'a list \<Rightarrow> bytes" where
  "many_put put xs = concat (map put xs)"

lemma canonical_bytes_put:
  "canonical_bytes c = lp (ascii ''blindplane/context/v1'') @ context_put c"
  by (simp only: canonical_bytes_def Let_def push_bytes_lp context_put_def append_Nil append_assoc)

lemma payload_aad_put:
  "payload_aad s c =
    lp (ascii ''blindplane/payload-aad/v1'') @ [suite_code s] @ lp (canonical_bytes c)"
  by (simp only: payload_aad_def Let_def push_bytes_lp append_Nil append_assoc)

lemma foldl_push_envelope: "foldl push_envelope out es = out @ many_put envelope_put es"
  by (induction es arbitrary: out)
     (simp_all add: push_envelope_def push_bytes_lp envelope_put_def many_put_def)

lemma foldl_push_index: "foldl push_index out is = out @ many_put index_put is"
  by (induction "is" arbitrary: out)
     (simp_all add: push_index_def push_bytes_lp index_put_def many_put_def)

lemma signing_bytes_put:
  "signing_bytes r =
    lp RECORD_DOMAIN @ u16_to_be (sr_format_version r) @ [suite_code (sr_suite r)] @
    lp (canonical_bytes (sr_context r)) @ u64_to_be (sr_manifest_revision r) @
    sr_previous_manifest_hash r @ sr_key_commitment r @ lp (sr_nonce r) @ lp (sr_ciphertext r) @
    u64_to_be (of_nat (length (sr_recipients r))) @ many_put envelope_put (sr_recipients r) @
    u64_to_be (of_nat (length (sr_indexes r))) @ many_put index_put (sr_indexes r) @
    sr_signer_public_key r"
  by (simp only: signing_bytes_def Let_def push_bytes_lp push_len_def foldl_push_envelope
      foldl_push_index append_Nil append_assoc)

lemma encode_put: "encode r = signing_bytes r @ lp (sr_signature r)"
  by (simp add: encode_def push_bytes_lp)

lemma manifest_hash_spec:
  "manifest_hash r = sha256_spec (ascii ''blindplane/manifest-hash/v1'' @ signing_bytes r @ sr_signature r)"
proof -
  have "sha256_holds (sha256_update (sha256_update (sha256_update sha256_new
      (ascii ''blindplane/manifest-hash/v1'')) (signing_bytes r)) (sr_signature r))
      (((([] @ ascii ''blindplane/manifest-hash/v1'')) @ signing_bytes r) @ sr_signature r)"
    by (intro sha256_holds_update sha256_holds_new)
  from sha256_finalize_spec [OF this] show ?thesis
    by (simp only: manifest_hash_def Let_def append_Nil append_assoc)
qed

lemma manifest_hash_length [simp, byte_len]: "length (manifest_hash r) = 32"
  by (simp add: manifest_hash_spec)

section \<open>Well-typed records\<close>

text \<open>
  What the Rust types guarantee and lists of bytes do not: strings are UTF-8, fixed arrays
  have their size, and the whole encoding fits the address space.
\<close>

definition context_wf :: "record_context \<Rightarrow> bool" where
  "context_wf c \<longleftrightarrow> utf8_valid (rc_tenant c) \<and> utf8_valid (rc_object_id c) \<and> utf8_valid (rc_field c)"

definition envelope_wf :: "recipient_envelope \<Rightarrow> bool" where
  "envelope_wf e \<longleftrightarrow> utf8_valid (re_recipient_id e) \<and> length (re_recipient_key_id e) = 32"

definition index_wf :: "blind_index \<Rightarrow> bool" where
  "index_wf i \<longleftrightarrow> utf8_valid (bi_label i) \<and> utf8_valid (bi_canonicalizer_id i) \<and>
     length (bi_token i) = INDEX_TOKEN_LEN"

definition record_wf :: "sealed_record \<Rightarrow> bool" where
  "record_wf r \<longleftrightarrow> context_wf (sr_context r) \<and>
     length (sr_previous_manifest_hash r) = 32 \<and> length (sr_key_commitment r) = 32 \<and>
     (\<forall>e\<in>set (sr_recipients r). envelope_wf e) \<and> (\<forall>i\<in>set (sr_indexes r). index_wf i) \<and>
     length (sr_signer_public_key r) = 32 \<and> length (encode r) \<le> usize_max"

end
