(* ===== verification/WireCursor.thy ===== *)
theory WireCursor
  imports WireTypes
begin

text \<open>
  The bounds-checked reader of crates/blindplane-wire/src/encode.rs (\<open>Cursor\<close>), and the
  interface its users rely on: a \<open>wire_codec\<close> pairs a writer with a reader such that reading
  succeeds exactly on what the writer produces. The primitive readers interpret it here, the
  composite ones in WireEncode.
\<close>

section \<open>The cursor\<close>

record cursor =
  cur_bytes :: bytes
  cur_offset :: nat

definition cursor_new :: "bytes \<Rightarrow> cursor" where
  "cursor_new bs = \<lparr>cur_bytes = bs, cur_offset = 0\<rparr>"

definition cursor_is_empty :: "cursor \<Rightarrow> bool" where
  "cursor_is_empty c \<longleftrightarrow> cur_offset c = length (cur_bytes c)"

definition take_exact :: "nat \<Rightarrow> cursor \<Rightarrow> wire_error + bytes \<times> cursor" where
  "take_exact len c =
    rbind (ok_or (checked_add_usize (cur_offset c) len) Truncated) (\<lambda>stop.
    rbind (reject (length (cur_bytes c) < stop) Truncated) (\<lambda>_.
    Inr (take (stop - cur_offset c) (drop (cur_offset c) (cur_bytes c)), c\<lparr>cur_offset := stop\<rparr>)))"

definition take_u8 :: "cursor \<Rightarrow> wire_error + u8 \<times> cursor" where
  "take_u8 c = rbind (take_exact 1 c) (\<lambda>(bs, c). Inr (hd bs, c))"

definition take_u16 :: "cursor \<Rightarrow> wire_error + u16 \<times> cursor" where
  "take_u16 c = rbind (take_exact 2 c) (\<lambda>(bs, c). Inr (u16_from_be bs, c))"

definition take_u32 :: "cursor \<Rightarrow> wire_error + u32 \<times> cursor" where
  "take_u32 c = rbind (take_exact 4 c) (\<lambda>(bs, c). Inr (u32_from_be bs, c))"

definition take_u64 :: "cursor \<Rightarrow> wire_error + u64 \<times> cursor" where
  "take_u64 c = rbind (take_exact 8 c) (\<lambda>(bs, c). Inr (u64_from_be bs, c))"

definition take_array32 :: "cursor \<Rightarrow> wire_error + bytes \<times> cursor" where
  "take_array32 c = take_exact 32 c"

text \<open>\<open>usize::try_from(u64)\<close> cannot fail where \<open>usize\<close> has 64 bits.\<close>

definition bytes_limit :: "validation_policy \<Rightarrow> nat" where
  "bytes_limit p = max (max_ciphertext_bytes p) 4096"

definition take_bytes :: "validation_policy \<Rightarrow> cursor \<Rightarrow> wire_error + bytes \<times> cursor" where
  "take_bytes p c =
    rbind (take_u64 c) (\<lambda>(len, c).
    let limit = bytes_limit p; len = unat len in
    rbind (reject (limit < len) (LengthLimit len)) (\<lambda>_.
    take_exact len c))"

definition take_string :: "validation_policy \<Rightarrow> cursor \<Rightarrow> wire_error + str \<times> cursor" where
  "take_string p c =
    rbind (take_bytes p c) (\<lambda>(bs, c).
    rbind (reject (max_identifier_bytes p < length bs) (IdentifierLength (length bs))) (\<lambda>_.
    rbind (ok_or (from_utf8 bs) InvalidUtf8) (\<lambda>s. Inr (s, c))))"

definition take_len :: "nat \<Rightarrow> cursor \<Rightarrow> wire_error + nat \<times> cursor" where
  "take_len mx c =
    rbind (take_u64 c) (\<lambda>(len, c).
    let len = unat len in
    rbind (reject (mx < len) (LengthLimit len)) (\<lambda>_. Inr (len, c)))"

section \<open>The state of a reader\<close>

definition cur_wf :: "cursor \<Rightarrow> bool" where
  "cur_wf c \<longleftrightarrow> cur_offset c \<le> length (cur_bytes c) \<and> length (cur_bytes c) \<le> usize_max"

definition cur_rest :: "cursor \<Rightarrow> bytes" where
  "cur_rest c = drop (cur_offset c) (cur_bytes c)"

definition cur_advance :: "nat \<Rightarrow> cursor \<Rightarrow> cursor" where
  "cur_advance n c = c\<lparr>cur_offset := cur_offset c + n\<rparr>"

lemma cur_new [simp]:
  "cur_rest (cursor_new bs) = bs" "cur_wf (cursor_new bs) \<longleftrightarrow> length bs \<le> usize_max"
  by (simp_all add: cur_rest_def cur_wf_def cursor_new_def)

lemma cursor_is_empty_rest: "cur_wf c \<Longrightarrow> cursor_is_empty c \<longleftrightarrow> cur_rest c = []"
  by (auto simp: cursor_is_empty_def cur_rest_def cur_wf_def)

lemma cur_advance_0 [simp]: "cur_advance 0 c = c"
  by (simp add: cur_advance_def)

lemma cur_advance_add [simp]: "cur_advance n (cur_advance m c) = cur_advance (m + n) c"
  by (simp add: cur_advance_def add.assoc)

lemma cur_advance_rest: "cur_rest c = xs @ ys \<Longrightarrow> cur_rest (cur_advance (length xs) c) = ys"
  by (simp add: cur_rest_def cur_advance_def) (metis append_eq_conv_conj drop_drop add.commute)

lemma cur_advance_wf:
  assumes "cur_wf c" "cur_rest c = xs @ ys"
  shows "cur_wf (cur_advance (length xs) c)"
proof -
  have "length (cur_rest c) = length xs + length ys"
    using assms(2) by simp
  then show ?thesis
    using assms(1) unfolding cur_wf_def cur_rest_def cur_advance_def by simp linarith
qed

text \<open>\<open>take_exact\<close> in terms of what is left to read.\<close>

lemma take_exact_rest:
  assumes "cur_wf c"
  shows "take_exact n c =
    (if n \<le> length (cur_rest c) then Inr (take n (cur_rest c), cur_advance n c) else Inl Truncated)"
  using assms
  by (auto simp: take_exact_def cur_wf_def cur_rest_def cur_advance_def checked_add_usize_def reject_def)

section \<open>The codec interface\<close>

text \<open>
  \<open>ok\<close> is the set of values the reader can return (its limits); outside it the reader fails.
  The two laws say that the reader inverts the writer and accepts nothing else.
\<close>

locale wire_codec =
  fixes put :: "'a \<Rightarrow> bytes"
    and get :: "cursor \<Rightarrow> wire_error + 'a \<times> cursor"
    and ok :: "'a \<Rightarrow> bool"
  assumes get_sound: "cur_wf c \<Longrightarrow> get c = Inr (x, c') \<Longrightarrow>
      ok x \<and> cur_rest c = put x @ cur_rest c' \<and> c' = cur_advance (length (put x)) c"
    and get_complete: "cur_wf c \<Longrightarrow> ok x \<Longrightarrow> cur_rest c = put x @ ys \<Longrightarrow>
      get c = Inr (x, cur_advance (length (put x)) c)"
begin

lemma get_wf: "cur_wf c \<Longrightarrow> get c = Inr (x, c') \<Longrightarrow> cur_wf c'"
  using get_sound cur_advance_wf by fastforce

text \<open>The written form is a prefix code: no value's bytes extend another's.\<close>

lemma put_prefix_free:
  assumes "ok x" "ok y" "put x @ xs = put y @ ys" "length (put x @ xs) \<le> usize_max"
  shows "x = y \<and> xs = ys"
proof -
  let ?c = "cursor_new (put x @ xs)"
  have wf: "cur_wf ?c" using assms(4) by simp
  have "get ?c = Inr (x, cur_advance (length (put x)) ?c)"
    by (rule get_complete [OF wf assms(1)]) simp
  moreover have "get ?c = Inr (y, cur_advance (length (put y)) ?c)"
    by (rule get_complete [OF wf assms(2)]) (simp add: assms(3))
  ultimately show ?thesis using assms(3) by simp
qed

text \<open>Acceptance, stated on whole inputs.\<close>

lemma get_iff:
  "cur_wf c \<Longrightarrow> get c = Inr (x, c') \<longleftrightarrow>
    ok x \<and> c' = cur_advance (length (put x)) c \<and> (\<exists>ys. cur_rest c = put x @ ys)"
  using get_sound get_complete by (metis (no_types, lifting))

end


section \<open>Combinators\<close>

text \<open>Two readers in sequence, a reader followed by a check or conversion, and a loop.\<close>

definition seq_get ::
  "(cursor \<Rightarrow> wire_error + 'a \<times> cursor) \<Rightarrow> (cursor \<Rightarrow> wire_error + 'b \<times> cursor) \<Rightarrow>
   cursor \<Rightarrow> wire_error + ('a \<times> 'b) \<times> cursor" where
  "seq_get g h c = rbind (g c) (\<lambda>(x, c). rbind (h c) (\<lambda>(y, c). Inr ((x, y), c)))"

definition seq_put :: "('a \<Rightarrow> bytes) \<Rightarrow> ('b \<Rightarrow> bytes) \<Rightarrow> 'a \<times> 'b \<Rightarrow> bytes" where
  "seq_put p q = (\<lambda>(x, y). p x @ q y)"

definition seq_ok :: "('a \<Rightarrow> bool) \<Rightarrow> ('b \<Rightarrow> bool) \<Rightarrow> 'a \<times> 'b \<Rightarrow> bool" where
  "seq_ok p q = (\<lambda>(x, y). p x \<and> q y)"

definition conv_get ::
  "(cursor \<Rightarrow> wire_error + 'a \<times> cursor) \<Rightarrow> ('a \<Rightarrow> wire_error + 'b) \<Rightarrow>
   cursor \<Rightarrow> wire_error + 'b \<times> cursor" where
  "conv_get g dec c = rbind (g c) (\<lambda>(x, c). rbind (dec x) (\<lambda>y. Inr (y, c)))"

fun many_get :: "(cursor \<Rightarrow> wire_error + 'a \<times> cursor) \<Rightarrow> nat \<Rightarrow> cursor \<Rightarrow> wire_error + 'a list \<times> cursor" where
  "many_get g 0 c = Inr ([], c)"
| "many_get g (Suc n) c =
    rbind (g c) (\<lambda>(x, c). rbind (many_get g n c) (\<lambda>(xs, c). Inr (x # xs, c)))"

lemmas seq_defs = seq_get_def seq_put_def seq_ok_def

lemma rbind_assoc: "rbind (rbind m f) g = rbind m (\<lambda>x. rbind (f x) g)"
  by (cases m) auto

lemma wire_codec_seq:
  assumes a: "wire_codec pa ga oka" and b: "wire_codec pb gb okb"
  shows "wire_codec (seq_put pa pb) (seq_get ga gb) (seq_ok oka okb)"
proof
  fix c xy c'
  assume wf: "cur_wf c" and get: "seq_get ga gb c = Inr (xy, c')"
  obtain x y where xy: "xy = (x, y)" by (cases xy)
  from get xy obtain d where g: "ga c = Inr (x, d)" and h: "gb d = Inr (y, c')"
    by (auto simp: seq_get_def result_simps split: prod.splits)
  show "seq_ok oka okb xy \<and> cur_rest c = seq_put pa pb xy @ cur_rest c' \<and>
      c' = cur_advance (length (seq_put pa pb xy)) c"
    using wire_codec.get_sound [OF a wf g] wire_codec.get_sound [OF b wire_codec.get_wf [OF a wf g] h] xy
    by (simp add: seq_ok_def seq_put_def)
next
  fix c xy ys
  assume wf: "cur_wf c" and ok: "seq_ok oka okb xy" and rest: "cur_rest c = seq_put pa pb xy @ ys"
  obtain x y where xy: "xy = (x, y)" by (cases xy)
  let ?d = "cur_advance (length (pa x)) c"
  from rest xy have r: "cur_rest c = pa x @ pb y @ ys" by (simp add: seq_put_def)
  from ok xy have oks: "oka x" "okb y" by (simp_all add: seq_ok_def)
  have "ga c = Inr (x, ?d)"
    by (rule wire_codec.get_complete [OF a wf oks(1) r])
  moreover have "gb ?d = Inr (y, cur_advance (length (pb y)) ?d)"
    by (rule wire_codec.get_complete [OF b cur_advance_wf [OF wf r] oks(2) cur_advance_rest [OF r]])
  ultimately show "seq_get ga gb c = Inr (xy, cur_advance (length (seq_put pa pb xy)) c)"
    using xy by (simp add: seq_get_def seq_put_def)
qed

lemma wire_codec_conv:
  assumes a: "wire_codec pa ga oka"
    and sound: "\<And>x y. oka x \<Longrightarrow> dec x = Inr y \<Longrightarrow> okb y \<and> enc y = x"
    and complete: "\<And>y. okb y \<Longrightarrow> oka (enc y) \<and> dec (enc y) = Inr y"
    and put: "\<And>y. okb y \<Longrightarrow> pb y = pa (enc y)"
  shows "wire_codec pb (conv_get ga dec) okb"
proof
  fix c y c'
  assume wf: "cur_wf c" and get: "conv_get ga dec c = Inr (y, c')"
  from get obtain x where g: "ga c = Inr (x, c')" and d: "dec x = Inr y"
    by (auto simp: conv_get_def result_simps split: prod.splits)
  show "okb y \<and> cur_rest c = pb y @ cur_rest c' \<and> c' = cur_advance (length (pb y)) c"
    using wire_codec.get_sound [OF a wf g] sound [OF _ d] put by auto
next
  fix c y ys
  assume wf: "cur_wf c" and ok: "okb y" and rest: "cur_rest c = pb y @ ys"
  have "ga c = Inr (enc y, cur_advance (length (pa (enc y))) c)"
    by (rule wire_codec.get_complete [OF a wf, where ys = ys])
       (use complete [OF ok] put [OF ok] rest in simp_all)
  then show "conv_get ga dec c = Inr (y, cur_advance (length (pb y)) c)"
    using complete [OF ok] put [OF ok] by (simp add: conv_get_def)
qed

lemma wire_codec_many:
  assumes a: "wire_codec pa ga oka"
  shows "wire_codec (many_put pa) (many_get ga n) (\<lambda>xs. length xs = n \<and> (\<forall>x\<in>set xs. oka x))"
proof (induction n)
  case 0
  show ?case by unfold_locales (auto simp: many_put_def)
next
  case (Suc n)
  have "wire_codec (many_put pa) (conv_get (seq_get ga (many_get ga n)) (\<lambda>(x, xs). Inr (x # xs)))
    (\<lambda>xs. length xs = Suc n \<and> (\<forall>x\<in>set xs. oka x))"
    by (rule wire_codec_conv [OF wire_codec_seq [OF a Suc], where enc = "\<lambda>xs. (hd xs, tl xs)"])
       (auto simp: seq_ok_def seq_put_def many_put_def length_Suc_conv)
  moreover have "conv_get (seq_get ga (many_get ga n)) (\<lambda>(x, xs). Inr (x # xs)) = many_get ga (Suc n)"
    by (rule ext) (simp add: conv_get_def seq_get_def rbind_assoc split_def)
  ultimately show ?case by (simp only:)
qed

section \<open>The primitive readers\<close>

lemma take_exact_codec: "wire_codec (\<lambda>bs. bs) (take_exact n) (\<lambda>bs. length bs = n)"
proof
  fix c bs c'
  assume "cur_wf c" "take_exact n c = Inr (bs, c')"
  then have n: "n \<le> length (cur_rest c)" and bs: "bs = take n (cur_rest c)" and c': "c' = cur_advance n c"
    by (simp_all add: take_exact_rest split: if_splits)
  have "cur_rest c = bs @ drop n (cur_rest c)" and len: "length bs = n" using n bs by simp_all
  with cur_advance_rest [of c bs] show "length bs = n \<and> cur_rest c = bs @ cur_rest c' \<and> c' = cur_advance (length bs) c"
    using c' by simp
qed (simp add: take_exact_rest)

interpretation raw: wire_codec "\<lambda>bs. bs" "take_exact n" "\<lambda>bs. length bs = n" for n
  by (rule take_exact_codec)


text \<open>A reader that converts the bytes \<open>take_exact\<close> returns, with a total inverse pair.\<close>

lemma wire_codec_fixed:
  assumes "\<And>c. get c = conv_get (take_exact n) (\<lambda>bs. Inr (dec bs)) c"
    and "\<And>bs. length bs = n \<Longrightarrow> ok (dec bs) \<and> put (dec bs) = bs"
    and "\<And>x. ok x \<Longrightarrow> length (put x) = n \<and> dec (put x) = x"
  shows "wire_codec put get ok"
proof -
  have "wire_codec put (conv_get (take_exact n) (\<lambda>bs. Inr (dec bs))) ok"
    by (rule wire_codec_conv [OF take_exact_codec, where enc = put]) (use assms in auto)
  moreover have "get = conv_get (take_exact n) (\<lambda>bs. Inr (dec bs))"
    using assms(1) by (rule ext)
  ultimately show ?thesis by simp
qed

lemma codec_u8: "wire_codec (\<lambda>b. [b]) take_u8 (\<lambda>_. True)"
  by (rule wire_codec_fixed [where n = 1 and dec = hd])
     (auto simp: take_u8_def conv_get_def length_Suc_conv)

lemma codec_u16: "wire_codec u16_to_be take_u16 (\<lambda>_. True)"
  by (rule wire_codec_fixed [where n = 2 and dec = u16_from_be])
     (auto simp: take_u16_def conv_get_def)

lemma codec_u32: "wire_codec u32_to_be take_u32 (\<lambda>_. True)"
  by (rule wire_codec_fixed [where n = 4 and dec = u32_from_be])
     (auto simp: take_u32_def conv_get_def)

lemma codec_u64: "wire_codec u64_to_be take_u64 (\<lambda>_. True)"
  by (rule wire_codec_fixed [where n = 8 and dec = u64_from_be])
     (auto simp: take_u64_def conv_get_def)

interpretation cu8: wire_codec "\<lambda>b. [b]" take_u8 "\<lambda>_. True" by (rule codec_u8)
interpretation cu16: wire_codec u16_to_be take_u16 "\<lambda>_. True" by (rule codec_u16)
interpretation cu32: wire_codec u32_to_be take_u32 "\<lambda>_. True" by (rule codec_u32)
interpretation cu64: wire_codec u64_to_be take_u64 "\<lambda>_. True" by (rule codec_u64)

lemma codec_array32: "wire_codec (\<lambda>bs. bs) take_array32 (\<lambda>bs. length bs = 32)"
  using take_exact_codec [of 32] by (simp add: take_array32_def [abs_def])

text \<open>Length prefixes.\<close>

lemma unat_le_usize_max [simp]: "unat (n :: u64) \<le> usize_max"
  using unat_bounds(4) [of n] by (simp add: usize_max_def)

lemma codec_len: "wire_codec (\<lambda>n. u64_to_be (of_nat n)) (take_len mx) (\<lambda>n. n \<le> mx \<and> n \<le> usize_max)"
proof -
  let ?dec = "\<lambda>len. let len = unat len in rbind (reject (mx < len) (LengthLimit len)) (\<lambda>_. Inr len)"
  have bound: "n \<le> usize_max \<Longrightarrow> unat (of_nat n :: u64) = n" for n
    by (simp add: unat_of_nat usize_max_def)
  have "wire_codec (\<lambda>n. u64_to_be (of_nat n)) (conv_get take_u64 ?dec) (\<lambda>n. n \<le> mx \<and> n \<le> usize_max)"
    by (rule wire_codec_conv [OF codec_u64, where enc = of_nat])
       (auto simp: result_simps Let_def bound unat_le_usize_max)
  moreover have "conv_get take_u64 ?dec = take_len mx"
    by (rule ext) (simp add: conv_get_def take_len_def Let_def rbind_assoc)
  ultimately show ?thesis by simp
qed

interpretation clen: wire_codec "\<lambda>n. u64_to_be (of_nat n)" "take_len mx" "\<lambda>n. n \<le> mx \<and> n \<le> usize_max"
  for mx by (rule codec_len)

text \<open>A counted item: the prefix, then an item whose shape the prefix fixes.\<close>

lemma wire_codec_counted:
  assumes item: "\<And>n. wire_codec put (item n) (\<lambda>x. size_of x = n \<and> ok x)"
    and count: "wire_codec (\<lambda>n. u64_to_be (of_nat n)) count okn"
  shows "wire_codec (\<lambda>x. u64_to_be (of_nat (size_of x)) @ put x)
    (\<lambda>c. rbind (count c) (\<lambda>(n, c). item n c)) (\<lambda>x. okn (size_of x) \<and> ok x)"
proof
  fix c x c'
  assume wf: "cur_wf c" and get: "rbind (count c) (\<lambda>(n, c). item n c) = Inr (x, c')"
  from get obtain n d where g: "count c = Inr (n, d)" and h: "item n d = Inr (x, c')"
    by (auto simp: result_simps)
  show "(okn (size_of x) \<and> ok x) \<and> cur_rest c = (u64_to_be (of_nat (size_of x)) @ put x) @ cur_rest c' \<and>
      c' = cur_advance (length (u64_to_be (of_nat (size_of x)) @ put x)) c"
    using wire_codec.get_sound [OF count wf g]
      wire_codec.get_sound [OF item wire_codec.get_wf [OF count wf g] h] by auto
next
  fix c x ys
  assume wf: "cur_wf c" and ok: "okn (size_of x) \<and> ok x"
    and rest: "cur_rest c = (u64_to_be (of_nat (size_of x)) @ put x) @ ys"
  let ?p = "u64_to_be (of_nat (size_of x))"
  let ?d = "cur_advance (length ?p) c"
  from rest have r: "cur_rest c = ?p @ put x @ ys" by simp
  have "count c = Inr (size_of x, ?d)"
    by (rule wire_codec.get_complete [OF count wf _ r]) (use ok in simp)
  moreover have "item (size_of x) ?d = Inr (x, cur_advance (length (put x)) ?d)"
    by (rule wire_codec.get_complete [OF item cur_advance_wf [OF wf r] _ cur_advance_rest [OF r]])
       (use ok in simp)
  ultimately show "rbind (count c) (\<lambda>(n, c). item n c) =
      Inr (x, cur_advance (length (u64_to_be (of_nat (size_of x)) @ put x)) c)"
    by simp
qed

definition bytes_ok :: "validation_policy \<Rightarrow> bytes \<Rightarrow> bool" where
  "bytes_ok p bs \<longleftrightarrow> length bs \<le> bytes_limit p \<and> length bs \<le> usize_max"

lemma take_bytes_counted:
  "take_bytes p c = rbind (take_len (bytes_limit p) c) (\<lambda>(n, c). take_exact n c)"
  by (simp add: take_bytes_def take_len_def Let_def rbind_assoc split_def)

lemma codec_bytes: "wire_codec lp (take_bytes p) (bytes_ok p)"
  using wire_codec_counted [where size_of = length and ok = "\<lambda>_. True" and put = "\<lambda>bs. bs"
      and item = take_exact, OF _ codec_len [of "bytes_limit p"]] take_exact_codec
  by (simp add: take_bytes_counted [abs_def] lp_def [abs_def] bytes_ok_def [abs_def])

interpretation cbytes: wire_codec lp "take_bytes p" "bytes_ok p" for p
  by (rule codec_bytes)

definition string_ok :: "validation_policy \<Rightarrow> bytes \<Rightarrow> bool" where
  "string_ok p bs \<longleftrightarrow> length bs \<le> max_identifier_bytes p \<and> utf8_valid bs \<and> bytes_ok p bs"

lemma codec_string: "wire_codec lp (take_string p) (string_ok p)"
proof -
  let ?dec = "\<lambda>bs. rbind (reject (max_identifier_bytes p < length bs) (IdentifierLength (length bs)))
    (\<lambda>_. ok_or (from_utf8 bs) InvalidUtf8)"
  have "wire_codec lp (conv_get (take_bytes p) ?dec) (string_ok p)"
    by (rule wire_codec_conv [OF codec_bytes, where enc = "\<lambda>s. s"])
       (auto simp: result_simps string_ok_def)
  moreover have "conv_get (take_bytes p) ?dec = take_string p"
    by (rule ext) (simp add: conv_get_def take_string_def rbind_assoc)
  ultimately show ?thesis by simp
qed

interpretation cstring: wire_codec lp "take_string p" "string_ok p" for p
  by (rule codec_string)

text \<open>A fixed byte string, compared after it was read.\<close>

lemma wire_codec_literal:
  assumes "bytes_ok p lit"
  shows "wire_codec (\<lambda>_ :: unit. lp lit)
    (conv_get (take_bytes p) (\<lambda>bs. reject (bs \<noteq> lit) e)) (\<lambda>_. True)"
  by (rule wire_codec_conv [OF codec_bytes, where enc = "\<lambda>_. lit"])
     (use assms in \<open>auto simp: result_simps\<close>)

lemma bytes_ok_short: "length bs \<le> 4096 \<Longrightarrow> bytes_ok p bs"
  by (simp add: bytes_ok_def bytes_limit_def usize_max_def)

end
