(* ===== verification/WireEncode.thy ===== *)
theory WireEncode
  imports WireCursor
begin

text \<open>
  The parser of crates/blindplane-wire/src/encode.rs: \<open>suite_from_code\<close>, \<open>decode_context\<close>
  and \<open>SealedRecord::decode\<close> up to its re-encoding check (which is in WireRecord, with the
  validation \<open>decode\<close> ends with). Every composite reader is shown to be a \<open>wire_codec\<close>.
\<close>

section \<open>Readers\<close>

definition suite_from_code :: "u8 \<Rightarrow> wire_error + suite" where
  "suite_from_code code =
    (if code = 1 then Inr Aes256Gcm
     else if code = 2 then Inr XChaCha20Poly1305
     else if code = 3 then Inr ChaCha20Poly1305
     else Inl (UnsupportedFormat (ucast code)))"

definition decode_context :: "bytes \<Rightarrow> validation_policy \<Rightarrow> wire_error + record_context" where
  "decode_context bs p =
    rbind (take_bytes p (cursor_new bs)) (\<lambda>(domain, c).
    rbind (reject (domain \<noteq> ascii ''blindplane/context/v1'') (UnsupportedFormat 0)) (\<lambda>_.
    rbind (take_string p c) (\<lambda>(tenant, c).
    rbind (take_string p c) (\<lambda>(object_id, c).
    rbind (take_string p c) (\<lambda>(field, c).
    rbind (take_u64 c) (\<lambda>(epoch, c).
    rbind (take_u64 c) (\<lambda>(version, c).
    rbind (take_u32 c) (\<lambda>(schema_version, c).
    rbind (reject (\<not> cursor_is_empty c) TrailingBytes) (\<lambda>_.
    Inr \<lparr>rc_tenant = tenant, rc_object_id = object_id, rc_field = field, rc_epoch = epoch,
         rc_version = version, rc_schema_version = schema_version\<rparr>)))))))))"

text \<open>The bodies of the two loops of \<open>decode\<close>.\<close>

definition take_envelope :: "validation_policy \<Rightarrow> cursor \<Rightarrow> wire_error + recipient_envelope \<times> cursor" where
  "take_envelope p c =
    rbind (take_string p c) (\<lambda>(recipient_id, c).
    rbind (take_u64 c) (\<lambda>(key_epoch, c).
    rbind (take_array32 c) (\<lambda>(recipient_key_id, c).
    rbind (take_bytes p c) (\<lambda>(encapsulated_key, c).
    rbind (take_bytes p c) (\<lambda>(wrapped_dek, c).
    Inr (\<lparr>re_recipient_id = recipient_id, re_key_epoch = key_epoch,
          re_recipient_key_id = recipient_key_id, re_encapsulated_key = encapsulated_key,
          re_wrapped_dek = wrapped_dek\<rparr>, c))))))"

definition take_index :: "validation_policy \<Rightarrow> cursor \<Rightarrow> wire_error + blind_index \<times> cursor" where
  "take_index p c =
    rbind (take_string p c) (\<lambda>(label, c).
    rbind (take_u32 c) (\<lambda>(schema_version, c).
    rbind (take_string p c) (\<lambda>(canonicalizer_id, c).
    rbind (take_u16 c) (\<lambda>(canonicalizer_version, c).
    rbind (take_u64 c) (\<lambda>(key_epoch, c).
    rbind (take_exact INDEX_TOKEN_LEN c) (\<lambda>(token, c).
    Inr (\<lparr>bi_label = label, bi_schema_version = schema_version,
          bi_canonicalizer_id = canonicalizer_id, bi_canonicalizer_version = canonicalizer_version,
          bi_key_epoch = key_epoch, bi_token = token\<rparr>, c)))))))"

text \<open>\<open>decode\<close> from its first read to its last, returning the record and the cursor.\<close>

definition parse_record :: "validation_policy \<Rightarrow> cursor \<Rightarrow> wire_error + sealed_record \<times> cursor" where
  "parse_record p c =
    rbind (take_bytes p c) (\<lambda>(domain, c).
    rbind (reject (domain \<noteq> RECORD_DOMAIN) (UnsupportedFormat 0)) (\<lambda>_.
    rbind (take_u16 c) (\<lambda>(format_version, c).
    rbind (reject (format_version \<noteq> FORMAT_VERSION) (UnsupportedFormat format_version)) (\<lambda>_.
    rbind (take_u8 c) (\<lambda>(code, c).
    rbind (suite_from_code code) (\<lambda>s.
    rbind (take_bytes p c) (\<lambda>(context_bytes, c).
    rbind (decode_context context_bytes p) (\<lambda>cx.
    rbind (take_u64 c) (\<lambda>(manifest_revision, c).
    rbind (take_array32 c) (\<lambda>(previous_manifest_hash, c).
    rbind (take_array32 c) (\<lambda>(key_commitment, c).
    rbind (take_bytes p c) (\<lambda>(nonce, c).
    rbind (take_bytes p c) (\<lambda>(ciphertext, c).
    rbind (take_len (max_recipients p) c) (\<lambda>(recipient_count, c).
    rbind (many_get (take_envelope p) recipient_count c) (\<lambda>(recipients, c).
    rbind (take_len (max_indexes p) c) (\<lambda>(index_count, c).
    rbind (many_get (take_index p) index_count c) (\<lambda>(indexes, c).
    rbind (take_array32 c) (\<lambda>(signer_public_key, c).
    rbind (take_bytes p c) (\<lambda>(signature, c).
    Inr (\<lparr>sr_format_version = format_version, sr_suite = s, sr_context = cx,
          sr_manifest_revision = manifest_revision,
          sr_previous_manifest_hash = previous_manifest_hash, sr_key_commitment = key_commitment,
          sr_nonce = nonce, sr_ciphertext = ciphertext, sr_recipients = recipients,
          sr_indexes = indexes, sr_signer_public_key = signer_public_key,
          sr_signature = signature\<rparr>, c))))))))))))))))))))"

section \<open>What they accept\<close>

definition envelope_ok :: "validation_policy \<Rightarrow> recipient_envelope \<Rightarrow> bool" where
  "envelope_ok p e \<longleftrightarrow> string_ok p (re_recipient_id e) \<and> length (re_recipient_key_id e) = 32 \<and>
     bytes_ok p (re_encapsulated_key e) \<and> bytes_ok p (re_wrapped_dek e)"

definition index_ok :: "validation_policy \<Rightarrow> blind_index \<Rightarrow> bool" where
  "index_ok p i \<longleftrightarrow> string_ok p (bi_label i) \<and> string_ok p (bi_canonicalizer_id i) \<and>
     length (bi_token i) = INDEX_TOKEN_LEN"

definition context_ok :: "validation_policy \<Rightarrow> record_context \<Rightarrow> bool" where
  "context_ok p c \<longleftrightarrow> string_ok p (rc_tenant c) \<and> string_ok p (rc_object_id c) \<and>
     string_ok p (rc_field c)"

definition parsed_ok :: "validation_policy \<Rightarrow> sealed_record \<Rightarrow> bool" where
  "parsed_ok p r \<longleftrightarrow> sr_format_version r = FORMAT_VERSION \<and>
     context_ok p (sr_context r) \<and> bytes_ok p (canonical_bytes (sr_context r)) \<and>
     length (sr_previous_manifest_hash r) = 32 \<and> length (sr_key_commitment r) = 32 \<and>
     bytes_ok p (sr_nonce r) \<and> bytes_ok p (sr_ciphertext r) \<and>
     length (sr_recipients r) \<le> max_recipients p \<and> length (sr_recipients r) \<le> usize_max \<and>
     (\<forall>e\<in>set (sr_recipients r). envelope_ok p e) \<and>
     length (sr_indexes r) \<le> max_indexes p \<and> length (sr_indexes r) \<le> usize_max \<and>
     (\<forall>i\<in>set (sr_indexes r). index_ok p i) \<and>
     length (sr_signer_public_key r) = 32 \<and> bytes_ok p (sr_signature r)"

section \<open>The readers are codecs\<close>

lemma suite_from_code_iff: "suite_from_code b = Inr s \<longleftrightarrow> b = suite_code s"
  by (cases s) (auto simp: suite_from_code_def)

lemmas codec_prims = codec_u8 codec_u16 codec_u32 codec_u64 codec_array32 codec_bytes codec_string

lemma codec_envelope: "wire_codec envelope_put (take_envelope p) (envelope_ok p)"
proof -
  let ?g = "seq_get (take_string p) (seq_get take_u64 (seq_get take_array32
    (seq_get (take_bytes p) (take_bytes p))))"
  let ?dec = "\<lambda>(i, k, h, e, w). Inr \<lparr>re_recipient_id = i, re_key_epoch = k,
    re_recipient_key_id = h, re_encapsulated_key = e, re_wrapped_dek = w\<rparr>"
  have "wire_codec envelope_put (conv_get ?g ?dec) (envelope_ok p)"
    by (rule wire_codec_conv [OF wire_codec_seq [OF codec_string wire_codec_seq [OF codec_u64
          wire_codec_seq [OF codec_array32 wire_codec_seq [OF codec_bytes codec_bytes]]]],
          where enc = "\<lambda>e. (re_recipient_id e, re_key_epoch e, re_recipient_key_id e,
            re_encapsulated_key e, re_wrapped_dek e)"])
       (auto simp: seq_ok_def seq_put_def envelope_ok_def envelope_put_def)
  moreover have "conv_get ?g ?dec = take_envelope p"
    by (rule ext) (simp add: conv_get_def seq_get_def rbind_assoc split_def take_envelope_def)
  ultimately show ?thesis by simp
qed

interpretation cenvelope: wire_codec envelope_put "take_envelope p" "envelope_ok p" for p
  by (rule codec_envelope)

lemma codec_index: "wire_codec index_put (take_index p) (index_ok p)"
proof -
  let ?g = "seq_get (take_string p) (seq_get take_u32 (seq_get (take_string p)
    (seq_get take_u16 (seq_get take_u64 (take_exact INDEX_TOKEN_LEN)))))"
  let ?dec = "\<lambda>(l, v, ci, cv, k, t). Inr \<lparr>bi_label = l, bi_schema_version = v,
    bi_canonicalizer_id = ci, bi_canonicalizer_version = cv, bi_key_epoch = k, bi_token = t\<rparr>"
  have "wire_codec index_put (conv_get ?g ?dec) (index_ok p)"
    by (rule wire_codec_conv [OF wire_codec_seq [OF codec_string wire_codec_seq [OF codec_u32
          wire_codec_seq [OF codec_string wire_codec_seq [OF codec_u16
          wire_codec_seq [OF codec_u64 take_exact_codec]]]]],
          where enc = "\<lambda>i. (bi_label i, bi_schema_version i, bi_canonicalizer_id i,
            bi_canonicalizer_version i, bi_key_epoch i, bi_token i)"])
       (auto simp: seq_ok_def seq_put_def index_ok_def index_put_def)
  moreover have "conv_get ?g ?dec = take_index p"
    by (rule ext) (simp add: conv_get_def seq_get_def rbind_assoc split_def take_index_def)
  ultimately show ?thesis by simp
qed

interpretation cindex: wire_codec index_put "take_index p" "index_ok p" for p
  by (rule codec_index)

text \<open>The context is read from its own cursor, over the bytes of one length-prefixed field.\<close>

definition take_context :: "validation_policy \<Rightarrow> cursor \<Rightarrow> wire_error + record_context \<times> cursor" where
  "take_context p =
    conv_get (seq_get (conv_get (take_bytes p)
        (\<lambda>bs. reject (bs \<noteq> ascii ''blindplane/context/v1'') (UnsupportedFormat 0)))
      (seq_get (take_string p) (seq_get (take_string p) (seq_get (take_string p)
      (seq_get take_u64 (seq_get take_u64 take_u32))))))
    (\<lambda>(_, t, ob, f, e, v, s). Inr \<lparr>rc_tenant = t, rc_object_id = ob, rc_field = f, rc_epoch = e,
       rc_version = v, rc_schema_version = s\<rparr>)"

lemma codec_context: "wire_codec canonical_bytes (take_context p) (context_ok p)"
  unfolding take_context_def
  by (rule wire_codec_conv [OF wire_codec_seq [OF wire_codec_literal wire_codec_seq [OF codec_string
        wire_codec_seq [OF codec_string wire_codec_seq [OF codec_string
        wire_codec_seq [OF codec_u64 wire_codec_seq [OF codec_u64 codec_u32]]]]]],
        where enc = "\<lambda>c. ((), rc_tenant c, rc_object_id c, rc_field c, rc_epoch c, rc_version c,
          rc_schema_version c)"])
     (auto simp: seq_ok_def seq_put_def context_ok_def canonical_bytes_put context_put_def
        intro: bytes_ok_short)

interpretation ccontext: wire_codec canonical_bytes "take_context p" "context_ok p" for p
  by (rule codec_context)

lemma decode_context_take:
  "decode_context bs p = rbind (take_context p (cursor_new bs)) (\<lambda>(cx, c).
    rbind (reject (\<not> cursor_is_empty c) TrailingBytes) (\<lambda>_. Inr cx))"
  by (simp add: decode_context_def take_context_def conv_get_def seq_get_def rbind_assoc split_def)

lemma decode_context_iff:
  assumes "length bs \<le> usize_max"
  shows "decode_context bs p = Inr cx \<longleftrightarrow> context_ok p cx \<and> bs = canonical_bytes cx"
proof -
  have wf: "cur_wf (cursor_new bs)" using assms by simp
  have "decode_context bs p = Inr cx \<longleftrightarrow>
      (\<exists>c. take_context p (cursor_new bs) = Inr (cx, c) \<and> cursor_is_empty c)"
    by (auto simp: decode_context_take result_simps)
  also have "\<dots> \<longleftrightarrow> (\<exists>c. take_context p (cursor_new bs) = Inr (cx, c) \<and> cur_rest c = [])"
    using ccontext.get_wf [OF wf] cursor_is_empty_rest by blast
  also have "\<dots> \<longleftrightarrow> context_ok p cx \<and> bs = canonical_bytes cx"
    using ccontext.get_sound [OF wf] ccontext.get_complete [OF wf, where ys = "[]"]
      cur_advance_rest [of "cursor_new bs" bs "[]"] by fastforce
  finally show ?thesis .
qed

text \<open>The guarded fields of a record.\<close>

lemma codec_format_version:
  "wire_codec u16_to_be
    (conv_get take_u16 (\<lambda>v. rbind (reject (v \<noteq> FORMAT_VERSION) (UnsupportedFormat v)) (\<lambda>_. Inr v)))
    (\<lambda>v. v = FORMAT_VERSION)"
  by (rule wire_codec_conv [OF codec_u16, where enc = "\<lambda>v. v"]) (auto simp: result_simps)

lemma codec_suite: "wire_codec (\<lambda>s. [suite_code s]) (conv_get take_u8 suite_from_code) (\<lambda>_. True)"
  by (rule wire_codec_conv [OF codec_u8, where enc = suite_code]) (auto simp: suite_from_code_iff)

lemma codec_context_field:
  "wire_codec (\<lambda>cx. lp (canonical_bytes cx)) (conv_get (take_bytes p) (\<lambda>bs. decode_context bs p))
    (\<lambda>cx. context_ok p cx \<and> bytes_ok p (canonical_bytes cx))"
  by (rule wire_codec_conv [OF codec_bytes, where enc = canonical_bytes])
     (auto simp: decode_context_iff bytes_ok_def)

lemma codec_recipients:
  "wire_codec (\<lambda>es. u64_to_be (of_nat (length es)) @ many_put envelope_put es)
    (\<lambda>c. rbind (take_len (max_recipients p) c) (\<lambda>(n, c). many_get (take_envelope p) n c))
    (\<lambda>es. (length es \<le> max_recipients p \<and> length es \<le> usize_max) \<and> (\<forall>e\<in>set es. envelope_ok p e))"
  by (rule wire_codec_counted [where size_of = length, OF wire_codec_many [OF codec_envelope] codec_len])

lemma codec_indexes:
  "wire_codec (\<lambda>is. u64_to_be (of_nat (length is)) @ many_put index_put is)
    (\<lambda>c. rbind (take_len (max_indexes p) c) (\<lambda>(n, c). many_get (take_index p) n c))
    (\<lambda>is. (length is \<le> max_indexes p \<and> length is \<le> usize_max) \<and> (\<forall>i\<in>set is. index_ok p i))"
  by (rule wire_codec_counted [where size_of = length, OF wire_codec_many [OF codec_index] codec_len])

text \<open>The whole record, its fields in the order of the encoding.\<close>

definition record_fields :: "sealed_record \<Rightarrow>
    unit \<times> u16 \<times> suite \<times> record_context \<times> u64 \<times> bytes \<times> bytes \<times> bytes \<times> bytes \<times>
    recipient_envelope list \<times> blind_index list \<times> bytes \<times> bytes" where
  "record_fields r = ((), sr_format_version r, sr_suite r, sr_context r, sr_manifest_revision r,
     sr_previous_manifest_hash r, sr_key_commitment r, sr_nonce r, sr_ciphertext r,
     sr_recipients r, sr_indexes r, sr_signer_public_key r, sr_signature r)"

lemmas codec_fields =
  wire_codec_seq [OF wire_codec_literal [OF bytes_ok_short] wire_codec_seq [OF codec_format_version
  wire_codec_seq [OF codec_suite wire_codec_seq [OF codec_context_field wire_codec_seq [OF codec_u64
  wire_codec_seq [OF codec_array32 wire_codec_seq [OF codec_array32 wire_codec_seq [OF codec_bytes
  wire_codec_seq [OF codec_bytes wire_codec_seq [OF codec_recipients
  wire_codec_seq [OF codec_indexes wire_codec_seq [OF codec_array32 codec_bytes]]]]]]]]]]]]

lemma RECORD_DOMAIN_length [simp, byte_len]: "length RECORD_DOMAIN = 30"
  by (simp add: RECORD_DOMAIN_def)

lemma codec_record: "wire_codec encode (parse_record p) (parsed_ok p)"
proof -
  let ?g = "seq_get (conv_get (take_bytes p) (\<lambda>bs. reject (bs \<noteq> RECORD_DOMAIN) (UnsupportedFormat 0)))
    (seq_get (conv_get take_u16 (\<lambda>v. rbind (reject (v \<noteq> FORMAT_VERSION) (UnsupportedFormat v)) (\<lambda>_. Inr v)))
    (seq_get (conv_get take_u8 suite_from_code)
    (seq_get (conv_get (take_bytes p) (\<lambda>bs. decode_context bs p))
    (seq_get take_u64 (seq_get take_array32 (seq_get take_array32
    (seq_get (take_bytes p) (seq_get (take_bytes p)
    (seq_get (\<lambda>c. rbind (take_len (max_recipients p) c) (\<lambda>(n, c). many_get (take_envelope p) n c))
    (seq_get (\<lambda>c. rbind (take_len (max_indexes p) c) (\<lambda>(n, c). many_get (take_index p) n c))
    (seq_get take_array32 (take_bytes p))))))))))))"
  let ?dec = "\<lambda>(_, v, s, cx, m, ph, kc, n, ct, rs, is, pk, sg). Inr \<lparr>sr_format_version = v, sr_suite = s,
    sr_context = cx, sr_manifest_revision = m, sr_previous_manifest_hash = ph,
    sr_key_commitment = kc, sr_nonce = n, sr_ciphertext = ct, sr_recipients = rs, sr_indexes = is,
    sr_signer_public_key = pk, sr_signature = sg\<rparr>"
  have "wire_codec encode (conv_get ?g ?dec) (parsed_ok p)"
    by (rule wire_codec_conv [OF codec_fields, where enc = record_fields])
       (auto simp: seq_ok_def seq_put_def record_fields_def parsed_ok_def encode_put signing_bytes_put)
  moreover have "conv_get ?g ?dec = parse_record p"
    by (rule ext) (simp add: conv_get_def seq_get_def rbind_assoc split_def parse_record_def)
  ultimately show ?thesis by simp
qed

interpretation crecord: wire_codec encode "parse_record p" "parsed_ok p" for p
  by (rule codec_record)

end
