(* ===== verification/WireRecord.thy ===== *)
theory WireRecord
  imports WireEncode
begin

text \<open>
  Validation of sealed records (crates/blindplane-wire/src/record.rs), the envelope lookup, and
  \<open>SealedRecord::decode\<close> (encode.rs), which ends with that validation. The signature check
  is a parameter \<open>vf\<close>: the wire format only looks at whether it succeeds. The declarative
  counterparts are \<open>limits_ok\<close> and \<open>structure_ok\<close>; \<open>decode_iff\<close> says exactly which
  inputs decode, and to what.
\<close>

section \<open>Validation\<close>

definition validate_label :: "str \<Rightarrow> nat \<Rightarrow> wire_error + unit" where
  "validate_label value mx =
    reject (value = [] \<or> mx < length value) (IdentifierLength (length value))"

definition validate_context :: "record_context \<Rightarrow> validation_policy \<Rightarrow> wire_error + unit" where
  "validate_context c p =
    rbind (validate_label (rc_tenant c) (max_identifier_bytes p)) (\<lambda>_.
    rbind (validate_label (rc_object_id c) (max_identifier_bytes p)) (\<lambda>_.
    rbind (validate_label (rc_field c) (max_identifier_bytes p)) (\<lambda>_.
    reject (rc_epoch c = 0 \<or> rc_version c = 0 \<or> rc_schema_version c = 0) InvalidVersion)))"

text \<open>The two loops of \<open>validate_limits\<close>, with the key of the previous iteration.\<close>

fun validate_recipients ::
  "validation_policy \<Rightarrow> (str \<times> u64) option \<Rightarrow> recipient_envelope list \<Rightarrow> wire_error + unit" where
  "validate_recipients p prev [] = Inr ()"
| "validate_recipients p prev (e # es) =
    rbind (validate_label (re_recipient_id e) (max_identifier_bytes p)) (\<lambda>_.
    rbind (reject (re_key_epoch e = 0) InvalidKeyEpoch) (\<lambda>_.
    let current = (re_recipient_id e, re_key_epoch e) in
    rbind (reject (case prev of None \<Rightarrow> False | Some k \<Rightarrow> k \<ge> current) NonCanonicalRecipients) (\<lambda>_.
    rbind (reject (length (re_encapsulated_key e) \<noteq> X25519_KEY_LEN)
      (InvalidEncapsulatedKeyLength (length (re_encapsulated_key e)))) (\<lambda>_.
    rbind (reject (length (re_wrapped_dek e) \<noteq> WRAPPED_DEK_LEN)
      (InvalidWrappedDekLength (length (re_wrapped_dek e)))) (\<lambda>_.
    validate_recipients p (Some current) es)))))"

fun validate_indexes ::
  "validation_policy \<Rightarrow> (str \<times> u64) option \<Rightarrow> blind_index list \<Rightarrow> wire_error + unit" where
  "validate_indexes p prev [] = Inr ()"
| "validate_indexes p prev (i # is) =
    rbind (validate_label (bi_label i) (max_identifier_bytes p)) (\<lambda>_.
    rbind (validate_label (bi_canonicalizer_id i) (max_identifier_bytes p)) (\<lambda>_.
    rbind (reject (bi_key_epoch i = 0 \<or> bi_schema_version i = 0 \<or> bi_canonicalizer_version i = 0)
      InvalidIndexDefinition) (\<lambda>_.
    let current = (bi_label i, bi_key_epoch i) in
    rbind (reject (case prev of None \<Rightarrow> False | Some k \<Rightarrow> k \<ge> current) NonCanonicalIndexes) (\<lambda>_.
    validate_indexes p (Some current) is))))"

definition validate_limits :: "sealed_record \<Rightarrow> validation_policy \<Rightarrow> wire_error + unit" where
  "validate_limits r p =
    rbind (reject (sr_format_version r \<noteq> FORMAT_VERSION) (UnsupportedFormat (sr_format_version r))) (\<lambda>_.
    rbind (validate_context (sr_context r) p) (\<lambda>_.
    rbind (reject (sr_manifest_revision r = 0
        \<or> (sr_manifest_revision r = 1 \<and> sr_previous_manifest_hash r \<noteq> replicate 32 0)
        \<or> (sr_manifest_revision r > 1 \<and> sr_previous_manifest_hash r = replicate 32 0))
      InvalidManifestChain) (\<lambda>_.
    rbind (reject (length (sr_nonce r) \<noteq> nonce_len (sr_suite r))
      (InvalidNonceLength (nonce_len (sr_suite r)) (length (sr_nonce r)))) (\<lambda>_.
    rbind (reject (length (sr_ciphertext r) < TAG_LEN
        \<or> max_ciphertext_bytes p < length (sr_ciphertext r))
      (CiphertextSize (length (sr_ciphertext r)))) (\<lambda>_.
    rbind (reject (sr_recipients r = [] \<or> max_recipients p < length (sr_recipients r))
      (RecipientCount (length (sr_recipients r)))) (\<lambda>_.
    rbind (validate_recipients p None (sr_recipients r)) (\<lambda>_.
    rbind (reject (max_indexes p < length (sr_indexes r)) (IndexCount (length (sr_indexes r)))) (\<lambda>_.
    rbind (validate_indexes p None (sr_indexes r)) (\<lambda>_.
    reject (length (sr_signature r) \<noteq> 64) (InvalidSignatureLength (length (sr_signature r))))))))))))"

definition validate_shape :: "sealed_record \<Rightarrow> validation_policy \<Rightarrow> wire_error + unit" where
  "validate_shape r p = validate_limits r p"

definition validate_structure ::
  "signature_check \<Rightarrow> sealed_record \<Rightarrow> validation_policy \<Rightarrow> wire_error + unit" where
  "validate_structure vf r p =
    rbind (validate_limits r p) (\<lambda>_.
    rbind (reject (length (sr_signature r) \<noteq> 64) (InvalidSignatureLength (length (sr_signature r)))) (\<lambda>_.
    map_err (\<lambda>_. InvalidSignature) (vf (sr_signer_public_key r) (signing_bytes r) (sr_signature r))))"

definition validate ::
  "signature_check \<Rightarrow> sealed_record \<Rightarrow> validation_policy \<Rightarrow> wire_error + unit" where
  "validate vf r p =
    rbind (validate_structure vf r p) (\<lambda>_.
    rbind (reject (allowed_signers p = {}) NoTrustedSigners) (\<lambda>_.
    reject (sr_signer_public_key r \<notin> allowed_signers p) UntrustedSigner))"

definition validate_pinned ::
  "signature_check \<Rightarrow> sealed_record \<Rightarrow> prepared_verifier \<Rightarrow> validation_policy \<Rightarrow> wire_error + unit" where
  "validate_pinned vf r v p =
    rbind (validate_limits r p) (\<lambda>_.
    rbind (reject (length (sr_signature r) \<noteq> 64) (InvalidSignatureLength (length (sr_signature r)))) (\<lambda>_.
    if sr_signer_public_key r = pv_public_key v
    then map_err (\<lambda>_. InvalidSignature) (pv_verify_strict v (signing_bytes r) (sr_signature r))
    else
      rbind (map_err (\<lambda>_. InvalidSignature)
        (vf (sr_signer_public_key r) (signing_bytes r) (sr_signature r))) (\<lambda>_.
      Inl UntrustedSigner)))"

definition recipient :: "sealed_record \<Rightarrow> str \<Rightarrow> u64 \<Rightarrow> bytes \<Rightarrow> recipient_envelope option" where
  "recipient r recipient_id key_epoch recipient_key_id =
    find (\<lambda>e. re_recipient_id e = recipient_id \<and> re_key_epoch e = key_epoch \<and>
      re_recipient_key_id e = recipient_key_id) (sr_recipients r)"

definition decode ::
  "signature_check \<Rightarrow> bytes \<Rightarrow> validation_policy \<Rightarrow> wire_error + sealed_record" where
  "decode vf bs p =
    rbind (parse_record p (cursor_new bs)) (\<lambda>(r, c).
    rbind (reject (\<not> cursor_is_empty c) TrailingBytes) (\<lambda>_.
    rbind (reject (encode r \<noteq> bs) NonCanonicalEncoding) (\<lambda>_.
    rbind (validate_structure vf r p) (\<lambda>_.
    Inr r))))"

section \<open>What validation accepts\<close>

definition label_ok :: "validation_policy \<Rightarrow> str \<Rightarrow> bool" where
  "label_ok p s \<longleftrightarrow> s \<noteq> [] \<and> length s \<le> max_identifier_bytes p"

definition recipient_key :: "recipient_envelope \<Rightarrow> str \<times> u64" where
  "recipient_key e = (re_recipient_id e, re_key_epoch e)"

definition index_key :: "blind_index \<Rightarrow> str \<times> u64" where
  "index_key i = (bi_label i, bi_key_epoch i)"

definition limits_ok :: "validation_policy \<Rightarrow> sealed_record \<Rightarrow> bool" where
  "limits_ok p r \<longleftrightarrow>
     sr_format_version r = FORMAT_VERSION \<and>
     label_ok p (rc_tenant (sr_context r)) \<and> label_ok p (rc_object_id (sr_context r)) \<and>
     label_ok p (rc_field (sr_context r)) \<and>
     rc_epoch (sr_context r) \<noteq> 0 \<and> rc_version (sr_context r) \<noteq> 0 \<and>
     rc_schema_version (sr_context r) \<noteq> 0 \<and>
     sr_manifest_revision r \<noteq> 0 \<and>
     (sr_manifest_revision r = 1 \<longleftrightarrow> sr_previous_manifest_hash r = replicate 32 0) \<and>
     length (sr_nonce r) = nonce_len (sr_suite r) \<and>
     TAG_LEN \<le> length (sr_ciphertext r) \<and> length (sr_ciphertext r) \<le> max_ciphertext_bytes p \<and>
     sr_recipients r \<noteq> [] \<and> length (sr_recipients r) \<le> max_recipients p \<and>
     (\<forall>e\<in>set (sr_recipients r). label_ok p (re_recipient_id e) \<and> re_key_epoch e \<noteq> 0 \<and>
        length (re_encapsulated_key e) = X25519_KEY_LEN \<and> length (re_wrapped_dek e) = WRAPPED_DEK_LEN) \<and>
     sorted_wrt (<) (map recipient_key (sr_recipients r)) \<and>
     length (sr_indexes r) \<le> max_indexes p \<and>
     (\<forall>i\<in>set (sr_indexes r). label_ok p (bi_label i) \<and> label_ok p (bi_canonicalizer_id i) \<and>
        bi_key_epoch i \<noteq> 0 \<and> bi_schema_version i \<noteq> 0 \<and> bi_canonicalizer_version i \<noteq> 0) \<and>
     sorted_wrt (<) (map index_key (sr_indexes r)) \<and>
     length (sr_signature r) = 64"

definition structure_ok :: "signature_check \<Rightarrow> validation_policy \<Rightarrow> sealed_record \<Rightarrow> bool" where
  "structure_ok vf p r \<longleftrightarrow> limits_ok p r \<and>
     vf (sr_signer_public_key r) (signing_bytes r) (sr_signature r) = Inr ()"

lemma validate_label_iff [simp]: "validate_label s (max_identifier_bytes p) = Inr u \<longleftrightarrow> label_ok p s"
  by (auto simp: validate_label_def label_ok_def result_simps)

lemma validate_context_iff:
  "validate_context c p = Inr u \<longleftrightarrow> label_ok p (rc_tenant c) \<and> label_ok p (rc_object_id c) \<and>
     label_ok p (rc_field c) \<and> rc_epoch c \<noteq> 0 \<and> rc_version c \<noteq> 0 \<and> rc_schema_version c \<noteq> 0"
  by (auto simp: validate_context_def result_simps)

lemma validate_recipients_iff:
  "validate_recipients p prev es = Inr u \<longleftrightarrow>
    (\<forall>e\<in>set es. label_ok p (re_recipient_id e) \<and> re_key_epoch e \<noteq> 0 \<and>
       length (re_encapsulated_key e) = X25519_KEY_LEN \<and> length (re_wrapped_dek e) = WRAPPED_DEK_LEN) \<and>
    sorted_wrt (<) (map recipient_key es) \<and>
    (\<forall>k. prev = Some k \<longrightarrow> (\<forall>e\<in>set es. k < recipient_key e))"
proof (induction es arbitrary: prev u)
  case (Cons e es)
  have prev: "(case prev of None \<Rightarrow> False | Some k \<Rightarrow> k \<ge> (re_recipient_id e, re_key_epoch e)) \<longleftrightarrow>
      (\<exists>k. prev = Some k \<and> \<not> k < recipient_key e)"
    by (auto simp: recipient_key_def not_less split: option.split)
  show ?case
    unfolding validate_recipients.simps Let_def prev
    by (auto simp: result_simps Cons.IH recipient_key_def [of e, symmetric] intro: less_trans)
qed simp

lemma validate_indexes_iff:
  "validate_indexes p prev is = Inr u \<longleftrightarrow>
    (\<forall>i\<in>set is. label_ok p (bi_label i) \<and> label_ok p (bi_canonicalizer_id i) \<and>
       bi_key_epoch i \<noteq> 0 \<and> bi_schema_version i \<noteq> 0 \<and> bi_canonicalizer_version i \<noteq> 0) \<and>
    sorted_wrt (<) (map index_key is) \<and>
    (\<forall>k. prev = Some k \<longrightarrow> (\<forall>i\<in>set is. k < index_key i))"
proof (induction "is" arbitrary: prev u)
  case (Cons i "is")
  have prev: "(case prev of None \<Rightarrow> False | Some k \<Rightarrow> k \<ge> (bi_label i, bi_key_epoch i)) \<longleftrightarrow>
      (\<exists>k. prev = Some k \<and> \<not> k < index_key i)"
    by (auto simp: index_key_def not_less split: option.split)
  show ?case
    unfolding validate_indexes.simps Let_def prev
    by (auto simp: result_simps Cons.IH index_key_def [of i, symmetric] intro: less_trans)
qed simp

lemma revision_cases: "\<not> (1 :: u64) < m \<Longrightarrow> m \<noteq> 0 \<Longrightarrow> m = 1"
  by (simp add: word_less_nat_alt word_unat_eq_iff not_less le_eq_less_or_eq)

lemma chain_guard_iff:
  "\<not> (m = 0 \<or> (m = 1 \<and> h \<noteq> z) \<or> (m > (1 :: u64) \<and> h = z)) \<longleftrightarrow> m \<noteq> 0 \<and> (m = 1 \<longleftrightarrow> h = z)"
  using revision_cases [of m] by auto

lemma validate_limits_iff: "validate_limits r p = Inr u \<longleftrightarrow> limits_ok p r"
  unfolding validate_limits_def rbind_eq_Inr reject_eq_Inr chain_guard_iff validate_context_iff
    validate_recipients_iff validate_indexes_iff limits_ok_def
  by (simp add: not_less conj_ac)

lemma validate_structure_iff: "validate_structure vf r p = Inr u \<longleftrightarrow> structure_ok vf p r"
  by (auto simp: validate_structure_def result_simps validate_limits_iff structure_ok_def limits_ok_def)

lemma validate_iff:
  "validate vf r p = Inr u \<longleftrightarrow> structure_ok vf p r \<and> sr_signer_public_key r \<in> allowed_signers p"
  by (auto simp: validate_def result_simps validate_structure_iff)

lemma validate_pinned_same:
  assumes "\<forall>m sig. (pv_verify_strict v m sig = Inr ()) = (vf (pv_public_key v) m sig = Inr ())"
  shows "validate_pinned vf r v p = validate vf r (p\<lparr>allowed_signers := {pv_public_key v}\<rparr>)"
proof -
  have lim: "validate_limits r (p\<lparr>allowed_signers := S\<rparr>) = validate_limits r p" for S
  proof -
    have "validate_recipients (p\<lparr>allowed_signers := S\<rparr>) k es = validate_recipients p k es" for k es
      by (induction es arbitrary: k) simp_all
    moreover have "validate_indexes (p\<lparr>allowed_signers := S\<rparr>) k is = validate_indexes p k is" for k "is"
      by (induction "is" arbitrary: k) simp_all
    ultimately show ?thesis by (simp add: validate_limits_def validate_context_def)
  qed
  have sig: "map_err (\<lambda>_. InvalidSignature) a = map_err (\<lambda>_. InvalidSignature) b"
    if "(a = Inr ()) = (b = Inr ())" for a b :: "signature_error + unit"
    using that by (cases a; cases b) auto
  have pv: "map_err (\<lambda>_. InvalidSignature) (pv_verify_strict v m s)
      = map_err (\<lambda>_. InvalidSignature) (vf (pv_public_key v) m s)" for m s
    by (rule sig) (use assms in blast)
  have fin: "rbind x Inr = x" for x :: "wire_error + unit"
    by (cases x) simp_all
  show ?thesis
    by (cases "sr_signer_public_key r = pv_public_key v")
       (simp_all add: validate_pinned_def validate_def validate_structure_def lim pv rbind_assoc fin)
qed

section \<open>What decoding accepts\<close>

text \<open>
  The re-encoding test of \<open>decode\<close> never fires: whatever was parsed to the end re-encodes to
  the input. The input of \<open>decode\<close> is a slice, so its length is at most \<open>usize_max\<close>.
\<close>

lemma parse_record_end:
  assumes "length bs \<le> usize_max"
  shows "parse_record p (cursor_new bs) = Inr (r, c) \<and> cursor_is_empty c \<longleftrightarrow>
    parsed_ok p r \<and> encode r = bs \<and> c = cur_advance (length bs) (cursor_new bs)"
proof -
  have wf: "cur_wf (cursor_new bs)" using assms by simp
  show ?thesis
    using crecord.get_sound [OF wf] crecord.get_wf [OF wf] crecord.get_complete [OF wf, where ys = "[]"]
      cursor_is_empty_rest cur_advance_rest [of "cursor_new bs" bs "[]"]
      cur_advance_wf [OF wf, of bs "[]"]
    by fastforce
qed

lemma decode_iff:
  assumes "length bs \<le> usize_max"
  shows "decode vf bs p = Inr r \<longleftrightarrow> parsed_ok p r \<and> encode r = bs \<and> structure_ok vf p r"
proof -
  have "decode vf bs p = Inr r \<longleftrightarrow>
      (\<exists>c. parse_record p (cursor_new bs) = Inr (r, c) \<and> cursor_is_empty c) \<and>
      encode r = bs \<and> structure_ok vf p r"
    by (auto simp: decode_def result_simps validate_structure_iff)
  then show ?thesis using parse_record_end [OF assms] by blast
qed

lemma many_put_length: "(\<And>x. x \<in> set xs \<Longrightarrow> 1 \<le> length (put x)) \<Longrightarrow> length xs \<le> length (many_put put xs)"
proof (induction xs)
  case (Cons x xs)
  then have "1 \<le> length (put x)" "length xs \<le> length (many_put put xs)" by simp_all
  then show ?case by (simp add: many_put_def)
qed (simp add: many_put_def)

lemma envelope_put_length: "1 \<le> length (envelope_put e)"
  by (simp add: envelope_put_def)

lemma index_put_length: "1 \<le> length (index_put i)"
  by (simp add: index_put_def)

lemma counts_fit:
  assumes "length (encode r) \<le> usize_max"
  shows "length (sr_recipients r) \<le> usize_max" "length (sr_indexes r) \<le> usize_max"
  using assms many_put_length [of "sr_recipients r" envelope_put] many_put_length [of "sr_indexes r" index_put]
    envelope_put_length index_put_length
  by (fastforce simp: encode_put signing_bytes_put)+

lemma record_parts_fit:
  assumes "length (encode r) \<le> usize_max"
  shows "length (canonical_bytes (sr_context r)) \<le> usize_max" "length (sr_ciphertext r) \<le> usize_max"
  using assms by (simp_all add: encode_put signing_bytes_put)

lemma canonical_bytes_length [byte_len]:
  "length (canonical_bytes c) =
     73 + length (rc_tenant c) + length (rc_object_id c) + length (rc_field c)"
  by (simp add: canonical_bytes_put context_put_def)

text \<open>The identifiers a policy admits leave room for the context in a length-limited field.\<close>

definition policy_fits :: "validation_policy \<Rightarrow> bool" where
  "policy_fits p \<longleftrightarrow> 73 + 3 * max_identifier_bytes p \<le> bytes_limit p"

lemma default_policy_fits: "policy_fits default_policy"
  by (simp add: policy_fits_def default_policy_def bytes_limit_def)

lemma label_string_ok:
  "policy_fits p \<Longrightarrow> label_ok p s \<Longrightarrow> utf8_valid s \<Longrightarrow> length s \<le> usize_max \<Longrightarrow> string_ok p s"
  by (simp add: label_ok_def string_ok_def bytes_ok_def policy_fits_def)

lemma limits_parsed_ok:
  assumes wf: "record_wf r" and ok: "limits_ok p r" and fits: "policy_fits p"
  shows "parsed_ok p r"
proof -
  have enc: "length (encode r) \<le> usize_max" using wf by (simp add: record_wf_def)
  have es: "\<forall>e\<in>set (sr_recipients r). length (re_recipient_id e) \<le> usize_max"
  proof
    fix e assume "e \<in> set (sr_recipients r)"
    then have "length (envelope_put e) \<le> length (many_put envelope_put (sr_recipients r))"
      by (auto simp: many_put_def length_concat intro: member_le_sum_list)
    then show "length (re_recipient_id e) \<le> usize_max"
      using enc by (simp add: encode_put signing_bytes_put envelope_put_def)
  qed
  have ixs: "\<forall>i\<in>set (sr_indexes r). length (bi_label i) \<le> usize_max \<and> length (bi_canonicalizer_id i) \<le> usize_max"
  proof
    fix i assume "i \<in> set (sr_indexes r)"
    then have "length (index_put i) \<le> length (many_put index_put (sr_indexes r))"
      by (auto simp: many_put_def length_concat intro: member_le_sum_list)
    then show "length (bi_label i) \<le> usize_max \<and> length (bi_canonicalizer_id i) \<le> usize_max"
      using enc by (simp add: encode_put signing_bytes_put index_put_def)
  qed
  have cx: "context_ok p (sr_context r)" "bytes_ok p (canonical_bytes (sr_context r))"
    using wf ok fits record_parts_fit [OF enc]
    by (auto simp: context_ok_def record_wf_def context_wf_def limits_ok_def bytes_ok_def
        canonical_bytes_length policy_fits_def label_ok_def string_ok_def)
  have nonce: "bytes_ok p (sr_nonce r)"
    using ok by (cases "sr_suite r") (auto simp: limits_ok_def intro: bytes_ok_short)
  have ct: "bytes_ok p (sr_ciphertext r)"
    using ok record_parts_fit [OF enc] by (simp add: limits_ok_def bytes_ok_def bytes_limit_def le_max_iff_disj)
  have envs: "\<forall>e\<in>set (sr_recipients r). envelope_ok p e"
    using wf ok es fits
    by (auto simp: envelope_ok_def limits_ok_def record_wf_def envelope_wf_def wire_consts
        intro!: label_string_ok bytes_ok_short)
  have idxs: "\<forall>i\<in>set (sr_indexes r). index_ok p i"
    using wf ok ixs fits
    by (auto simp: index_ok_def limits_ok_def record_wf_def index_wf_def intro!: label_string_ok)
  show ?thesis
    using wf ok cx nonce ct envs idxs counts_fit [OF enc]
    by (auto simp: parsed_ok_def record_wf_def limits_ok_def intro: bytes_ok_short)
qed

lemma parsed_record_wf: "parsed_ok p r \<Longrightarrow> length (encode r) \<le> usize_max \<Longrightarrow> record_wf r"
  by (auto simp: parsed_ok_def record_wf_def context_ok_def context_wf_def envelope_ok_def
      envelope_wf_def index_ok_def index_wf_def string_ok_def)

section \<open>Injectivity\<close>

text \<open>The most generous policy: only the address space limits it.\<close>

definition wide_policy :: validation_policy where
  "wide_policy = \<lparr>max_ciphertext_bytes = usize_max, max_recipients = usize_max,
     max_indexes = usize_max, max_identifier_bytes = usize_max, allowed_signers = {}\<rparr>"

lemma wide_sel [simp]:
  "max_ciphertext_bytes wide_policy = usize_max" "max_recipients wide_policy = usize_max"
  "max_indexes wide_policy = usize_max" "max_identifier_bytes wide_policy = usize_max"
  by (simp_all add: wide_policy_def)

lemma wide_bytes_ok: "bytes_ok wide_policy bs \<longleftrightarrow> length bs \<le> usize_max"
  by (simp add: bytes_ok_def bytes_limit_def usize_max_def)

lemma wide_string_ok: "string_ok wide_policy bs \<longleftrightarrow> length bs \<le> usize_max \<and> utf8_valid bs"
  by (auto simp: string_ok_def wide_bytes_ok)

lemma context_wide_ok:
  "context_wf c \<Longrightarrow> length (canonical_bytes c) \<le> usize_max \<Longrightarrow> context_ok wide_policy c"
  by (simp add: context_ok_def wide_string_ok context_wf_def canonical_bytes_length)

lemma canonical_bytes_inject:
  assumes "context_wf c" "context_wf d" "length (canonical_bytes c) \<le> usize_max"
    and eq: "canonical_bytes c = canonical_bytes d"
  shows "c = d"
  using ccontext.put_prefix_free [of wide_policy c d "[]" "[]"] context_wide_ok assms by simp

lemma lp_inject:
  assumes "lp xs @ a = lp ys @ b" "length xs \<le> usize_max" "length ys \<le> usize_max"
  shows "xs = ys \<and> a = b"
proof -
  have n: "u64_to_be (of_nat (length xs)) = u64_to_be (of_nat (length ys))" and
    r: "xs @ a = ys @ b"
    using assms(1) by (simp_all add: lp_def append_eq_append_conv)
  have "unat (of_nat (length xs) :: u64) = unat (of_nat (length ys) :: u64)"
    using n by simp
  then have "length xs = length ys"
    using assms(2,3) by (simp add: unat_of_nat usize_max_def)
  with r show ?thesis by simp
qed

lemma signing_record_parsed_ok:
  assumes "record_wf r"
  shows "parsed_ok wide_policy (r\<lparr>sr_format_version := FORMAT_VERSION, sr_signature := []\<rparr>)"
proof -
  let ?r = "r\<lparr>sr_format_version := FORMAT_VERSION, sr_signature := []\<rparr>"
  have enc: "length (encode r) \<le> usize_max" using assms by (simp add: record_wf_def)
  have es: "length (envelope_put e) \<le> usize_max" if "e \<in> set (sr_recipients r)" for e
  proof -
    have "length (envelope_put e) \<le> length (many_put envelope_put (sr_recipients r))"
      using that by (auto simp: many_put_def length_concat intro: member_le_sum_list)
    then show ?thesis using enc by (simp add: encode_put signing_bytes_put)
  qed
  have ixs: "length (index_put i) \<le> usize_max" if "i \<in> set (sr_indexes r)" for i
  proof -
    have "length (index_put i) \<le> length (many_put index_put (sr_indexes r))"
      using that by (auto simp: many_put_def length_concat intro: member_le_sum_list)
    then show ?thesis using enc by (simp add: encode_put signing_bytes_put)
  qed
  have envs: "\<forall>e\<in>set (sr_recipients r). envelope_ok wide_policy e"
    using assms es
    by (fastforce simp: record_wf_def envelope_wf_def envelope_ok_def wide_string_ok wide_bytes_ok envelope_put_def)
  have idxs: "\<forall>i\<in>set (sr_indexes r). index_ok wide_policy i"
    using assms ixs
    by (fastforce simp: record_wf_def index_wf_def index_ok_def wide_string_ok index_put_def)
  have nonce: "length (sr_nonce r) \<le> usize_max"
    using enc by (simp add: encode_put signing_bytes_put)
  show ?thesis
    using assms envs idxs nonce counts_fit [OF enc] record_parts_fit [OF enc]
    by (auto simp: parsed_ok_def wide_bytes_ok record_wf_def intro: context_wide_ok)
qed

lemma signing_bytes_version:
  "signing_bytes r = lp RECORD_DOMAIN @ u16_to_be (sr_format_version r) @
     drop 40 (signing_bytes (r\<lparr>sr_format_version := v\<rparr>))"
  by (simp add: signing_bytes_put lp_def)

lemma signing_bytes_inject:
  assumes wf: "record_wf r" "record_wf s" and eq: "signing_bytes r = signing_bytes s"
  shows "s\<lparr>sr_signature := sr_signature r\<rparr> = r"
proof -
  let ?n = "\<lambda>t. t\<lparr>sr_format_version := FORMAT_VERSION, sr_signature := []\<rparr>"
  have v: "sr_format_version r = sr_format_version s"
    using eq by (simp add: signing_bytes_put append_eq_append_conv)
  have body: "signing_bytes (t\<lparr>sr_format_version := FORMAT_VERSION\<rparr>) =
      lp RECORD_DOMAIN @ u16_to_be FORMAT_VERSION @ drop 40 (signing_bytes t)" for t
    by (simp add: signing_bytes_put lp_def)
  have sig: "signing_bytes (t\<lparr>sr_signature := x\<rparr>) = signing_bytes t" for t x
    by (simp add: signing_bytes_put)
  have enc: "encode (?n t) = lp RECORD_DOMAIN @ u16_to_be FORMAT_VERSION @ drop 40 (signing_bytes t) @ lp []" for t
    by (simp only: encode_put sig body append_assoc sealed_record.select_convs sealed_record.update_convs
        sealed_record.surjective) (simp add: lp_def)
  have "length (encode (?n r)) \<le> usize_max"
    using wf(1) by (simp add: record_wf_def encode_put signing_bytes_put)
  then have "?n r = ?n s"
    using crecord.put_prefix_free [of wide_policy "?n r" "?n s" "[]" "[]"]
      signing_record_parsed_ok [OF wf(1)] signing_record_parsed_ok [OF wf(2)] enc [of r] enc [of s] eq
    by simp
  then have "(?n s)\<lparr>sr_format_version := sr_format_version r, sr_signature := sr_signature r\<rparr> =
      (?n r)\<lparr>sr_format_version := sr_format_version r, sr_signature := sr_signature r\<rparr>"
    by simp
  then show ?thesis using v by simp
qed

text \<open>No step of the parser and no check of the validation reports a non-canonical encoding.\<close>

definition other_error :: "wire_error + 'a \<Rightarrow> bool" where
  "other_error m \<longleftrightarrow> m \<noteq> Inl NonCanonicalEncoding"

named_theorems other_errors

lemma other_error_bind [other_errors]:
  "other_error m \<Longrightarrow> (\<And>a. other_error (f a)) \<Longrightarrow> other_error (rbind m f)"
  by (cases m) (auto simp: other_error_def)

lemma other_error_split [other_errors]: "(\<And>a b. other_error (f a b)) \<Longrightarrow> other_error (case x of (a, b) \<Rightarrow> f a b)"
  by (cases x) auto

lemma other_error_prims [other_errors]:
  "other_error (Inr a)" "e \<noteq> NonCanonicalEncoding \<Longrightarrow> other_error (reject c e)"
  "e \<noteq> NonCanonicalEncoding \<Longrightarrow> other_error (ok_or x e)"
  "e \<noteq> NonCanonicalEncoding \<Longrightarrow> other_error (map_err (\<lambda>_. e) y)"
  by (auto simp: other_error_def result_simps)

lemma take_exact_other_error [other_errors]: "other_error (take_exact n c)"
  unfolding take_exact_def by (intro other_errors) simp_all

lemma take_ints_other_error [other_errors]:
  "other_error (take_u8 c)" "other_error (take_u16 c)" "other_error (take_u32 c)"
  "other_error (take_u64 c)" "other_error (take_array32 c)"
  unfolding take_u8_def take_u16_def take_u32_def take_u64_def take_array32_def
  by (intro other_errors)+

lemma take_bytes_other_error [other_errors]:
  "other_error (take_bytes p c)" "other_error (take_len n c)"
  unfolding take_bytes_def take_len_def Let_def by (intro other_errors; simp)+

lemma take_string_other_error [other_errors]: "other_error (take_string p c)"
  unfolding take_string_def by (intro other_errors) simp_all

lemma take_composites_other_error [other_errors]:
  "other_error (take_envelope p c)" "other_error (take_index p c)"
  "other_error (decode_context bs p)" "other_error (suite_from_code b)"
  unfolding take_envelope_def take_index_def decode_context_def
  by (intro other_errors; simp)+ (simp add: suite_from_code_def other_error_def)

lemma many_get_other_error [other_errors]:
  "(\<And>c. other_error (g c)) \<Longrightarrow> other_error (many_get g n c)"
  by (induction n arbitrary: c) (auto intro!: other_errors)

lemma parse_record_other_error: "other_error (parse_record p c)"
  unfolding parse_record_def by (intro other_errors; simp)

lemma validate_loops_other_error [other_errors]:
  "other_error (validate_recipients p prev es)" "other_error (validate_indexes p prev is)"
  by (induction es arbitrary: prev; simp add: Let_def validate_label_def; (intro other_errors; simp)?)
     (induction "is" arbitrary: prev; simp add: Let_def validate_label_def; (intro other_errors; simp)?)

lemma validate_structure_other_error: "other_error (validate_structure vf r p)"
  unfolding validate_structure_def validate_limits_def validate_context_def validate_label_def
  by (intro other_errors; simp)

text \<open>Looking up by key in a list sorted by key.\<close>

lemma find_sorted_key:
  assumes "sorted_wrt (<) (map recipient_key es)"
  shows "find (\<lambda>e. re_recipient_id e = i \<and> re_key_epoch e = k \<and> re_recipient_key_id e = h) es = Some e \<longleftrightarrow>
    e \<in> set es \<and> re_recipient_id e = i \<and> re_key_epoch e = k \<and> re_recipient_key_id e = h"
  using assms
proof (induction es)
  case (Cons a es)
  have "recipient_key a \<noteq> recipient_key e" if "e \<in> set es"
    using Cons.prems that by auto
  then show ?case using Cons by (auto simp: recipient_key_def)
qed simp

lemma unat_of_nat_usize: "n \<le> usize_max \<Longrightarrow> unat (of_nat n :: u64) = n"
  by (simp add: unat_of_nat usize_max_def)

section \<open>A record for the witnesses\<close>

definition accept_all :: signature_check where
  "accept_all = (\<lambda>_ _ _. Inr ())"

definition sample_record :: sealed_record where
  "sample_record = \<lparr>sr_format_version = 1, sr_suite = XChaCha20Poly1305,
     sr_context = \<lparr>rc_tenant = [116], rc_object_id = [111], rc_field = [102], rc_epoch = 1,
       rc_version = 1, rc_schema_version = 1\<rparr>,
     sr_manifest_revision = 1, sr_previous_manifest_hash = replicate 32 0,
     sr_key_commitment = replicate 32 7, sr_nonce = replicate 24 0, sr_ciphertext = replicate 16 0,
     sr_recipients = [\<lparr>re_recipient_id = [97], re_key_epoch = 1, re_recipient_key_id = replicate 32 1,
         re_encapsulated_key = replicate 32 2, re_wrapped_dek = replicate 48 3\<rparr>,
       \<lparr>re_recipient_id = [98], re_key_epoch = 1, re_recipient_key_id = replicate 32 4,
         re_encapsulated_key = replicate 32 5, re_wrapped_dek = replicate 48 6\<rparr>],
     sr_indexes = [\<lparr>bi_label = [101], bi_schema_version = 1, bi_canonicalizer_id = [114],
       bi_canonicalizer_version = 1, bi_key_epoch = 1, bi_token = replicate 16 8\<rparr>],
     sr_signer_public_key = replicate 32 9, sr_signature = replicate 64 10\<rparr>"

lemma sample_record_wf: "record_wf sample_record"
  by (simp add: record_wf_def sample_record_def context_wf_def envelope_wf_def index_wf_def
      utf8_valid.simps(2) wire_consts encode_put signing_bytes_put canonical_bytes_put context_put_def
      many_put_def envelope_put_def index_put_def usize_max_def)

lemma sample_record_limits: "limits_ok default_policy sample_record"
  by (simp add: limits_ok_def sample_record_def default_policy_def label_ok_def wire_consts
      recipient_key_def replicate_eq_replicate)

lemma sample_record_structure: "structure_ok accept_all default_policy sample_record"
  by (simp add: structure_ok_def sample_record_limits accept_all_def)

text \<open>The sample record with a long tenant, and a policy that admits it.\<close>

definition long_record :: "nat \<Rightarrow> sealed_record" where
  "long_record n = sample_record\<lparr>sr_context := (sr_context sample_record)\<lparr>rc_tenant := replicate n 116\<rparr>\<rparr>"

definition long_policy :: "nat \<Rightarrow> validation_policy" where
  "long_policy n = default_policy\<lparr>max_identifier_bytes := n, max_ciphertext_bytes := 64\<rparr>"

lemma long_record_valid:
  assumes "0 < n"
  shows "validate_structure accept_all (long_record n) (long_policy n) = Inr ()"
proof -
  have "replicate n (116 :: u8) \<noteq> []" using assms by simp
  then show ?thesis
    unfolding validate_structure_iff structure_ok_def limits_ok_def long_record_def long_policy_def
    using assms
    by (simp add: sample_record_def default_policy_def label_ok_def accept_all_def wire_consts
        recipient_key_def index_key_def)
qed

lemma sample_record_length: "length (encode sample_record) \<le> 5000"
  by (simp add: sample_record_def encode_put signing_bytes_put canonical_bytes_put
      context_put_def many_put_def envelope_put_def index_put_def)

lemma long_record_length: "length (encode (long_record n)) = length (encode sample_record) + n - 1"
  by (simp add: long_record_def sample_record_def encode_put signing_bytes_put canonical_bytes_put
      context_put_def many_put_def)

section \<open>Properties\<close>

text \<open>
  C8. Decoding is canonical and safe: whatever \<open>decode\<close> accepts re-encodes to exactly the
  bytes it was read from, is well typed, and passes \<open>validate_structure\<close> (limits, canonical
  order of recipients and indexes, and the self-declared signature). So two encodings never
  denote one record, and no record that was not checked comes out of the parser.
\<close>

theorem decode_canonical:
  assumes "length bs \<le> usize_max" and "decode vf bs p = Inr r"
  shows "encode r = bs \<and> record_wf r \<and> validate_structure vf r p = Inr ()"
proof -
  have "parsed_ok p r \<and> encode r = bs \<and> structure_ok vf p r"
    using assms decode_iff by blast
  then show ?thesis
    using parsed_record_wf assms(1) by (auto simp: validate_structure_iff)
qed

text \<open>
  C9. Round trip: a well-typed record that passes \<open>validate_structure\<close> decodes from its
  encoding, under every policy whose identifier limit leaves room for the routing context
  (\<open>policy_fits\<close>; the default policy does).
\<close>

theorem encode_decode_roundtrip:
  assumes "record_wf r" and "validate_structure vf r p = Inr ()" and "policy_fits p"
  shows "decode vf (encode r) p = Inr r"
proof -
  have "structure_ok vf p r" "length (encode r) \<le> usize_max"
    using assms by (simp_all add: validate_structure_iff record_wf_def)
  then show ?thesis
    using limits_parsed_ok [OF assms(1) _ assms(3)] by (simp add: decode_iff structure_ok_def)
qed

theorem encode_decode_roundtrip_witness:
  "decode accept_all (encode sample_record) default_policy = Inr sample_record"
  by (rule encode_decode_roundtrip [OF sample_record_wf _ default_policy_fits])
     (simp add: validate_structure_iff sample_record_structure)

theorem decode_canonical_witness:
  "\<exists>bs. encode sample_record = bs \<and> record_wf sample_record \<and>
     validate_structure accept_all sample_record default_policy = Inr ()"
proof -
  have "decode accept_all (encode sample_record) default_policy = Inr sample_record"
    using limits_parsed_ok [OF sample_record_wf sample_record_limits default_policy_fits]
      sample_record_wf sample_record_structure by (simp add: decode_iff record_wf_def)
  then show ?thesis
    using decode_canonical [of "encode sample_record" accept_all default_policy sample_record]
      sample_record_wf by (auto simp: record_wf_def)
qed

text \<open>
  The re-encoding comparison at the end of \<open>decode\<close> is redundant: no input makes it fail,
  so \<open>NonCanonicalEncoding\<close> is never returned. The reader alone already enforces canonicity.
\<close>

theorem decode_never_noncanonical:
  assumes "length bs \<le> usize_max"
  shows "decode vf bs p \<noteq> Inl NonCanonicalEncoding"
proof
  assume "decode vf bs p = Inl NonCanonicalEncoding"
  then have "\<exists>r c. parse_record p (cursor_new bs) = Inr (r, c) \<and> cursor_is_empty c \<and> encode r \<noteq> bs"
    using parse_record_other_error [of p "cursor_new bs"] validate_structure_other_error
    by (auto simp: decode_def result_simps other_error_def)
  then show False using parse_record_end [OF assms] by blast
qed

theorem decode_never_noncanonical_witness:
  "decode accept_all [0] default_policy \<noteq> Inl NonCanonicalEncoding"
  by (rule decode_never_noncanonical) (simp add: usize_max_def)

text \<open>
  \<open>validate_limits\<close> accepts exactly the records \<open>limits_ok\<close> describes: the version is
  the supported one, every identifier is non-empty and within policy, the numeric versions and
  epochs are non-zero, the previous-manifest hash is zero exactly at revision 1, the sizes are
  in range, and recipients and indexes are strictly increasing in (identifier, epoch), hence
  unique.
\<close>

theorem validate_limits_spec: "validate_limits r p = Inr () \<longleftrightarrow> limits_ok p r"
  by (rule validate_limits_iff)

text \<open>
  C10. Signed bytes are unambiguous: two well-typed records with the same \<open>signing_bytes\<close> agree
  in every field except the signature itself (including the format version), so a signature
  cannot be carried over to another record.
\<close>

theorem signing_bytes_injective:
  assumes "record_wf r" "record_wf s" and "signing_bytes r = signing_bytes s"
  shows "s\<lparr>sr_signature := sr_signature r\<rparr> = r"
  by (rule signing_bytes_inject [OF assms])

theorem signing_bytes_injective_witness:
  "(sample_record\<lparr>sr_signature := replicate 64 11\<rparr>)\<lparr>sr_signature := sr_signature sample_record\<rparr>
    = sample_record"
proof (rule signing_bytes_injective [OF sample_record_wf])
  show "record_wf (sample_record\<lparr>sr_signature := replicate 64 11\<rparr>)"
    using sample_record_wf
    by (simp add: record_wf_def encode_put signing_bytes_put sample_record_def)
qed (simp add: signing_bytes_put)

text \<open>
  The payload AAD binds suite and routing context: equal AADs of well-typed contexts come
  from the same suite and the same context.
\<close>

theorem payload_aad_injective:
  assumes "context_wf c" "context_wf d" "length (canonical_bytes c) \<le> usize_max"
    "length (canonical_bytes d) \<le> usize_max" and "payload_aad s c = payload_aad t d"
  shows "s = t \<and> c = d"
proof -
  have "[suite_code s] @ lp (canonical_bytes c) = [suite_code t] @ lp (canonical_bytes d)"
    using assms(5) unfolding payload_aad_put by simp
  then have "s = t" and "lp (canonical_bytes c) @ [] = lp (canonical_bytes d) @ []"
    by simp_all
  then show ?thesis
    using lp_inject [OF _ assms(3,4)] canonical_bytes_inject [OF assms(1-3)] by blast
qed

theorem payload_aad_injective_witness:
  "XChaCha20Poly1305 = XChaCha20Poly1305 \<and> sr_context sample_record = sr_context sample_record"
proof (rule payload_aad_injective)
  have "length (encode sample_record) \<le> usize_max"
    using sample_record_wf by (simp add: record_wf_def)
  from record_parts_fit(1) [OF this]
  show "length (canonical_bytes (sr_context sample_record)) \<le> usize_max"
    "length (canonical_bytes (sr_context sample_record)) \<le> usize_max" by simp_all
qed (use sample_record_wf in \<open>simp_all add: record_wf_def\<close>)

text \<open>
  \<open>validate_pinned\<close> is \<open>validate\<close> under the policy that pins only the verifier's key,
  with the same result and the same error on every record, when the prepared verifier decides
  as the plain signature check does for its key (the contract of \<open>PreparedVerifier\<close>).
\<close>

theorem validate_pinned_equiv:
  assumes "\<forall>m sig. (pv_verify_strict v m sig = Inr ()) = (vf (pv_public_key v) m sig = Inr ())"
  shows "validate_pinned vf r v p = validate vf r (p\<lparr>allowed_signers := {pv_public_key v}\<rparr>)"
  using assms by (rule validate_pinned_same)

theorem validate_pinned_equiv_witness:
  "validate_pinned accept_all sample_record
      \<lparr>pv_public_key = replicate 32 9, pv_verify_strict = accept_all (replicate 32 9)\<rparr> default_policy
    = validate accept_all sample_record (default_policy\<lparr>allowed_signers := {replicate 32 9}\<rparr>)"
  using validate_pinned_equiv [of "\<lparr>pv_public_key = replicate 32 9,
      pv_verify_strict = accept_all (replicate 32 9)\<rparr>" accept_all sample_record default_policy]
  by simp

text \<open>
  Lookup in a validated record: every envelope of a record that passes \<open>validate_limits\<close>
  is the one \<open>recipient\<close> returns for its own identifier, epoch and key fingerprint, and
  nothing else is returned.
\<close>

theorem recipient_lookup:
  assumes "validate_limits r p = Inr ()"
  shows "recipient r i k h = Some e \<longleftrightarrow>
    e \<in> set (sr_recipients r) \<and> re_recipient_id e = i \<and> re_key_epoch e = k \<and> re_recipient_key_id e = h"
proof -
  have "sorted_wrt (<) (map recipient_key (sr_recipients r))"
    using assms by (simp add: validate_limits_iff limits_ok_def)
  from find_sorted_key [OF this] show ?thesis
    unfolding recipient_def by blast
qed

theorem recipient_lookup_witness:
  "recipient sample_record [97] 1 (replicate 32 1) = Some (hd (sr_recipients sample_record))"
proof -
  have "validate_limits sample_record default_policy = Inr ()"
    by (simp add: validate_limits_iff sample_record_limits)
  from recipient_lookup [OF this] show ?thesis
    by (simp add: sample_record_def)
qed

text \<open>
  A gap between validation and decoding: when identifiers are so long that the encoded
  routing context exceeds the field limit, \<open>decode\<close> refuses the very bytes of a record that
  \<open>validate_structure\<close> may accept, with \<open>LengthLimit\<close>.
\<close>

theorem decode_refuses_long_context:
  assumes "length (encode r) \<le> usize_max" and "sr_format_version r = FORMAT_VERSION"
    and "bytes_limit p < length (canonical_bytes (sr_context r))"
  shows "decode vf (encode r) p = Inl (LengthLimit (length (canonical_bytes (sr_context r))))"
proof -
  let ?c = "cursor_new (encode r)"
  let ?cx = "canonical_bytes (sr_context r)"
  have "\<exists>ys. encode r = lp RECORD_DOMAIN @ u16_to_be FORMAT_VERSION @ [suite_code (sr_suite r)] @ lp ?cx @ ys"
    using assms(2) by (simp add: encode_put signing_bytes_put)
  then obtain ys where bs: "encode r = lp RECORD_DOMAIN @ u16_to_be FORMAT_VERSION @
      [suite_code (sr_suite r)] @ lp ?cx @ ys" ..
  have w0: "cur_wf ?c" and r0: "cur_rest ?c = lp RECORD_DOMAIN @ u16_to_be FORMAT_VERSION @
      [suite_code (sr_suite r)] @ lp ?cx @ ys"
    using assms(1) bs by simp_all
  note w1 = cur_advance_wf [OF w0 r0] and r1 = cur_advance_rest [OF r0]
  note w2 = cur_advance_wf [OF w1 r1] and r2 = cur_advance_rest [OF r1]
  note w3 = cur_advance_wf [OF w2 r2] and r3 = cur_advance_rest [OF r2]
  have cx: "length ?cx \<le> usize_max"
    by (rule record_parts_fit [OF assms(1)])
  have g0: "take_bytes p ?c = Inr (RECORD_DOMAIN, cur_advance (length (lp RECORD_DOMAIN)) ?c)"
    by (rule cbytes.get_complete [OF w0 _ r0]) (simp add: bytes_ok_short)
  note g1 = cu16.get_complete [OF w1 TrueI r1] and g2 = cu8.get_complete [OF w2 TrueI r2]
  have g3: "take_bytes p (cur_advance (length [suite_code (sr_suite r)]) (cur_advance (length (u16_to_be FORMAT_VERSION))
      (cur_advance (length (lp RECORD_DOMAIN)) ?c))) = Inl (LengthLimit (length ?cx))"
    using cu64.get_complete [OF w3 TrueI, of "of_nat (length ?cx)" "?cx @ ys"] r3 cx assms(3)
    by (simp add: take_bytes_def lp_def unat_of_nat_usize)
  show ?thesis
    using g0 g1 g2 g3 suite_from_code_iff [of "suite_code (sr_suite r)" "sr_suite r"]
    by (simp add: decode_def parse_record_def)
qed

theorem decode_refuses_long_context_witness:
  "\<exists>r p n. validate_structure accept_all r p = Inr () \<and>
     decode accept_all (encode r) p = Inl (LengthLimit n)"
proof -
  obtain n :: nat where n: "n = 5000" by simp
  have len: "length (encode (long_record n)) \<le> usize_max"
    using sample_record_length by (simp add: long_record_length n usize_max_def)
  have "decode accept_all (encode (long_record n)) (long_policy n) =
      Inl (LengthLimit (length (canonical_bytes (sr_context (long_record n)))))"
  proof (rule decode_refuses_long_context [OF len])
    show "sr_format_version (long_record n) = FORMAT_VERSION"
      by (simp add: long_record_def sample_record_def wire_consts)
    show "bytes_limit (long_policy n) < length (canonical_bytes (sr_context (long_record n)))"
      by (simp add: canonical_bytes_length long_record_def long_policy_def bytes_limit_def n)
  qed
  moreover have "validate_structure accept_all (long_record n) (long_policy n) = Inr ()"
    by (rule long_record_valid) (simp add: n)
  ultimately show ?thesis by blast
qed

end
