(* ===== verification/WireHead.thy ===== *)
theory WireHead
  imports WireRecord
begin

text \<open>
  Freshness checkpoints (crates/blindplane-wire/src/head.rs): the client's persisted head of a
  manifest chain, the exact-match check and the one-link advance. The chain properties are
  stated over sequences of records offered to \<open>advance\<close>.
\<close>

record freshness_head =
  fh_tenant :: str
  fh_object_id :: str
  fh_field :: str
  fh_manifest_revision :: u64
  fh_content_version :: u64
  fh_epoch :: u64
  fh_manifest_hash :: bytes
  fh_signer_public_key :: bytes

definition from_validated :: "sealed_record \<Rightarrow> freshness_head" where
  "from_validated r = \<lparr>fh_tenant = rc_tenant (sr_context r), fh_object_id = rc_object_id (sr_context r),
     fh_field = rc_field (sr_context r), fh_manifest_revision = sr_manifest_revision r,
     fh_content_version = rc_version (sr_context r), fh_epoch = rc_epoch (sr_context r),
     fh_manifest_hash = manifest_hash r, fh_signer_public_key = sr_signer_public_key r\<rparr>"

definition same_identity :: "freshness_head \<Rightarrow> sealed_record \<Rightarrow> bool" where
  "same_identity h r \<longleftrightarrow> fh_tenant h = rc_tenant (sr_context r) \<and>
     fh_object_id h = rc_object_id (sr_context r) \<and> fh_field h = rc_field (sr_context r)"

definition start :: "signature_check \<Rightarrow> sealed_record \<Rightarrow> validation_policy \<Rightarrow> wire_error + freshness_head" where
  "start vf r p = rbind (validate vf r p) (\<lambda>_. Inr (from_validated r))"

definition require_exact_head :: "freshness_head \<Rightarrow> sealed_record \<Rightarrow> wire_error + unit" where
  "require_exact_head h r =
    reject (\<not> same_identity h r
        \<or> fh_manifest_revision h \<noteq> sr_manifest_revision r
        \<or> fh_content_version h \<noteq> rc_version (sr_context r)
        \<or> fh_epoch h \<noteq> rc_epoch (sr_context r)
        \<or> fh_manifest_hash h \<noteq> manifest_hash r
        \<or> fh_signer_public_key h \<noteq> sr_signer_public_key r)
      RollbackDetected"

definition verify_current ::
  "signature_check \<Rightarrow> freshness_head \<Rightarrow> sealed_record \<Rightarrow> validation_policy \<Rightarrow> wire_error + unit" where
  "verify_current vf h r p = rbind (validate vf r p) (\<lambda>_. require_exact_head h r)"

definition verify_current_pinned ::
  "signature_check \<Rightarrow> freshness_head \<Rightarrow> sealed_record \<Rightarrow> prepared_verifier \<Rightarrow> validation_policy \<Rightarrow>
   wire_error + unit" where
  "verify_current_pinned vf h r v p = rbind (validate_pinned vf r v p) (\<lambda>_. require_exact_head h r)"

text \<open>\<open>advance\<close> returns the head it leaves behind; on an error the head is unchanged.\<close>

definition advance ::
  "signature_check \<Rightarrow> freshness_head \<Rightarrow> sealed_record \<Rightarrow> validation_policy \<Rightarrow> wire_error + freshness_head" where
  "advance vf h r p =
    rbind (validate vf r p) (\<lambda>_.
    rbind (reject (\<not> same_identity h r
        \<or> fh_signer_public_key h \<noteq> sr_signer_public_key r
        \<or> sr_manifest_revision r \<noteq> saturating_add64 (fh_manifest_revision h) 1
        \<or> sr_previous_manifest_hash r \<noteq> fh_manifest_hash h
        \<or> rc_version (sr_context r) < fh_content_version h
        \<or> rc_epoch (sr_context r) < fh_epoch h)
      RollbackDetected) (\<lambda>_.
    Inr (from_validated r)))"

section \<open>Single steps\<close>

lemma require_exact_head_iff:
  "require_exact_head h r = Inr u \<longleftrightarrow> h = from_validated r"
  by (cases h) (auto simp: require_exact_head_def result_simps same_identity_def from_validated_def)

lemma advance_iff:
  "advance vf h r p = Inr h' \<longleftrightarrow>
    validate vf r p = Inr () \<and> same_identity h r \<and> fh_signer_public_key h = sr_signer_public_key r \<and>
    sr_manifest_revision r = saturating_add64 (fh_manifest_revision h) 1 \<and>
    sr_previous_manifest_hash r = fh_manifest_hash h \<and>
    fh_content_version h \<le> rc_version (sr_context r) \<and> fh_epoch h \<le> rc_epoch (sr_context r) \<and>
    h' = from_validated r"
  by (auto simp: advance_def result_simps not_less)

text \<open>A head a client can hold: it was taken from a validated record.\<close>

definition head_of :: "signature_check \<Rightarrow> validation_policy \<Rightarrow> freshness_head \<Rightarrow> sealed_record \<Rightarrow> bool" where
  "head_of vf p h r \<longleftrightarrow> validate vf r p = Inr () \<and> h = from_validated r"

lemma saturating_add64_unat:
  "unat (saturating_add64 a 1) = min (unat a + 1) (2 ^ 64 - 1)"
  using unat_bounds(4) [of a]
  by (auto simp: saturating_add64_def unat_word_ariths)

section \<open>Chains\<close>

text \<open>
  A client offers fetched records one after the other; a rejected record leaves the head as it
  was.
\<close>

definition offer :: "signature_check \<Rightarrow> validation_policy \<Rightarrow> freshness_head \<Rightarrow> sealed_record \<Rightarrow> freshness_head" where
  "offer vf p h r = (case advance vf h r p of Inl _ \<Rightarrow> h | Inr h' \<Rightarrow> h')"

definition head_le :: "freshness_head \<Rightarrow> freshness_head \<Rightarrow> bool" where
  "head_le h h' \<longleftrightarrow> fh_tenant h = fh_tenant h' \<and> fh_object_id h = fh_object_id h' \<and>
     fh_field h = fh_field h' \<and> fh_signer_public_key h = fh_signer_public_key h' \<and>
     fh_manifest_revision h \<le> fh_manifest_revision h' \<and>
     fh_content_version h \<le> fh_content_version h' \<and> fh_epoch h \<le> fh_epoch h'"

lemma head_le_refl [simp]: "head_le h h"
  by (simp add: head_le_def)

lemma head_le_trans: "head_le a b \<Longrightarrow> head_le b c \<Longrightarrow> head_le a c"
  by (auto simp: head_le_def)

lemma advance_head_le: "advance vf h r p = Inr h' \<Longrightarrow> head_le h h'"
  using unat_bounds(4) [of "fh_manifest_revision h"]
  by (auto simp: advance_iff head_le_def from_validated_def same_identity_def word_le_nat_alt
      saturating_add64_unat)

lemma offers_head_le: "head_le h (foldl (offer vf p) h rs)"
proof (induction rs arbitrary: h)
  case (Cons r rs)
  have "head_le h (offer vf p h r)"
    by (auto simp: offer_def advance_head_le split: sum.split)
  with Cons show ?case by (auto intro: head_le_trans)
qed simp

text \<open>A run in which every offered record was accepted.\<close>

fun accepts :: "signature_check \<Rightarrow> validation_policy \<Rightarrow> freshness_head \<Rightarrow> sealed_record list \<Rightarrow> bool" where
  "accepts vf p h [] \<longleftrightarrow> True"
| "accepts vf p h (r # rs) \<longleftrightarrow>
    (case advance vf h r p of Inl _ \<Rightarrow> False | Inr h' \<Rightarrow> accepts vf p h' rs)"

fun linked :: "sealed_record list \<Rightarrow> bool" where
  "linked (a # b # rs) \<longleftrightarrow>
     sr_previous_manifest_hash b = manifest_hash a \<and>
     sr_manifest_revision b = saturating_add64 (sr_manifest_revision a) 1 \<and>
     sr_signer_public_key b = sr_signer_public_key a \<and>
     rc_tenant (sr_context b) = rc_tenant (sr_context a) \<and>
     rc_object_id (sr_context b) = rc_object_id (sr_context a) \<and>
     rc_field (sr_context b) = rc_field (sr_context a) \<and>
     rc_version (sr_context a) \<le> rc_version (sr_context b) \<and>
     rc_epoch (sr_context a) \<le> rc_epoch (sr_context b) \<and> linked (b # rs)"
| "linked _ \<longleftrightarrow> True"

lemma accepts_linked: "accepts vf p (from_validated r) rs \<Longrightarrow> linked (r # rs)"
proof (induction rs arbitrary: r)
  case (Cons a rs)
  from Cons.prems have "advance vf (from_validated r) a p = Inr (from_validated a)"
    and "accepts vf p (from_validated a) rs"
    by (auto simp: advance_iff split: sum.splits)
  with Cons.IH [of a] show ?case
    by (auto simp: advance_iff same_identity_def from_validated_def)
qed simp

lemma linked_accepts:
  "linked (r # rs) \<Longrightarrow> \<forall>s\<in>set rs. validate vf s p = Inr () \<Longrightarrow> accepts vf p (from_validated r) rs"
proof (induction rs arbitrary: r)
  case (Cons a rs)
  then have "advance vf (from_validated r) a p = Inr (from_validated a)"
    by (simp add: advance_iff same_identity_def from_validated_def)
  with Cons show ?case by simp
qed simp

lemma accepts_valid: "accepts vf p h rs \<Longrightarrow> \<forall>s\<in>set rs. validate vf s p = Inr ()"
  by (induction rs arbitrary: h) (auto simp: advance_iff split: sum.splits)

lemma linked_revision:
  "linked (r # rs) \<Longrightarrow> i \<le> length rs \<Longrightarrow>
    unat (sr_manifest_revision ((r # rs) ! i)) = min (unat (sr_manifest_revision r) + i) (2 ^ 64 - 1)"
proof (induction rs arbitrary: r i)
  case Nil
  then show ?case using unat_bounds(4) [of "sr_manifest_revision r"] by simp
next
  case (Cons a rs)
  have a: "unat (sr_manifest_revision a) = min (unat (sr_manifest_revision r) + 1) (2 ^ 64 - 1)"
    using Cons.prems(1) by (simp add: saturating_add64_unat)
  show ?case
  proof (cases i)
    case 0
    then show ?thesis using unat_bounds(4) [of "sr_manifest_revision r"] by simp
  next
    case (Suc j)
    with Cons.IH [of a j] Cons.prems a show ?thesis by simp
  qed
qed

section \<open>Properties\<close>

text \<open>
  Freshness is monotone: whatever records a client is offered, in whatever order, its head
  keeps its identity and its pinned signer, and its manifest revision, payload version and
  access epoch never decrease.
\<close>

theorem head_monotone:
  "head_le h (foldl (offer vf p) h rs)"
  by (rule offers_head_le)

text \<open>
  C11. A run of accepted records is exactly a signed hash chain. From a head started on \<open>r\<close>, the
  records of a run are all accepted if and only if each validates and they are linked: each names
  the hash of its predecessor, keeps identity and signer, does not go back in version or epoch, and
  carries the successor revision. The revision counts the links, up to the last 64-bit number,
  where it stays.
\<close>

theorem accepted_run_is_chain:
  assumes "start vf r p = Inr h"
  shows "(accepts vf p h rs \<longleftrightarrow> (\<forall>s\<in>set rs. validate vf s p = Inr ()) \<and> linked (r # rs)) \<and>
    (accepts vf p h rs \<longrightarrow> (\<forall>i \<le> length rs.
      unat (sr_manifest_revision ((r # rs) ! i)) = min (unat (sr_manifest_revision r) + i) (2 ^ 64 - 1)))"
proof -
  have "h = from_validated r" using assms by (auto simp: start_def result_simps)
  then show ?thesis using accepts_linked linked_accepts accepts_valid linked_revision by blast
qed

text \<open>A successor of the sample record, and the policy that pins its signer.\<close>

definition sample_policy :: validation_policy where
  "sample_policy = default_policy\<lparr>allowed_signers := {replicate 32 9}\<rparr>"

definition next_record :: "u64 \<Rightarrow> bytes \<Rightarrow> sealed_record" where
  "next_record m h = sample_record\<lparr>sr_manifest_revision := m, sr_previous_manifest_hash := h\<rparr>"

lemma sample_policy_ok: "limits_ok sample_policy r \<longleftrightarrow> limits_ok default_policy r"
  by (simp add: limits_ok_def label_ok_def sample_policy_def)

lemma sample_validates: "validate accept_all sample_record sample_policy = Inr ()"
  using sample_record_limits
  by (simp add: validate_iff structure_ok_def sample_policy_ok accept_all_def)
     (simp add: sample_policy_def sample_record_def)

lemma next_validates:
  assumes "m \<noteq> 0" "m \<noteq> 1" "h \<noteq> replicate 32 0"
  shows "validate accept_all (next_record m h) sample_policy = Inr ()"
proof -
  have "limits_ok default_policy (next_record m h)"
    using sample_record_limits assms unfolding limits_ok_def next_record_def by simp
  then show ?thesis
    by (simp add: validate_iff structure_ok_def sample_policy_ok accept_all_def)
       (simp add: sample_policy_def next_record_def sample_record_def)
qed

theorem accepted_run_is_chain_witness:
  "start accept_all sample_record sample_policy = Inr (from_validated sample_record) \<and>
   \<not> accepts accept_all sample_policy (from_validated sample_record) [next_record 3 (replicate 32 1)] \<and>
   (accepts accept_all sample_policy (from_validated sample_record) [next_record 2 (replicate 32 1)] \<longleftrightarrow>
     manifest_hash sample_record = replicate 32 1) \<and>
   (accepts accept_all sample_policy (from_validated sample_record) [next_record 2 (manifest_hash sample_record)] \<longleftrightarrow>
     manifest_hash sample_record \<noteq> replicate 32 0)"
proof -
  have s: "start accept_all sample_record sample_policy = Inr (from_validated sample_record)"
    by (simp add: start_def sample_validates)
  note chain = accepted_run_is_chain [OF s, THEN conjunct1]
  have lk: "linked [sample_record, next_record m h] \<longleftrightarrow> m = 2 \<and> h = manifest_hash sample_record" for m h
    by (simp add: next_record_def saturating_add64_def) (auto simp: sample_record_def)
  have bad: "validate accept_all (next_record 2 (replicate 32 0)) sample_policy \<noteq> Inr ()"
    by (simp add: validate_iff structure_ok_def limits_ok_def next_record_def)
  have one: "validate accept_all (next_record 2 (replicate 32 1)) sample_policy = Inr ()"
    by (rule next_validates) (simp_all add: replicate_eq_replicate)
  show ?thesis
    using s one bad next_validates [of 2 "manifest_hash sample_record"] by (auto simp: chain lk simp del: linked.simps accepts.simps)
qed

text \<open>
  Rollback is refused: once a record's revision has been passed, no later head accepts it,
  whatever was offered in between. (At the last revision, \<open>2 ^ 64 - 1\<close>, the successor
  saturates: see the next property.)
\<close>

theorem rollback_refused:
  assumes "sr_manifest_revision r \<le> fh_manifest_revision h" and "sr_manifest_revision r \<noteq> - 1"
  shows "advance vf (foldl (offer vf p) h rs) r p \<noteq> Inr h'"
proof
  let ?h = "foldl (offer vf p) h rs"
  assume acc: "advance vf ?h r p = Inr h'"
  have "unat (sr_manifest_revision r) \<le> unat (fh_manifest_revision ?h)"
    using offers_head_le [of h vf p rs] assms(1) by (simp add: head_le_def word_le_nat_alt)
  moreover have "unat (sr_manifest_revision r) = min (unat (fh_manifest_revision ?h) + 1) (2 ^ 64 - 1)"
    using acc by (simp add: advance_iff saturating_add64_unat)
  moreover have "unat (sr_manifest_revision r) \<noteq> 2 ^ 64 - 1"
    using assms(2) by (simp add: word_unat_eq_iff)
  ultimately show False using unat_bounds(4) [of "sr_manifest_revision r"] by auto
qed

theorem rollback_refused_witness:
  "advance accept_all (foldl (offer accept_all sample_policy) (from_validated sample_record)
      [sample_record, sample_record]) sample_record sample_policy \<noteq> Inr (from_validated sample_record)"
  by (rule rollback_refused) (simp_all add: from_validated_def, simp add: sample_record_def)

text \<open>
  The saturating successor: a head at the last revision accepts a further record at that
  same revision, so there the chain advances by zero links in its revision number although
  \<open>advance\<close> is meant to move by exactly one.
\<close>

theorem advance_at_last_revision:
  assumes "fh_manifest_revision h = - 1" and "sr_manifest_revision r = - 1"
    and "validate vf r p = Inr ()" and "same_identity h r"
    and "fh_signer_public_key h = sr_signer_public_key r"
    and "sr_previous_manifest_hash r = fh_manifest_hash h"
    and "fh_content_version h \<le> rc_version (sr_context r)" and "fh_epoch h \<le> rc_epoch (sr_context r)"
  shows "advance vf h r p = Inr (from_validated r) \<and>
    fh_manifest_revision (from_validated r) = fh_manifest_revision h"
  using assms by (simp add: advance_iff saturating_add64_def from_validated_def)

theorem advance_at_last_revision_witness:
  "advance accept_all ((from_validated sample_record)\<lparr>fh_manifest_revision := - 1,
      fh_manifest_hash := replicate 32 1\<rparr>) (next_record (- 1) (replicate 32 1)) sample_policy =
    Inr (from_validated (next_record (- 1) (replicate 32 1))) \<and>
   fh_manifest_revision (from_validated (next_record (- 1) (replicate 32 1))) =
     fh_manifest_revision ((from_validated sample_record)\<lparr>fh_manifest_revision := - 1,
      fh_manifest_hash := replicate 32 1\<rparr>)"
proof (rule advance_at_last_revision)
  show "validate accept_all (next_record (- 1) (replicate 32 1)) sample_policy = Inr ()"
    by (rule next_validates) simp_all
qed (simp_all add: next_record_def from_validated_def same_identity_def)

text \<open>The message whose SHA-256 digest the manifest hash of a record is.\<close>

definition manifest_input :: "sealed_record \<Rightarrow> bytes" where
  "manifest_input r = ascii ''blindplane/manifest-hash/v1'' @ signing_bytes r @ sr_signature r"

lemma manifest_hash_input: "manifest_hash r = sha256_spec (manifest_input r)"
  by (simp add: manifest_hash_spec manifest_input_def)

text \<open>
  \<open>verify_current\<close> identifies the record: a record accepted against the head of \<open>r\<close> is
  \<open>r\<close> itself, every field including the signature, unless the hashed messages of these two
  records are different with the same SHA-256 digest.
\<close>

theorem verify_current_identifies:
  assumes "record_wf r" "record_wf s" and "validate vf r p = Inr ()"
    and "verify_current vf (from_validated r) s p = Inr ()"
  shows "s = r \<or> (manifest_input s \<noteq> manifest_input r \<and> manifest_hash s = manifest_hash r)"
proof -
  have s: "validate vf s p = Inr ()" and eq: "from_validated r = from_validated s"
    using assms(4) by (auto simp: verify_current_def result_simps require_exact_head_iff)
  have "s = r" if m: "manifest_input r = manifest_input s"
  proof -
    have len: "length (sr_signature r) = length (sr_signature s)"
      using assms(3) s by (simp add: validate_iff structure_ok_def limits_ok_def)
    then have sb: "signing_bytes r = signing_bytes s" and sg: "sr_signature r = sr_signature s"
      using m by (simp_all add: manifest_input_def)
    from signing_bytes_inject [OF assms(1,2) sb] sg show "s = r" by simp
  qed
  moreover have "manifest_hash s = manifest_hash r" using eq by (simp add: from_validated_def)
  ultimately show ?thesis by metis
qed

theorem verify_current_identifies_witness:
  "sample_record = sample_record \<or> (manifest_input sample_record \<noteq> manifest_input sample_record \<and>
    manifest_hash sample_record = manifest_hash sample_record)"
  by (rule verify_current_identifies [OF sample_record_wf sample_record_wf sample_validates])
     (simp add: verify_current_def sample_validates require_exact_head_iff)

end
