(* ===== verification/RelayStore.thy ===== *)
theory RelayStore
  imports WireRecord "HOL-Library.Product_Lexorder" "HOL-Library.List_Lexorder"
begin

text \<open>
  The relay's store: crates/blindplane-relay/src/record_key.rs, error.rs and store.rs. The
  \<open>BTreeMap\<close>s are maps, the \<open>BTreeSet\<close>s sets, iterated in key order. The secondary index is
  used through the interface \<open>posting_index\<close>, interpreted on the map of non-empty sets the code
  keeps. \<open>store_inv\<close> ties the index to the records; every \<open>put\<close> keeps it. The lock makes each
  method one step.
\<close>

section \<open>Keys\<close>

datatype record_key = RecordKey (key_tenant: str) (key_object_id: str) (key_field: str)

definition key_tuple :: "record_key \<Rightarrow> str \<times> str \<times> str" where
  "key_tuple k = (key_tenant k, key_object_id k, key_field k)"

lemma key_tuple_inj [simp]: "key_tuple a = key_tuple b \<longleftrightarrow> a = b"
  by (cases a; cases b) (simp add: key_tuple_def)

text \<open>The derived order compares the fields in the order of the declaration.\<close>

instantiation record_key :: linorder
begin

definition less_eq_record_key :: "record_key \<Rightarrow> record_key \<Rightarrow> bool" where
  "less_eq_record_key a b \<longleftrightarrow> key_tuple a \<le> key_tuple b"

definition less_record_key :: "record_key \<Rightarrow> record_key \<Rightarrow> bool" where
  "less_record_key a b \<longleftrightarrow> key_tuple a < key_tuple b"

instance
  by standard (auto simp: less_eq_record_key_def less_record_key_def less_le)

end

definition key_of :: "sealed_record \<Rightarrow> record_key" where
  "key_of r = RecordKey (rc_tenant (sr_context r)) (rc_object_id (sr_context r)) (rc_field (sr_context r))"

section \<open>Errors and receipts\<close>

datatype relay_error =
    Invalid wire_error
  | RouteContextMismatch
  | StaleWrite (stored_version: u64) (offered_version: u64)
  | NotFound

record write_receipt =
  wr_version :: u64
  wr_manifest_revision :: u64
  wr_manifest_hash :: bytes
  wr_created :: bool

section \<open>The secondary index\<close>

locale posting_index =
  fixes find :: "'ix \<Rightarrow> 'k \<Rightarrow> 'v set"
    and add :: "'ix \<Rightarrow> 'k \<Rightarrow> 'v \<Rightarrow> 'ix"
    and del :: "'ix \<Rightarrow> 'k \<Rightarrow> 'v \<Rightarrow> 'ix"
    and ok :: "'ix \<Rightarrow> bool"
  assumes find_add: "find (add ix k v) k' = (if k' = k then insert v (find ix k) else find ix k')"
    and find_del: "ok ix \<Longrightarrow> find (del ix k v) k' = (if k' = k then find ix k - {v} else find ix k')"
    and ok_add: "ok ix \<Longrightarrow> ok (add ix k v)"
    and ok_del: "ok ix \<Longrightarrow> ok (del ix k v)"
begin

lemma find_adds:
  "find (foldl (\<lambda>ix k. add ix k v) ix ks) k' = find ix k' \<union> (if k' \<in> set ks then {v} else {})"
  by (induction ks arbitrary: ix) (auto simp: find_add)

lemma ok_adds: "ok ix \<Longrightarrow> ok (foldl (\<lambda>ix k. add ix k v) ix ks)"
  by (induction ks arbitrary: ix) (auto simp: ok_add)

lemma find_dels:
  "ok ix \<Longrightarrow> find (foldl (\<lambda>ix k. del ix k v) ix ks) k' = find ix k' - (if k' \<in> set ks then {v} else {})"
  by (induction ks arbitrary: ix) (auto simp: find_del ok_del)

lemma ok_dels: "ok ix \<Longrightarrow> ok (foldl (\<lambda>ix k. del ix k v) ix ks)"
  by (induction ks arbitrary: ix) (auto simp: ok_del)

end

type_synonym index_id = "str \<times> str \<times> u64 \<times> bytes"
type_synonym index_map = "index_id \<Rightarrow> record_key set option"

text \<open>\<open>index.get(k).into_iter().flatten()\<close>, \<open>entry(k).or_default().insert(v)\<close>, and the removal
  that drops a set when it becomes empty.\<close>

definition index_find :: "index_map \<Rightarrow> index_id \<Rightarrow> record_key set" where
  "index_find ix k = (case ix k of None \<Rightarrow> {} | Some s \<Rightarrow> s)"

definition index_add :: "index_map \<Rightarrow> index_id \<Rightarrow> record_key \<Rightarrow> index_map" where
  "index_add ix k v = ix(k \<mapsto> insert v (case ix k of None \<Rightarrow> {} | Some s \<Rightarrow> s))"

definition index_del :: "index_map \<Rightarrow> index_id \<Rightarrow> record_key \<Rightarrow> index_map" where
  "index_del ix k v =
    (case ix k of
       None \<Rightarrow> ix
     | Some s \<Rightarrow> let s = s - {v} in if s = {} then ix(k := None) else ix(k \<mapsto> s))"

definition index_proper :: "index_map \<Rightarrow> bool" where
  "index_proper ix \<longleftrightarrow> (\<forall>k s. ix k = Some s \<longrightarrow> s \<noteq> {} \<and> finite s)"

interpretation posting: posting_index index_find index_add index_del index_proper
proof
  fix ix k k' and v :: record_key
  show "index_find (index_add ix k v) k' = (if k' = k then insert v (index_find ix k) else index_find ix k')"
    by (simp add: index_find_def index_add_def)
  show "index_find (index_del ix k v) k' = (if k' = k then index_find ix k - {v} else index_find ix k')"
    by (auto simp: index_find_def index_del_def Let_def split: option.split)
  show "index_proper ix \<Longrightarrow> index_proper (index_add ix k v)"
    by (auto simp: index_proper_def index_add_def split: option.split if_splits)
  show "index_proper ix \<Longrightarrow> index_proper (index_del ix k v)"
    by (auto simp: index_proper_def index_del_def Let_def split: option.splits if_splits)
qed

section \<open>The store\<close>

record store =
  st_records :: "record_key \<Rightarrow> sealed_record option"
  st_index :: index_map

definition store_new :: store where
  "store_new = \<lparr>st_records = Map.empty, st_index = Map.empty\<rparr>"

definition index_id_of :: "sealed_record \<Rightarrow> blind_index \<Rightarrow> index_id" where
  "index_id_of r i = (rc_tenant (sr_context r), bi_label i, bi_key_epoch i, bi_token i)"

definition unindex :: "index_map \<Rightarrow> record_key \<Rightarrow> sealed_record \<Rightarrow> index_map" where
  "unindex ix key r = foldl (\<lambda>ix i. index_del ix (index_id_of r i) key) ix (sr_indexes r)"

definition reindex :: "index_map \<Rightarrow> record_key \<Rightarrow> sealed_record \<Rightarrow> index_map" where
  "reindex ix key r = foldl (\<lambda>ix i. index_add ix (index_id_of r i) key) ix (sr_indexes r)"

definition store_put ::
  "signature_check \<Rightarrow> store \<Rightarrow> sealed_record \<Rightarrow> validation_policy \<Rightarrow> relay_error + write_receipt \<times> store" where
  "store_put vf st r p =
    rbind (map_err Invalid (validate vf r p)) (\<lambda>_.
    let key = key_of r in
    rbind (case st_records st key of
        None \<Rightarrow> Inr True
      | Some existing \<Rightarrow>
          let advances_content = rc_version (sr_context r) > rc_version (sr_context existing);
              advances_manifest = rc_version (sr_context r) = rc_version (sr_context existing) \<and>
                sr_manifest_revision r > sr_manifest_revision existing
          in if \<not> advances_content \<and> \<not> advances_manifest
             then Inl (StaleWrite (rc_version (sr_context existing)) (rc_version (sr_context r)))
             else Inr False) (\<lambda>created.
    let receipt = \<lparr>wr_version = rc_version (sr_context r), wr_manifest_revision = sr_manifest_revision r,
          wr_manifest_hash = manifest_hash r, wr_created = created\<rparr>;
        ix = (case st_records st key of None \<Rightarrow> st_index st | Some prev \<Rightarrow> unindex (st_index st) key prev);
        ix = reindex ix key r
    in Inr (receipt, st\<lparr>st_records := (st_records st)(key \<mapsto> r), st_index := ix\<rparr>)))"

definition store_get :: "store \<Rightarrow> record_key \<Rightarrow> relay_error + sealed_record" where
  "store_get st key = ok_or (st_records st key) NotFound"

definition store_search :: "store \<Rightarrow> str \<Rightarrow> str \<Rightarrow> u64 \<Rightarrow> bytes \<Rightarrow> sealed_record list" where
  "store_search st tenant label key_epoch token =
    List.map_filter (st_records st)
      (sorted_list_of_set (index_find (st_index st) (tenant, label, key_epoch, token)))"

definition store_len :: "store \<Rightarrow> nat" where
  "store_len st = card (dom (st_records st))"

definition store_is_empty :: "store \<Rightarrow> bool" where
  "store_is_empty st \<longleftrightarrow> store_len st = 0"

section \<open>The invariant\<close>

definition record_index_ids :: "sealed_record \<Rightarrow> index_id set" where
  "record_index_ids r = set (map (index_id_of r) (sr_indexes r))"

text \<open>
  Records are filed under their own key, and the index holds exactly the tokens of the records
  held now: a search never meets a token that no longer applies and never misses one.
\<close>

definition store_inv :: "store \<Rightarrow> bool" where
  "store_inv st \<longleftrightarrow>
     finite (dom (st_records st)) \<and>
     (\<forall>k r. st_records st k = Some r \<longrightarrow> key_of r = k) \<and>
     index_proper (st_index st) \<and>
     (\<forall>k key. key \<in> index_find (st_index st) k \<longleftrightarrow>
        (\<exists>r. st_records st key = Some r \<and> k \<in> record_index_ids r))"

lemma store_inv_find:
  "store_inv st \<Longrightarrow> key \<in> index_find (st_index st) k \<longleftrightarrow>
    (\<exists>r. st_records st key = Some r \<and> k \<in> record_index_ids r)"
  unfolding store_inv_def by blast

lemma unindex_map: "unindex ix key r = foldl (\<lambda>ix k. index_del ix k key) ix (map (index_id_of r) (sr_indexes r))"
  by (simp add: unindex_def foldl_map)

lemma reindex_map: "reindex ix key r = foldl (\<lambda>ix k. index_add ix k key) ix (map (index_id_of r) (sr_indexes r))"
  by (simp add: reindex_def foldl_map)

lemma unindex_find:
  "index_proper ix \<Longrightarrow>
    index_find (unindex ix key r) k = index_find ix k - (if k \<in> record_index_ids r then {key} else {})"
  by (simp only: unindex_map posting.find_dels record_index_ids_def)

lemma reindex_find:
  "index_find (reindex ix key r) k = index_find ix k \<union> (if k \<in> record_index_ids r then {key} else {})"
  by (simp only: reindex_map posting.find_adds record_index_ids_def)

lemma store_new_inv: "store_inv store_new"
  by (simp add: store_inv_def store_new_def index_proper_def index_find_def)

lemma store_put_Inr:
  "store_put vf st r p = Inr (rc, st') \<longleftrightarrow>
    validate vf r p = Inr () \<and>
    (\<forall>e. st_records st (key_of r) = Some e \<longrightarrow>
       rc_version (sr_context e) < rc_version (sr_context r) \<or>
       rc_version (sr_context r) = rc_version (sr_context e) \<and> sr_manifest_revision e < sr_manifest_revision r) \<and>
    rc = \<lparr>wr_version = rc_version (sr_context r), wr_manifest_revision = sr_manifest_revision r,
      wr_manifest_hash = manifest_hash r, wr_created = (st_records st (key_of r) = None)\<rparr> \<and>
    st' = st\<lparr>st_records := (st_records st)(key_of r \<mapsto> r),
      st_index := reindex (case st_records st (key_of r) of None \<Rightarrow> st_index st
        | Some prev \<Rightarrow> unindex (st_index st) (key_of r) prev) (key_of r) r\<rparr>"
  by (cases "st_records st (key_of r)") (auto simp: store_put_def result_simps Let_def)

lemma store_put_inv:
  assumes inv: "store_inv st" and put: "store_put vf st r p = Inr (rc, st')"
  shows "store_inv st'"
proof -
  let ?key = "key_of r"
  let ?ix = "case st_records st ?key of None \<Rightarrow> st_index st | Some prev \<Rightarrow> unindex (st_index st) ?key prev"
  have st': "st' = st\<lparr>st_records := (st_records st)(?key \<mapsto> r), st_index := reindex ?ix ?key r\<rparr>"
    using put by (simp add: store_put_Inr)
  have proper: "index_proper (st_index st)" using inv by (simp add: store_inv_def)
  have ix_proper: "index_proper ?ix"
    using proper by (auto simp: unindex_map posting.ok_dels simp del: foldl_map split: option.split)
  have ix_find: "key \<in> index_find ?ix k \<longleftrightarrow>
      key \<noteq> ?key \<and> (\<exists>x. st_records st key = Some x \<and> k \<in> record_index_ids x)" for k key
    by (cases "st_records st ?key")
       (auto simp: unindex_find [OF proper] store_inv_find [OF inv])
  have records': "st_records st' = (st_records st)(?key \<mapsto> r)" and index': "st_index st' = reindex ?ix ?key r"
    using st' by simp_all
  have "finite (dom (st_records st'))" "\<forall>k x. st_records st' k = Some x \<longrightarrow> key_of x = k"
    using inv by (auto simp: records' store_inv_def)
  moreover have "index_proper (st_index st')"
    unfolding index' reindex_map by (rule posting.ok_adds [OF ix_proper])
  moreover have "key \<in> index_find (st_index st') k \<longleftrightarrow>
      (\<exists>x. st_records st' key = Some x \<and> k \<in> record_index_ids x)" for k key
    unfolding index' records' reindex_find Un_iff ix_find by auto
  ultimately show ?thesis unfolding store_inv_def by blast
qed

text \<open>The order in which versions advance: payload version first, then manifest revision.\<close>

definition stamp :: "sealed_record \<Rightarrow> u64 \<times> u64" where
  "stamp r = (rc_version (sr_context r), sr_manifest_revision r)"

lemma store_put_stamp:
  assumes "store_put vf st r p = Inr (rc, st')" "st_records st k = Some e"
  shows "\<exists>e'. st_records st' k = Some e' \<and> (e' = e \<or> stamp e < stamp e')"
  using assms by (cases "k = key_of r") (auto simp: store_put_Inr stamp_def)

lemma store_put_stale:
  assumes "validate vf r p = Inr ()" "st_records st (key_of r) = Some e" "stamp r \<le> stamp e"
  shows "store_put vf st r p = Inl (StaleWrite (rc_version (sr_context e)) (rc_version (sr_context r)))"
  using assms by (auto simp: store_put_def Let_def stamp_def)

lemma store_search_spec:
  assumes inv: "store_inv st"
  shows "store_search st t l e tok = map (\<lambda>k. the (st_records st k))
    (sorted_list_of_set {k. \<exists>r. st_records st k = Some r \<and> rc_tenant (sr_context r) = t \<and>
      (\<exists>i\<in>set (sr_indexes r). bi_label i = l \<and> bi_key_epoch i = e \<and> bi_token i = tok)})"
proof -
  let ?S = "index_find (st_index st) (t, l, e, tok)"
  have S: "?S = {k. \<exists>r. st_records st k = Some r \<and> rc_tenant (sr_context r) = t \<and>
      (\<exists>i\<in>set (sr_indexes r). bi_label i = l \<and> bi_key_epoch i = e \<and> bi_token i = tok)}"
    by (auto simp: store_inv_find [OF inv] record_index_ids_def index_id_of_def intro!: bexI)
  have fin: "finite ?S"
    using inv by (auto simp: store_inv_def index_proper_def index_find_def split: option.split)
  have "List.map_filter (st_records st) xs = map (\<lambda>k. the (st_records st k)) xs"
    if "set xs \<subseteq> dom (st_records st)" for xs
    using that by (induction xs) (auto simp: List.map_filter_simps)
  moreover have "set (sorted_list_of_set ?S) \<subseteq> dom (st_records st)"
    using fin S by auto
  ultimately show ?thesis
    unfolding store_search_def S [symmetric] by simp
qed

end
