(* ===== verification/Relay.thy ===== *)
theory Relay
  imports RelayStore WireHead
begin

text \<open>
  The relay service (crates/blindplane-relay/src/relay.rs) as a state machine: one request is
  one step, a reachable relay is one that served any sequence of requests since it was created
  with its policy. The properties say what holds in every reachable relay.
\<close>

record relay =
  ry_store :: store
  ry_policy :: validation_policy

definition relay_new :: "validation_policy \<Rightarrow> relay" where
  "relay_new p = \<lparr>ry_store = store_new, ry_policy = p\<rparr>"

definition put_encoded ::
  "signature_check \<Rightarrow> relay \<Rightarrow> record_key \<Rightarrow> bytes \<Rightarrow> relay_error + write_receipt \<times> relay" where
  "put_encoded vf ry key encoded =
    rbind (map_err Invalid (decode vf encoded (ry_policy ry))) (\<lambda>r.
    rbind (reject (rc_tenant (sr_context r) \<noteq> key_tenant key
        \<or> rc_object_id (sr_context r) \<noteq> key_object_id key
        \<or> rc_field (sr_context r) \<noteq> key_field key) RouteContextMismatch) (\<lambda>_.
    rbind (store_put vf (ry_store ry) r (ry_policy ry)) (\<lambda>(receipt, st).
    Inr (receipt, ry\<lparr>ry_store := st\<rparr>))))"

definition get_encoded :: "relay \<Rightarrow> record_key \<Rightarrow> relay_error + bytes" where
  "get_encoded ry key = rbind (store_get (ry_store ry) key) (\<lambda>r. Inr (encode r))"

definition search_encoded :: "relay \<Rightarrow> str \<Rightarrow> str \<Rightarrow> u64 \<Rightarrow> bytes \<Rightarrow> bytes list" where
  "search_encoded ry tenant label key_epoch token =
    map encode (store_search (ry_store ry) tenant label key_epoch token)"

section \<open>The state machine\<close>

datatype request =
    Put record_key bytes
  | Get record_key
  | Search str str u64 bytes

text \<open>A refused write leaves the relay as it was; reads do not change it.\<close>

fun serve :: "signature_check \<Rightarrow> request \<Rightarrow> relay \<Rightarrow> relay" where
  "serve vf (Put key bs) ry = (case put_encoded vf ry key bs of Inl _ \<Rightarrow> ry | Inr (_, ry') \<Rightarrow> ry')"
| "serve vf (Get key) ry = ry"
| "serve vf (Search t l e k) ry = ry"

fun request_fits :: "request \<Rightarrow> bool" where
  "request_fits (Put key bs) \<longleftrightarrow> length bs \<le> usize_max"
| "request_fits _ \<longleftrightarrow> True"

inductive reachable :: "signature_check \<Rightarrow> validation_policy \<Rightarrow> relay \<Rightarrow> bool" for vf p where
  created: "reachable vf p (relay_new p)"
| served: "reachable vf p ry \<Longrightarrow> request_fits q \<Longrightarrow> reachable vf p (serve vf q ry)"

inductive_cases reachableE: "reachable vf p ry"

definition run :: "signature_check \<Rightarrow> request list \<Rightarrow> relay \<Rightarrow> relay" where
  "run vf qs ry = foldl (\<lambda>ry q. serve vf q ry) ry qs"

lemma run_simps [simp]: "run vf [] ry = ry" "run vf (q # qs) ry = run vf qs (serve vf q ry)"
  by (simp_all add: run_def)

section \<open>The invariant\<close>

definition relay_inv :: "signature_check \<Rightarrow> validation_policy \<Rightarrow> relay \<Rightarrow> bool" where
  "relay_inv vf p ry \<longleftrightarrow> ry_policy ry = p \<and> store_inv (ry_store ry) \<and>
     (\<forall>k r. st_records (ry_store ry) k = Some r \<longrightarrow>
        record_wf r \<and> validate vf r p = Inr () \<and> key_of r = k)"

lemma put_encoded_Inr:
  assumes "length bs \<le> usize_max"
  shows "put_encoded vf ry key bs = Inr (rc, ry') \<longleftrightarrow>
    (\<exists>r st. parsed_ok (ry_policy ry) r \<and> encode r = bs \<and> structure_ok vf (ry_policy ry) r \<and>
       key_of r = key \<and> store_put vf (ry_store ry) r (ry_policy ry) = Inr (rc, st) \<and>
       ry' = ry\<lparr>ry_store := st\<rparr>)"
proof -
  have key: "\<not> (rc_tenant (sr_context r) \<noteq> key_tenant key \<or> rc_object_id (sr_context r) \<noteq> key_object_id key \<or>
      rc_field (sr_context r) \<noteq> key_field key) \<longleftrightarrow> key_of r = key" for r
    by (cases key) (auto simp: key_of_def)
  show ?thesis
    unfolding put_encoded_def rbind_eq_Inr map_err_eq_Inr reject_eq_Inr key decode_iff [OF assms]
    by (force split: prod.splits)
qed

lemma relay_inv_serve:
  assumes inv: "relay_inv vf p ry" and fits: "request_fits q"
  shows "relay_inv vf p (serve vf q ry)"
proof (cases "\<exists>key bs rc ry'. q = Put key bs \<and> put_encoded vf ry key bs = Inr (rc, ry')")
  case True
  then obtain key bs rc ry' where q: "q = Put key bs" and put: "put_encoded vf ry key bs = Inr (rc, ry')"
    by blast
  from q fits have len: "length bs \<le> usize_max" by simp
  from put obtain r st where r: "parsed_ok p r" "encode r = bs"
    and st: "store_put vf (ry_store ry) r p = Inr (rc, st)" and ry': "ry' = ry\<lparr>ry_store := st\<rparr>"
    using inv by (auto simp: put_encoded_Inr [OF len] relay_inv_def)
  have "record_wf r" using parsed_record_wf r len by blast
  moreover have "store_inv st" using store_put_inv [OF _ st] inv by (simp add: relay_inv_def)
  moreover have "validate vf r p = Inr ()" "st_records st = (st_records (ry_store ry))(key_of r \<mapsto> r)"
    using st by (simp_all add: store_put_Inr)
  ultimately show ?thesis using inv by (auto simp: q put ry' relay_inv_def)
next
  case False
  then have "serve vf q ry = ry"
    by (cases q) (auto split: sum.split)
  with inv show ?thesis by simp
qed

lemma relay_new_inv: "relay_inv vf p (relay_new p)"
  using store_new_inv by (simp add: relay_inv_def relay_new_def) (simp add: store_new_def)

lemma reachable_inv: "reachable vf p ry \<Longrightarrow> relay_inv vf p ry"
  by (induction rule: reachable.induct) (simp_all add: relay_new_inv relay_inv_serve)

lemma reachable_run: "reachable vf p ry \<Longrightarrow> \<forall>q\<in>set qs. request_fits q \<Longrightarrow> reachable vf p (run vf qs ry)"
  by (induction qs arbitrary: ry) (auto intro: reachable.served)

lemma serve_stamp:
  assumes "st_records (ry_store ry) k = Some e"
  shows "\<exists>e'. st_records (ry_store (serve vf q ry)) k = Some e' \<and> (e' = e \<or> stamp e < stamp e')"
proof (cases q)
  case (Put key bs)
  show ?thesis
  proof (cases "put_encoded vf ry key bs")
    case (Inr res)
    then obtain rc ry' r st where "res = (rc, ry')" "store_put vf (ry_store ry) r (ry_policy ry) = Inr (rc, st)"
      "ry' = ry\<lparr>ry_store := st\<rparr>"
      by (cases res) (auto simp: put_encoded_def result_simps split: prod.splits)
    with Inr Put store_put_stamp [OF _ assms] show ?thesis by auto
  qed (use Put assms in simp)
qed (use assms in simp_all)

lemma run_stamp:
  "st_records (ry_store ry) k = Some e \<Longrightarrow>
    \<exists>e'. st_records (ry_store (run vf qs ry)) k = Some e' \<and> (e' = e \<or> stamp e < stamp e')"
proof (induction qs arbitrary: ry e)
  case (Cons q qs)
  obtain e1 where e1: "st_records (ry_store (serve vf q ry)) k = Some e1" "e1 = e \<or> stamp e < stamp e1"
    using serve_stamp [OF Cons.prems] by blast
  obtain e2 where "st_records (ry_store (run vf qs (serve vf q ry))) k = Some e2" "e2 = e1 \<or> stamp e1 < stamp e2"
    using Cons.IH [OF e1(1)] by blast
  with e1(2) show ?case by (auto intro: less_trans)
qed simp

lemma put_encoded_stored:
  assumes "length bs \<le> usize_max" "put_encoded vf ry key bs = Inr (rc, ry')"
  shows "\<exists>r. decode vf bs (ry_policy ry) = Inr r \<and> encode r = bs \<and> key_of r = key \<and>
    validate vf r (ry_policy ry) = Inr () \<and> ry_policy ry' = ry_policy ry \<and>
    st_records (ry_store ry') = (st_records (ry_store ry))(key \<mapsto> r) \<and>
    rc = \<lparr>wr_version = rc_version (sr_context r), wr_manifest_revision = sr_manifest_revision r,
      wr_manifest_hash = manifest_hash r, wr_created = (st_records (ry_store ry) key = None)\<rparr>"
proof -
  obtain r st where r: "parsed_ok (ry_policy ry) r" "encode r = bs" "structure_ok vf (ry_policy ry) r"
    and key: "key_of r = key" and st: "store_put vf (ry_store ry) r (ry_policy ry) = Inr (rc, st)"
    and ry': "ry' = ry\<lparr>ry_store := st\<rparr>"
    using assms(2) unfolding put_encoded_Inr [OF assms(1)] by blast
  have "decode vf bs (ry_policy ry) = Inr r"
    using r decode_iff [OF assms(1)] by blast
  moreover note store_put_Inr [THEN iffD1, OF st]
  ultimately show ?thesis
    by (intro exI [of _ r]) (simp add: r(2) key ry')
qed

lemma run_policy: "ry_policy (run vf qs ry) = ry_policy ry"
proof (induction qs arbitrary: ry)
  case (Cons q qs)
  have "ry_policy (serve vf q ry) = ry_policy ry"
    by (cases q) (auto simp: put_encoded_def result_simps split: sum.splits prod.splits)
  with Cons show ?case by simp
qed simp

text \<open>The sample record, put into a fresh relay.\<close>

definition sample_key :: record_key where
  "sample_key = RecordKey [116] [111] [102]"

lemma sample_encode_fits: "length (encode sample_record) \<le> usize_max"
  using sample_record_wf by (simp add: record_wf_def)

lemma sample_decode:
  "decode accept_all (encode sample_record) sample_policy = Inr sample_record"
  "structure_ok accept_all sample_policy sample_record" "parsed_ok sample_policy sample_record"
proof -
  have fits: "policy_fits sample_policy"
    using default_policy_fits by (simp add: policy_fits_def sample_policy_def bytes_limit_def)
  show st: "structure_ok accept_all sample_policy sample_record"
    using sample_validates by (simp add: validate_iff)
  show "parsed_ok sample_policy sample_record"
    using limits_parsed_ok [OF sample_record_wf _ fits] st by (simp add: structure_ok_def)
  with st show "decode accept_all (encode sample_record) sample_policy = Inr sample_record"
    by (simp add: decode_iff [OF sample_encode_fits])
qed

lemma sample_put:
  "\<exists>rc ry'. put_encoded accept_all (relay_new sample_policy) sample_key (encode sample_record) = Inr (rc, ry')"
proof -
  have key: "key_of sample_record = sample_key"
    by (simp add: key_of_def sample_record_def sample_key_def)
  obtain rc s where "store_put accept_all store_new sample_record sample_policy = Inr (rc, s)"
    using store_put_Inr [of accept_all store_new sample_record sample_policy] sample_validates
    by (simp add: store_new_def)
  with sample_decode(2,3) key show ?thesis
    unfolding put_encoded_Inr [OF sample_encode_fits] by (auto simp: relay_new_def)
qed

section \<open>Properties\<close>

text \<open>
  C12. Every reachable relay is consistent: it still enforces the policy it was created with,
  every stored record is filed under its own signed context, is well typed and passes full
  validation including the signer pin, and the secondary index holds exactly the tokens of the
  stored records.
\<close>

theorem relay_consistent:
  assumes "reachable vf p ry"
  shows "ry_policy ry = p \<and>
    (\<forall>k r. st_records (ry_store ry) k = Some r \<longrightarrow>
       key_of r = k \<and> record_wf r \<and> validate vf r p = Inr ()) \<and>
    (\<forall>k key. key \<in> index_find (st_index (ry_store ry)) k \<longleftrightarrow>
       (\<exists>r. st_records (ry_store ry) key = Some r \<and> k \<in> record_index_ids r))"
  using reachable_inv [OF assms] store_inv_find unfolding relay_inv_def by blast

theorem relay_consistent_witness:
  "\<exists>ry. get_encoded ry sample_key = Inr (encode sample_record) \<and> ry_policy ry = sample_policy \<and>
    (\<forall>k key. key \<in> index_find (st_index (ry_store ry)) k \<longleftrightarrow>
       (\<exists>r. st_records (ry_store ry) key = Some r \<and> k \<in> record_index_ids r))"
proof -
  let ?q = "Put sample_key (encode sample_record)"
  obtain rc ry' where put: "put_encoded accept_all (relay_new sample_policy) sample_key (encode sample_record)
      = Inr (rc, ry')"
    using sample_put by blast
  have "reachable accept_all sample_policy (serve accept_all ?q (relay_new sample_policy))"
    by (intro reachable.intros) (simp add: sample_encode_fits)
  then have "reachable accept_all sample_policy ry'" by (simp add: put)
  from relay_consistent [OF this] put_encoded_stored [OF sample_encode_fits put] show ?thesis
    by (intro exI [of _ ry']) (auto simp: get_encoded_def store_get_def)
qed

text \<open>
  C13. Search is exact: in a reachable relay it returns the encodings of precisely the stored
  records of that tenant that carry an index with this label, epoch and token, once each, in key
  order.
\<close>

theorem relay_search_exact:
  assumes "reachable vf p ry"
  shows "search_encoded ry t l e tok = map (\<lambda>k. encode (the (st_records (ry_store ry) k)))
    (sorted_list_of_set {k. \<exists>r. st_records (ry_store ry) k = Some r \<and> rc_tenant (sr_context r) = t \<and>
      (\<exists>i\<in>set (sr_indexes r). bi_label i = l \<and> bi_key_epoch i = e \<and> bi_token i = tok)})"
  using reachable_inv [OF assms]
  by (simp add: relay_inv_def search_encoded_def store_search_spec)

theorem relay_search_exact_witness:
  "search_encoded (relay_new sample_policy) [116] [101] 1 (replicate 16 8) =
    map (\<lambda>k. encode (the (st_records store_new k))) (sorted_list_of_set {k. \<exists>r. st_records store_new k = Some r \<and>
      rc_tenant (sr_context r) = [116] \<and> (\<exists>i\<in>set (sr_indexes r). bi_label i = [101] \<and>
      bi_key_epoch i = 1 \<and> bi_token i = replicate 16 8)})"
  using relay_search_exact [OF reachable.created, of sample_policy "[116]" "[101]" 1 "replicate 16 8"]
  by (simp only: relay_new_def relay.select_convs)

text \<open>
  An accepted write can be read back: the relay returns the very bytes that were put, and
  the receipt carries the version, the revision, the manifest hash of the record and whether the
  key was new.
\<close>

theorem put_get_roundtrip:
  assumes "length bs \<le> usize_max" and "put_encoded vf ry key bs = Inr (rc, ry')"
  shows "get_encoded ry' key = Inr bs \<and>
    (\<exists>r. decode vf bs (ry_policy ry) = Inr r \<and> wr_version rc = rc_version (sr_context r) \<and>
       wr_manifest_revision rc = sr_manifest_revision r \<and> wr_manifest_hash rc = manifest_hash r \<and>
       wr_created rc = (get_encoded ry key = Inl NotFound))"
proof -
  obtain r where r: "decode vf bs (ry_policy ry) = Inr r" "encode r = bs"
    "st_records (ry_store ry') = (st_records (ry_store ry))(key \<mapsto> r)"
    "rc = \<lparr>wr_version = rc_version (sr_context r), wr_manifest_revision = sr_manifest_revision r,
      wr_manifest_hash = manifest_hash r, wr_created = (st_records (ry_store ry) key = None)\<rparr>"
    using put_encoded_stored [OF assms] by blast
  then show ?thesis
    by (cases "st_records (ry_store ry) key") (simp_all add: get_encoded_def store_get_def)
qed

theorem put_get_roundtrip_witness:
  "\<exists>rc ry'. put_encoded accept_all (relay_new sample_policy) sample_key (encode sample_record) = Inr (rc, ry')
     \<and> get_encoded ry' sample_key = Inr (encode sample_record)"
  using sample_put put_get_roundtrip [OF sample_encode_fits] by blast

text \<open>
  No lost update and no rollback: along any sequence of requests a stored record is never
  removed, and it is only ever replaced by one with a later (version, revision) stamp under the
  same key.
\<close>

theorem relay_never_rolls_back:
  assumes "st_records (ry_store ry) k = Some e"
  shows "\<exists>e'. st_records (ry_store (run vf qs ry)) k = Some e' \<and> (e' = e \<or> stamp e < stamp e')"
  by (rule run_stamp [OF assms])

theorem relay_never_rolls_back_witness:
  "\<exists>e'. st_records (ry_store (run accept_all [Get sample_key, Put sample_key []]
      \<lparr>ry_store = \<lparr>st_records = [sample_key \<mapsto> sample_record], st_index = Map.empty\<rparr>,
        ry_policy = sample_policy\<rparr>)) sample_key = Some e' \<and>
     (e' = sample_record \<or> stamp sample_record < stamp e')"
  by (rule relay_never_rolls_back) simp

text \<open>
  C15. Replay is refused: once a write was accepted, the same bytes are refused as stale ever
  after, whatever requests are served in between.
\<close>

theorem relay_refuses_replay:
  assumes "length bs \<le> usize_max" and "put_encoded vf ry key bs = Inr (rc, ry')"
  shows "\<exists>v w. put_encoded vf (run vf qs ry') key bs = Inl (StaleWrite v w)"
proof -
  obtain r where r: "decode vf bs (ry_policy ry) = Inr r" "key_of r = key"
    "validate vf r (ry_policy ry) = Inr ()" "st_records (ry_store ry') key = Some r"
    and pol: "ry_policy (run vf qs ry') = ry_policy ry"
    using put_encoded_stored [OF assms(1,2)] run_policy by auto
  obtain e where e: "st_records (ry_store (run vf qs ry')) key = Some e" "e = r \<or> stamp r < stamp e"
    using run_stamp [OF r(4)] by blast
  have "store_put vf (ry_store (run vf qs ry')) r (ry_policy ry) =
      Inl (StaleWrite (rc_version (sr_context e)) (rc_version (sr_context r)))"
    by (rule store_put_stale [OF r(3)]) (use e r(2) in auto)
  then show ?thesis
    using r pol by (auto simp: put_encoded_def key_of_def)
qed

theorem relay_refuses_replay_witness:
  "\<exists>ry' v w. put_encoded accept_all (run accept_all [Get sample_key] ry') sample_key (encode sample_record) =
    Inl (StaleWrite v w)"
  using sample_put relay_refuses_replay [OF sample_encode_fits] by blast

text \<open>
  C14. Progress: whatever requests follow, once a valid record was put the relay holds under its key a
  record that is at least as new; the put itself succeeds exactly when nothing as new was stored.
\<close>

theorem relay_progress:
  assumes "decode vf bs (ry_policy ry) = Inr r" and "validate vf r (ry_policy ry) = Inr ()"
  shows "(\<exists>e. st_records (ry_store (run vf (Put (key_of r) bs # qs) ry)) (key_of r) = Some e \<and> stamp r \<le> stamp e) \<and>
    ((\<exists>ok. put_encoded vf ry (key_of r) bs = Inr ok) \<longleftrightarrow>
      (\<forall>e. st_records (ry_store ry) (key_of r) = Some e \<longrightarrow> stamp e < stamp r))"
proof -
  have put: "put_encoded vf ry (key_of r) bs =
      rbind (store_put vf (ry_store ry) r (ry_policy ry)) (\<lambda>(rc, st). Inr (rc, ry\<lparr>ry_store := st\<rparr>))"
    using assms(1) by (simp add: put_encoded_def key_of_def reject_def)
  have iff: "(\<exists>ok. put_encoded vf ry (key_of r) bs = Inr ok) \<longleftrightarrow>
      (\<forall>e. st_records (ry_store ry) (key_of r) = Some e \<longrightarrow> stamp e < stamp r)"
    unfolding put using assms(2) by (auto simp: result_simps store_put_Inr stamp_def split: prod.splits)
  have "\<exists>e. st_records (ry_store (serve vf (Put (key_of r) bs) ry)) (key_of r) = Some e \<and> stamp r \<le> stamp e"
  proof (cases "put_encoded vf ry (key_of r) bs")
    case (Inl x)
    then obtain e where "st_records (ry_store ry) (key_of r) = Some e" "\<not> stamp e < stamp r" using iff by auto
    then show ?thesis using Inl by (auto simp: not_less)
  next
    case (Inr x)
    then show ?thesis unfolding put by (auto simp: result_simps store_put_Inr Inr put split: prod.splits)
  qed
  then obtain e where e: "st_records (ry_store (serve vf (Put (key_of r) bs) ry)) (key_of r) = Some e" "stamp r \<le> stamp e"
    by blast
  obtain e' where "st_records (ry_store (run vf qs (serve vf (Put (key_of r) bs) ry))) (key_of r) = Some e'"
      "e' = e \<or> stamp e < stamp e'"
    using run_stamp [OF e(1)] by blast
  with e(2) have "\<exists>e. st_records (ry_store (run vf (Put (key_of r) bs # qs) ry)) (key_of r) = Some e \<and> stamp r \<le> stamp e"
    by auto
  with iff show ?thesis by blast
qed

theorem relay_progress_witness:
  "(\<exists>e. st_records (ry_store (run accept_all [Put (key_of sample_record) (encode sample_record), Get sample_key]
        (relay_new sample_policy))) (key_of sample_record) = Some e \<and> stamp sample_record \<le> stamp e) \<and>
    (\<exists>ok. put_encoded accept_all (relay_new sample_policy) (key_of sample_record) (encode sample_record) = Inr ok)"
proof -
  have "decode accept_all (encode sample_record) (ry_policy (relay_new sample_policy)) = Inr sample_record"
    "validate accept_all sample_record (ry_policy (relay_new sample_policy)) = Inr ()"
    using sample_decode(1) sample_validates by (simp_all add: relay_new_def)
  from relay_progress [OF this, of "[Get sample_key]"] show ?thesis
    by (simp add: relay_new_def store_new_def)
qed

end
