(* ===== verification/CtUtil.thy ===== *)
theory CtUtil
  imports Prelude
begin

text \<open>
  Constant-time primitives (crates/blindplane-crypto/src/util.rs): \<open>Choice\<close> masks, the
  branch-free comparison of byte strings, and erasure. Timing is not modelled; the lemmas show
  that the masks compute the truth values the callers read from them.
\<close>

datatype choice = Choice (mask: u64)

definition choice_TRUE :: choice where "choice_TRUE = Choice (- 1)"
definition choice_FALSE :: choice where "choice_FALSE = Choice 0"

definition from_bit :: "u64 \<Rightarrow> choice" where
  "from_bit b = Choice (0 - (b AND 1))"

definition is_set :: "choice \<Rightarrow> bool" where
  "is_set c \<longleftrightarrow> mask c = - 1"

definition choice_of_bool :: "bool \<Rightarrow> choice" where
  "choice_of_bool b = from_bit (of_bool b)"

definition choice_and :: "choice \<Rightarrow> choice \<Rightarrow> choice" where
  "choice_and a b = Choice (mask a AND mask b)"

definition choice_or :: "choice \<Rightarrow> choice \<Rightarrow> choice" where
  "choice_or a b = Choice (mask a OR mask b)"

definition choice_xor :: "choice \<Rightarrow> choice \<Rightarrow> choice" where
  "choice_xor a b = Choice (mask a XOR mask b)"

definition choice_not :: "choice \<Rightarrow> choice" where
  "choice_not a = Choice (NOT (mask a))"

definition is_zero_u64 :: "u64 \<Rightarrow> u64" where
  "is_zero_u64 v = (let nonzero = drop_bit 63 (v OR (- v)) in nonzero XOR 1)"

definition ct_eq_bytes :: "bytes \<Rightarrow> bytes \<Rightarrow> choice" where
  "ct_eq_bytes a b =
    (if length a \<noteq> length b then choice_FALSE
     else let diff = foldl (\<lambda>diff (x, y). diff OR (x XOR y)) (0 :: u8) (zip a b)
          in from_bit (is_zero_u64 (ucast diff)))"

definition secure_erase :: "bytes \<Rightarrow> bytes" where
  "secure_erase bs = map (\<lambda>_. 0) bs"

section \<open>Masks\<close>

text \<open>The masks the operations build are the two constants.\<close>

definition choice_wf :: "choice \<Rightarrow> bool" where
  "choice_wf c \<longleftrightarrow> c = choice_TRUE \<or> c = choice_FALSE"

lemma choice_sel [simp]: "is_set choice_TRUE" "\<not> is_set choice_FALSE"
  by (simp_all add: choice_TRUE_def choice_FALSE_def is_set_def)

lemma from_bit_01 [simp]: "from_bit 1 = choice_TRUE" "from_bit 0 = choice_FALSE"
  by (simp_all add: from_bit_def choice_TRUE_def choice_FALSE_def)

lemma from_bit_cases: "from_bit b = (if bit b 0 then choice_TRUE else choice_FALSE)"
proof -
  have "b AND 1 = of_bool (bit b 0)"
    by (simp add: and_one_eq mod_2_eq_odd bit_0)
  then show ?thesis
    by (simp add: from_bit_def choice_TRUE_def choice_FALSE_def)
qed

lemma choice_of_bool_set [simp]: "is_set (choice_of_bool b) = b"
  by (cases b) (simp_all add: choice_of_bool_def)

lemma choice_ops:
  assumes "choice_wf a" "choice_wf b"
  shows "choice_wf (choice_and a b)" "is_set (choice_and a b) \<longleftrightarrow> is_set a \<and> is_set b"
    "choice_wf (choice_or a b)" "is_set (choice_or a b) \<longleftrightarrow> is_set a \<or> is_set b"
    "choice_wf (choice_xor a b)" "is_set (choice_xor a b) \<longleftrightarrow> is_set a \<noteq> is_set b"
    "choice_wf (choice_not a)" "is_set (choice_not a) \<longleftrightarrow> \<not> is_set a"
  using assms
  by (auto simp: choice_wf_def choice_TRUE_def choice_FALSE_def choice_and_def choice_or_def
      choice_xor_def choice_not_def is_set_def)

section \<open>The comparison\<close>

lemma top_bit: "drop_bit 63 (w :: u64) = of_bool (2 ^ 63 \<le> unat w)"
proof -
  have u: "unat (drop_bit 63 w) = unat w div 2 ^ 63"
    by (rule unat_drop_bit_eq [THEN trans, OF drop_bit_eq_div])
  have "unat w div 2 ^ 63 = of_bool (2 ^ 63 \<le> unat w)"
    using unat_bounds(4) [of w] by (auto simp: div_nat_eqI)
  with u show ?thesis by (simp add: word_unat_eq_iff)
qed

lemma unat_uminus64: "(v :: u64) \<noteq> 0 \<Longrightarrow> unat (- v) = 2 ^ 64 - unat v"
proof -
  assume v: "v \<noteq> 0"
  have "uint (- v) = (- uint v) mod 2 ^ 64"
    by (simp add: uint_word_ariths)
  also have "\<dots> = 2 ^ 64 - uint v"
    using v uint_lt2p [of v] by (simp add: zmod_zminus1_eq_if uint_0_iff)
  finally have "int (unat (- v)) = 18446744073709551616 - int (unat v)"
    by (simp only: uint_nat) simp
  then have "unat (- v) = 18446744073709551616 - unat v"
    by linarith
  then show ?thesis by simp
qed

lemma is_zero_u64_eq: "is_zero_u64 v = of_bool (v = 0)"
proof (cases "v = 0")
  case False
  have "2 ^ 63 \<le> unat v \<or> 2 ^ 63 \<le> unat (- v)"
    using unat_uminus64 [OF False] by auto
  then have "drop_bit 63 (v OR (- v)) = 1"
    unfolding drop_bit_or top_bit by auto
  with False show ?thesis by (simp add: is_zero_u64_def)
qed (simp add: is_zero_u64_def)

lemma or_eq_0: "(x :: 'a :: len word) OR y = 0 \<longleftrightarrow> x = 0 \<and> y = 0"
  by (auto simp: bit_eq_iff bit_simps)

lemma xor_eq_0: "(x :: 'a :: len word) XOR y = 0 \<longleftrightarrow> x = y"
  by (auto simp: bit_eq_iff bit_simps)

lemma diff_fold:
  "length a = length b \<Longrightarrow>
    foldl (\<lambda>diff (x, y). diff OR (x XOR y)) d (zip a b) = (0 :: u8) \<longleftrightarrow> d = 0 \<and> a = b"
  by (induction a b arbitrary: d rule: list_induct2) (auto simp: or_eq_0 xor_eq_0)

lemma ct_eq_bytes_eq: "ct_eq_bytes a b = (if a = b then choice_TRUE else choice_FALSE)"
proof (cases "length a = length b")
  case True
  have "ucast (d :: u8) = (0 :: u64) \<longleftrightarrow> d = 0" for d
    by (simp add: word_unat_eq_iff unsigned_ucast_eq take_bit_nat_eq_self unat_bounds less_trans [OF unat_bounds(1)])
  then show ?thesis
    using True diff_fold [OF True, of 0] by (auto simp: ct_eq_bytes_def is_zero_u64_eq Let_def)
qed (auto simp: ct_eq_bytes_def)

lemma ct_eq_bytes_set [simp]: "is_set (ct_eq_bytes a b) \<longleftrightarrow> a = b"
  by (simp add: ct_eq_bytes_eq)

lemma secure_erase_zero: "secure_erase bs = replicate (length bs) 0"
  by (simp add: secure_erase_def map_replicate_const)

section \<open>Properties\<close>

text \<open>
  The constant-time comparison is exact: for byte strings of any lengths the mask it
  returns is all ones when they are equal and all zeros otherwise, never anything in between.
\<close>

theorem ct_eq_bytes_exact:
  "mask (ct_eq_bytes a b) = (if a = b then - 1 else 0)"
  by (simp add: ct_eq_bytes_eq choice_TRUE_def choice_FALSE_def)

end
