(* ===== verification/Kdf.thy ===== *)
theory Kdf
  imports Sha2 CtUtil
begin

text \<open>
  HMAC and HKDF (crates/blindplane-crypto/src/kdf.rs), with the RFC 2104 and RFC 5869 formulas
  as their specifications. Erasing a local buffer before it goes out of scope has no effect a
  caller can see and is left out.
\<close>

section \<open>HMAC-SHA-256\<close>

record hmac256 =
  hm_inner :: sha256
  hm_outer_key :: bytes

definition hmac256_block :: "bytes \<Rightarrow> bytes" where
  "hmac256_block key =
    (if 64 < length key then copy_into (replicate 64 0) 0 (sha256_digest key)
     else copy_into (replicate 64 0) 0 key)"

definition hmac256_new :: "bytes \<Rightarrow> hmac256" where
  "hmac256_new key =
    (let block = hmac256_block key;
         inner_key = map (\<lambda>b. b XOR 0x36) block;
         outer_key = map (\<lambda>b. b XOR 0x5c) block
     in \<lparr>hm_inner = sha256_update sha256_new inner_key, hm_outer_key = outer_key\<rparr>)"

definition hmac256_update :: "hmac256 \<Rightarrow> bytes \<Rightarrow> hmac256" where
  "hmac256_update m data = m\<lparr>hm_inner := sha256_update (hm_inner m) data\<rparr>"

definition hmac256_finalize :: "hmac256 \<Rightarrow> bytes" where
  "hmac256_finalize m =
    (let inner = sha256_finalize (hm_inner m);
         outer = sha256_update sha256_new (hm_outer_key m);
         outer = sha256_update outer inner
     in sha256_finalize outer)"

definition hmac256_verify :: "hmac256 \<Rightarrow> bytes \<Rightarrow> choice" where
  "hmac256_verify m expected = ct_eq_bytes (hmac256_finalize m) expected"

definition hmac256_mac :: "bytes \<Rightarrow> bytes \<Rightarrow> bytes" where
  "hmac256_mac key data = hmac256_finalize (hmac256_update (hmac256_new key) data)"

section \<open>HMAC-SHA-512\<close>

record hmac512 =
  hm5_inner :: sha512
  hm5_outer_key :: bytes

definition hmac512_block :: "bytes \<Rightarrow> bytes" where
  "hmac512_block key =
    (if 128 < length key then copy_into (replicate 128 0) 0 (sha512_digest key)
     else copy_into (replicate 128 0) 0 key)"

definition hmac512_new :: "bytes \<Rightarrow> hmac512" where
  "hmac512_new key =
    (let block = hmac512_block key;
         inner_key = map (\<lambda>b. b XOR 0x36) block;
         outer_key = map (\<lambda>b. b XOR 0x5c) block
     in \<lparr>hm5_inner = sha512_update sha512_new inner_key, hm5_outer_key = outer_key\<rparr>)"

definition hmac512_update :: "hmac512 \<Rightarrow> bytes \<Rightarrow> hmac512" where
  "hmac512_update m data = m\<lparr>hm5_inner := sha512_update (hm5_inner m) data\<rparr>"

definition hmac512_finalize :: "hmac512 \<Rightarrow> bytes" where
  "hmac512_finalize m =
    (let inner = sha512_finalize (hm5_inner m);
         outer = sha512_update sha512_new (hm5_outer_key m);
         outer = sha512_update outer inner
     in sha512_finalize outer)"

definition hmac512_mac :: "bytes \<Rightarrow> bytes \<Rightarrow> bytes" where
  "hmac512_mac key data = hmac512_finalize (hmac512_update (hmac512_new key) data)"

section \<open>The RFC 2104 formula\<close>

text \<open>Over a hash \<open>H\<close> with blocks of \<open>B\<close> bytes.\<close>

definition hmac_key :: "(bytes \<Rightarrow> bytes) \<Rightarrow> nat \<Rightarrow> bytes \<Rightarrow> bytes" where
  "hmac_key H B key =
    (let k = (if B < length key then H key else key) in k @ replicate (B - length k) 0)"

definition hmac_spec :: "(bytes \<Rightarrow> bytes) \<Rightarrow> nat \<Rightarrow> bytes \<Rightarrow> bytes \<Rightarrow> bytes" where
  "hmac_spec H B key m =
    H (map (\<lambda>b. b XOR 0x5c) (hmac_key H B key) @ H (map (\<lambda>b. b XOR 0x36) (hmac_key H B key) @ m))"

lemma hmac256_block_key: "hmac256_block key = hmac_key sha256_spec 64 key"
  by (simp add: hmac256_block_def hmac_key_def copy_into_def sha256_digest_spec Let_def)

lemma hmac512_block_key: "hmac512_block key = hmac_key sha512_spec 128 key"
  by (simp add: hmac512_block_def hmac_key_def copy_into_def sha512_digest_spec Let_def)

text \<open>The state after absorbing \<open>m\<close>.\<close>

definition hmac256_holds :: "bytes \<Rightarrow> hmac256 \<Rightarrow> bytes \<Rightarrow> bool" where
  "hmac256_holds key h m \<longleftrightarrow>
     sha256_holds (hm_inner h) (map (\<lambda>b. b XOR 0x36) (hmac_key sha256_spec 64 key) @ m) \<and>
     hm_outer_key h = map (\<lambda>b. b XOR 0x5c) (hmac_key sha256_spec 64 key)"

lemma hmac256_holds_new: "hmac256_holds key (hmac256_new key) []"
  using sha256_holds_update [OF sha256_holds_new]
  by (simp add: hmac256_holds_def hmac256_new_def hmac256_block_key Let_def)

lemma hmac256_holds_update: "hmac256_holds key h m \<Longrightarrow> hmac256_holds key (hmac256_update h d) (m @ d)"
  using sha256_holds_update by (fastforce simp: hmac256_holds_def hmac256_update_def)

lemma hmac256_holds_updates:
  "hmac256_holds key h m \<Longrightarrow> hmac256_holds key (foldl hmac256_update h ds) (m @ concat ds)"
proof (induction ds arbitrary: h m)
  case (Cons d ds)
  from Cons.IH [OF hmac256_holds_update [OF Cons.prems, of d]] show ?case by simp
qed simp

lemma hmac256_finalize_spec:
  assumes "hmac256_holds key h m"
  shows "hmac256_finalize h = hmac_spec sha256_spec 64 key m"
proof -
  have "sha256_finalize (hm_inner h) =
      sha256_spec (map (\<lambda>b. b XOR 0x36) (hmac_key sha256_spec 64 key) @ m)"
    using assms sha256_finalize_spec by (simp add: hmac256_holds_def)
  moreover have "sha256_finalize (sha256_update (sha256_update sha256_new a) b) = sha256_spec (a @ b)" for a b
    using sha256_finalize_spec [OF sha256_holds_update [OF sha256_holds_update [OF sha256_holds_new]], of a b]
    by simp
  ultimately show ?thesis
    using assms by (simp add: hmac256_finalize_def hmac_spec_def hmac256_holds_def Let_def)
qed

lemma hmac256_mac_spec: "hmac256_mac key data = hmac_spec sha256_spec 64 key data"
  using hmac256_finalize_spec [OF hmac256_holds_update [OF hmac256_holds_new]]
  by (simp add: hmac256_mac_def)

lemma hmac256_length [simp, byte_len]: "length (hmac_spec sha256_spec 64 key m) = 32"
  by (simp add: hmac_spec_def)

lemma hmac256_mac_length [simp, byte_len]: "length (hmac256_mac key m) = 32"
  by (simp add: hmac256_mac_spec)

lemma hmac256_finalize_length [simp, byte_len]: "length (hmac256_finalize h) = 32"
proof -
  have "sha256_finalize (sha256_update (sha256_update sha256_new a) b) = sha256_spec (a @ b)" for a b
    using sha256_finalize_spec [OF sha256_holds_update [OF sha256_holds_update [OF sha256_holds_new]], of a b]
    by simp
  then show ?thesis by (simp add: hmac256_finalize_def Let_def)
qed

lemma hmac512_mac_spec: "hmac512_mac key data = hmac_spec sha512_spec 128 key data"
proof -
  have two: "sha512_finalize (sha512_update (sha512_update sha512_new a) b) = sha512_spec (a @ b)" for a b
    using sha512_finalize_spec [OF sha512_holds_update [OF sha512_holds_update [OF sha512_holds_new]], of a b]
    by simp
  show ?thesis
    by (simp add: hmac512_mac_def hmac512_finalize_def hmac512_update_def hmac512_new_def two
        hmac_spec_def hmac512_block_key Let_def)
qed

section \<open>HKDF-SHA-256\<close>

definition hkdf_extract :: "bytes \<Rightarrow> bytes \<Rightarrow> bytes" where
  "hkdf_extract salt ikm = hmac256_mac salt ikm"

text \<open>The loop of \<open>hkdf_expand\<close>, in its variables.\<close>

function hkdf_loop :: "bytes \<Rightarrow> bytes \<Rightarrow> bytes \<Rightarrow> nat \<Rightarrow> u8 \<Rightarrow> nat \<Rightarrow> bytes \<Rightarrow> bytes" where
  "hkdf_loop prk info previous previous_len counter written okm =
    (if written < length okm then
       let mac = hmac256_new prk;
           mac = hmac256_update mac (take previous_len previous);
           mac = hmac256_update mac info;
           mac = hmac256_update mac [counter];
           previous = hmac256_finalize mac;
           tk = min 32 (length okm - written);
           okm = copy_into okm written (take tk previous)
       in hkdf_loop prk info previous 32 (counter + 1) (written + tk) okm
     else okm)"
  by pat_completeness auto
termination
  by (relation "measure (\<lambda>(prk, info, previous, previous_len, counter, written, okm). length okm - written)")
     (auto simp: Let_def)

declare hkdf_loop.simps [simp del]

definition hkdf_expand :: "bytes \<Rightarrow> bytes \<Rightarrow> bytes \<Rightarrow> bool \<times> bytes" where
  "hkdf_expand prk info okm =
    (if 255 * 32 < length okm then (False, okm)
     else (True, hkdf_loop prk info (replicate 32 0) 0 1 0 okm))"

definition hkdf :: "bytes \<Rightarrow> bytes \<Rightarrow> bytes \<Rightarrow> bytes \<Rightarrow> bool \<times> bytes" where
  "hkdf salt ikm info okm = hkdf_expand (hkdf_extract salt ikm) info okm"

text \<open>RFC 5869: \<open>T(0)\<close> is empty, \<open>T(i) = HMAC(PRK, T(i-1) | info | i)\<close>.\<close>

fun hkdf_T :: "bytes \<Rightarrow> bytes \<Rightarrow> nat \<Rightarrow> bytes" where
  "hkdf_T prk info 0 = []"
| "hkdf_T prk info (Suc i) = hmac_spec sha256_spec 64 prk (hkdf_T prk info i @ info @ [of_nat (Suc i)])"

definition hkdf_spec :: "bytes \<Rightarrow> bytes \<Rightarrow> nat \<Rightarrow> bytes" where
  "hkdf_spec prk info l = take l (concat (map (hkdf_T prk info) [1..<Suc ((l + 31) div 32)]))"

lemma hkdf_block:
  assumes "take previous_len previous = hkdf_T prk info i" "counter = of_nat (Suc i)"
  shows "hmac256_finalize (hmac256_update (hmac256_update (hmac256_update (hmac256_new prk)
    (take previous_len previous)) info) [counter]) = hkdf_T prk info (Suc i)"
proof -
  have "hmac256_holds prk (hmac256_update (hmac256_update (hmac256_update (hmac256_new prk)
      (take previous_len previous)) info) [counter]) ((([] @ take previous_len previous) @ info) @ [counter])"
    by (intro hmac256_holds_update hmac256_holds_new)
  from hmac256_finalize_spec [OF this] show ?thesis using assms by simp
qed

lemma hkdf_loop_eq:
  assumes "take previous_len previous = hkdf_T prk info i" "counter = of_nat (Suc i)"
    and "i \<le> n" "length okm \<le> 32 * n"
  shows "hkdf_loop prk info previous previous_len counter (32 * i) okm =
    take (32 * i) okm @ take (length okm - 32 * i) (concat (map (hkdf_T prk info) [Suc i..<Suc n]))"
  using assms
proof (induction "n - i" arbitrary: i previous previous_len counter okm)
  case 0
  then show ?case by (simp add: hkdf_loop.simps)
next
  case (Suc m)
  show ?case
  proof (cases "32 * i < length okm")
    case False
    then show ?thesis by (simp add: hkdf_loop.simps)
  next
    case True
    let ?T = "hkdf_T prk info (Suc i)"
    let ?k = "min 32 (length okm - 32 * i)"
    let ?okm = "copy_into okm (32 * i) (take ?k ?T)"
    have lT: "length ?T = 32" by simp
    have list: "[Suc i..<Suc n] = Suc i # [Suc (Suc i)..<Suc n]"
      using Suc.hyps(2) by (simp add: upt_conv_Cons del: upt_Suc)
    have step: "hkdf_loop prk info previous previous_len counter (32 * i) okm =
        hkdf_loop prk info ?T 32 (counter + 1) (32 * i + ?k) ?okm"
      using True hkdf_block [OF Suc.prems(1,2)] by (subst hkdf_loop.simps) (simp add: Let_def)
    have len: "length ?okm = length okm" using True by simp
    show ?thesis
    proof (cases "32 \<le> length okm - 32 * i")
      case full: True
      then have k: "?k = 32" by simp
      have take: "take (32 + 32 * i) (copy_into okm (32 * i) ?T) = take (32 * i) okm @ ?T"
        using full lT by (simp add: copy_into_def del: hkdf_T.simps)
      have "hkdf_loop prk info ?T 32 (counter + 1) (32 * Suc i) ?okm =
          take (32 * Suc i) ?okm @
          take (length ?okm - 32 * Suc i) (concat (map (hkdf_T prk info) [Suc (Suc i)..<Suc n]))"
        by (rule Suc.hyps(1)) (use Suc.hyps(2) Suc.prems len in \<open>auto simp del: hkdf_T.simps simp: lT\<close>)
      then show ?thesis
        using full lT by (simp add: step k list len take add.commute [of _ 32] del: hkdf_T.simps upt_Suc)
    next
      case False
      then have k: "?k = length okm - 32 * i" by simp
      have "hkdf_loop prk info ?T 32 (counter + 1) (32 * i + ?k) ?okm = ?okm"
        using True len k by (subst hkdf_loop.simps) simp
      moreover have "?okm = take (32 * i) okm @ take (length okm - 32 * i) ?T"
        using True lT False by (simp add: copy_into_def k)
      ultimately show ?thesis
        using False lT by (simp add: step list del: hkdf_T.simps upt_Suc)
    qed
  qed
qed

lemma hkdf_expand_spec:
  "hkdf_expand prk info okm =
    (if length okm \<le> 8160 then (True, hkdf_spec prk info (length okm)) else (False, okm))"
proof -
  have "length okm \<le> 32 * ((length okm + 31) div 32)"
    by presburger
  then show ?thesis
    using hkdf_loop_eq [of 0 "replicate 32 0" prk info 0 1 "(length okm + 31) div 32" okm]
    by (simp add: hkdf_expand_def hkdf_spec_def del: hkdf_T.simps(2))
qed

lemma hkdf_T_length: "length (hkdf_T prk info (Suc i)) = 32"
  by simp

lemma hkdf_spec_length [simp, byte_len]: "length (hkdf_spec prk info l) = l"
proof -
  have "length (concat (map (hkdf_T prk info) [Suc a..<Suc n])) = 32 * (n - a)" for a n
  proof (induction "n - a" arbitrary: a)
    case (Suc m)
    then have "[Suc a..<Suc n] = Suc a # [Suc (Suc a)..<Suc n]"
      by (simp add: upt_conv_Cons del: upt_Suc)
    with Suc(1) [of "Suc a"] Suc(2) show ?case by (simp del: upt_Suc)
  qed simp
  from this [of 0 "(l + 31) div 32"] show ?thesis
    by (simp add: hkdf_spec_def del: upt_Suc)
qed

lemma hkdf_expand_32:
  "length okm = 32 \<Longrightarrow> hkdf_expand prk info okm = (True, hmac_spec sha256_spec 64 prk (info @ [1]))"
  by (simp add: hkdf_expand_spec hkdf_spec_def)

section \<open>Properties\<close>

text \<open>
  HMAC-SHA-256 in pieces is the RFC 2104 function: keys longer than a block are hashed,
  shorter ones zero-padded, and the tag depends only on the concatenation of the pieces.
\<close>

theorem hmac256_streaming:
  "hmac256_finalize (foldl hmac256_update (hmac256_new key) parts) =
    hmac_spec sha256_spec 64 key (concat parts)"
  using hmac256_finalize_spec [OF hmac256_holds_updates [OF hmac256_holds_new]] by simp

text \<open>
  HKDF expansion is RFC 5869 up to its limit of 255 blocks, over the whole output buffer
  including a partial last block; beyond the limit it reports failure and leaves the buffer as
  it was.
\<close>

theorem hkdf_expand_rfc5869:
  "hkdf_expand prk info okm =
    (if length okm \<le> 255 * 32 then (True, hkdf_spec prk info (length okm)) else (False, okm))"
  by (simp add: hkdf_expand_spec)

end
