(* ===== verification/Arx.thy ===== *)
theory Arx
  imports Prelude
begin

text \<open>
  What the standards' descriptions of ChaCha, BLAKE2b and Argon2 have in common: a state of sixteen
  words, here a function of the index, and a mixing of four words applied to the columns and then to
  the diagonals of the 4x4 matrix of the words. The lemmas relate such functions to the arrays of
  the code. Nothing here or in the theories of the standards (\<open>Fips180\<close>, \<open>Rfc7693\<close>, \<open>Rfc8439\<close>,
  \<open>Rfc9106\<close>) is translated from the code.
\<close>

type_synonym quad = "nat \<times> nat \<times> nat \<times> nat"

definition columns_diagonals :: "quad list" where
  "columns_diagonals =
    map (\<lambda>i. (i, 4 + i, 8 + i, 12 + i)) [0..<4] @
    map (\<lambda>i. (i, 4 + (i + 1) mod 4, 8 + (i + 2) mod 4, 12 + (i + 3) mod 4)) [0..<4]"

lemma columns_diagonals_eq:
  "columns_diagonals =
    [(0, 4, 8, 12), (1, 5, 9, 13), (2, 6, 10, 14), (3, 7, 11, 15),
     (0, 5, 10, 15), (1, 6, 11, 12), (2, 7, 8, 13), (3, 4, 9, 14)]"
  by code_simp

text \<open>An array of \<open>n\<close> words as a function.\<close>

lemma map_upt_update: "i < n \<Longrightarrow> (map f [0..<n])[i := x] = map (f(i := x)) [0..<n]"
  by (rule nth_equalityI) (auto simp: nth_list_update)

lemma map_upt_cong: "(\<And>i. i < n \<Longrightarrow> f i = g i) \<Longrightarrow> map f [0..<n] = map g [0..<n]"
  by simp

lemma map_upt_nth: "length xs = n \<Longrightarrow> map ((!) xs) [0..<n] = xs"
  using map_nth [of xs] by simp

lemma foldl_map_upt:
  assumes "\<And>f x. x \<in> set xs \<Longrightarrow> F (map f [0..<n]) x = map (G f x) [0..<n]"
  shows "foldl F (map f [0..<n]) xs = map (foldl G f xs) [0..<n]"
  using assms by (induction xs arbitrary: f) simp_all

lemma funpow_map_upt:
  fixes F :: "'a list \<Rightarrow> 'a list"
  assumes "\<And>f. F (map f [0..<n]) = map (G f) [0..<n]"
  shows "(F ^^ k) (map f [0..<n]) = map ((G ^^ k) f) [0..<n]"
  by (induction k) (simp_all add: assms)

text \<open>The bytes of a list of words of \<open>k\<close> bytes each.\<close>

lemma concat_enc_nth:
  assumes "\<And>w. length (enc w) = k" and "j < k * length ws"
  shows "concat (map enc ws) ! j = enc (ws ! (j div k)) ! (j mod k)"
  using assms(2)
proof (induction ws arbitrary: j)
  case (Cons w ws)
  show ?case
  proof (cases "j < k")
    case True
    then show ?thesis by (simp add: nth_append assms(1))
  next
    case False
    then have k: "0 < k" using Cons.prems by (cases k) auto
    from False have j: "j div k = Suc ((j - k) div k)" "j mod k = (j - k) mod k"
      using k by (simp_all add: le_div_geq le_mod_geq)
    show ?thesis using False Cons by (simp add: nth_append assms(1) j)
  qed
qed simp

lemma concat_enc_length: "(\<And>w. length (enc w) = k) \<Longrightarrow> length (concat (map enc ws)) = k * length ws"
  by (induction ws) simp_all

lemma take_concat_enc:
  assumes "\<And>w. length (enc w) = k" and "n \<le> k * m"
  shows "take n (concat (map enc (map f [0..<m]))) = map (\<lambda>j. enc (f (j div k)) ! (j mod k)) [0..<n]"
proof (rule nth_equalityI)
  have len: "length (concat (map enc (map f [0..<m]))) = k * m"
    using concat_enc_length [of enc k "map f [0..<m]"] assms(1) by simp
  show "length (take n (concat (map enc (map f [0..<m])))) = length (map (\<lambda>j. enc (f (j div k)) ! (j mod k)) [0..<n])"
    using len assms(2) by simp
  fix j
  assume "j < length (take n (concat (map enc (map f [0..<m]))))"
  then have j: "j < n" "j < k * length (map f [0..<m])" using len by simp_all
  then have "j div k < m" by (simp add: less_mult_imp_div_less mult.commute)
  then show "take n (concat (map enc (map f [0..<m]))) ! j = map (\<lambda>j. enc (f (j div k)) ! (j mod k)) [0..<n] ! j"
    using j concat_enc_nth [of enc k, OF assms(1) j(2)] by simp
qed

text \<open>Word \<open>i\<close> of a byte string.\<close>

lemma slice_nth: "k * i + k \<le> length bs \<Longrightarrow> take k (drop (k * i) bs) = map (\<lambda>j. bs ! (k * i + j)) [0..<k]"
  by (rule nth_equalityI) simp_all

end
