(* ===== verification/Rfc8439.thy ===== *)
theory Rfc8439
  imports Arx
begin

text \<open>
  ChaCha20 as RFC 8439 describes it: the quarter round (section 2.1), the block function (2.3) and
  the initial state, and HChaCha20 as draft-irtf-cfrg-xchacha describes it (2.2). This is a
  specification, written from the documents.
\<close>

fun rfc8439_quarter :: "u32 \<times> u32 \<times> u32 \<times> u32 \<Rightarrow> u32 \<times> u32 \<times> u32 \<times> u32" where
  "rfc8439_quarter (a, b, c, d) =
    (let a1 = a + b; d1 = word_rotl 16 (d XOR a1); c1 = c + d1; b1 = word_rotl 12 (b XOR c1);
         a2 = a1 + b1; d2 = word_rotl 8 (d1 XOR a2); c2 = c1 + d2; b2 = word_rotl 7 (b1 XOR c2)
     in (a2, b2, c2, d2))"

fun rfc8439_QUARTERROUND :: "(nat \<Rightarrow> u32) \<Rightarrow> quad \<Rightarrow> nat \<Rightarrow> u32" where
  "rfc8439_QUARTERROUND v (a, b, c, d) =
    (case rfc8439_quarter (v a, v b, v c, v d) of (a', b', c', d') \<Rightarrow> v(a := a', b := b', c := c', d := d'))"

text \<open>Twenty rounds, a column round and a diagonal round at a time.\<close>

definition rfc8439_rounds :: "(nat \<Rightarrow> u32) \<Rightarrow> nat \<Rightarrow> u32" where
  "rfc8439_rounds = (\<lambda>v. foldl rfc8439_QUARTERROUND v columns_diagonals) ^^ 10"

text \<open>Word \<open>i\<close> of a byte string, and the constant.\<close>

definition rfc8439_word :: "bytes \<Rightarrow> nat \<Rightarrow> u32" where
  "rfc8439_word bs i = u32_from_le (take 4 (drop (4 * i) bs))"

definition rfc8439_constant :: bytes where
  "rfc8439_constant = ascii ''expand 32-byte k''"

definition rfc8439_state :: "bytes \<Rightarrow> u32 \<Rightarrow> bytes \<Rightarrow> u32 list" where
  "rfc8439_state key counter nonce =
    map (\<lambda>i. if i < 4 then rfc8439_word rfc8439_constant i else if i < 12 then rfc8439_word key (i - 4)
      else if i = 12 then counter else rfc8439_word nonce (i - 13)) [0..<16]"

text \<open>The block function: the state after the rounds plus the initial state, in bytes.\<close>

definition chacha_block :: "u32 list \<Rightarrow> bytes" where
  "chacha_block st = concat (map (\<lambda>i. u32_to_le (rfc8439_rounds (\<lambda>i. st ! i) i + st ! i)) [0..<16])"

text \<open>The key stream of \<open>n\<close> blocks, and encryption.\<close>

definition rfc8439_keystream :: "bytes \<Rightarrow> u32 \<Rightarrow> bytes \<Rightarrow> nat \<Rightarrow> bytes" where
  "rfc8439_keystream key counter nonce n =
    concat (map (\<lambda>i. chacha_block (rfc8439_state key (counter + of_nat i) nonce)) [0..<n])"

definition rfc8439_encrypt :: "bytes \<Rightarrow> u32 \<Rightarrow> bytes \<Rightarrow> bytes \<Rightarrow> bytes" where
  "rfc8439_encrypt key counter nonce pt =
    map2 (XOR) pt (rfc8439_keystream key counter nonce ((length pt + 63) div 64))"

text \<open>HChaCha20: the first and the last row of the state after the rounds.\<close>

definition rfc_hchacha20 :: "bytes \<Rightarrow> bytes \<Rightarrow> bytes" where
  "rfc_hchacha20 key nonce =
    (let w = rfc8439_rounds (\<lambda>i. if i < 4 then rfc8439_word rfc8439_constant i
          else if i < 12 then rfc8439_word key (i - 4) else rfc8439_word nonce (i - 12))
     in concat (map (\<lambda>i. u32_to_le (w i)) [0, 1, 2, 3, 12, 13, 14, 15]))"

end
