(* ===== verification/ChaCha.thy ===== *)
theory ChaCha
  imports Rfc8439
begin

text \<open>
  ChaCha20 and HChaCha20 (crates/blindplane-crypto/src/chacha/mod.rs, the portable build). The
  code computes four blocks at once in lanes of four words; \<open>chacha_block\<close> is the one-block
  function of RFC 8439 section 2.3 (theory Rfc8439), and the lemmas show that each lane is one such
  block and that \<open>apply_keystream\<close> XORs the RFC keystream and resumes at the next unused block.
\<close>

section \<open>Lanes\<close>

definition CHACHA_SIGMA :: "u32 list" where
  "CHACHA_SIGMA = [0x61707865, 0x3320646e, 0x79622d32, 0x6b206574]"

type_synonym lane = "u32 list"

definition lane_splat :: "u32 \<Rightarrow> lane" where
  "lane_splat x = replicate 4 x"

definition lane_add :: "lane \<Rightarrow> lane \<Rightarrow> lane" where
  "lane_add a b = map (\<lambda>i. a ! i + b ! i) [0..<4]"

definition lane_xor :: "lane \<Rightarrow> lane \<Rightarrow> lane" where
  "lane_xor a b = map (\<lambda>i. a ! i XOR b ! i) [0..<4]"

definition lane_rotate_left :: "lane \<Rightarrow> nat \<Rightarrow> lane" where
  "lane_rotate_left a n = map (\<lambda>i. word_rotl n (a ! i)) [0..<4]"

definition quarter_round :: "nat \<Rightarrow> nat \<Rightarrow> nat \<Rightarrow> nat \<Rightarrow> lane list \<Rightarrow> lane list" where
  "quarter_round a b c d v =
    (let v = v[a := lane_add (v ! a) (v ! b)];
         v = v[d := lane_rotate_left (lane_xor (v ! d) (v ! a)) 16];
         v = v[c := lane_add (v ! c) (v ! d)];
         v = v[b := lane_rotate_left (lane_xor (v ! b) (v ! c)) 12];
         v = v[a := lane_add (v ! a) (v ! b)];
         v = v[d := lane_rotate_left (lane_xor (v ! d) (v ! a)) 8];
         v = v[c := lane_add (v ! c) (v ! d)];
         v = v[b := lane_rotate_left (lane_xor (v ! b) (v ! c)) 7]
     in v)"

definition scalar_quarter_round :: "nat \<Rightarrow> nat \<Rightarrow> nat \<Rightarrow> nat \<Rightarrow> u32 list \<Rightarrow> u32 list" where
  "scalar_quarter_round a b c d v =
    (let v = v[a := v ! a + v ! b];
         v = v[d := word_rotl 16 (v ! d XOR v ! a)];
         v = v[c := v ! c + v ! d];
         v = v[b := word_rotl 12 (v ! b XOR v ! c)];
         v = v[a := v ! a + v ! b];
         v = v[d := word_rotl 8 (v ! d XOR v ! a)];
         v = v[c := v ! c + v ! d];
         v = v[b := word_rotl 7 (v ! b XOR v ! c)]
     in v)"

definition double_round :: "lane list \<Rightarrow> lane list" where
  "double_round v =
    (let v = quarter_round 0 4 8 12 v;
         v = quarter_round 1 5 9 13 v;
         v = quarter_round 2 6 10 14 v;
         v = quarter_round 3 7 11 15 v;
         v = quarter_round 0 5 10 15 v;
         v = quarter_round 1 6 11 12 v;
         v = quarter_round 2 7 8 13 v;
         v = quarter_round 3 4 9 14 v
     in v)"

definition scalar_double_round :: "u32 list \<Rightarrow> u32 list" where
  "scalar_double_round v =
    (let v = scalar_quarter_round 0 4 8 12 v;
         v = scalar_quarter_round 1 5 9 13 v;
         v = scalar_quarter_round 2 6 10 14 v;
         v = scalar_quarter_round 3 7 11 15 v;
         v = scalar_quarter_round 0 5 10 15 v;
         v = scalar_quarter_round 1 6 11 12 v;
         v = scalar_quarter_round 2 7 8 13 v;
         v = scalar_quarter_round 3 4 9 14 v
     in v)"

section \<open>The generator\<close>

definition le_words :: "bytes \<Rightarrow> nat \<Rightarrow> u32 list" where
  "le_words bs n = map (\<lambda>i. u32_from_le (take 4 (drop (4 * i) bs))) [0..<n]"

text \<open>The generator is its state of sixteen words; word 12 is the block counter.\<close>

definition chacha_new :: "bytes \<Rightarrow> bytes \<Rightarrow> u32 \<Rightarrow> u32 list" where
  "chacha_new key nonce counter = CHACHA_SIGMA @ le_words key 8 @ [counter] @ le_words nonce 3"

definition four_blocks :: "u32 list \<Rightarrow> bytes \<times> u32 list" where
  "four_blocks st =
    (let counter = st ! 12;
         v = map lane_splat st;
         v = v[12 := [counter, counter + 1, counter + 2, counter + 3]];
         initial = v;
         v = (double_round ^^ 10) v;
         v = map (\<lambda>i. lane_add (v ! i) (initial ! i)) [0..<16];
         out = concat (map (\<lambda>block. concat (map (\<lambda>word. u32_to_le (v ! word ! block)) [0..<16])) [0..<4])
     in (out, st[12 := counter + 4]))"

definition xor_bytes :: "bytes \<Rightarrow> bytes \<Rightarrow> bytes" where
  "xor_bytes xs ks = map (\<lambda>(x, k). x XOR k) (zip xs ks)"

lemma length_xor_bytes [simp]: "length (xor_bytes xs ks) = min (length xs) (length ks)"
  by (simp add: xor_bytes_def)

lemma length_concat_const: "\<forall>x\<in>set xs. length (f x) = n \<Longrightarrow> length (concat (map f xs)) = n * length xs"
  by (induction xs) auto

lemma four_blocks_length [simp]: "length (fst (four_blocks st)) = 256"
proof -
  have "length (concat (map (\<lambda>word. u32_to_le (w ! word ! block)) [0..<16])) = 64" for w :: "lane list" and block
    by (subst length_concat_const [where n = 4]) simp_all
  then show ?thesis
    unfolding four_blocks_def Let_def fst_conv by (subst length_concat_const [where n = 64]) simp_all
qed

function apply_loop :: "u32 list \<Rightarrow> nat \<Rightarrow> bytes \<Rightarrow> bytes \<times> u32 list" where
  "apply_loop st offset data =
    (if offset < length data then
       let counter = st ! 12;
           (keystream, st) = four_blocks st;
           tk = min 256 (length data - offset);
           data = copy_into data offset (xor_bytes (take tk (drop offset data)) keystream);
           blocks = (tk + 63) div 64
       in apply_loop (st[12 := counter + of_nat blocks]) (offset + tk) data
     else (data, st))"
  by pat_completeness auto
termination
proof (relation "measure (\<lambda>(st, offset, data). length data - offset)", simp, goal_cases)
  case (1 st offset data counter p keystream st' tk data' blocks)
  then have "length keystream = 256"
    using four_blocks_length [of st] by (metis fst_conv)
  with 1 show ?case by simp
qed

declare apply_loop.simps [simp del]

definition apply_keystream :: "u32 list \<Rightarrow> bytes \<Rightarrow> bytes \<times> u32 list" where
  "apply_keystream st data = apply_loop st 0 data"

definition hchacha20 :: "bytes \<Rightarrow> bytes \<Rightarrow> bytes" where
  "hchacha20 key nonce =
    (let st = CHACHA_SIGMA @ le_words key 8 @ le_words nonce 4;
         st = (scalar_double_round ^^ 10) st
     in concat (map u32_to_le (take 4 st)) @ concat (map u32_to_le (take 4 (drop 12 st))))"

section \<open>The scalar rounds and the RFC 8439 block function\<close>

lemma scalar_quarter_fun:
  assumes "a < 16" "b < 16" "c < 16" "d < 16" "distinct [a, b, c, d]"
  shows "scalar_quarter_round a b c d (map f [0..<16]) = map (rfc8439_QUARTERROUND f (a, b, c, d)) [0..<16]"
  using assms
  by (simp add: scalar_quarter_round_def map_upt_update Let_def cong: let_weak_cong)

lemma scalar_double_fun:
  "scalar_double_round (map f [0..<16]) = map (foldl rfc8439_QUARTERROUND f columns_diagonals) [0..<16]"
  by (simp add: scalar_double_round_def Let_def scalar_quarter_fun columns_diagonals_eq del: rfc8439_QUARTERROUND.simps)

lemma scalar_rounds_fun: "(scalar_double_round ^^ 10) (map f [0..<16]) = map (rfc8439_rounds f) [0..<16]"
  unfolding rfc8439_rounds_def by (rule funpow_map_upt) (rule scalar_double_fun)

lemma chacha_block_code:
  assumes "length st = 16"
  shows "chacha_block st = (let w = (scalar_double_round ^^ 10) st
    in concat (map (\<lambda>i. u32_to_le (w ! i + st ! i)) [0..<16]))"
proof -
  have "(scalar_double_round ^^ 10) st = map (rfc8439_rounds ((!) st)) [0..<16]"
    using scalar_rounds_fun [of "(!) st"] by (simp add: map_upt_nth [OF assms])
  then show ?thesis
    unfolding chacha_block_def Let_def by (intro arg_cong [where f = concat] map_upt_cong) simp
qed

lemma CHACHA_SIGMA_rfc: "CHACHA_SIGMA = map (rfc8439_word rfc8439_constant) [0..<4]"
  by (simp add: CHACHA_SIGMA_def upt_rec rfc8439_word_def rfc8439_constant_def u32_from_le_def)

lemma le_words_rfc: "le_words bs n = map (rfc8439_word bs) [0..<n]"
  by (simp add: le_words_def rfc8439_word_def)

lemma chacha_new_rfc: "chacha_new key nonce counter = rfc8439_state key counter nonce"
  by (rule nth_equalityI)
    (auto simp: chacha_new_def rfc8439_state_def CHACHA_SIGMA_rfc le_words_rfc nth_append nth_Cons')

lemma hchacha20_rfc: "hchacha20 key nonce = rfc_hchacha20 key nonce"
proof -
  let ?f = "\<lambda>i. if i < 4 then rfc8439_word rfc8439_constant i
      else if i < 12 then rfc8439_word key (i - 4) else rfc8439_word nonce (i - 12)"
  have init: "CHACHA_SIGMA @ le_words key 8 @ le_words nonce 4 = map ?f [0..<16]"
    by (rule nth_equalityI) (auto simp: CHACHA_SIGMA_rfc le_words_rfc nth_append)
  have "take 4 (map g [0..<16]) = map g [0, 1, 2, 3]" "take 4 (drop 12 (map g [0..<16])) = map g [12, 13, 14, 15]"
    for g :: "nat \<Rightarrow> u32"
    by (simp_all add: take_map drop_map upt_rec numeral_eq_Suc)
  then show ?thesis
    unfolding hchacha20_def rfc_hchacha20_def Let_def init scalar_rounds_fun by (simp only: map_map) simp
qed

definition with_counter :: "u32 list \<Rightarrow> u32 \<Rightarrow> u32 list" where
  "with_counter st c = st[12 := c]"

definition chacha_keystream :: "u32 list \<Rightarrow> nat \<Rightarrow> bytes" where
  "chacha_keystream st n = concat (map (\<lambda>i. chacha_block (with_counter st (st ! 12 + of_nat i))) [0..<n])"

text \<open>Lane \<open>j\<close> of a vector.\<close>

definition lane_of :: "nat \<Rightarrow> lane list \<Rightarrow> u32 list" where
  "lane_of j v = map (\<lambda>l. l ! j) v"

lemma lane_of_update [simp]: "lane_of j (v[a := l]) = (lane_of j v)[a := l ! j]"
  by (simp add: lane_of_def map_update)

lemma lane_of_nth: "i < length v \<Longrightarrow> lane_of j v ! i = v ! i ! j"
  by (simp add: lane_of_def)

lemma length_lane_of [simp]: "length (lane_of j v) = length v"
  by (simp add: lane_of_def)

lemma lane_nth [simp]:
  "j < 4 \<Longrightarrow> lane_add a b ! j = a ! j + b ! j"
  "j < 4 \<Longrightarrow> lane_xor a b ! j = a ! j XOR b ! j"
  "j < 4 \<Longrightarrow> lane_rotate_left a n ! j = word_rotl n (a ! j)"
  "j < 4 \<Longrightarrow> lane_splat x ! j = x"
  by (simp_all add: lane_add_def lane_xor_def lane_rotate_left_def lane_splat_def)

lemma length_quarter_round [simp]:
  "length (quarter_round a b c d v) = length v"
  "length (scalar_quarter_round a b c d w) = length w"
  by (simp_all add: quarter_round_def scalar_quarter_round_def Let_def)

lemma lane_quarter_round:
  assumes "j < 4" "a < length v" "b < length v" "c < length v" "d < length v"
  shows "lane_of j (quarter_round a b c d v) = scalar_quarter_round a b c d (lane_of j v)"
  using assms
  by (simp add: quarter_round_def scalar_quarter_round_def Let_def lane_of_nth [symmetric])

lemma length_double_round [simp]:
  "length (double_round v) = length v" "length (scalar_double_round w) = length w"
  by (simp_all add: double_round_def scalar_double_round_def Let_def)

lemma length_rounds [simp]:
  "length ((double_round ^^ n) v) = length v" "length ((scalar_double_round ^^ n) w) = length w"
  by (induction n) simp_all

lemma lane_double_round:
  "j < 4 \<Longrightarrow> length v = 16 \<Longrightarrow> lane_of j (double_round v) = scalar_double_round (lane_of j v)"
  by (simp add: double_round_def scalar_double_round_def Let_def lane_quarter_round)

lemma lane_rounds:
  "j < 4 \<Longrightarrow> length v = 16 \<Longrightarrow> lane_of j ((double_round ^^ n) v) = (scalar_double_round ^^ n) (lane_of j v)"
  by (induction n) (simp_all add: lane_double_round)

text \<open>\<open>four_blocks\<close> is four consecutive blocks.\<close>

lemma four_blocks_eq:
  assumes "length st = 16"
  shows "four_blocks st = (chacha_keystream st 4, with_counter st (st ! 12 + 4))"
proof -
  let ?c = "st ! 12"
  let ?v = "(map lane_splat st)[12 := [?c, ?c + 1, ?c + 2, ?c + 3]]"
  have four: "j = 0 \<or> j = 1 \<or> j = 2 \<or> j = 3" if "j < 4" for j :: nat
    using that by linarith
  have splat: "lane_of j (map lane_splat st) = st" if "j < 4" for j
    using that by (simp add: lane_of_def comp_def)
  have init: "lane_of j ?v = with_counter st (?c + of_nat j)" if "j < 4" for j
    using four [OF that] splat [OF that] by (auto simp: with_counter_def)
  have block: "concat (map (\<lambda>i. u32_to_le (map (\<lambda>i. lane_add ((double_round ^^ 10) ?v ! i) (?v ! i)) [0..<16] ! i ! j)) [0..<16])
      = chacha_block (with_counter st (?c + of_nat j))" if j: "j < 4" for j
  proof -
    have lane: "u32_to_le (map (\<lambda>i. lane_add ((double_round ^^ 10) ?v ! i) (?v ! i)) [0..<16] ! i ! j) =
        u32_to_le ((scalar_double_round ^^ 10) (lane_of j ?v) ! i + lane_of j ?v ! i)" if "i < 16" for i
      using that j assms lane_rounds [OF j, of ?v 10] lane_of_nth [of i "(double_round ^^ 10) ?v" j]
        lane_of_nth [of i ?v j] by simp
    have len: "length (lane_of j ?v) = 16" using assms by simp
    from lane show ?thesis
      unfolding init [OF j, symmetric] chacha_block_code [OF len] Let_def
      by (intro arg_cong [where f = concat] map_cong) auto
  qed
  have "concat (map (\<lambda>j. concat (map (\<lambda>i. u32_to_le (map (\<lambda>i. lane_add ((double_round ^^ 10) ?v ! i) (?v ! i)) [0..<16] ! i ! j)) [0..<16])) [0..<4])
      = chacha_keystream st 4"
    unfolding chacha_keystream_def by (intro arg_cong [where f = concat] map_cong refl block) simp
  then show ?thesis
    unfolding four_blocks_def Let_def with_counter_def by simp
qed

section \<open>The keystream\<close>

lemma chacha_block_length [simp]: "length (chacha_block st) = 64"
  unfolding chacha_block_def Let_def by (subst length_concat_const [where n = 4]) simp_all

lemma chacha_keystream_length [simp]: "length (chacha_keystream st n) = 64 * n"
  unfolding chacha_keystream_def by (subst length_concat_const [where n = 64]) simp_all

lemma with_counter_simps [simp]:
  "length (with_counter st c) = length st"
  "length st = 16 \<Longrightarrow> with_counter st c ! 12 = c"
  "with_counter (with_counter st c) d = with_counter st d"
  "with_counter st (st ! 12) = st"
  by (simp_all add: with_counter_def)

lemma chacha_keystream_add:
  assumes "length st = 16"
  shows "chacha_keystream st (a + b) = chacha_keystream st a @
    chacha_keystream (with_counter st (st ! 12 + of_nat a)) b"
proof -
  have "map (\<lambda>i. f (i + a)) [0..<b] = map f [a..<a + b]" for f :: "nat \<Rightarrow> bytes"
    by (induction b) (simp_all add: add.commute)
  from this [of "\<lambda>i. chacha_block (with_counter st (st ! 12 + of_nat i))"]
  show ?thesis
    using assms upt_add_eq_append [of 0 a b]
    by (simp add: chacha_keystream_def ac_simps)
qed

lemma chacha_keystream_take:
  assumes "length st = 16" "64 * a \<le> n" "a \<le> b"
  shows "take (64 * a) (chacha_keystream st b) = chacha_keystream st a"
  using chacha_keystream_add [OF assms(1), of a "b - a"] assms(3) by simp

text \<open>The keystream of enough blocks for \<open>l\<close> bytes, and the blocks a message of that size uses.\<close>

definition blocks_of :: "nat \<Rightarrow> nat" where
  "blocks_of l = (l + 63) div 64"

definition chacha_xor :: "u32 list \<Rightarrow> bytes \<Rightarrow> bytes" where
  "chacha_xor st data = xor_bytes data (chacha_keystream st (blocks_of (length data)))"

definition chacha_skip :: "u32 list \<Rightarrow> nat \<Rightarrow> u32 list" where
  "chacha_skip st l = with_counter st (st ! 12 + of_nat (blocks_of l))"

lemma blocks_of_bound: "l \<le> 64 * blocks_of l"
  unfolding blocks_of_def by presburger

lemma blocks_of_mult: "blocks_of (64 * k + m) = k + blocks_of m"
  using div_mult_self2 [of 64 "m + 63" k] by (simp add: blocks_of_def add.assoc)

lemma blocks_of_0 [simp]: "blocks_of 0 = 0"
  by (simp add: blocks_of_def)

lemma blocks_of_mono: "l \<le> m \<Longrightarrow> blocks_of l \<le> blocks_of m"
  by (simp add: blocks_of_def div_le_mono)

lemma length_chacha_xor [simp]: "length (chacha_xor st data) = length data"
  using blocks_of_bound [of "length data"] by (simp add: chacha_xor_def min_def)

lemma length_chacha_skip [simp]: "length (chacha_skip st l) = length st"
  by (simp add: chacha_skip_def)

lemma xor_bytes_append:
  "length xs = length ks \<Longrightarrow> xor_bytes (xs @ ys) (ks @ ls) = xor_bytes xs ks @ xor_bytes ys ls"
  by (simp add: xor_bytes_def)

lemma xor_bytes_long:
  assumes "length xs \<le> length ks"
  shows "xor_bytes xs (ks @ ls) = xor_bytes xs ks"
  using assms xor_bytes_append [of xs "take (length xs) ks" "[]" "drop (length xs) ks @ ls"]
    xor_bytes_append [of xs "take (length xs) ks" "[]" "drop (length xs) ks"]
  by (simp add: xor_bytes_def append_assoc [symmetric] del: append_assoc)

text \<open>Any number of blocks that covers the data gives the same result.\<close>

lemma chacha_xor_enough:
  assumes "length st = 16" "length data \<le> 64 * n"
  shows "xor_bytes data (chacha_keystream st n) = chacha_xor st data"
proof -
  have "blocks_of (length data) \<le> n"
    using blocks_of_mono [OF assms(2)] blocks_of_mult [of n 0] by simp
  then obtain m where n: "n = blocks_of (length data) + m" by (metis le_Suc_ex)
  show ?thesis
    unfolding n chacha_xor_def chacha_keystream_add [OF assms(1)]
    by (rule xor_bytes_long) (simp add: blocks_of_bound)
qed

text \<open>Splitting at a block boundary.\<close>

lemma blocks_of_split:
  assumes "l mod 64 = 0"
  shows "blocks_of (l + m) = blocks_of l + blocks_of m"
proof -
  obtain k where "l = 64 * k" using assms by (auto simp: mod_eq_0_iff_dvd)
  then show ?thesis using blocks_of_mult [of k m] blocks_of_mult [of k 0] by simp
qed

lemma blocks_of_exact: "l mod 64 = 0 \<Longrightarrow> 64 * blocks_of l = l"
  using blocks_of_mult [of _ 0] by (auto simp: mod_eq_0_iff_dvd)

lemma chacha_xor_append:
  assumes "length st = 16" "length xs mod 64 = 0"
  shows "chacha_xor st (xs @ ys) = chacha_xor st xs @ chacha_xor (chacha_skip st (length xs)) ys"
  by (simp add: chacha_xor_def chacha_skip_def blocks_of_split [OF assms(2)]
      chacha_keystream_add [OF assms(1)] xor_bytes_append blocks_of_exact [OF assms(2)])

lemma chacha_skip_add:
  assumes "length st = 16" "l mod 64 = 0"
  shows "chacha_skip (chacha_skip st l) m = chacha_skip st (l + m)"
  using assms by (simp add: chacha_skip_def blocks_of_split add.assoc)

text \<open>From a fresh state this is the key stream of the RFC.\<close>

lemma chacha_keystream_rfc: "chacha_keystream (chacha_new key nonce c) n = rfc8439_keystream key c nonce n"
proof -
  have len: "length CHACHA_SIGMA = 4" "length (le_words key 8) = 8"
    by (simp_all add: CHACHA_SIGMA_def le_words_def)
  then have "chacha_new key nonce c ! 12 = c" "with_counter (chacha_new key nonce c) d = chacha_new key nonce d" for d
    by (simp_all add: chacha_new_def with_counter_def nth_append list_update_append)
  then show ?thesis
    by (simp add: chacha_keystream_def rfc8439_keystream_def flip: chacha_new_rfc)
qed

section \<open>The loop\<close>

lemma apply_loop_eq:
  "length st = 16 \<Longrightarrow> offset \<le> length data \<Longrightarrow>
    apply_loop st offset data =
      (take offset data @ chacha_xor st (drop offset data), chacha_skip st (length data - offset))"
proof (induction "length data - offset" arbitrary: st offset data rule: less_induct)
  case less
  show ?case
  proof (cases "offset < length data")
    case False
    then show ?thesis
      using less.prems by (simp add: apply_loop.simps chacha_xor_def chacha_skip_def blocks_of_def xor_bytes_def)
  next
    case True
    let ?tk = "min 256 (length data - offset)"
    let ?head = "take ?tk (drop offset data)"
    let ?rest = "drop ?tk (drop offset data)"
    let ?data = "copy_into data offset (chacha_xor st ?head)"
    let ?st = "chacha_skip st ?tk"
    have hl: "length ?head = ?tk" by simp
    have ks: "xor_bytes ?head (chacha_keystream st 4) = chacha_xor st ?head"
      by (rule chacha_xor_enough [OF less.prems(1)]) simp
    have st: "(with_counter st (st ! 12 + 4))[12 := st ! 12 + of_nat ((?tk + 63) div 64)] = ?st"
      by (simp add: chacha_skip_def with_counter_def blocks_of_def)
    have len: "length ?data = length data" using True by simp
    have out: "take (offset + ?tk) ?data = take offset data @ chacha_xor st ?head"
      using take_copy_into [of offset "chacha_xor st ?head" data] True by simp
    have rest: "drop (offset + ?tk) ?data = ?rest"
      using True by (simp add: copy_into_def add.commute)
    have "apply_loop st offset data = apply_loop ?st (offset + ?tk) ?data"
      using True ks st by (subst apply_loop.simps) (simp add: four_blocks_eq less.prems Let_def)
    also have "\<dots> = (take (offset + ?tk) ?data @ chacha_xor ?st (drop (offset + ?tk) ?data),
        chacha_skip ?st (length ?data - (offset + ?tk)))"
      by (rule less.hyps) (use True len less.prems in auto)
    also have "\<dots> = (take offset data @ (chacha_xor st ?head @ chacha_xor ?st ?rest),
        chacha_skip ?st (length data - (offset + ?tk)))"
      unfolding out rest len by simp
    also have "\<dots> = (take offset data @ chacha_xor st (drop offset data), chacha_skip st (length data - offset))"
    proof (cases "256 \<le> length data - offset")
      case big: True
      then have tk: "?tk = 256" by simp
      have "chacha_xor st (?head @ ?rest) = chacha_xor st ?head @ chacha_xor (chacha_skip st (length ?head)) ?rest"
        by (rule chacha_xor_append [OF less.prems(1)]) (subst hl, subst tk, simp)
      then have "chacha_xor st ?head @ chacha_xor ?st ?rest = chacha_xor st (drop offset data)"
        by (simp only: append_take_drop_id hl)
      moreover have "chacha_skip ?st (length data - (offset + ?tk)) = chacha_skip st (length data - offset)"
        using chacha_skip_add [OF less.prems(1), of 256 "length data - (offset + 256)"] big tk by simp
      ultimately show ?thesis by simp
    next
      case False
      then have tk: "?tk = length data - offset" by simp
      show ?thesis
        using True less.prems by (simp add: tk chacha_xor_def [of _ "[]"] xor_bytes_def [of "[]"]
            chacha_skip_def [of _ 0] blocks_of_def [of 0])
    qed
    finally show ?thesis .
  qed
qed

lemma apply_keystream_eq:
  "length st = 16 \<Longrightarrow> apply_keystream st data = (chacha_xor st data, chacha_skip st (length data))"
  by (simp add: apply_keystream_def apply_loop_eq)

lemma chacha_new_length [simp]: "length (chacha_new key nonce c) = 16"
  by (simp add: chacha_new_def le_words_def CHACHA_SIGMA_def)

lemma hchacha20_length [simp]: "length (hchacha20 key nonce) = 32"
proof -
  have w: "length ((scalar_double_round ^^ 10) (CHACHA_SIGMA @ le_words key 8 @ le_words nonce 4)) = 16"
    by (simp add: le_words_def CHACHA_SIGMA_def)
  have "length (concat (map u32_to_le (take 4 w)) @ concat (map u32_to_le (take 4 (drop 12 w)))) = 32"
    if "length w = 16" for w
    using that by (simp add: length_concat_const [where n = 4])
  from this [OF w] show ?thesis unfolding hchacha20_def Let_def .
qed

text \<open>XOR with the same keystream twice is the identity.\<close>

lemma xor_bytes_twice: "length xs \<le> length ks \<Longrightarrow> xor_bytes (xor_bytes xs ks) ks = xs"
proof (induction xs arbitrary: ks)
  case (Cons x xs)
  then show ?case
    by (cases ks) (simp_all add: xor_bytes_def xor.assoc)
qed (simp add: xor_bytes_def)

lemma chacha_xor_twice [simp]: "chacha_xor st (chacha_xor st data) = data"
  using blocks_of_bound [of "length data"]
  by (simp add: chacha_xor_def [of st "chacha_xor st data"]) (simp add: chacha_xor_def xor_bytes_twice)

section \<open>Properties\<close>

text \<open>
  The lane code is ChaCha20: \<open>apply_keystream\<close> XORs the data with the RFC 8439 keystream
  that starts at the current counter and leaves the counter at the first unused block, for every
  length of the data.
\<close>

theorem chacha_apply_keystream:
  assumes "length st = 16"
  shows "apply_keystream st data =
    (xor_bytes data (chacha_keystream st ((length data + 63) div 64)),
     with_counter st (st ! 12 + of_nat ((length data + 63) div 64)))"
  using apply_keystream_eq [OF assms] by (simp add: chacha_xor_def chacha_skip_def blocks_of_def)

theorem chacha_apply_keystream_witness:
  "apply_keystream (chacha_new (replicate 32 1) (replicate 12 2) 7) (replicate 65 0) =
    (xor_bytes (replicate 65 0) (chacha_keystream (chacha_new (replicate 32 1) (replicate 12 2) 7) 2),
     with_counter (chacha_new (replicate 32 1) (replicate 12 2) 7)
       (chacha_new (replicate 32 1) (replicate 12 2) 7 ! 12 + 2))"
  using chacha_apply_keystream [of "chacha_new (replicate 32 1) (replicate 12 2) 7" "replicate 65 0"]
  by simp

text \<open>
  Streaming: applying the keystream to consecutive pieces, each but the last a whole number
  of blocks, is applying it to the whole, and applying it twice restores the data.
\<close>

theorem chacha_stream_split:
  assumes "length st = 16" and "length xs mod 64 = 0"
  shows "fst (apply_keystream st (xs @ ys)) =
      fst (apply_keystream st xs) @ fst (apply_keystream (snd (apply_keystream st xs)) ys) \<and>
    fst (apply_keystream st (fst (apply_keystream st (xs @ ys)))) = xs @ ys"
  using assms by (simp add: apply_keystream_eq chacha_xor_append del: chacha_xor_twice)
    (metis chacha_xor_append chacha_xor_twice)

theorem chacha_stream_split_witness:
  "fst (apply_keystream (chacha_new [] [] 0) (replicate 64 1 @ [2])) =
      fst (apply_keystream (chacha_new [] [] 0) (replicate 64 1)) @
      fst (apply_keystream (snd (apply_keystream (chacha_new [] [] 0) (replicate 64 1))) [2]) \<and>
    fst (apply_keystream (chacha_new [] [] 0)
      (fst (apply_keystream (chacha_new [] [] 0) (replicate 64 1 @ [2])))) = replicate 64 1 @ [2]"
  by (rule chacha_stream_split) simp_all

end
