(* ===== verification/Poly1305.thy ===== *)
theory Poly1305
  imports BlockStream CtUtil MachineInts
begin

text \<open>
  Poly1305 (crates/blindplane-crypto/src/poly1305/mod.rs): the accumulator in two 64-bit limbs
  plus an overflow word. \<open>poly_value\<close> reads the limbs as a number; each block is shown to be
  one step of the RFC 8439 polynomial modulo \<open>2 ^ 130 - 5\<close> with every intermediate sum in
  range, the final conditional subtraction to be the full reduction, and the streaming to be the
  discipline of BlockStream.
\<close>

section \<open>The accumulator\<close>

type_synonym limbs = "u64 \<times> u64 \<times> u64"

record poly1305 =
  po_r :: "u64 \<times> u64"
  po_s1 :: u64
  po_h :: limbs
  po_pad :: bytes
  po_buffer :: bytes
  po_buffered :: nat

definition poly_new :: "bytes \<Rightarrow> poly1305" where
  "poly_new key =
    (let t0 = u64_from_le (take 8 key);
         t1 = u64_from_le (take 8 (drop 8 key));
         r0 = t0 AND 0x0ffffffc0fffffff;
         r1 = t1 AND 0x0ffffffc0ffffffc;
         s1 = r1 + drop_bit 2 r1
     in \<lparr>po_r = (r0, r1), po_s1 = s1, po_h = (0, 0, 0), po_pad = take 16 (drop 16 key),
         po_buffer = replicate 16 0, po_buffered = 0\<rparr>)"

definition poly_absorb :: "u64 \<times> u64 \<Rightarrow> u64 \<Rightarrow> u64 \<Rightarrow> limbs \<Rightarrow> bytes \<Rightarrow> limbs" where
  "poly_absorb r s1 padbit h block =
    (case r of (r0, r1) \<Rightarrow> case h of (h0, h1, h2) \<Rightarrow>
     let m0 = u64_from_le (take 8 block);
         m1 = u64_from_le (take 8 (drop 8 block));
         t = wide h0 + wide m0;
         h0 = low64 t;
         t = wide h1 + drop_bit 64 t + wide m1;
         h1 = low64 t;
         h2 = h2 + low64 (drop_bit 64 t) + padbit;
         d0 = wide h0 * wide r0 + wide h1 * wide s1;
         d1 = wide h0 * wide r1 + wide h1 * wide r0 + wide (h2 * s1);
         h2r = h2 * r0;
         h0 = low64 d0;
         d1 = d1 + drop_bit 64 d0;
         h1 = low64 d1;
         h2 = h2r + low64 (drop_bit 64 d1);
         c = drop_bit 2 h2 + (h2 AND NOT 3);
         h2 = h2 AND 3;
         t = wide h0 + wide c;
         h0 = low64 t;
         t = wide h1 + drop_bit 64 t;
         h1 = low64 t;
         h2 = h2 + low64 (drop_bit 64 t)
     in (h0, h1, h2))"

function poly_blocks :: "u64 \<times> u64 \<Rightarrow> u64 \<Rightarrow> limbs \<Rightarrow> bytes \<Rightarrow> limbs \<times> bytes" where
  "poly_blocks r s1 h data =
    (if 16 \<le> length data then poly_blocks r s1 (poly_absorb r s1 1 h (take 16 data)) (drop 16 data)
     else (h, data))"
  by pat_completeness auto
termination
  by (relation "measure (\<lambda>(r, s1, h, data). length data)") auto

declare poly_blocks.simps [simp del]

definition poly_fill :: "poly1305 \<Rightarrow> bytes \<Rightarrow> poly1305 \<times> bytes" where
  "poly_fill p data =
    (if 0 < po_buffered p then
       let tk = min (16 - po_buffered p) (length data);
           p = p\<lparr>po_buffer := copy_into (po_buffer p) (po_buffered p) (take tk data),
                 po_buffered := po_buffered p + tk\<rparr>;
           data = drop tk data
       in (if po_buffered p = 16
           then (p\<lparr>po_h := poly_absorb (po_r p) (po_s1 p) 1 (po_h p) (po_buffer p), po_buffered := 0\<rparr>, data)
           else (p, data))
     else (p, data))"

definition poly_update :: "poly1305 \<Rightarrow> bytes \<Rightarrow> poly1305" where
  "poly_update p data =
    (let (p, data) = poly_fill p data;
         (h, data) = poly_blocks (po_r p) (po_s1 p) (po_h p) data;
         p = p\<lparr>po_h := h\<rparr>
     in (if data \<noteq> [] then p\<lparr>po_buffer := copy_into (po_buffer p) 0 data, po_buffered := length data\<rparr>
         else p))"

definition pad_to_block :: "poly1305 \<Rightarrow> poly1305" where
  "pad_to_block p =
    (if 0 < po_buffered p then
       let padding = 16 - po_buffered p in poly_update p (take padding (replicate 16 0))
     else p)"

text \<open>\<open>finalize\<close>: the partial last block, then the reduction and the addition of the pad.\<close>

definition poly_last :: "poly1305 \<Rightarrow> limbs" where
  "poly_last p =
    (if 0 < po_buffered p then
       let block = copy_into (replicate 16 0) 0 (take (po_buffered p) (po_buffer p));
           block = block[po_buffered p := 1]
       in poly_absorb (po_r p) (po_s1 p) 0 (po_h p) block
     else po_h p)"

definition poly_tag :: "limbs \<Rightarrow> bytes \<Rightarrow> bytes" where
  "poly_tag h pad =
    (case h of (h0, h1, h2) \<Rightarrow>
     let t = wide h0 + 5;
         g0 = low64 t;
         t = wide h1 + drop_bit 64 t;
         g1 = low64 t;
         g2 = h2 + low64 (drop_bit 64 t);
         msk = 0 - drop_bit 2 g2;
         h0 = (h0 AND NOT msk) OR (g0 AND msk);
         h1 = (h1 AND NOT msk) OR (g1 AND msk);
         t0 = u64_from_le (take 8 pad);
         t1 = u64_from_le (take 8 (drop 8 pad));
         t = wide h0 + wide t0;
         h0 = low64 t;
         h1 = h1 + t1 + low64 (drop_bit 64 t)
     in u64_to_le h0 @ u64_to_le h1)"

definition poly_finalize :: "poly1305 \<Rightarrow> bytes" where
  "poly_finalize p = poly_tag (poly_last p) (po_pad p)"

definition poly_verify :: "poly1305 \<Rightarrow> bytes \<Rightarrow> choice" where
  "poly_verify p expected = ct_eq_bytes (poly_finalize p) expected"

section \<open>Numbers\<close>

definition P1305 :: nat where "P1305 = 2 ^ 130 - 5"

definition poly_value :: "limbs \<Rightarrow> nat" where
  "poly_value h = (case h of (h0, h1, h2) \<Rightarrow> unat h0 + B64 * unat h1 + B64 * B64 * unat h2)"

text \<open>The three steps of one block, on naturals.\<close>

lemma poly_mult_step:
  fixes h0 h1 h2 r0 q :: nat
  assumes "s1 = 5 * q" "r1 = 4 * q"
  shows "((h0 + B64 * h1 + B64 * B64 * h2) * (r0 + B64 * r1)) mod P1305 =
    (h0 * r0 + h1 * s1 + B64 * (h0 * r1 + h1 * r0 + h2 * s1) + B64 * B64 * (h2 * r0)) mod P1305"
proof -
  have "(h0 + B64 * h1 + B64 * B64 * h2) * (r0 + B64 * r1) =
      h0 * r0 + h1 * s1 + B64 * (h0 * r1 + h1 * r0 + h2 * s1) + B64 * B64 * (h2 * r0)
      + P1305 * (q * (h1 + B64 * h2))"
    unfolding assms P1305_def by (simp add: algebra_simps)
  then show ?thesis by (simp only: mod_mult_self2)
qed

lemma poly_carry_step:
  fixes d0 d1 h2 :: nat
  shows "d0 mod B64 + B64 * ((d1 + d0 div B64) mod B64) + B64 * B64 * (h2 + (d1 + d0 div B64) div B64)
    = d0 + B64 * d1 + B64 * B64 * h2"
proof -
  have "d0 = d0 mod B64 + B64 * (d0 div B64)"
    "d1 + d0 div B64 = (d1 + d0 div B64) mod B64 + B64 * ((d1 + d0 div B64) div B64)"
    by simp_all
  then show ?thesis by algebra
qed

lemma poly_fold_step:
  fixes k0 k1 k2 :: nat
  shows "(k0 + B64 * k1 + B64 * B64 * k2) mod P1305 =
    (k0 + 5 * (k2 div 4) + B64 * k1 + B64 * B64 * (k2 mod 4)) mod P1305"
proof -
  have "k0 + B64 * k1 + B64 * B64 * (4 * q + m) =
      (k0 + 5 * q + B64 * k1 + B64 * B64 * m) + P1305 * q" for q m
    unfolding P1305_def by (simp add: algebra_simps)
  from this [of "k2 div 4" "k2 mod 4"] show ?thesis
    by (simp only: mult_div_mod_eq mod_mult_self2)
qed

section \<open>One block\<close>

text \<open>What clamping gives: both limbs below \<open>2 ^ 60\<close>, the second a multiple of four.\<close>

definition poly_key_ok :: "u64 \<times> u64 \<Rightarrow> u64 \<Rightarrow> bool" where
  "poly_key_ok r s1 \<longleftrightarrow> unat (fst r) < 2 ^ 60 \<and> unat (snd r) < 2 ^ 60 \<and>
     unat (snd r) mod 4 = 0 \<and> unat s1 = 5 * (unat (snd r) div 4)"

definition limbs_ok :: "limbs \<Rightarrow> bool" where
  "limbs_ok h \<longleftrightarrow> unat (snd (snd h)) \<le> 4"

definition poly_r :: "u64 \<times> u64 \<Rightarrow> nat" where
  "poly_r r = unat (fst r) + B64 * unat (snd r)"

text \<open>The three phases of \<open>absorb\<close>, as functions of their inputs.\<close>

definition absorb_add :: "limbs \<Rightarrow> u64 \<Rightarrow> u64 \<Rightarrow> u64 \<Rightarrow> limbs" where
  "absorb_add h m0 m1 padbit =
    (case h of (h0, h1, h2) \<Rightarrow>
     let t = wide h0 + wide m0;
         h0 = low64 t;
         t = wide h1 + drop_bit 64 t + wide m1
     in (h0, low64 t, h2 + low64 (drop_bit 64 t) + padbit))"

definition absorb_mul :: "u64 \<times> u64 \<Rightarrow> u64 \<Rightarrow> limbs \<Rightarrow> limbs" where
  "absorb_mul r s1 h =
    (case r of (r0, r1) \<Rightarrow> case h of (h0, h1, h2) \<Rightarrow>
     let d0 = wide h0 * wide r0 + wide h1 * wide s1;
         d1 = wide h0 * wide r1 + wide h1 * wide r0 + wide (h2 * s1);
         h2r = h2 * r0;
         h0 = low64 d0;
         d1 = d1 + drop_bit 64 d0
     in (h0, low64 d1, h2r + low64 (drop_bit 64 d1)))"

definition absorb_fold :: "limbs \<Rightarrow> limbs" where
  "absorb_fold h =
    (case h of (h0, h1, h2) \<Rightarrow>
     let c = drop_bit 2 h2 + (h2 AND NOT 3);
         h2 = h2 AND 3;
         t = wide h0 + wide c;
         h0 = low64 t;
         t = wide h1 + drop_bit 64 t
     in (h0, low64 t, h2 + low64 (drop_bit 64 t)))"

lemma poly_absorb_phases:
  "poly_absorb r s1 padbit h block =
    absorb_fold (absorb_mul r s1 (absorb_add h (u64_from_le (take 8 block)) (u64_from_le (take 8 (drop 8 block))) padbit))"
  by (cases r; cases h) (simp add: poly_absorb_def absorb_add_def absorb_mul_def absorb_fold_def Let_def)

lemma absorb_add_value:
  assumes "limbs_ok h" "unat padbit \<le> 1"
  shows "poly_value (absorb_add h m0 m1 padbit) =
      poly_value h + unat m0 + B64 * unat m1 + B64 * B64 * unat padbit \<and>
    unat (snd (snd (absorb_add h m0 m1 padbit))) \<le> 6"
proof -
  obtain h0 h1 h2 where h: "h = (h0, h1, h2)" by (cases h)
  have h2: "unat h2 \<le> 4" using assms(1) by (simp add: limbs_ok_def h)
  note b = unat_bounds(4) [of h0] unat_bounds(4) [of h1] unat_bounds(4) [of m0] unat_bounds(4) [of m1]
  let ?t = "wide h0 + wide m0"
  let ?u = "wide h1 + drop_bit 64 ?t + wide m1"
  have t: "unat ?t = unat h0 + unat m0"
    by (subst unat_add128) (use b in simp_all)
  have td: "unat ?t div B64 \<le> 1"
    using b unfolding t by linarith
  have u0: "unat (wide h1 + drop_bit 64 ?t) = unat h1 + unat ?t div B64"
    by (subst unat_add128) (use b td in \<open>simp_all add: unat_high64\<close>)
  have u: "unat ?u = unat h1 + unat ?t div B64 + unat m1"
    by (subst unat_add128) (use b td u0 in simp_all)
  have ud: "unat ?u div B64 \<le> 1"
    using b td unfolding u by linarith
  have low: "unat (low64 (drop_bit 64 ?u)) = unat ?u div B64"
    using ud by (simp add: unat_low64 unat_high64)
  have v0: "unat (h2 + low64 (drop_bit 64 ?u)) = unat h2 + unat ?u div B64"
    by (subst unat_add64) (use h2 ud low in simp_all)
  have v: "unat (h2 + low64 (drop_bit 64 ?u) + padbit) = unat h2 + unat ?u div B64 + unat padbit"
    by (subst unat_add64) (use h2 ud v0 assms(2) in simp_all)
  have "unat ?t mod B64 + B64 * (unat ?u mod B64) + B64 * B64 * (unat h2 + unat ?u div B64 + unat padbit) =
      unat h0 + B64 * unat h1 + B64 * B64 * unat h2 + unat m0 + B64 * unat m1 + B64 * B64 * unat padbit"
    using poly_carry_step [of "unat ?t" "unat h1 + unat m1" "unat h2 + unat padbit"] u
    by (simp add: t algebra_simps)
  then show ?thesis
    using h2 ud assms(2) v
    by (simp add: absorb_add_def h Let_def poly_value_def unat_low64 del: unat_wide)
qed

lemma absorb_mul_value:
  assumes key: "poly_key_ok r s1" and h2: "unat (snd (snd h)) \<le> 6"
  shows "poly_value (absorb_mul r s1 h) mod P1305 = (poly_value h * poly_r r) mod P1305 \<and>
    unat (snd (snd (absorb_mul r s1 h))) < 12000000000000000000"
proof -
  obtain r0 r1 where r: "r = (r0, r1)" by (cases r)
  obtain h0 h1 h2 where h: "h = (h0, h1, h2)" by (cases h)
  from key obtain q where q: "unat r1 = 4 * q" "unat s1 = 5 * q"
    unfolding poly_key_ok_def r by (metis mult_div_mod_eq add.right_neutral snd_conv)
  have r0: "unat r0 \<le> 1152921504606846975" and r1: "unat r1 \<le> 1152921504606846975"
    using key by (simp_all add: poly_key_ok_def r)
  have s1: "unat s1 \<le> 1441151880758558718" using q r1 by linarith
  have h2: "unat h2 \<le> 6" using assms(2) by (simp add: h)
  have b0: "unat h0 \<le> 18446744073709551615" and b1: "unat h1 \<le> 18446744073709551615"
    using unat_bounds(4) [of h0] unat_bounds(4) [of h1] by simp_all
  note p = mult_bound [OF b0 r0] mult_bound [OF b1 s1] mult_bound [OF b0 r1] mult_bound [OF b1 r0]
    mult_bound [OF h2 s1] mult_bound [OF h2 r0]
  let ?d0 = "wide h0 * wide r0 + wide h1 * wide s1"
  let ?d1 = "wide h0 * wide r1 + wide h1 * wide r0 + wide (h2 * s1)"
  let ?e = "?d1 + drop_bit 64 ?d0"
  let ?k2 = "h2 * r0 + low64 (drop_bit 64 ?e)"
  have d0: "unat ?d0 = unat h0 * unat r0 + unat h1 * unat s1"
    by (subst unat_add128) (use p in \<open>simp_all add: unat_wide_mul\<close>)
  have hs: "unat (h2 * s1) = unat h2 * unat s1" and hr: "unat (h2 * r0) = unat h2 * unat r0"
    using p by (simp_all add: unat_mul64)
  have d1a: "unat (wide h0 * wide r1 + wide h1 * wide r0) = unat h0 * unat r1 + unat h1 * unat r0"
    by (subst unat_add128) (use p in \<open>simp_all add: unat_wide_mul\<close>)
  have d1: "unat ?d1 = unat h0 * unat r1 + unat h1 * unat r0 + unat h2 * unat s1"
    by (subst unat_add128) (use p hs d1a in simp_all)
  have d0d: "unat ?d0 div B64 \<le> 2600000000000000000"
    using p unfolding d0 by linarith
  have e: "unat ?e = unat ?d1 + unat ?d0 div B64"
    by (subst unat_add128) (use p d0d d1 in \<open>simp_all add: unat_high64\<close>)
  have ed: "unat ?e div B64 \<le> 2 ^ 62"
    using p d0d unfolding e d1 by simp
  have low: "unat (low64 (drop_bit 64 ?e)) = unat ?e div B64"
    using ed by (simp add: unat_low64 unat_high64)
  have k2: "unat ?k2 = unat h2 * unat r0 + unat ?e div B64"
    by (subst unat_add64) (use p ed low hr in simp_all)
  have "unat ?d0 mod B64 + B64 * (unat ?e mod B64) + B64 * B64 * unat ?k2 =
      unat h0 * unat r0 + unat h1 * unat s1 +
      B64 * (unat h0 * unat r1 + unat h1 * unat r0 + unat h2 * unat s1) + B64 * B64 * (unat h2 * unat r0)"
    unfolding k2 e poly_carry_step unfolding d0 d1 by (rule refl)
  then have "poly_value (absorb_mul r s1 h) mod P1305 = (poly_value h * poly_r r) mod P1305"
    using poly_mult_step [OF q(2,1), of "unat h0" "unat h1" "unat h2" "unat r0"]
    by (simp add: absorb_mul_def r h Let_def poly_value_def poly_r_def unat_low64 del: unat_wide)
  moreover have "unat ?k2 < 12000000000000000000"
    using p ed unfolding k2 by simp
  ultimately show ?thesis
    by (simp add: absorb_mul_def r h Let_def)
qed

lemma absorb_fold_value:
  assumes "unat (snd (snd h)) < 12000000000000000000"
  shows "poly_value (absorb_fold h) mod P1305 = poly_value h mod P1305 \<and> limbs_ok (absorb_fold h)"
proof -
  obtain h0 h1 h2 where h: "h = (h0, h1, h2)" by (cases h)
  have h2: "unat h2 < 12000000000000000000" using assms by (simp add: h)
  note b = unat_bounds(4) [of h0] unat_bounds(4) [of h1]
  let ?c = "drop_bit 2 h2 + (h2 AND NOT 3)"
  let ?t = "wide h0 + wide ?c"
  let ?u = "wide h1 + drop_bit 64 ?t"
  have c: "unat ?c = 5 * (unat h2 div 4)"
    using h2 unat_shr [of 2 h2] by (subst unat_add64) (simp_all add: unat_and_m4)
  have t: "unat ?t = unat h0 + 5 * (unat h2 div 4)"
    by (subst unat_add128) (use b h2 c in simp_all)
  have td: "unat ?t div B64 \<le> 1"
    using b h2 unfolding t by linarith
  have u: "unat ?u = unat h1 + unat ?t div B64"
    by (subst unat_add128) (use b td in \<open>simp_all add: unat_high64\<close>)
  have ud: "unat ?u div B64 \<le> 1"
    using b td unfolding u by linarith
  have low: "unat (low64 (drop_bit 64 ?u)) = unat ?u div B64"
    using ud by (simp add: unat_low64 unat_high64)
  have k2: "unat ((h2 AND 3) + low64 (drop_bit 64 ?u)) = unat h2 mod 4 + unat ?u div B64"
  proof (subst unat_add64)
    have "unat h2 mod 4 < 4" by simp
    then show "unat (h2 AND 3) + unat (low64 (drop_bit 64 ?u)) < B64"
      using ud unfolding low unat_and_3 by linarith
    show "unat (h2 AND 3) + unat (low64 (drop_bit 64 ?u)) = unat h2 mod 4 + unat ?u div B64"
      by (simp only: low unat_and_3)
  qed
  have "unat ?t mod B64 + B64 * (unat ?u mod B64) + B64 * B64 * (unat h2 mod 4 + unat ?u div B64) =
      unat h0 + 5 * (unat h2 div 4) + B64 * unat h1 + B64 * B64 * (unat h2 mod 4)"
    unfolding u poly_carry_step unfolding t by (rule refl)
  moreover have fold: "absorb_fold h = (low64 ?t, low64 ?u, (h2 AND 3) + low64 (drop_bit 64 ?u))"
    by (simp only: absorb_fold_def h Let_def prod.case)
  ultimately have "poly_value (absorb_fold h) =
      unat h0 + 5 * (unat h2 div 4) + B64 * unat h1 + B64 * B64 * (unat h2 mod 4)"
    by (simp only: poly_value_def prod.case unat_low64 k2)
  then have "poly_value (absorb_fold h) mod P1305 = poly_value h mod P1305"
    using poly_fold_step [of "unat h0" "unat h1" "unat h2"]
    by (simp only: poly_value_def h prod.case)
  moreover have "unat h2 mod 4 + unat ?u div B64 \<le> 4"
  proof -
    have "unat h2 mod 4 < 4" by simp
    then show ?thesis using ud by linarith
  qed
  ultimately show ?thesis
    by (simp only: fold limbs_ok_def k2 snd_conv)
qed

lemma poly_absorb_value:
  assumes "poly_key_ok r s1" "limbs_ok h" "unat padbit \<le> 1" "length block = 16"
  shows "poly_value (poly_absorb r s1 padbit h block) mod P1305 =
      ((poly_value h + from_le block + B64 * B64 * unat padbit) * poly_r r) mod P1305"
    and "limbs_ok (poly_absorb r s1 padbit h block)"
proof -
  let ?m0 = "u64_from_le (take 8 block)" and ?m1 = "u64_from_le (take 8 (drop 8 block))"
  have u: "unat (u64_from_le bs) = from_le bs" if "length bs = 8" for bs
    using from_le_bound [of bs] that by (simp add: u64_from_le_def unat_of_nat)
  have le: "from_le block = unat ?m0 + B64 * unat ?m1"
    using from_le_append [of "take 8 block" "drop 8 block"] assms(4) by (simp add: u)
  note a = absorb_add_value [OF assms(2,3), of ?m0 ?m1]
  note m = absorb_mul_value [OF assms(1) a [THEN conjunct2]]
  note f = absorb_fold_value [OF m [THEN conjunct2]]
  show "limbs_ok (poly_absorb r s1 padbit h block)"
    using f by (simp add: poly_absorb_phases)
  show "poly_value (poly_absorb r s1 padbit h block) mod P1305 =
      ((poly_value h + from_le block + B64 * B64 * unat padbit) * poly_r r) mod P1305"
    using f m a by (simp add: poly_absorb_phases le add.assoc)
qed

section \<open>The specification\<close>

text \<open>RFC 8439 section 2.5, on naturals: every block gets a 1 byte appended.\<close>

definition CLAMP :: nat where "CLAMP = 0x0ffffffc0ffffffc0ffffffc0fffffff"

definition poly_step :: "nat \<Rightarrow> nat \<Rightarrow> bytes \<Rightarrow> nat" where
  "poly_step r a block = ((a + from_le (block @ [1])) * r) mod P1305"

definition poly1305_spec :: "bytes \<Rightarrow> bytes \<Rightarrow> bytes" where
  "poly1305_spec key msg =
    (let r = from_le (take 16 key) AND CLAMP;
         s = from_le (take 16 (drop 16 key))
     in to_le 16 (foldl (poly_step r) 0 (chunks 16 msg) + s))"

lemma from_le_snoc_1: "from_le (b @ [1]) = from_le b + 256 ^ length b"
  by (simp add: from_le_append)

lemma chunks_tail:
  assumes "0 < n"
  shows "chunks n xs = chunks_exact n xs @
    (if length xs mod n = 0 then [] else [drop (length xs div n * n) xs])"
  using assms
proof (induction n xs rule: chunks.induct)
  case (1 n xs)
  show ?case
  proof (cases "length xs < n")
    case True
    then show ?thesis
      using 1(2) by (cases "xs = []") (simp_all add: chunks.simps [of n xs])
  next
    case False
    then have "length (drop n xs) mod n = length xs mod n"
      "length xs div n * n = n + length (drop n xs) div n * n"
      using 1(2) by (simp_all add: le_mod_geq le_div_geq)
    moreover have "xs \<noteq> []" using False 1(2) by auto
    ultimately show ?thesis
      using False 1 by (simp add: chunks.simps [of n xs] chunks_exact.simps [of n xs] add.commute [of n])
  qed
qed

section \<open>The key\<close>

lemma unat_and_le: "unat (a AND m :: u64) \<le> unat m"
  using word_and_le1 [of a m] by (simp add: word_le_nat_alt)

lemma and_numeral_mod4:
  "unat (t AND 0x0ffffffc0ffffffc :: u64) mod 4 = 0"
proof -
  have "(t AND 0x0ffffffc0ffffffc) AND 3 = (0 :: u64)"
    by (simp add: and.assoc)
  then show ?thesis
    using unat_and_3 [of "t AND 0x0ffffffc0ffffffc"] by simp
qed

lemma poly_new_key_ok: "poly_key_ok (po_r (poly_new key)) (po_s1 (poly_new key))"
proof -
  let ?r0 = "u64_from_le (take 8 key) AND 0x0ffffffc0fffffff :: u64"
  let ?r1 = "u64_from_le (take 8 (drop 8 key)) AND 0x0ffffffc0ffffffc :: u64"
  have r0: "unat ?r0 \<le> 0x0ffffffc0fffffff" and r1: "unat ?r1 \<le> 0x0ffffffc0ffffffc"
    using unat_and_le [of _ "0x0ffffffc0fffffff"] unat_and_le [of _ "0x0ffffffc0ffffffc"] by simp_all
  have "4 * (unat ?r1 div 4) = unat ?r1"
    using and_numeral_mod4 by (simp add: mult_div_mod_eq minus_mod_eq_mult_div [symmetric])
  moreover have "unat (?r1 + drop_bit 2 ?r1) = unat ?r1 + unat ?r1 div 4"
    using r1 unat_shr [of 2 ?r1] by (subst unat_add64) simp_all
  ultimately show ?thesis
    using r0 r1 and_numeral_mod4 by (simp add: poly_key_ok_def poly_new_def Let_def)
qed

lemma poly_new_r:
  assumes "length key = 32"
  shows "poly_r (po_r (poly_new key)) = from_le (take 16 key) AND CLAMP"
proof -
  let ?n = "from_le (take 16 key)"
  let ?a = "from_le (take 8 key)" and ?b = "from_le (take 8 (drop 8 key))"
  have u: "unat (u64_from_le bs) = from_le bs" if "length bs = 8" for bs
    using from_le_bound [of bs] that by (simp add: u64_from_le_def unat_of_nat)
  have "take 16 key = take 8 key @ take 8 (drop 8 key)"
    using take_add [of 8 8 key] by simp
  then have n: "?n = ?a + B64 * ?b"
    using assms by (simp add: from_le_append)
  have a: "?a < B64"
    using from_le_bound [of "take 8 key"] assms by simp
  have "?n AND CLAMP = take_bit 64 (?n AND CLAMP) + B64 * drop_bit 64 (?n AND CLAMP)"
    using bits_ident [of 64 "?n AND CLAMP"] by (simp add: push_bit_eq_mult add.commute mult.commute)
  also have "take_bit 64 (?n AND CLAMP) = take_bit 64 ?n AND take_bit 64 CLAMP"
    by simp
  also have "take_bit 64 ?n = ?a"
    using a by (simp add: n take_bit_eq_mod)
  also have "take_bit 64 CLAMP = 0x0ffffffc0fffffff"
    by (simp add: CLAMP_def take_bit_eq_mod)
  also have "drop_bit 64 (?n AND CLAMP) = drop_bit 64 ?n AND drop_bit 64 CLAMP"
    by simp
  also have "drop_bit 64 ?n = ?b"
    using a by (simp add: n drop_bit_eq_div)
  also have "drop_bit 64 CLAMP = 0x0ffffffc0ffffffc"
    by (simp add: CLAMP_def drop_bit_eq_div)
  finally show ?thesis
    using assms by (simp add: poly_new_def Let_def poly_r_def unsigned_and_eq u)
qed

section \<open>Streaming\<close>

interpretation poly_stream: block_stream 16 "poly_absorb r s1 1" for r s1
  by unfold_locales simp

abbreviation poly_core :: "poly1305 \<Rightarrow> limbs \<times> bytes \<times> nat" where
  "poly_core p \<equiv> (po_h p, po_buffer p, po_buffered p)"

lemma poly_blocks_eq:
  "poly_blocks r s1 h data =
    (foldl (poly_absorb r s1 1) h (chunks_exact 16 data), drop (length data div 16 * 16) data)"
proof (induction r s1 h data rule: poly_blocks.induct)
  case (1 r s1 h data)
  show ?case
  proof (cases "16 \<le> length data")
    case True
    then have "length data div 16 * 16 = 16 + length (drop 16 data) div 16 * 16"
      by (simp add: le_div_geq)
    with True 1 show ?thesis
      by (simp add: poly_blocks.simps [of r s1 h data] chunks_exact.simps [of 16 data] add.commute [of 16])
  next
    case False
    then show ?thesis by (simp add: poly_blocks.simps)
  qed
qed

lemma poly_tail_eq:
  "stream_tail 16 (poly_absorb r s1 1) ((h, buffer, n), data) =
    (let (h, data) = poly_blocks r s1 h data
     in if data \<noteq> [] then (h, copy_into buffer 0 data, length data) else (h, buffer, n))"
proof (cases "length data div 16 * 16 = 0")
  case True
  then have "length data < 16" by (simp add: div_eq_0_iff)
  then show ?thesis by (simp add: stream_tail_def poly_blocks_eq Let_def)
next
  case False
  then show ?thesis
    using chunks_exact_take [of 16 data]
    by (simp add: stream_tail_def poly_blocks_eq Let_def del: drop_eq_Nil drop_eq_Nil2)
qed

lemma poly_fill_core:
  "stream_fill 16 (poly_absorb (po_r p) (po_s1 p) 1) (poly_core p) data =
    (poly_core (fst (poly_fill p data)), snd (poly_fill p data))"
  by (simp add: poly_fill_def stream_fill_def Let_def)

lemma poly_fill_const [simp]:
  "po_r (fst (poly_fill p data)) = po_r p" "po_s1 (fst (poly_fill p data)) = po_s1 p"
  "po_pad (fst (poly_fill p data)) = po_pad p"
  by (simp_all add: poly_fill_def Let_def)

lemma poly_update_const [simp]:
  "po_r (poly_update p data) = po_r p" "po_s1 (poly_update p data) = po_s1 p"
  "po_pad (poly_update p data) = po_pad p"
  by (simp_all add: poly_update_def case_prod_beta Let_def)

lemma poly_update_core:
  "poly_core (poly_update p data) = stream_update 16 (poly_absorb (po_r p) (po_s1 p) 1) (poly_core p) data"
  unfolding stream_update_def poly_fill_core poly_tail_eq
  by (simp add: poly_update_def case_prod_beta Let_def)

text \<open>\<open>poly_holds key p xs\<close>: the authenticator of \<open>key\<close> has absorbed exactly \<open>xs\<close>.\<close>

definition poly_holds :: "bytes \<Rightarrow> poly1305 \<Rightarrow> bytes \<Rightarrow> bool" where
  "poly_holds key p xs \<longleftrightarrow>
    po_r p = po_r (poly_new key) \<and> po_s1 p = po_s1 (poly_new key) \<and> po_pad p = take 16 (drop 16 key) \<and>
    absorbed 16 (poly_absorb (po_r p) (po_s1 p) 1) (0, 0, 0) (poly_core p) xs"

lemma poly_holds_new: "poly_holds key (poly_new key) []"
  using poly_stream.absorbed_init [of "replicate 16 0"]
  by (simp add: poly_holds_def poly_new_def Let_def)

lemma poly_holds_update: "poly_holds key p xs \<Longrightarrow> poly_holds key (poly_update p ys) (xs @ ys)"
  unfolding poly_holds_def poly_update_core poly_update_const using poly_stream.absorbed_update by blast

lemma poly_holds_updates: "poly_holds key p xs \<Longrightarrow> poly_holds key (foldl poly_update p ds) (xs @ concat ds)"
proof (induction ds arbitrary: p xs)
  case (Cons d ds)
  from Cons.IH [OF poly_holds_update [OF Cons.prems]] show ?case by simp
qed simp

text \<open>Zero bytes up to the next block boundary.\<close>

definition pad16 :: "bytes \<Rightarrow> bytes" where
  "pad16 xs = xs @ replicate ((16 - length xs mod 16) mod 16) 0"

lemma length_pad16: "length (pad16 xs) mod 16 = 0"
  using poly_stream.pad_reaches [of 0 "length xs"] by (simp add: pad16_def)

lemma poly_holds_pad: "poly_holds key p xs \<Longrightarrow> poly_holds key (pad_to_block p) (pad16 xs)"
proof -
  assume h: "poly_holds key p xs"
  then have n: "po_buffered p = length xs mod 16"
    by (simp add: poly_holds_def absorbed_def)
  show ?thesis
  proof (cases "length xs mod 16 = 0")
    case True
    with h n show ?thesis by (simp add: pad_to_block_def pad16_def)
  next
    case False
    have "take (16 - length xs mod 16) (replicate 16 0) = replicate (16 - length xs mod 16) (0 :: u8)"
      by (simp add: min_def)
    with False n poly_holds_update [OF h] show ?thesis
      by (simp add: pad_to_block_def pad16_def Let_def)
  qed
qed

section \<open>The value of the accumulator and of the tag\<close>

lemma poly_fold_value:
  assumes key: "poly_key_ok r s1" and "\<forall>b\<in>set bs. length b = 16"
    and "limbs_ok h" "poly_value h mod P1305 = a mod P1305"
  shows "limbs_ok (foldl (poly_absorb r s1 1) h bs) \<and>
    poly_value (foldl (poly_absorb r s1 1) h bs) mod P1305 = foldl (poly_step (poly_r r)) a bs mod P1305"
  using assms(2-)
proof (induction bs arbitrary: h a)
  case (Cons b bs)
  have b: "length b = 16" using Cons.prems by simp
  have one: "unat (1 :: u64) \<le> 1" by simp
  note v = poly_absorb_value [OF key Cons.prems(2) one b]
  have "poly_value (poly_absorb r s1 1 h b) mod P1305 = poly_step (poly_r r) a b mod P1305"
  proof -
    have "(poly_value h + (from_le b + B128)) mod P1305 = (a + (from_le b + B128)) mod P1305"
      by (rule mod_add_cong [OF Cons.prems(3) refl])
    then have "((poly_value h + (from_le b + B128)) * poly_r r) mod P1305 =
        ((a + (from_le b + B128)) * poly_r r) mod P1305"
      by (rule mod_mult_cong [OF _ refl])
    then show ?thesis
      using v(1) b by (simp add: poly_step_def from_le_snoc_1 add.assoc)
  qed
  with v(2) Cons.IH Cons.prems(1) show ?case by simp
qed simp

lemma P1305_eq: "P1305 = 1361129467683753853853498429727072845819"
  by (simp add: P1305_def)

lemma poly_select:
  fixes h0 h1 h2 :: nat
  assumes "h0 < B64" "h1 < B64" "h2 \<le> 4"
    and "g0 = (h0 + 5) mod B64" "g1 = (h1 + (h0 + 5) div B64) mod B64"
    and "g2 = h2 + (h1 + (h0 + 5) div B64) div B64"
  shows "(h0 + B64 * h1 + B64 * B64 * h2) mod P1305 mod B128 =
      (if 4 \<le> g2 then g0 + B64 * g1 else h0 + B64 * h1)" and "g2 \<le> 5"
proof -
  let ?v = "h0 + B64 * h1 + B64 * B64 * h2"
  have g: "g0 + B64 * g1 + B64 * B64 * g2 = ?v + 5"
    using poly_carry_step [of "h0 + 5" h1 h2] assms(4-6) by simp
  have g01: "g0 < B64" "g1 < B64" using assms(4,5) by simp_all
  have low: "x + B64 * y < B128" if "x < B64" "y < B64" for x y :: nat
    using that by simp
  show "g2 \<le> 5"
    using g assms(1-3) g01 by simp
  show "?v mod P1305 mod B128 = (if 4 \<le> g2 then g0 + B64 * g1 else h0 + B64 * h1)"
  proof (cases "4 \<le> g2")
    case True
    have ge: "P1305 \<le> ?v" and lt: "?v < 2 * P1305"
      using True g assms(1-3) by (simp_all add: P1305_eq)
    then have "?v mod P1305 = ?v - P1305"
      by (simp add: mod_if le_mod_geq)
    also have "\<dots> = g0 + B64 * g1 + (g2 - 4) * B128"
      using True g by (simp add: P1305_eq algebra_simps)
    finally show ?thesis using True low [OF g01] by simp
  next
    case False
    have "?v < P1305" using False g g01 by (simp add: P1305_eq)
    then have "?v mod P1305 = h0 + B64 * h1 + h2 * B128" by simp
    then show ?thesis using False low [OF assms(1,2)] by simp
  qed
qed

lemma from_le_u64_pair: "from_le (u64_to_le a @ u64_to_le b) = unat a + B64 * unat b"
  using unat_bounds(4) [of a] unat_bounds(4) [of b]
  by (simp add: from_le_append u64_to_le_def from_le_to_le)

lemma to_le_mod: "to_le k (n mod 256 ^ k) = to_le k n"
  by (metis from_le_to_le length_to_le to_le_from_le)

lemma poly_tag_value:
  assumes ok: "limbs_ok h" and pad: "length pad = 16"
  shows "poly_tag h pad = to_le 16 (poly_value h mod P1305 + from_le pad)"
proof -
  obtain h0 h1 h2 where h: "h = (h0, h1, h2)" by (cases h)
  have h2: "unat h2 \<le> 4" using ok by (simp add: limbs_ok_def h)
  note b = unat_bounds(4) [of h0] unat_bounds(4) [of h1]
  let ?t = "wide h0 + 5" and ?u = "wide h1 + drop_bit 64 (wide h0 + 5)"
  let ?g0 = "low64 ?t" and ?g1 = "low64 ?u" and ?g2 = "h2 + low64 (drop_bit 64 ?u)"
  let ?m = "0 - drop_bit 2 ?g2"
  let ?a = "(h0 AND NOT ?m) OR (?g0 AND ?m)" and ?b = "(h1 AND NOT ?m) OR (?g1 AND ?m)"
  let ?pa = "u64_from_le (take 8 pad)" and ?pb = "u64_from_le (take 8 (drop 8 pad))"
  let ?w = "wide ?a + wide ?pa"
  have t: "unat ?t = unat h0 + 5"
    by (subst unat_add128) (use b in simp_all)
  have u: "unat ?u = unat h1 + (unat h0 + 5) div B64"
    using b by (subst unat_add128) (simp_all add: unat_high64 t del: unat_wide, simp_all)
  have ud: "unat ?u div B64 \<le> 1"
    using b unfolding u by linarith
  have g2: "unat ?g2 = unat h2 + unat ?u div B64"
    using h2 ud by (subst unat_add64) (simp_all add: unat_low64 unat_high64)
  note sel = poly_select [OF b h2, of "unat ?g0" "unat ?g1" "unat ?g2"]
  have sel': "poly_value h mod P1305 mod B128 =
      (if 4 \<le> unat ?g2 then unat ?g0 + B64 * unat ?g1 else unat h0 + B64 * unat h1)" and g5: "unat ?g2 \<le> 5"
    using sel by (simp_all add: unat_low64 t u g2 h poly_value_def)
  have m: "?m = (if 4 \<le> unat ?g2 then - 1 else 0)"
  proof -
    have "unat (drop_bit 2 ?g2) = of_bool (4 \<le> unat ?g2)"
      using unat_shr [of 2 ?g2] g5 by auto
    then have "drop_bit 2 ?g2 = of_bool (4 \<le> unat ?g2)"
      by (cases "4 \<le> unat ?g2") (simp_all add: word_unat_eq_iff)
    then show ?thesis by simp
  qed
  have ab: "unat ?a + B64 * unat ?b = poly_value h mod P1305 mod B128"
    unfolding sel' m by simp
  have w: "unat ?w = unat ?a + unat ?pa"
    using unat_bounds(4) [of ?a] unat_bounds(4) [of ?pa] by (subst unat_add128) simp_all
  have wd: "unat (low64 (drop_bit 64 ?w)) = unat ?w div B64"
    using unat_bounds(4) [of ?a] unat_bounds(4) [of ?pa] w by (simp add: unat_low64 unat_high64)
  have hi: "unat (?b + ?pb + low64 (drop_bit 64 ?w)) = (unat ?b + unat ?pb + unat ?w div B64) mod B64"
    by (simp only: unat_add3_64 wd)
  have pv: "from_le pad = unat ?pa + B64 * unat ?pb"
  proof -
    have "unat (u64_from_le bs) = from_le bs" if "length bs = 8" for bs
      using from_le_bound [of bs] that by (simp add: u64_from_le_def unat_of_nat)
    then show ?thesis
      using from_le_append [of "take 8 pad" "drop 8 pad"] pad by simp
  qed
  have tag: "poly_tag h pad = u64_to_le (low64 ?w) @ u64_to_le (?b + ?pb + low64 (drop_bit 64 ?w))"
    by (simp only: poly_tag_def h prod.case Let_def)
  have "unat ?w mod B64 + B64 * ((unat ?b + unat ?pb + unat ?w div B64) mod B64) =
      (unat ?w + B64 * (unat ?b + unat ?pb)) mod B128"
  proof -
    have "(x + B64 * y) mod B128 = x mod B64 + B64 * ((y + x div B64) mod B64)" for x y :: nat
    proof -
      have "x + B64 * y = x mod B64 + B64 * (y + x div B64)"
        by (simp add: algebra_simps)
      also have "\<dots> mod B128 = x mod B64 + B64 * ((y + x div B64) mod B64)"
        using mod_mult2_eq [of "x mod B64 + B64 * (y + x div B64)" B64 B64] by simp
      finally show ?thesis .
    qed
    from this [of "unat ?w" "unat ?b + unat ?pb"] show ?thesis by simp
  qed
  also have "\<dots> = (unat ?a + B64 * unat ?b + from_le pad) mod B128"
    unfolding w pv by (simp add: algebra_simps)
  also have "\<dots> = (poly_value h mod P1305 + from_le pad) mod B128"
    unfolding ab by (simp add: mod_add_left_eq)
  finally have "from_le (poly_tag h pad) = (poly_value h mod P1305 + from_le pad) mod 256 ^ 16"
    unfolding tag from_le_u64_pair unat_low64 hi by simp
  then have "to_le 16 (from_le (poly_tag h pad)) = to_le 16 (poly_value h mod P1305 + from_le pad)"
    by (simp only: to_le_mod)
  moreover have "length (poly_tag h pad) = 16" unfolding tag by simp
  ultimately show ?thesis using to_le_from_le [of "poly_tag h pad"] by simp
qed

lemma poly_finalize_spec:
  assumes key: "length key = 32" and holds: "poly_holds key p xs"
  shows "poly_finalize p = poly1305_spec key xs"
proof -
  let ?bs = "chunks_exact 16 xs" and ?tl = "drop (length xs div 16 * 16) xs"
  let ?r = "from_le (take 16 key) AND CLAMP"
  have ok: "poly_key_ok (po_r p) (po_s1 p)" and r: "poly_r (po_r p) = ?r"
    using holds poly_new_key_ok [of key] poly_new_r [OF key] by (simp_all add: poly_holds_def)
  have h: "po_h p = foldl (poly_absorb (po_r p) (po_s1 p) 1) (0, 0, 0) ?bs"
    and n: "po_buffered p = length xs mod 16" and buf: "take (po_buffered p) (po_buffer p) = ?tl"
    using holds unfolding poly_holds_def absorbed_def by auto
  have len: "\<forall>b\<in>set ?bs. length b = 16" using chunks_exact_length by blast
  have fold: "limbs_ok (po_h p)" "poly_value (po_h p) mod P1305 = foldl (poly_step ?r) 0 ?bs mod P1305"
    using poly_fold_value [OF ok len, of "(0, 0, 0)" 0] by (simp_all add: h limbs_ok_def poly_value_def r)
  have step_mod: "poly_step ?r a b mod P1305 = poly_step ?r a b" for a b
    by (simp add: poly_step_def)
  have "limbs_ok (poly_last p) \<and>
      poly_value (poly_last p) mod P1305 = foldl (poly_step ?r) 0 (chunks 16 xs) mod P1305"
  proof (cases "length xs mod 16 = 0")
    case True
    then show ?thesis
      using fold n chunks_tail [of 16 xs] by (simp add: poly_last_def)
  next
    case False
    let ?n = "length xs mod 16"
    have nl: "?n < 16" by simp
    have tl: "length ?tl = ?n" by (rule poly_stream.length_tail)
    let ?block = "(copy_into (replicate 16 0) 0 ?tl)[?n := 1]"
    have block: "?block = (?tl @ [1]) @ replicate (15 - ?n) 0"
    proof -
      have "replicate (16 - ?n) (0 :: u8) = 0 # replicate (15 - ?n) 0"
      proof -
        have "16 - ?n = Suc (15 - ?n)" using nl by linarith
        then show ?thesis by (simp only: replicate_Suc)
      qed
      then show ?thesis
        using tl by (simp add: copy_into_def list_update_append)
    qed
    have zeros: "from_le (replicate k 0) = 0" for k by (induction k) simp_all
    have bl: "length ?block = 16" and bv: "from_le ?block = from_le (?tl @ [1])"
      using tl nl by (simp_all add: block from_le_append zeros)
    have zero: "unat (0 :: u64) \<le> 1" by simp
    have last: "poly_last p = poly_absorb (po_r p) (po_s1 p) 0 (po_h p) ?block"
      using False by (simp only: poly_last_def n buf [unfolded n] Let_def) simp
    note v = poly_absorb_value [OF ok fold(1) zero bl]
    have "poly_value (poly_last p) mod P1305 = poly_step ?r (foldl (poly_step ?r) 0 ?bs) ?tl mod P1305"
      unfolding last v(1) bv r poly_step_def [of ?r "foldl (poly_step ?r) 0 ?bs"] mod_mod_trivial
      by (rule mod_mult_cong [OF _ refl]) (use mod_add_cong [OF fold(2) refl] in simp)
    then show ?thesis
      using v(2) last False chunks_tail [of 16 xs] by simp
  qed
  moreover have "foldl (poly_step ?r) 0 bs mod P1305 = foldl (poly_step ?r) 0 bs" for bs
    by (cases bs rule: rev_cases) (simp_all add: step_mod)
  ultimately show ?thesis
    using holds key poly_tag_value [of "poly_last p" "take 16 (drop 16 key)"]
    by (simp add: poly_finalize_def poly_holds_def poly1305_spec_def Let_def)
qed

lemma poly1305_spec_length [simp, byte_len]: "length (poly1305_spec key msg) = 16"
  by (simp add: poly1305_spec_def Let_def)

section \<open>Properties\<close>

text \<open>
  C32. The limb arithmetic is Poly1305: for a 32-byte key and a message fed in any pieces, the
  tag is the RFC 8439 one, the clamped polynomial over the 16-byte blocks modulo
  \<open>2 ^ 130 - 5\<close> plus the pad modulo \<open>2 ^ 128\<close>, for every length including a partial block.
\<close>

theorem poly1305_correct:
  assumes "length key = 32"
  shows "poly_finalize (foldl poly_update (poly_new key) parts) = poly1305_spec key (concat parts)"
  using poly_finalize_spec [OF assms poly_holds_updates [OF poly_holds_new]] by simp

theorem poly1305_correct_witness:
  "poly_finalize (foldl poly_update (poly_new (replicate 32 7)) [[1, 2], [], replicate 20 3]) =
    poly1305_spec (replicate 32 7) (concat [[1, 2], [], replicate 20 3])"
  by (rule poly1305_correct) simp

text \<open>
  The accumulator never outgrows its limbs: from a fresh authenticator, over any blocks, the
  top limb stays at most 4, and each block acts as one exact step modulo \<open>2 ^ 130 - 5\<close>, so the
  wrapping additions and the dropped carries of \<open>absorb\<close> lose nothing.
\<close>

theorem poly1305_limbs_bounded:
  assumes "\<forall>b\<in>set blocks. length b = 16"
  shows "limbs_ok (foldl (poly_absorb (po_r (poly_new key)) (po_s1 (poly_new key)) 1) (0, 0, 0) blocks) \<and>
    poly_value (foldl (poly_absorb (po_r (poly_new key)) (po_s1 (poly_new key)) 1) (0, 0, 0) blocks) mod P1305 =
      foldl (poly_step (poly_r (po_r (poly_new key)))) 0 blocks mod P1305"
  by (rule poly_fold_value [OF poly_new_key_ok assms]) (simp_all add: limbs_ok_def poly_value_def)

theorem poly1305_limbs_bounded_witness:
  "limbs_ok (foldl (poly_absorb (po_r (poly_new [])) (po_s1 (poly_new [])) 1) (0, 0, 0) [replicate 16 255]) \<and>
    poly_value (foldl (poly_absorb (po_r (poly_new [])) (po_s1 (poly_new [])) 1) (0, 0, 0) [replicate 16 255])
      mod P1305 = foldl (poly_step (poly_r (po_r (poly_new [])))) 0 [replicate 16 255] mod P1305"
  by (rule poly1305_limbs_bounded) simp

end
