(* ===== verification/Aead.thy ===== *)
theory Aead
  imports ChaCha Poly1305 CryptoTypes
begin

text \<open>
  Authenticated encryption (crates/blindplane-crypto/src/aead/mod.rs, aead/chacha20poly1305.rs,
  and aes/mod.rs of the portable build, where AES-256-GCM is unavailable). The seal and the open
  are shown to be RFC 8439 and to be exact inverses; the clients use the interface
  \<open>aead_scheme\<close>.
\<close>

section \<open>ChaCha20-Poly1305\<close>

definition poly_key :: "bytes \<Rightarrow> bytes \<Rightarrow> bytes" where
  "poly_key key nonce =
    (let block = fst (apply_keystream (chacha_new key nonce 0) (replicate 64 0))
     in take 32 block)"

definition xchacha_split :: "bytes \<Rightarrow> bytes \<Rightarrow> bytes \<times> bytes" where
  "xchacha_split key nonce =
    (let subkey = hchacha20 key (take 16 nonce);
         inner = copy_into (replicate 12 0) 4 (take 8 (drop 16 nonce))
     in (subkey, inner))"

definition FUSE_CHUNK :: nat where "FUSE_CHUNK = 512"

text \<open>The fused loop: encrypt a chunk, then authenticate it.\<close>

definition seal_chunk :: "u32 list \<times> poly1305 \<times> bytes \<Rightarrow> bytes \<Rightarrow> u32 list \<times> poly1305 \<times> bytes" where
  "seal_chunk st chunk =
    (case st of (cipher, mac, out) \<Rightarrow>
     let (chunk, cipher) = apply_keystream cipher chunk
     in (cipher, poly_update mac chunk, out @ chunk))"

definition chacha20poly1305_seal :: "bytes \<Rightarrow> bytes \<Rightarrow> bytes \<Rightarrow> bytes \<Rightarrow> bytes \<times> bytes" where
  "chacha20poly1305_seal key nonce aad buffer =
    (let mac = poly_new (poly_key key nonce);
         mac = poly_update mac aad;
         mac = pad_to_block mac;
         cipher = chacha_new key nonce 1;
         (cipher, mac, buffer) = foldl seal_chunk (cipher, mac, []) (chunks FUSE_CHUNK buffer);
         mac = pad_to_block mac;
         mac = poly_update mac (u64_to_le (of_nat (length aad)));
         mac = poly_update mac (u64_to_le (of_nat (length buffer)))
     in (poly_finalize mac, buffer))"

definition chacha20poly1305_open :: "bytes \<Rightarrow> bytes \<Rightarrow> bytes \<Rightarrow> bytes \<Rightarrow> bytes \<Rightarrow> bool \<times> bytes" where
  "chacha20poly1305_open key nonce aad buffer tag =
    (let mac = poly_new (poly_key key nonce);
         mac = poly_update mac aad;
         mac = pad_to_block mac;
         mac = poly_update mac buffer;
         mac = pad_to_block mac;
         mac = poly_update mac (u64_to_le (of_nat (length aad)));
         mac = poly_update mac (u64_to_le (of_nat (length buffer)))
     in if \<not> is_set (poly_verify mac tag) then (False, buffer)
        else (True, fst (apply_keystream (chacha_new key nonce 1) buffer)))"

section \<open>The suites\<close>

text \<open>Without the AArch64 extensions \<open>aes::available\<close> is false and the calls return \<open>None\<close>.\<close>

definition aes_available :: bool where "aes_available = False"

definition aes_seal_in_place :: "bytes \<Rightarrow> bytes \<Rightarrow> bytes \<Rightarrow> bytes \<Rightarrow> (bytes \<times> bytes) option" where
  "aes_seal_in_place key nonce aad buffer = None"

definition aes_open_in_place :: "bytes \<Rightarrow> bytes \<Rightarrow> bytes \<Rightarrow> bytes \<Rightarrow> bytes \<Rightarrow> (bool \<times> bytes) option" where
  "aes_open_in_place key nonce aad buffer tag = None"

fun is_available :: "suite \<Rightarrow> bool" where
  "is_available Aes256Gcm = aes_available"
| "is_available XChaCha20Poly1305 = True"
| "is_available ChaCha20Poly1305 = True"

definition fastest_available :: suite where
  "fastest_available = (if aes_available then Aes256Gcm else XChaCha20Poly1305)"

text \<open>The in-place operations return their result and what they leave in the buffer.\<close>

definition seal_in_place ::
  "suite \<Rightarrow> bytes \<Rightarrow> bytes \<Rightarrow> bytes \<Rightarrow> bytes \<Rightarrow> (aead_error + bytes) \<times> bytes" where
  "seal_in_place s key nonce aad buffer =
    (if length nonce \<noteq> nonce_len s then (Inl Unsupported, buffer)
     else case s of
       Aes256Gcm \<Rightarrow>
         (case aes_seal_in_place key nonce aad buffer of
            None \<Rightarrow> (Inl Unsupported, buffer)
          | Some (tag, buffer) \<Rightarrow> (Inr tag, buffer))
     | ChaCha20Poly1305 \<Rightarrow>
         (case chacha20poly1305_seal key nonce aad buffer of (tag, buffer) \<Rightarrow> (Inr tag, buffer))
     | XChaCha20Poly1305 \<Rightarrow>
         (case xchacha_split key nonce of (subkey, fixed) \<Rightarrow>
          case chacha20poly1305_seal subkey fixed aad buffer of (tag, buffer) \<Rightarrow> (Inr tag, buffer)))"

definition open_in_place ::
  "suite \<Rightarrow> bytes \<Rightarrow> bytes \<Rightarrow> bytes \<Rightarrow> bytes \<Rightarrow> bytes \<Rightarrow> (aead_error + unit) \<times> bytes" where
  "open_in_place s key nonce aad buffer tag =
    (if length nonce \<noteq> nonce_len s then (Inl Unauthenticated, buffer)
     else let opened = (case s of
         Aes256Gcm \<Rightarrow> aes_open_in_place key nonce aad buffer tag
       | ChaCha20Poly1305 \<Rightarrow> Some (chacha20poly1305_open key nonce aad buffer tag)
       | XChaCha20Poly1305 \<Rightarrow>
           (case xchacha_split key nonce of (subkey, fixed) \<Rightarrow>
              Some (chacha20poly1305_open subkey fixed aad buffer tag)))
     in case opened of
          None \<Rightarrow> (Inl Unsupported, buffer)
        | Some (ok, buffer) \<Rightarrow>
            if ok then (Inr (), buffer) else (Inl Unauthenticated, secure_erase buffer))"

definition suite_seal :: "suite \<Rightarrow> bytes \<Rightarrow> bytes \<Rightarrow> bytes \<Rightarrow> bytes \<Rightarrow> aead_error + bytes" where
  "suite_seal s key nonce aad plaintext =
    (case seal_in_place s key nonce aad plaintext of
       (res, out) \<Rightarrow> rbind res (\<lambda>tag. Inr (out @ tag)))"

definition suite_open :: "suite \<Rightarrow> bytes \<Rightarrow> bytes \<Rightarrow> bytes \<Rightarrow> bytes \<Rightarrow> aead_error + bytes" where
  "suite_open s key nonce aad ciphertext =
    (if length ciphertext < TAG_LEN then Inl Unauthenticated
     else let split = length ciphertext - TAG_LEN;
              tag = drop split ciphertext
          in case open_in_place s key nonce aad (take split ciphertext) tag of
               (res, out) \<Rightarrow> rbind res (\<lambda>_. Inr out))"

section \<open>RFC 8439\<close>

definition rfc_otk :: "bytes \<Rightarrow> bytes \<Rightarrow> bytes" where
  "rfc_otk key nonce = take 32 (chacha_block (rfc8439_state key 0 nonce))"

definition rfc_mac_data :: "bytes \<Rightarrow> bytes \<Rightarrow> bytes" where
  "rfc_mac_data aad ct = pad16 aad @ pad16 ct @ u64_to_le (of_nat (length aad)) @ u64_to_le (of_nat (length ct))"

definition rfc_ct :: "bytes \<Rightarrow> bytes \<Rightarrow> bytes \<Rightarrow> bytes" where
  "rfc_ct key nonce pt = rfc8439_encrypt key 1 nonce pt"

definition rfc_tag :: "bytes \<Rightarrow> bytes \<Rightarrow> bytes \<Rightarrow> bytes \<Rightarrow> bytes" where
  "rfc_tag key nonce aad ct = poly1305_spec (rfc_otk key nonce) (rfc_mac_data aad ct)"

lemma rfc_ct_xor: "rfc_ct key nonce pt = chacha_xor (chacha_new key nonce 1) pt"
  by (simp add: rfc_ct_def rfc8439_encrypt_def chacha_xor_def blocks_of_def chacha_keystream_rfc xor_bytes_def)

lemma poly_key_otk: "poly_key key nonce = rfc_otk key nonce"
proof -
  have x: "xor_bytes (replicate (length ks) 0) ks = ks" for ks
    by (induction ks) (simp_all add: xor_bytes_def)
  have ks: "chacha_keystream st 1 = chacha_block (with_counter st (st ! 12))" for st
    by (simp add: chacha_keystream_def)
  have b: "blocks_of 64 = 1" by (simp add: blocks_of_def)
  have "length (replicate 64 (0 :: u8)) = 64" by (rule length_replicate)
  then show ?thesis
    using x [of "chacha_block (chacha_new key nonce 0)"]
    unfolding poly_key_def rfc_otk_def chacha_new_rfc [symmetric] Let_def apply_keystream_eq [OF chacha_new_length] fst_conv chacha_xor_def
    by (simp only: b ks with_counter_simps chacha_block_length)
qed

lemma rfc_otk_length [simp]: "length (rfc_otk key nonce) = 32"
  by (simp add: rfc_otk_def)

lemma pad16_aligned: "pad16 (pad16 a @ b) = pad16 a @ pad16 b"
proof -
  have "(length (pad16 a) + length b) mod 16 = length b mod 16"
    using length_pad16 [of a] by (metis add_0 mod_add_left_eq)
  then show ?thesis by (simp add: pad16_def [of "pad16 a @ b"] pad16_def [of b])
qed

text \<open>The fused loop, after any number of whole chunks.\<close>

lemma seal_loop:
  assumes "length cipher = 16" "poly_holds k mac xs"
    and "\<forall>c\<in>set (butlast cs). length c mod 64 = 0"
  shows "\<exists>cipher' mac'. foldl seal_chunk (cipher, mac, out) cs =
      (cipher', mac', out @ chacha_xor cipher (concat cs)) \<and>
    poly_holds k mac' (xs @ chacha_xor cipher (concat cs))"
  using assms
proof (induction cs arbitrary: cipher mac out xs)
  case Nil
  then show ?case by (simp add: chacha_xor_def xor_bytes_def)
next
  case (Cons c cs)
  let ?ct = "chacha_xor cipher c" and ?cipher = "chacha_skip cipher (length c)"
  have step: "seal_chunk (cipher, mac, out) c = (?cipher, poly_update mac ?ct, out @ ?ct)"
    by (simp add: seal_chunk_def apply_keystream_eq [OF Cons.prems(1)])
  have len: "length ?cipher = 16" using Cons.prems(1) by simp
  have tl: "\<forall>c\<in>set (butlast cs). length c mod 64 = 0"
    using Cons.prems(3) by (cases cs) auto
  obtain cipher' mac' where r: "foldl seal_chunk (?cipher, poly_update mac ?ct, out @ ?ct) cs =
      (cipher', mac', (out @ ?ct) @ chacha_xor ?cipher (concat cs))"
    "poly_holds k mac' ((xs @ ?ct) @ chacha_xor ?cipher (concat cs))"
    using Cons.IH [OF len poly_holds_update [OF Cons.prems(2)] tl] by blast
  have "?ct @ chacha_xor ?cipher (concat cs) = chacha_xor cipher (concat (c # cs))"
  proof (cases "cs = []")
    case True
    then show ?thesis by (simp add: chacha_xor_def [of _ "[]"] xor_bytes_def)
  next
    case False
    then have "length c mod 64 = 0" using Cons.prems(3) by simp
    then show ?thesis using chacha_xor_append [OF Cons.prems(1)] by simp
  qed
  with r show ?case by (simp add: step)
qed

lemma chunks_butlast:
  assumes "0 < n"
  shows "\<forall>c\<in>set (butlast (chunks n xs)). length c = n"
proof -
  have "butlast (chunks n xs) = butlast (chunks_exact n xs @
      (if length xs mod n = 0 then [] else [drop (length xs div n * n) xs]))"
    by (simp only: chunks_tail [OF assms])
  then have "set (butlast (chunks n xs)) \<subseteq> set (chunks_exact n xs)"
    by (auto simp: dest: in_set_butlastD split: if_splits)
  then show ?thesis using chunks_exact_length by blast
qed

text \<open>The tag computation shared by seal and open.\<close>

lemma mac_tail:
  assumes "poly_holds (rfc_otk key nonce) mac (pad16 aad @ ct)"
  shows "poly_finalize (poly_update (poly_update (pad_to_block mac) (u64_to_le (of_nat (length aad))))
    (u64_to_le (of_nat (length ct)))) = rfc_tag key nonce aad ct"
proof -
  have "poly_holds (rfc_otk key nonce) (poly_update (poly_update (pad_to_block mac)
      (u64_to_le (of_nat (length aad)))) (u64_to_le (of_nat (length ct))))
      ((pad16 (pad16 aad @ ct) @ u64_to_le (of_nat (length aad))) @ u64_to_le (of_nat (length ct)))"
    by (intro poly_holds_update poly_holds_pad assms)
  from poly_finalize_spec [OF rfc_otk_length this] show ?thesis
    by (simp add: rfc_tag_def rfc_mac_data_def pad16_aligned)
qed

lemma mac_head: "poly_holds (rfc_otk key nonce)
    (pad_to_block (poly_update (poly_new (poly_key key nonce)) aad)) (pad16 aad)"
  using poly_holds_pad [OF poly_holds_update [OF poly_holds_new, of "rfc_otk key nonce" aad]]
  by (simp add: poly_key_otk)

lemma chacha20poly1305_seal_eq:
  "chacha20poly1305_seal key nonce aad pt =
    (rfc_tag key nonce aad (rfc_ct key nonce pt), rfc_ct key nonce pt)"
proof -
  let ?cs = "chunks FUSE_CHUNK pt"
  have pos: "0 < FUSE_CHUNK" by (simp add: FUSE_CHUNK_def)
  have aligned: "\<forall>c\<in>set (butlast ?cs). length c mod 64 = 0"
    using chunks_butlast [OF pos, of pt] by (simp add: FUSE_CHUNK_def)
  obtain cipher' mac' where
    "foldl seal_chunk (chacha_new key nonce 1, pad_to_block (poly_update (poly_new (poly_key key nonce)) aad), []) ?cs =
      (cipher', mac', [] @ chacha_xor (chacha_new key nonce 1) (concat ?cs))"
    "poly_holds (rfc_otk key nonce) mac' (pad16 aad @ chacha_xor (chacha_new key nonce 1) (concat ?cs))"
    using seal_loop [OF chacha_new_length mac_head aligned] by blast
  then show ?thesis
    using mac_tail [of key nonce mac' aad "chacha_xor (chacha_new key nonce 1) pt"]
    by (simp add: chacha20poly1305_seal_def Let_def concat_chunks [OF pos] rfc_ct_xor)
qed

lemma chacha20poly1305_open_eq:
  "chacha20poly1305_open key nonce aad ct tag =
    (if tag = rfc_tag key nonce aad ct then (True, chacha_xor (chacha_new key nonce 1) ct) else (False, ct))"
  using mac_tail [OF poly_holds_update [OF mac_head, of key nonce aad ct]]
  by (auto simp: chacha20poly1305_open_def Let_def poly_verify_def apply_keystream_eq)

section \<open>The interface to the clients\<close>

text \<open>
  An AEAD as its callers use it: for good keys and nonces, opening succeeds exactly on what
  sealing produces.
\<close>

locale aead_scheme =
  fixes seal :: "bytes \<Rightarrow> bytes \<Rightarrow> bytes \<Rightarrow> bytes \<Rightarrow> 'e + bytes"
    and unseal :: "bytes \<Rightarrow> bytes \<Rightarrow> bytes \<Rightarrow> bytes \<Rightarrow> 'e + bytes"
    and good :: "bytes \<Rightarrow> bytes \<Rightarrow> bool"
  assumes unseal_iff: "good k n \<Longrightarrow> unseal k n a c = Inr m \<longleftrightarrow> seal k n a m = Inr c"
    and seal_total: "good k n \<Longrightarrow> \<exists>c. seal k n a m = Inr c \<and> length c = length m + 16"
begin

lemma open_seal: "good k n \<Longrightarrow> seal k n a m = Inr c \<Longrightarrow> unseal k n a c = Inr m"
  by (simp add: unseal_iff)

lemma open_sealed: "good k n \<Longrightarrow> \<exists>c. seal k n a m = Inr c \<and> unseal k n a c = Inr m"
  using seal_total unseal_iff by metis

lemma seal_inj: "good k n \<Longrightarrow> seal k n a m = Inr c \<Longrightarrow> seal k n a m' = Inr c \<Longrightarrow> m = m'"
  using unseal_iff by (metis sum.inject(2))

lemma seal_length: "good k n \<Longrightarrow> seal k n a m = Inr c \<Longrightarrow> length c = length m + 16"
  using seal_total [of k n a m] by auto

lemma open_length: "good k n \<Longrightarrow> unseal k n a c = Inr m \<Longrightarrow> length c = length m + 16"
  using unseal_iff seal_length by blast

end

text \<open>The key and the nonce a suite works with in the end.\<close>

fun suite_key :: "suite \<Rightarrow> bytes \<Rightarrow> bytes \<Rightarrow> bytes \<times> bytes" where
  "suite_key XChaCha20Poly1305 key nonce =
    (rfc_hchacha20 key (take 16 nonce), replicate 4 0 @ take 8 (drop 16 nonce))"
| "suite_key _ key nonce = (key, nonce)"

definition suite_good :: "suite \<Rightarrow> bytes \<Rightarrow> bytes \<Rightarrow> bool" where
  "suite_good s key nonce \<longleftrightarrow> is_available s \<and> length key = 32 \<and> length nonce = nonce_len s"

definition rfc_seal :: "suite \<Rightarrow> bytes \<Rightarrow> bytes \<Rightarrow> bytes \<Rightarrow> bytes \<Rightarrow> bytes" where
  "rfc_seal s key nonce aad pt =
    (case suite_key s key nonce of (k, n) \<Rightarrow>
     let ct = rfc_ct k n pt in ct @ rfc_tag k n aad ct)"

lemma xchacha_split_eq:
  "length nonce = 24 \<Longrightarrow> xchacha_split key nonce = suite_key XChaCha20Poly1305 key nonce"
  by (simp add: xchacha_split_def copy_into_def hchacha20_rfc Let_def)

lemma suite_good_cases:
  "suite_good s key nonce \<Longrightarrow>
    s = XChaCha20Poly1305 \<and> length nonce = 24 \<or> s = ChaCha20Poly1305 \<and> length nonce = 12"
  by (cases s) (auto simp: suite_good_def aes_available_def)

lemma seal_in_place_eq:
  assumes "suite_good s key nonce"
  shows "seal_in_place s key nonce aad pt =
    (case suite_key s key nonce of (k, n) \<Rightarrow> (Inr (rfc_tag k n aad (rfc_ct k n pt)), rfc_ct k n pt))"
  using suite_good_cases [OF assms]
  by (auto simp: seal_in_place_def xchacha_split_eq chacha20poly1305_seal_eq)

lemma open_in_place_eq:
  assumes "suite_good s key nonce"
  shows "open_in_place s key nonce aad ct tag =
    (case suite_key s key nonce of (k, n) \<Rightarrow>
      if tag = rfc_tag k n aad ct then (Inr (), rfc_ct k n ct)
      else (Inl Unauthenticated, replicate (length ct) 0))"
  using suite_good_cases [OF assms]
  by (auto simp: open_in_place_def xchacha_split_eq chacha20poly1305_open_eq rfc_ct_xor secure_erase_zero)

lemma suite_seal_eq:
  "suite_good s key nonce \<Longrightarrow> suite_seal s key nonce aad pt = Inr (rfc_seal s key nonce aad pt)"
  by (simp add: suite_seal_def seal_in_place_eq rfc_seal_def Let_def split: prod.split)

lemma rfc_ct_props [simp]:
  "length (rfc_ct k n pt) = length pt" "rfc_ct k n (rfc_ct k n pt) = pt"
  by (simp_all add: rfc_ct_xor)

lemma rfc_tag_length [simp]: "length (rfc_tag k n aad ct) = 16"
  by (simp add: rfc_tag_def)

lemma rfc_seal_length [simp]: "length (rfc_seal s key nonce aad pt) = length pt + 16"
  by (simp add: rfc_seal_def Let_def split: prod.split)

lemma suite_open_iff:
  assumes good: "suite_good s key nonce"
  shows "suite_open s key nonce aad c = Inr m \<longleftrightarrow> c = rfc_seal s key nonce aad m"
proof -
  obtain k n where kn: "suite_key s key nonce = (k, n)" by (cases "suite_key s key nonce")
  let ?i = "length c - TAG_LEN"
  show ?thesis
  proof (cases "length c < TAG_LEN")
    case True
    then have "c \<noteq> rfc_seal s key nonce aad m"
      using rfc_seal_length [of s key nonce aad m] by (auto simp: TAG_LEN_def simp del: rfc_seal_length)
    with True show ?thesis by (simp add: suite_open_def)
  next
    case False
    have "suite_open s key nonce aad c = Inr m \<longleftrightarrow>
        drop ?i c = rfc_tag k n aad (take ?i c) \<and> rfc_ct k n (take ?i c) = m"
      using False by (simp add: suite_open_def open_in_place_eq [OF good] kn Let_def)
    also have "\<dots> \<longleftrightarrow> take ?i c = rfc_ct k n m \<and> drop ?i c = rfc_tag k n aad (rfc_ct k n m)"
      using rfc_ct_props(2) by metis
    also have "\<dots> \<longleftrightarrow> c = rfc_ct k n m @ rfc_tag k n aad (rfc_ct k n m)"
    proof
      assume "c = rfc_ct k n m @ rfc_tag k n aad (rfc_ct k n m)"
      then show "take ?i c = rfc_ct k n m \<and> drop ?i c = rfc_tag k n aad (rfc_ct k n m)"
        by (simp add: TAG_LEN_def)
    qed (metis append_take_drop_id)
    finally show ?thesis by (simp add: rfc_seal_def kn Let_def)
  qed
qed

interpretation suite_aead: aead_scheme "suite_seal s" "suite_open s" "suite_good s" for s
proof
  fix k n a c m
  assume good: "suite_good s k n"
  show "suite_open s k n a c = Inr m \<longleftrightarrow> suite_seal s k n a m = Inr c"
    using suite_open_iff [OF good] suite_seal_eq [OF good] by auto
  show "\<exists>c. suite_seal s k n a m = Inr c \<and> length c = length m + 16"
    by (simp add: suite_seal_eq [OF good])
qed

section \<open>Properties\<close>

text \<open>
  C31. Sealing is RFC 8439: for an available suite, a 32-byte key and a nonce of the suite's
  length, the output is the ChaCha20 ciphertext followed by the Poly1305 tag over the padded
  associated data, the padded ciphertext and both lengths; XChaCha first derives its subkey. The
  fused 512-byte chunks leave no trace in the result.
\<close>

theorem suite_seal_rfc8439:
  assumes "is_available s" and "length key = 32" and "length nonce = nonce_len s"
  shows "suite_seal s key nonce aad pt = Inr (rfc_seal s key nonce aad pt)"
  by (rule suite_seal_eq) (simp add: suite_good_def assms)

theorem suite_seal_rfc8439_witness:
  "suite_seal XChaCha20Poly1305 (replicate 32 1) (replicate 24 2) [3] [4, 5] =
    Inr (rfc_seal XChaCha20Poly1305 (replicate 32 1) (replicate 24 2) [3] [4, 5])"
  by (rule suite_seal_rfc8439) simp_all

text \<open>
  C30. Opening accepts exactly what sealing produces: for an available suite, a 32-byte key and a
  nonce of the right length, \<open>open\<close> returns \<open>m\<close> if and only if the input is \<open>seal\<close> of \<open>m\<close>
  under the same key, nonce and associated data. So decryption inverts encryption, and nothing
  else authenticates.
\<close>

theorem suite_open_exact:
  assumes "is_available s" and "length key = 32" and "length nonce = nonce_len s"
  shows "suite_open s key nonce aad c = Inr m \<longleftrightarrow> suite_seal s key nonce aad m = Inr c"
  by (rule suite_aead.unseal_iff) (simp add: suite_good_def assms)

theorem suite_open_exact_witness:
  "suite_open ChaCha20Poly1305 (replicate 32 1) (replicate 12 2) [3]
      (rfc_seal ChaCha20Poly1305 (replicate 32 1) (replicate 12 2) [3] [4, 5]) = Inr [4, 5]"
  using suite_open_exact [of ChaCha20Poly1305 "replicate 32 1" "replicate 12 2" "[3]"
      "rfc_seal ChaCha20Poly1305 (replicate 32 1) (replicate 12 2) [3] [4, 5]" "[4, 5]"]
  by (simp add: suite_seal_eq suite_good_def)



end
