(* ===== verification/Codec.thy ===== *)
theory Codec
  imports Prelude
begin

text \<open>
  The text encodings of the HTTP surface (crates/blindplane-blazingly/src/codec.rs): base64 with
  padding and lowercase hexadecimal. Text is its bytes. Both encoders are shown to be inverted
  by their decoders, through the interface \<open>text_codec\<close>.
\<close>

locale text_codec =
  fixes enc :: "bytes \<Rightarrow> bytes" and dec :: "bytes \<Rightarrow> bytes option"
  assumes dec_enc: "dec (enc bs) = Some bs"
begin

lemma enc_inject: "enc a = enc b \<longleftrightarrow> a = b"
  using dec_enc by (metis option.inject)

lemma dec_surj: "\<exists>t. dec t = Some bs"
  using dec_enc by blast

end

section \<open>Collecting options\<close>

fun collect_opt :: "('a \<Rightarrow> 'b option) \<Rightarrow> 'a list \<Rightarrow> 'b list option" where
  "collect_opt f [] = Some []"
| "collect_opt f (x # xs) =
    (case f x of None \<Rightarrow> None
     | Some y \<Rightarrow> (case collect_opt f xs of None \<Rightarrow> None | Some ys \<Rightarrow> Some (y # ys)))"

lemma collect_opt_map: "(\<And>x. x \<in> set xs \<Longrightarrow> f (g x) = Some (h x)) \<Longrightarrow> collect_opt f (map g xs) = Some (map h xs)"
  by (induction xs) auto

section \<open>Hexadecimal\<close>

definition HEX_DIGITS :: bytes where
  "HEX_DIGITS = ascii ''0123456789abcdef''"

definition hex_encode :: "bytes \<Rightarrow> str" where
  "hex_encode bs = concat (map (\<lambda>b. [HEX_DIGITS ! unat (drop_bit 4 b), HEX_DIGITS ! unat (b AND 15)]) bs)"

text \<open>\<open>char::to_digit(16)\<close>, on the bytes of the text read as characters.\<close>

definition to_digit16 :: "u8 \<Rightarrow> nat option" where
  "to_digit16 c =
    (if 48 \<le> c \<and> c \<le> 57 then Some (unat c - 48)
     else if 97 \<le> c \<and> c \<le> 102 then Some (unat c - 87)
     else if 65 \<le> c \<and> c \<le> 70 then Some (unat c - 55)
     else None)"

definition hex_pair :: "bytes \<Rightarrow> u8 option" where
  "hex_pair pair =
    (case to_digit16 (pair ! 0) of None \<Rightarrow> None
     | Some hi \<Rightarrow> (case to_digit16 (pair ! 1) of None \<Rightarrow> None
        | Some lo \<Rightarrow> Some (push_bit 4 (of_nat hi) OR of_nat lo)))"

definition hex_decode :: "str \<Rightarrow> bytes option" where
  "hex_decode text =
    (if length text mod 2 \<noteq> 0 then None else collect_opt hex_pair (chunks 2 text))"

lemma to_digit16_all: "\<forall>n\<in>set [0..<16]. to_digit16 (HEX_DIGITS ! n) = Some n"
  by (simp add: upt_rec HEX_DIGITS_def to_digit16_def)

lemma to_digit16_digit: "n < 16 \<Longrightarrow> to_digit16 (HEX_DIGITS ! n) = Some n"
  using to_digit16_all by simp

lemma nibbles_join: "push_bit 4 (drop_bit 4 b) OR (b AND 15) = (b :: u8)"
proof -
  have "b AND 15 = take_bit 4 b"
    by (simp add: take_bit_eq_mask mask_eq_exp_minus_1)
  moreover have "push_bit 4 (drop_bit 4 b) OR take_bit 4 b = b"
    by (rule bit_word_eqI) (auto simp: bit_simps)
  ultimately show ?thesis by simp
qed

lemma nibbles_small: "unat (drop_bit 4 (b :: u8)) < 16" "unat (b AND 15) < 16"
proof -
  have "unat (drop_bit 4 b) = unat b div 16"
    using unat_drop_bit_eq [of 4 b] by (simp add: drop_bit_eq_div [of 4 "unat b"])
  then show "unat (drop_bit 4 b) < 16" using unat_bounds(1) [of b] by simp
  have "b AND 15 = take_bit 4 b"
    by (simp add: take_bit_eq_mask mask_eq_exp_minus_1)
  then show "unat (b AND 15) < 16"
    by (simp add: unsigned_take_bit_eq) (simp add: take_bit_eq_mod)
qed

lemma hex_pair_digits:
  "hex_pair [HEX_DIGITS ! unat (drop_bit 4 b), HEX_DIGITS ! unat (b AND 15)] = Some b"
  using nibbles_small [of b] by (simp add: hex_pair_def to_digit16_digit nibbles_join)

lemma chunks_concat:
  assumes "0 < n" "\<forall>c\<in>set cs. length c = n"
  shows "chunks n (concat cs) = cs"
  using assms(2)
proof (induction cs)
  case (Cons c cs)
  then have "c \<noteq> []" using assms(1) by auto
  with Cons show ?case using assms(1) by (simp add: chunks.simps [of n "c @ concat cs"])
qed simp

lemma hex_decode_encode: "hex_decode (hex_encode bs) = Some bs"
proof -
  let ?p = "\<lambda>b. [HEX_DIGITS ! unat (drop_bit 4 b), HEX_DIGITS ! unat (b AND 15)]"
  have "chunks 2 (concat (map ?p bs)) = map ?p bs"
    by (rule chunks_concat) simp_all
  moreover have "collect_opt hex_pair (map ?p bs) = Some (map id bs)"
    by (rule collect_opt_map) (simp add: hex_pair_digits)
  moreover have "length (concat (map ?p bs)) mod 2 = 0"
    by (induction bs) simp_all
  ultimately show ?thesis by (simp add: hex_decode_def hex_encode_def)
qed

interpretation hex: text_codec hex_encode hex_decode
  by unfold_locales (rule hex_decode_encode)

section \<open>Base64\<close>

definition B64_ALPHABET :: bytes where
  "B64_ALPHABET = ascii ''ABCDEFGHIJKLMNOPQRSTUVWXYZabcdefghijklmnopqrstuvwxyz0123456789+/''"

definition b64_char :: "u32 \<Rightarrow> u8" where
  "b64_char v = B64_ALPHABET ! unat (v AND 63)"

definition b64_encode_chunk :: "bytes \<Rightarrow> bytes" where
  "b64_encode_chunk chunk =
    (let b0 = ucast (chunk ! 0) :: u32;
         b1 = (if 1 < length chunk then ucast (chunk ! 1) else 0);
         b2 = (if 2 < length chunk then ucast (chunk ! 2) else 0);
         triple = push_bit 16 b0 OR push_bit 8 b1 OR b2
     in [b64_char (drop_bit 18 triple), b64_char (drop_bit 12 triple),
         (if 1 < length chunk then b64_char (drop_bit 6 triple) else 61),
         (if 2 < length chunk then b64_char triple else 61)])"

definition base64_encode :: "bytes \<Rightarrow> str" where
  "base64_encode bs = concat (map b64_encode_chunk (chunks 3 bs))"

text \<open>The value of one character at position \<open>i\<close> of its group, and whether it is padding.\<close>

definition b64_value :: "nat \<Rightarrow> u8 \<Rightarrow> (u32 \<times> nat) option" where
  "b64_value i byte =
    (if 65 \<le> byte \<and> byte \<le> 90 then Some (ucast (byte - 65), 0)
     else if 97 \<le> byte \<and> byte \<le> 122 then Some (ucast (byte - 97) + 26, 0)
     else if 48 \<le> byte \<and> byte \<le> 57 then Some (ucast (byte - 48) + 52, 0)
     else if byte = 43 then Some (62, 0)
     else if byte = 47 then Some (63, 0)
     else if byte = 61 \<and> 2 \<le> i then Some (0, 1)
     else None)"

fun b64_group :: "nat \<Rightarrow> u32 \<times> nat \<Rightarrow> bytes \<Rightarrow> (u32 \<times> nat) option" where
  "b64_group i (triple, padding) [] = Some (triple, padding)"
| "b64_group i (triple, padding) (byte # bytes) =
    (case b64_value i byte of None \<Rightarrow> None
     | Some (v, p) \<Rightarrow> b64_group (Suc i) (push_bit 6 triple OR v, padding + p) bytes)"

definition b64_decode_chunk :: "bytes \<Rightarrow> bytes option" where
  "b64_decode_chunk chunk =
    (case b64_group 0 (0, 0) chunk of None \<Rightarrow> None
     | Some (triple, padding) \<Rightarrow>
        Some ([ucast (drop_bit 16 triple)] @
          (if padding < 2 then [ucast (drop_bit 8 triple)] else []) @
          (if padding < 1 then [ucast triple] else [])))"

definition base64_decode :: "str \<Rightarrow> bytes option" where
  "base64_decode text =
    (if length text mod 4 \<noteq> 0 then None
     else map_option concat (collect_opt b64_decode_chunk (chunks 4 text)))"

lemma b64_value_all: "\<forall>n\<in>set [0..<64]. \<forall>i. b64_value i (B64_ALPHABET ! n) = Some (of_nat n, 0)"
  by (simp add: upt_rec B64_ALPHABET_def b64_value_def)

lemma unat_and_63: "unat (v AND 63 :: u32) = unat v mod 64"
proof -
  have "v AND 63 = take_bit 6 v"
    by (simp add: take_bit_eq_mask mask_eq_exp_minus_1)
  then show ?thesis
    by (simp add: unsigned_take_bit_eq) (simp add: take_bit_eq_mod)
qed

lemma b64_value_char: "b64_value i (b64_char v) = Some (v AND 63, 0)"
proof -
  have "unat (v AND 63) < 64" by (simp add: unat_and_63)
  then show ?thesis
    using b64_value_all by (simp add: b64_char_def)
qed

text \<open>Disjoint bit fields, as numbers.\<close>

lemma unat_shl_or:
  assumes "unat (b :: u32) < 2 ^ k" "unat a * 2 ^ k < 2 ^ 32"
  shows "unat (push_bit k a OR b) = unat a * 2 ^ k + unat b"
proof -
  have b: "take_bit k (unat b) = unat b"
    using assms(1) by (simp add: take_bit_nat_eq_self)
  have "unat (push_bit k a OR b) = take_bit 32 (push_bit k (unat a)) OR unat b"
    by (simp add: unsigned_or_eq unsigned_push_bit_eq)
  also have "take_bit 32 (push_bit k (unat a)) = push_bit k (unat a)"
    using assms(2) by (simp add: push_bit_eq_mult take_bit_nat_eq_self)
  also have "push_bit k (unat a) OR unat b = push_bit k (unat a) OR take_bit k (unat b)"
    by (simp add: b)
  also have "\<dots> = push_bit k (unat a) + take_bit k (unat b)"
    by (rule disjunctive_add [symmetric]) (auto simp: bit_simps)
  finally show ?thesis by (simp add: push_bit_eq_mult b)
qed

lemma unat_shr32: "unat (drop_bit k (w :: u32)) = unat w div 2 ^ k"
  using unat_drop_bit_eq [of k w] by (simp add: drop_bit_eq_div [of k "unat w"])

lemma unat_ucast_8_32 [simp]: "unat (ucast (b :: u8) :: u32) = unat b"
  using unat_bounds(1) [of b] by (simp add: unsigned_ucast_eq take_bit_nat_eq_self)

lemma ucast_byte: "(ucast (w :: u32) :: u8) = of_nat (unat w mod 256)"
  by (simp add: word_unat_eq_iff unsigned_ucast_eq unat_of_nat take_bit_eq_mod)

lemma of_nat_unat_byte [simp]: "of_nat (unat (b :: u8)) = b"
  by simp

text \<open>Four sextets, read and written.\<close>

lemma sextets_value:
  fixes t :: nat
  shows "t < 16777216 \<Longrightarrow> ((t div 262144 mod 64 * 64 + t div 4096 mod 64) * 64 + t div 64 mod 64) * 64 + t mod 64 = t"
proof -
  assume t: "t < 16777216"
  have "t div 262144 mod 64 = t div 262144"
    using t by simp
  moreover have "t div 262144 = t div 4096 div 64" "t div 4096 = t div 64 div 64"
    by (simp_all add: div_mult2_eq [symmetric])
  ultimately show ?thesis
    using div_mult_mod_eq [of "t div 4096" 64] div_mult_mod_eq [of "t div 64" 64] div_mult_mod_eq [of t 64]
    by simp
qed

lemma b64_join:
  assumes "unat v0 < 64" "unat v1 < 64" "unat v2 < 64" "unat v3 < 64"
  shows "unat (push_bit 6 (push_bit 6 (push_bit 6 (push_bit 6 0 OR v0) OR v1) OR v2) OR v3 :: u32) =
    ((unat v0 * 64 + unat v1) * 64 + unat v2) * 64 + unat v3"
proof -
  have b: "unat (push_bit 6 v0 OR v1) = unat v0 * 64 + unat v1"
    using assms unat_shl_or [of v1 6 v0] by simp
  have c: "unat (push_bit 6 (push_bit 6 v0 OR v1) OR v2) = (unat v0 * 64 + unat v1) * 64 + unat v2"
    using assms unat_shl_or [of v2 6 "push_bit 6 v0 OR v1"] by (simp add: b del: push_bit_or)
  show ?thesis
    using assms unat_shl_or [of v3 6 "push_bit 6 (push_bit 6 v0 OR v1) OR v2"] by (simp add: c del: push_bit_or)
qed

lemma b64_fold:
  assumes "unat t < 16777216"
  shows "push_bit 6 (push_bit 6 (push_bit 6 (push_bit 6 0 OR (drop_bit 18 t AND 63)) OR
      (drop_bit 12 t AND 63)) OR (drop_bit 6 t AND 63)) OR (t AND 63) = (t :: u32)"
proof -
  have m: "unat (w AND 63 :: u32) < 64" for w by (simp add: unat_and_63)
  have p: "(2 :: nat) ^ 18 = 262144" "(2 :: nat) ^ 12 = 4096" "(2 :: nat) ^ 6 = 64" by simp_all
  show ?thesis
    unfolding word_unat_eq_iff b64_join [OF m m m m]
    using sextets_value [OF assms] by (simp only: unat_and_63 unat_shr32 p)
qed

text \<open>One group of up to three bytes.\<close>

definition b64_triple :: "u8 \<Rightarrow> u8 \<Rightarrow> u8 \<Rightarrow> u32" where
  "b64_triple b0 b1 b2 = push_bit 16 (ucast b0) OR push_bit 8 (ucast b1) OR ucast b2"

lemma b64_triple_value: "unat (b64_triple b0 b1 b2) = unat b0 * 65536 + unat b1 * 256 + unat b2"
proof -
  note b = unat_bounds(1) [of b0] unat_bounds(1) [of b1] unat_bounds(1) [of b2]
  let ?x = "push_bit 8 (ucast b0) OR ucast b1 :: u32"
  have x: "unat ?x = unat b0 * 256 + unat b1"
    using b unat_shl_or [of "ucast b1" 8 "ucast b0"] by simp
  have "unat (push_bit 8 ?x OR ucast b2) = unat ?x * 256 + unat b2"
    using b unat_shl_or [of "ucast b2" 8 ?x] unfolding x by simp
  moreover have "push_bit 8 ?x = push_bit 16 (ucast b0) OR push_bit 8 (ucast b1)"
    by (simp add: push_bit_or)
  ultimately show ?thesis by (simp add: b64_triple_def x or.assoc)
qed

lemma b64_triple_bytes:
  "(ucast (drop_bit 16 (b64_triple b0 b1 b2)) :: u8) = b0"
  "(ucast (drop_bit 8 (b64_triple b0 b1 b2)) :: u8) = b1"
  "(ucast (b64_triple b0 b1 b2) :: u8) = b2"
proof -
  note b = unat_bounds(1) [of b0] unat_bounds(1) [of b1] unat_bounds(1) [of b2]
  let ?n = "unat b0 * 65536 + unat b1 * 256 + unat b2"
  have "?n div 65536 = unat b0" "?n div 256 = unat b0 * 256 + unat b1"
    by (rule div_nat_eqI; use b in simp)+
  moreover have "?n mod 256 = unat b2"
  proof -
    have "?n = unat b2 + 256 * (unat b0 * 256 + unat b1)" by simp
    then have "?n mod 256 = (unat b2 + 256 * (unat b0 * 256 + unat b1)) mod 256" by (rule arg_cong)
    also have "\<dots> = unat b2" using b unfolding mod_mult_self2 by simp
    finally show ?thesis .
  qed
  ultimately have "?n div 65536 mod 256 = unat b0" "?n div 256 mod 256 = unat b1" "?n mod 256 = unat b2"
    using b by (simp_all add: mod_simps)
  then show "(ucast (drop_bit 16 (b64_triple b0 b1 b2)) :: u8) = b0"
    "(ucast (drop_bit 8 (b64_triple b0 b1 b2)) :: u8) = b1"
    "(ucast (b64_triple b0 b1 b2) :: u8) = b2"
    by (simp_all only: ucast_byte unat_shr32 b64_triple_value) simp_all
qed

lemma b64_decode_four:
  assumes "unat t < 16777216"
  shows "b64_group 0 (0, 0) [b64_char (drop_bit 18 t), b64_char (drop_bit 12 t), b64_char (drop_bit 6 t), b64_char t]
      = Some (t, 0)"
    and "t AND 63 = 0 \<Longrightarrow>
      b64_group 0 (0, 0) [b64_char (drop_bit 18 t), b64_char (drop_bit 12 t), b64_char (drop_bit 6 t), 61] = Some (t, 1)"
    and "t AND 63 = 0 \<Longrightarrow> drop_bit 6 t AND 63 = 0 \<Longrightarrow>
      b64_group 0 (0, 0) [b64_char (drop_bit 18 t), b64_char (drop_bit 12 t), 61, 61] = Some (t, 2)"
proof -
  have pad: "2 \<le> i \<Longrightarrow> b64_value i 61 = Some (0, 1)" for i by (simp add: b64_value_def)
  note f = b64_fold [OF assms]
  show "b64_group 0 (0, 0) [b64_char (drop_bit 18 t), b64_char (drop_bit 12 t), b64_char (drop_bit 6 t), b64_char t]
      = Some (t, 0)"
    using f by (simp only: b64_group.simps b64_value_char option.case prod.case) simp
  show "t AND 63 = 0 \<Longrightarrow>
      b64_group 0 (0, 0) [b64_char (drop_bit 18 t), b64_char (drop_bit 12 t), b64_char (drop_bit 6 t), 61] = Some (t, 1)"
    using f pad [of 3] by (simp only: b64_group.simps b64_value_char option.case prod.case) (simp add: numeral_3_eq_3)
  show "t AND 63 = 0 \<Longrightarrow> drop_bit 6 t AND 63 = 0 \<Longrightarrow>
      b64_group 0 (0, 0) [b64_char (drop_bit 18 t), b64_char (drop_bit 12 t), 61, 61] = Some (t, 2)"
    using f pad [of 3] pad [of 2] by (simp only: b64_group.simps b64_value_char option.case prod.case)
      (simp add: numeral_3_eq_3 numeral_2_eq_2)
qed

lemma b64_triple_small: "unat (b64_triple b0 b1 b2) < 16777216"
  using unat_bounds(1) [of b0] unat_bounds(1) [of b1] unat_bounds(1) [of b2]
  by (simp add: b64_triple_value)

lemma and_63_eq_0: "v AND 63 = 0 \<longleftrightarrow> unat (v :: u32) mod 64 = 0"
  by (simp only: word_unat_eq_iff unat_and_63) simp

lemma b64_decode_encode_chunk:
  assumes "0 < length c" "length c \<le> 3"
  shows "b64_decode_chunk (b64_encode_chunk c) = Some c" "length (b64_encode_chunk c) = 4"
proof -
  from assms consider b0 where "c = [b0]" | b0 b1 where "c = [b0, b1]" | b0 b1 b2 where "c = [b0, b1, b2]"
    by (auto simp: le_Suc_eq length_Suc_conv numeral_3_eq_3)
  then have "b64_decode_chunk (b64_encode_chunk c) = Some c"
  proof cases
    case 1
    let ?t = "b64_triple b0 0 0"
    have z: "?t AND 63 = 0" "drop_bit 6 ?t AND 63 = 0"
      by (simp_all add: and_63_eq_0 unat_shr32 b64_triple_value)
    have enc: "b64_encode_chunk c = [b64_char (drop_bit 18 ?t), b64_char (drop_bit 12 ?t), 61, 61]"
      by (simp add: 1 b64_encode_chunk_def b64_triple_def Let_def)
    show ?thesis
      unfolding enc b64_decode_chunk_def b64_decode_four(3) [OF b64_triple_small z]
      by (simp add: 1 b64_triple_bytes del: ucast_id)
  next
    case 2
    let ?t = "b64_triple b0 b1 0"
    have z: "?t AND 63 = 0"
    proof -
      have "unat b0 * 65536 + unat b1 * 256 = 64 * (unat b0 * 1024 + unat b1 * 4)" by simp
      then show ?thesis by (simp only: and_63_eq_0 b64_triple_value) simp
    qed
    have enc: "b64_encode_chunk c = [b64_char (drop_bit 18 ?t), b64_char (drop_bit 12 ?t), b64_char (drop_bit 6 ?t), 61]"
      by (simp add: 2 b64_encode_chunk_def b64_triple_def Let_def)
    show ?thesis
      unfolding enc b64_decode_chunk_def b64_decode_four(2) [OF b64_triple_small z]
      by (simp add: 2 b64_triple_bytes)
  next
    case 3
    let ?t = "b64_triple b0 b1 b2"
    have enc: "b64_encode_chunk c =
        [b64_char (drop_bit 18 ?t), b64_char (drop_bit 12 ?t), b64_char (drop_bit 6 ?t), b64_char ?t]"
      by (simp add: 3 b64_encode_chunk_def b64_triple_def Let_def)
    show ?thesis
      unfolding enc b64_decode_chunk_def b64_decode_four(1) [OF b64_triple_small]
      by (simp add: 3 b64_triple_bytes)
  qed
  then show "b64_decode_chunk (b64_encode_chunk c) = Some c" .
  show "length (b64_encode_chunk c) = 4" by (simp add: b64_encode_chunk_def Let_def)
qed

lemma base64_decode_encode: "base64_decode (base64_encode bs) = Some bs"
proof -
  have c: "\<And>c. c \<in> set (chunks 3 bs) \<Longrightarrow> 0 < length c \<and> length c \<le> 3"
    by (rule chunks_length) simp
  have "chunks 4 (base64_encode bs) = map b64_encode_chunk (chunks 3 bs)"
    unfolding base64_encode_def by (rule chunks_concat) (use c b64_decode_encode_chunk(2) in auto)
  moreover have "collect_opt b64_decode_chunk (map b64_encode_chunk (chunks 3 bs)) = Some (map id (chunks 3 bs))"
    by (rule collect_opt_map) (use c b64_decode_encode_chunk(1) in auto)
  moreover have "length (base64_encode bs) mod 4 = 0"
  proof -
    have "length (concat (map b64_encode_chunk cs)) mod 4 = 0" if "set cs \<subseteq> set (chunks 3 bs)" for cs
      using that by (induction cs) (use c b64_decode_encode_chunk(2) in auto)
    then show ?thesis by (simp add: base64_encode_def)
  qed
  ultimately show ?thesis by (simp add: base64_decode_def concat_chunks)
qed

text \<open>Decoding does not lengthen.\<close>

lemma chunks_count: "0 < n \<Longrightarrow> length xs mod n = 0 \<Longrightarrow> n * length (chunks n xs) = length xs"
proof (induction n xs rule: chunks.induct)
  case (1 n xs)
  show ?case
  proof (cases "xs = []")
    case False
    with 1 have n: "n \<le> length xs"
      by (metis length_greater_0_conv mod_less not_le less_irrefl)
    then have "(length xs - n) mod n = 0" using 1 by (simp add: le_mod_geq)
    with 1 False n show ?thesis by (simp add: chunks.simps [of n xs] algebra_simps)
  qed simp
qed

lemma collect_opt_length: "collect_opt f xs = Some ys \<Longrightarrow> length ys = length xs \<and> (\<forall>y\<in>set ys. \<exists>x\<in>set xs. f x = Some y)"
  by (induction xs arbitrary: ys) (auto split: option.splits)

lemma base64_decode_length:
  assumes "base64_decode text = Some bs"
  shows "length bs \<le> length text"
proof -
  obtain gs where gs: "collect_opt b64_decode_chunk (chunks 4 text) = Some gs" and bs: "bs = concat gs"
    and m: "length text mod 4 = 0"
    using assms by (auto simp: base64_decode_def split: if_splits)
  have g: "length g \<le> 3" if g: "g \<in> set gs" for g
  proof -
    obtain c where "b64_decode_chunk c = Some g"
      using collect_opt_length [OF gs] g by blast
    then show ?thesis by (auto simp: b64_decode_chunk_def split: option.splits)
  qed
  have "length (concat gs) \<le> 3 * length gs"
    using g by (induction gs) (auto simp: add_mono)
  also have "\<dots> \<le> 4 * length (chunks 4 text)"
    using collect_opt_length [OF gs] by simp
  also have "\<dots> = length text" by (rule chunks_count) (use m in simp_all)
  finally show ?thesis by (simp add: bs)
qed

interpretation b64: text_codec base64_encode base64_decode
  by unfold_locales (rule base64_decode_encode)

section \<open>Properties\<close>

text \<open>
  Both text encodings are inverted by their decoders on every byte string, whatever its
  length modulo the group size.
\<close>

theorem text_codecs_roundtrip:
  "base64_decode (base64_encode bs) = Some bs \<and> hex_decode (hex_encode bs) = Some bs"
  using b64.dec_enc hex.dec_enc by blast

text \<open>
  The base64 decoder accepts text the encoder never produces, although it is documented to
  refuse anything malformed: padding inside the text, a digit after padding, and non-zero
  trailing bits.
\<close>

theorem base64_accepts_noncanonical:
  "base64_decode (ascii ''AA==AAAA'') = Some [0, 0, 0, 0] \<and>
   base64_decode (ascii ''AA=A'') = Some [0, 0] \<and>
   base64_decode (ascii ''AB=='') = Some [0] \<and> base64_encode [0] = ascii ''AA==''"
  by (simp add: base64_decode_def chunks.simps b64_decode_chunk_def b64_value_def base64_encode_def
      b64_encode_chunk_def b64_char_def B64_ALPHABET_def)

end
