(* ===== verification/Service.thy ===== *)
theory Service
  imports Codec Relay
begin

text \<open>
  The HTTP operations of \<open>blindplane-blazingly\<close> (models.rs, error.rs, state.rs, routes.rs) over
  the relay: text decoding, the call, and the mapping of its errors. The web framework that
  routes a request to its operation, and its length checks on the input model, are not part of
  the repository and are not modelled.
\<close>

datatype blindplane_error =
    ERecordInvalid | ERouteContextMismatch | EMalformedEncoding | EStaleWrite | ENotFound

fun of_relay_error :: "relay_error \<Rightarrow> blindplane_error" where
  "of_relay_error (Invalid e) = ERecordInvalid"
| "of_relay_error RouteContextMismatch = ERouteContextMismatch"
| "of_relay_error (StaleWrite v w) = EStaleWrite"
| "of_relay_error NotFound = ENotFound"

record store_request =
  sq_tenant :: str
  sq_object_id :: str
  sq_field :: str
  sq_record :: str

record store_response =
  sp_version :: u64
  sp_manifest_revision :: u64
  sp_manifest_hash :: str
  sp_created :: bool

record fetch_request =
  fq_tenant :: str
  fq_object_id :: str
  fq_field :: str

record search_request =
  hq_tenant :: str
  hq_label :: str
  hq_key_epoch :: u64
  hq_token :: str

definition store_record ::
  "signature_check \<Rightarrow> relay \<Rightarrow> store_request \<Rightarrow> blindplane_error + store_response \<times> relay" where
  "store_record vf ry input =
    rbind (ok_or (base64_decode (sq_record input)) EMalformedEncoding) (\<lambda>encoded.
    let key = RecordKey (sq_tenant input) (sq_object_id input) (sq_field input) in
    rbind (map_err of_relay_error (put_encoded vf ry key encoded)) (\<lambda>(receipt, ry).
    Inr (\<lparr>sp_version = wr_version receipt, sp_manifest_revision = wr_manifest_revision receipt,
          sp_manifest_hash = hex_encode (wr_manifest_hash receipt),
          sp_created = wr_created receipt\<rparr>, ry)))"

definition fetch_record :: "relay \<Rightarrow> fetch_request \<Rightarrow> blindplane_error + str" where
  "fetch_record ry input =
    (let key = RecordKey (fq_tenant input) (fq_object_id input) (fq_field input) in
    rbind (map_err of_relay_error (get_encoded ry key)) (\<lambda>encoded. Inr (base64_encode encoded)))"

definition token16 :: "bytes \<Rightarrow> bytes option" where
  "token16 bs = (if length bs = 16 then Some bs else None)"

definition search_records :: "relay \<Rightarrow> search_request \<Rightarrow> blindplane_error + str list" where
  "search_records ry input =
    rbind (ok_or (Option.bind (hex_decode (hq_token input)) token16) EMalformedEncoding) (\<lambda>token.
    Inr (map base64_encode
      (search_encoded ry (hq_tenant input) (hq_label input) (hq_key_epoch input) token)))"

definition fetch_of :: "store_request \<Rightarrow> fetch_request" where
  "fetch_of q = \<lparr>fq_tenant = sq_tenant q, fq_object_id = sq_object_id q, fq_field = sq_field q\<rparr>"

lemma chunks_at_most: "0 < n \<Longrightarrow> length (chunks n xs) \<le> length xs"
proof (induction n xs rule: chunks.induct)
  case (1 n xs)
  then show ?case
    by (cases "xs = []") (simp_all add: chunks.simps [of n xs], fastforce simp: Suc_le_eq intro: le_less_trans)
qed

lemma base64_encode_length: "length (base64_encode bs) \<le> 4 * length bs"
proof -
  have "length (concat (map b64_encode_chunk cs)) = 4 * length cs" for cs
    by (induction cs) (simp_all add: b64_encode_chunk_def Let_def)
  then show ?thesis using chunks_at_most [of 3 bs] by (simp add: base64_encode_def)
qed

section \<open>Properties\<close>

text \<open>
  What a client stored it can fetch: after an accepted store, fetching the same identity
  returns text that decodes to the very record bytes the request carried; the receipt's hash is
  the hex of the stored record's manifest hash. (The text itself is the canonical base64 of the
  record, which may differ from the text sent.)
\<close>

theorem service_store_fetch:
  assumes "store_record vf ry q = Inr (resp, ry')"
    and "length (sq_record q) \<le> usize_max"
  shows "\<exists>text bs r. fetch_record ry' (fetch_of q) = Inr text \<and> base64_decode text = Some bs \<and>
    base64_decode (sq_record q) = Some bs \<and> decode vf bs (ry_policy ry) = Inr r \<and>
    hex_decode (sp_manifest_hash resp) = Some (manifest_hash r)"
proof -
  let ?key = "RecordKey (sq_tenant q) (sq_object_id q) (sq_field q)"
  from assms(1) obtain bs rc where bs: "base64_decode (sq_record q) = Some bs"
    and put: "put_encoded vf ry ?key bs = Inr (rc, ry')"
    and resp: "sp_manifest_hash resp = hex_encode (wr_manifest_hash rc)"
    by (auto simp: store_record_def result_simps Let_def split: prod.splits)
  have len: "length bs \<le> usize_max"
    using base64_decode_length [OF bs] assms(2) by simp
  obtain r where r: "decode vf bs (ry_policy ry) = Inr r" "encode r = bs"
    "st_records (ry_store ry') = (st_records (ry_store ry))(?key \<mapsto> r)" "wr_manifest_hash rc = manifest_hash r"
    using put_encoded_stored [OF len put] by auto
  have "fetch_record ry' (fetch_of q) = Inr (base64_encode bs)"
    using r by (simp add: fetch_record_def fetch_of_def get_encoded_def store_get_def Let_def)
  then show ?thesis
    using bs r(1,4) resp b64.dec_enc hex.dec_enc by auto
qed

theorem service_store_fetch_witness:
  "\<exists>ry' text. fetch_record ry' \<lparr>fq_tenant = [116], fq_object_id = [111], fq_field = [102]\<rparr> = Inr text \<and>
     base64_decode text = Some (encode sample_record)"
proof -
  let ?q = "\<lparr>sq_tenant = [116], sq_object_id = [111], sq_field = [102],
    sq_record = base64_encode (encode sample_record)\<rparr>"
  obtain rc ry' where put: "put_encoded accept_all (relay_new sample_policy) sample_key (encode sample_record)
      = Inr (rc, ry')"
    using sample_put by blast
  have "\<exists>resp. store_record accept_all (relay_new sample_policy) ?q = Inr (resp, ry')"
    using put by (simp add: store_record_def b64.dec_enc sample_key_def)
  moreover have "length (sq_record ?q) \<le> usize_max"
    using base64_encode_length [of "encode sample_record"] sample_record_length by (simp add: usize_max_def)
  ultimately show ?thesis
    using service_store_fetch [of accept_all "relay_new sample_policy" ?q _ ry'] b64.dec_enc
    by (fastforce simp: fetch_of_def)
qed

end
