(* ===== verification/Entropy.thy ===== *)
theory Entropy
  imports CryptoTypes
begin

text \<open>
  Operating-system randomness (crates/blindplane-crypto/src/rand.rs) and the shape of operations
  that draw it. The operating system is a parameter: a record of its two entropy calls over an
  arbitrary state \<open>'w\<close> of the outside world. An operation that draws randomness maps a world to
  a result and the next world, so that several draws in one operation are distinct and ordered.
\<close>

section \<open>Operations with effects\<close>

type_synonym ('w, 'e, 'a) eff = "'w \<Rightarrow> ('e + 'a) \<times> 'w"

definition pure_eff :: "'e + 'a \<Rightarrow> ('w, 'e, 'a) eff" where
  "pure_eff r w = (r, w)"

definition ebind :: "('w, 'e, 'a) eff \<Rightarrow> ('a \<Rightarrow> ('w, 'e, 'b) eff) \<Rightarrow> ('w, 'e, 'b) eff" where
  "ebind m f w = (case m w of (Inl e, w') \<Rightarrow> (Inl e, w') | (Inr a, w') \<Rightarrow> f a w')"

definition emap_err :: "('e \<Rightarrow> 'f) \<Rightarrow> ('w, 'e, 'a) eff \<Rightarrow> ('w, 'f, 'a) eff" where
  "emap_err g m w = (case m w of (r, w') \<Rightarrow> (map_err g r, w'))"

lemma ebind_Inr [result_simps]:
  "ebind m f w = (Inr b, w2) \<longleftrightarrow> (\<exists>a w1. m w = (Inr a, w1) \<and> f a w1 = (Inr b, w2))"
  by (auto simp: ebind_def split: prod.splits sum.splits)

lemma ebind_Inl [result_simps]:
  "ebind m f w = (Inl e, w2) \<longleftrightarrow> m w = (Inl e, w2) \<or> (\<exists>a w1. m w = (Inr a, w1) \<and> f a w1 = (Inl e, w2))"
  by (auto simp: ebind_def split: prod.splits sum.splits)

lemma emap_err_Inr [result_simps]: "emap_err g m w = (Inr a, w') \<longleftrightarrow> m w = (Inr a, w')"
  by (auto simp: emap_err_def map_err_eq_Inr split: prod.splits)

lemma emap_err_Inl [result_simps]: "emap_err g m w = (Inl f, w') \<longleftrightarrow> (\<exists>e. m w = (Inl e, w') \<and> f = g e)"
  by (auto simp: emap_err_def map_err_eq_Inl split: prod.splits)

lemma pure_eff_eq [result_simps]: "pure_eff r w = (s, w') \<longleftrightarrow> r = s \<and> w = w'"
  by (simp add: pure_eff_def)

lemma ebind_pure [simp]: "ebind (pure_eff (Inr a)) f = f a" "ebind (pure_eff (Inl e)) f = pure_eff (Inl e)"
  by (auto simp: ebind_def pure_eff_def fun_eq_iff)

section \<open>rand.rs\<close>

text \<open>\<open>None\<close> is a non-zero status of \<open>getentropy\<close>, or a failed open or read of /dev/urandom.\<close>

record 'w os =
  os_getentropy :: "nat \<Rightarrow> 'w \<Rightarrow> bytes option \<times> 'w"
  os_urandom :: "nat \<Rightarrow> 'w \<Rightarrow> bytes option \<times> 'w"

definition fill_from_dev_urandom :: "'w os \<Rightarrow> nat \<Rightarrow> ('w, random_error, bytes) eff" where
  "fill_from_dev_urandom os n w =
    (case os_urandom os n w of (bs, w') \<Rightarrow> (ok_or bs RandomError, w'))"

text \<open>The loop over \<open>buffer.chunks_mut(256)\<close>; a failure refills the whole buffer.\<close>

fun fill_loop :: "'w os \<Rightarrow> nat \<Rightarrow> bytes \<Rightarrow> bytes list \<Rightarrow> ('w, random_error, bytes) eff" where
  "fill_loop os n out [] w = (Inr out, w)"
| "fill_loop os n out (chunk # rest) w =
    (case os_getentropy os (length chunk) w of
       (None, w') \<Rightarrow> fill_from_dev_urandom os n w'
     | (Some bs, w') \<Rightarrow> fill_loop os n (out @ bs) rest w')"

definition rand_fill :: "'w os \<Rightarrow> bytes \<Rightarrow> ('w, random_error, bytes) eff" where
  "rand_fill os buffer = fill_loop os (length buffer) [] (chunks 256 buffer)"

definition secret_32 :: "'w os \<Rightarrow> ('w, random_error, bytes) eff" where
  "secret_32 os = rand_fill os (replicate 32 0)"

text \<open>The documented behaviour of both calls: they write the whole buffer or fail.\<close>

definition os_ok :: "'w os \<Rightarrow> bool" where
  "os_ok os \<longleftrightarrow> (\<forall>n w bs w'. os_getentropy os n w = (Some bs, w') \<longrightarrow> length bs = n) \<and>
     (\<forall>n w bs w'. os_urandom os n w = (Some bs, w') \<longrightarrow> length bs = n)"

lemma fill_loop_length:
  assumes "os_ok os"
  shows "fill_loop os n out cs w = (Inr bs, w') \<Longrightarrow> length out + length (concat cs) = n \<Longrightarrow> length bs = n"
proof (induction cs arbitrary: out w)
  case (Cons c cs)
  obtain r w1 where g: "os_getentropy os (length c) w = (r, w1)" by (cases "os_getentropy os (length c) w")
  show ?case
  proof (cases r)
    case None
    then have "fill_from_dev_urandom os n w1 = (Inr bs, w')" using Cons.prems(1) g by simp
    then show ?thesis
      using assms by (cases "os_urandom os n w1")
        (auto simp: fill_from_dev_urandom_def os_ok_def ok_or_eq_Inr, blast)
  next
    case (Some b)
    then have "length b = length c" using assms g by (auto simp: os_ok_def)
    then show ?thesis using Cons.IH [of "out @ b" w1] Cons.prems g Some by simp
  qed
qed simp

lemma rand_fill_length: "os_ok os \<Longrightarrow> rand_fill os buffer w = (Inr bs, w') \<Longrightarrow> length bs = length buffer"
  using fill_loop_length [of os "length buffer" "[]" "chunks 256 buffer"]
  by (simp add: rand_fill_def concat_chunks)

lemma secret_32_length: "os_ok os \<Longrightarrow> secret_32 os w = (Inr bs, w') \<Longrightarrow> length bs = 32"
  using rand_fill_length [of os "replicate 32 0"] by (simp add: secret_32_def)

text \<open>A fill fails only after both entropy calls failed in turn.\<close>

definition os_failed :: "'w os \<Rightarrow> bool" where
  "os_failed os \<longleftrightarrow> (\<exists>m n w w1 w2. os_getentropy os m w = (None, w1) \<and> os_urandom os n w1 = (None, w2))"

lemma fill_loop_error: "fill_loop os n out cs w = (Inl e, w') \<Longrightarrow> os_failed os"
proof (induction cs arbitrary: out w)
  case (Cons c cs)
  obtain b w1 where b: "os_getentropy os (length c) w = (b, w1)" by (cases "os_getentropy os (length c) w")
  show ?case
  proof (cases b)
    case None
    then have "fill_from_dev_urandom os n w1 = (Inl e, w')" using Cons.prems b by simp
    then have "os_urandom os n w1 = (None, w')"
      by (auto simp: fill_from_dev_urandom_def ok_or_eq_Inl split: prod.splits)
    then show ?thesis using b None unfolding os_failed_def by blast
  next
    case (Some y)
    then show ?thesis using Cons b by simp
  qed
qed simp

lemma rand_fill_error: "rand_fill os buffer w = (Inl e, w') \<Longrightarrow> os_failed os"
  unfolding rand_fill_def by (rule fill_loop_error)

lemma secret_32_error: "secret_32 os w = (Inl e, w') \<Longrightarrow> os_failed os"
  unfolding secret_32_def by (rule rand_fill_error)

text \<open>A world that answers from a counter, for concrete runs.\<close>

definition counter_os :: "u8 os" where
  "counter_os = \<lparr>os_getentropy = (\<lambda>n w. (Some (replicate n w), w + 1)), os_urandom = (\<lambda>n w. (None, w))\<rparr>"

lemma counter_os_ok: "os_ok counter_os"
  by (auto simp: os_ok_def counter_os_def)

lemma chunks_short:
  assumes "xs \<noteq> []" "length xs \<le> n"
  shows "chunks n xs = [xs]"
proof -
  have "0 < n" using assms by (cases xs) simp_all
  then show ?thesis using assms by (simp add: chunks.simps [of n xs])
qed

lemma counter_os_fill: "buffer \<noteq> [] \<Longrightarrow> length buffer \<le> 256 \<Longrightarrow>
    rand_fill counter_os buffer w = (Inr (replicate (length buffer) w), w + 1)"
  by (simp add: rand_fill_def chunks_short counter_os_def)

end
