(* ===== verification/SimpleKey.thy ===== *)
theory SimpleKey
  imports Aead Entropy
begin

text \<open>
  The short path of crates/blindplane-crypto/src/simple (mod.rs, key.rs): one-call encryption
  under a symmetric key. Randomness comes from the operating system through rand.rs (theory
  Entropy). Passwords are in theory Password.
\<close>

datatype crypto_error = Randomness | CryptoUnauthenticated | CryptoUnsupported | InvalidParameters

fun of_aead_error :: "aead_error \<Rightarrow> crypto_error" where
  "of_aead_error Unsupported = CryptoUnsupported"
| "of_aead_error Unauthenticated = CryptoUnauthenticated"
| "of_aead_error MessageTooLong = CryptoUnauthenticated"

definition key_generate :: "'w os \<Rightarrow> ('w, crypto_error, bytes) eff" where
  "key_generate os = emap_err (\<lambda>_. Randomness) (secret_32 os)"

definition key_from_bytes :: "bytes \<Rightarrow> bytes" where
  "key_from_bytes bs = bs"

definition key_to_bytes :: "bytes \<Rightarrow> bytes" where
  "key_to_bytes key = key"

definition key_encrypt :: "'w os \<Rightarrow> bytes \<Rightarrow> bytes \<Rightarrow> bytes \<Rightarrow> ('w, crypto_error, bytes) eff" where
  "key_encrypt os key plaintext context =
    (let suite = fastest_available;
         out = replicate (nonce_len suite) 0
     in ebind (emap_err (\<lambda>_. Randomness) (rand_fill os out)) (\<lambda>out.
     ebind (pure_eff (map_err of_aead_error (suite_seal suite key out context plaintext))) (\<lambda>sealed.
     let out = out @ [suite_code suite];
         out = out @ sealed
     in pure_eff (Inr out))))"

text \<open>The loop of \<open>decrypt\<close>: the first suite whose code sits at its nonce length decides.\<close>

fun decrypt_loop :: "suite list \<Rightarrow> bytes \<Rightarrow> bytes \<Rightarrow> bytes \<Rightarrow> crypto_error + bytes" where
  "decrypt_loop [] key sealed context = Inl CryptoUnauthenticated"
| "decrypt_loop (suite # suites) key sealed context =
    (let header = nonce_len suite + 1
     in if length sealed > header \<and> sealed ! nonce_len suite = suite_code suite
        then map_err of_aead_error
          (suite_open suite key (take (nonce_len suite) sealed) context (drop header sealed))
        else decrypt_loop suites key sealed context)"

definition key_decrypt :: "bytes \<Rightarrow> bytes \<Rightarrow> bytes \<Rightarrow> crypto_error + bytes" where
  "key_decrypt key sealed context =
    decrypt_loop [Aes256Gcm, XChaCha20Poly1305, ChaCha20Poly1305] key sealed context"

text \<open>What the portable build sends: nonce, suite code, ciphertext and tag.\<close>

lemma key_encrypt_Inr:
  assumes "length key = 32" and "os_ok os" and "key_encrypt os key pt cx w = (Inr sealed, w')"
  obtains nonce where "length nonce = 24" "rand_fill os (replicate 24 0) w = (Inr nonce, w')"
    "sealed = nonce @ [2] @ rfc_seal XChaCha20Poly1305 key nonce cx pt"
proof -
  obtain nonce w1 c where n: "rand_fill os (replicate 24 0) w = (Inr nonce, w1)"
      "map_err of_aead_error (suite_seal XChaCha20Poly1305 key nonce cx pt) = Inr c"
      "sealed = nonce @ [2] @ c" "w' = w1"
    using assms(3) by (auto simp: key_encrypt_def fastest_available_def aes_available_def Let_def result_simps)
  have len: "length nonce = 24" using rand_fill_length [OF assms(2) n(1)] by simp
  then have "suite_good XChaCha20Poly1305 key nonce" by (simp add: suite_good_def assms(1))
  then have "c = rfc_seal XChaCha20Poly1305 key nonce cx pt" using n(2) by (simp add: suite_seal_eq)
  with n len that show thesis by blast
qed

lemma key_encrypt_total:
  assumes "length key = 32" and "os_ok os" and "rand_fill os (replicate 24 0) w = (Inr nonce, w')"
  shows "key_encrypt os key pt cx w = (Inr (nonce @ [2] @ rfc_seal XChaCha20Poly1305 key nonce cx pt), w')"
proof -
  have "length nonce = 24" using rand_fill_length [OF assms(2,3)] by simp
  then have "suite_good XChaCha20Poly1305 key nonce" by (simp add: suite_good_def assms(1))
  then show ?thesis using assms(3)
    by (simp add: key_encrypt_def fastest_available_def aes_available_def Let_def ebind_def emap_err_def pure_eff_def suite_seal_eq)
qed

lemma aes_open_unsupported:
  "length nonce = 12 \<Longrightarrow> 16 \<le> length c \<Longrightarrow> suite_open Aes256Gcm key nonce cx c = Inl Unsupported"
  by (simp add: suite_open_def open_in_place_def aes_open_in_place_def TAG_LEN_def Let_def)

lemma key_decrypt_sealed:
  assumes "length key = 32" "length nonce = 24"
  shows "key_decrypt key (nonce @ [2] @ rfc_seal XChaCha20Poly1305 key nonce cx pt) cx =
    (if nonce ! 12 = 1 then Inl CryptoUnsupported else Inr pt)"
proof -
  let ?c = "rfc_seal XChaCha20Poly1305 key nonce cx pt"
  let ?s = "nonce @ [2] @ ?c"
  have good: "suite_good XChaCha20Poly1305 key nonce"
    by (simp add: suite_good_def assms)
  have at: "?s ! 12 = nonce ! 12" "?s ! 24 = 2" "take 24 ?s = nonce" "drop 25 ?s = ?c"
    using assms(2) by (simp_all add: nth_append)
  have aes: "suite_open Aes256Gcm key (take 12 ?s) cx (drop 13 ?s) = Inl Unsupported"
    by (rule aes_open_unsupported) (use assms(2) in simp_all)
  have xch: "suite_open XChaCha20Poly1305 key nonce cx ?c = Inr pt"
    by (simp add: suite_open_iff [OF good])
  have len: "13 < length ?s" "25 < length ?s" using assms(2) by simp_all
  show ?thesis
    using at aes xch len by (simp add: key_decrypt_def Let_def del: append_Cons append.simps)
qed

section \<open>Properties\<close>

text \<open>
  The output carries its nonce, one suite byte and the tag: on the portable build it is 41
  bytes longer than the plaintext (24 + 1 + 16), not 28 as the documentation of \<open>encrypt\<close> says.
\<close>

theorem key_encrypt_length:
  assumes "length key = 32" and "os_ok os" and "key_encrypt os key pt cx w = (Inr sealed, w')"
  shows "length sealed = length pt + 41"
  by (rule key_encrypt_Inr [OF assms]) simp

theorem key_encrypt_length_witness:
  "\<exists>sealed. key_encrypt counter_os (replicate 32 1) [1, 2, 3] [] 5 = (Inr sealed, 6) \<and>
    length sealed = length [1 :: u8, 2, 3] + 41"
proof -
  have "\<exists>sealed. key_encrypt counter_os (replicate 32 1) [1, 2, 3] [] 5 = (Inr sealed, 6)"
    using key_encrypt_total [OF _ counter_os_ok, of "replicate 32 1" 5] counter_os_fill [of "replicate 24 0" 5] by auto
  then obtain sealed where "key_encrypt counter_os (replicate 32 1) [1, 2, 3] [] 5 = (Inr sealed, 6)" by blast
  moreover from key_encrypt_length [OF _ counter_os_ok this] have "length sealed = length [1 :: u8, 2, 3] + 41" by simp
  ultimately show ?thesis by blast
qed

text \<open>
  C40. Decryption inverts encryption except for one value of one random nonce byte: on the
  portable build \<open>decrypt\<close> of a fresh \<open>encrypt\<close> returns the plaintext exactly when byte 12 of the
  message, a byte of its nonce, is not 1. When it is 1 (one message in 256) the byte is taken for
  the code of AES-256-GCM and the right key fails with \<open>Unsupported\<close>. Encryption itself fails only
  when the operating system gives no randomness.
\<close>

theorem key_roundtrip_or_misread:
  assumes "length key = 32" and "os_ok os"
  shows "case key_encrypt os key pt cx w of
      (Inr sealed, w') \<Rightarrow> key_decrypt key sealed cx = (if sealed ! 12 = 1 then Inl CryptoUnsupported else Inr pt)
    | (Inl e, w') \<Rightarrow> e = Randomness \<and> os_failed os"
proof (cases "rand_fill os (replicate 24 0) w")
  case (Pair r w1)
  show ?thesis
  proof (cases r)
    case (Inl e)
    then have "key_encrypt os key pt cx w = (Inl Randomness, w1)" using Pair
      by (simp add: key_encrypt_def fastest_available_def aes_available_def Let_def ebind_def emap_err_def)
    then show ?thesis using rand_fill_error Pair Inl by auto
  next
    case (Inr nonce)
    have n: "rand_fill os (replicate 24 0) w = (Inr nonce, w1)" using Pair Inr by simp
    have len: "length nonce = 24" using rand_fill_length [OF assms(2) n] by simp
    then show ?thesis
      using key_encrypt_total [OF assms n] key_decrypt_sealed [OF assms(1) len] by (simp add: nth_append)
  qed
qed

theorem key_roundtrip_or_misread_witness:
  "\<exists>good bad. key_encrypt counter_os (replicate 32 1) [7] [] 5 = (Inr good, 6) \<and>
    key_decrypt (replicate 32 1) good [] = Inr [7] \<and>
    key_encrypt counter_os (replicate 32 1) [7] [] 1 = (Inr bad, 2) \<and>
    key_decrypt (replicate 32 1) bad [] = Inl CryptoUnsupported"
proof -
  let ?s = "\<lambda>b. replicate 24 b @ [2] @ rfc_seal XChaCha20Poly1305 (replicate 32 1) (replicate 24 b) [] [7]"
  have e: "key_encrypt counter_os (replicate 32 1) [7] [] b = (Inr (?s b), b + 1)" for b
    using key_encrypt_total [OF _ counter_os_ok, of "replicate 32 1" b] counter_os_fill [of "replicate 24 0" b] by simp
  have "key_decrypt (replicate 32 1) (?s b) [] = (if b = 1 then Inl CryptoUnsupported else Inr [7])" for b
    using key_roundtrip_or_misread [where key = "replicate 32 1" and os = counter_os and pt = "[7]" and cx = "[]" and w = b]
      counter_os_ok e [of b] by (simp add: nth_append)
  from this [of 5] this [of 1] e [of 5] e [of 1] show ?thesis
    by (intro exI [of _ "?s 5"] exI [of _ "?s 1"] conjI) simp_all
qed

end
