(* ===== verification/Rfc7693.thy ===== *)
theory Rfc7693
  imports Arx Fips180
begin

text \<open>
  BLAKE2b as RFC 7693 describes it, without a key: the mixing function G (section 3.1), the
  compression function F (3.2), the padding and the chain (3.3). The initialization vector is the
  one of SHA-512 (2.6). This is a specification, written from the standard.
\<close>

definition rfc7693_sigma :: "nat list list" where
  "rfc7693_sigma =
    [[0, 1, 2, 3, 4, 5, 6, 7, 8, 9, 10, 11, 12, 13, 14, 15],
     [14, 10, 4, 8, 9, 15, 13, 6, 1, 12, 0, 2, 11, 7, 5, 3],
     [11, 8, 12, 0, 5, 2, 15, 13, 10, 14, 3, 6, 7, 1, 9, 4],
     [7, 9, 3, 1, 13, 12, 11, 14, 2, 6, 5, 10, 4, 0, 15, 8],
     [9, 0, 5, 7, 2, 4, 10, 15, 14, 1, 11, 12, 6, 8, 3, 13],
     [2, 12, 6, 10, 0, 11, 8, 3, 4, 13, 7, 5, 15, 14, 1, 9],
     [12, 5, 1, 15, 14, 13, 4, 10, 0, 7, 6, 3, 9, 2, 8, 11],
     [13, 11, 7, 14, 12, 1, 3, 9, 5, 0, 15, 4, 8, 6, 2, 10],
     [6, 15, 14, 9, 11, 3, 0, 8, 12, 2, 13, 7, 1, 4, 10, 5],
     [10, 2, 8, 4, 7, 6, 1, 5, 15, 11, 9, 14, 3, 12, 13, 0]]"

fun rfc7693_mix :: "u64 \<Rightarrow> u64 \<Rightarrow> u64 \<times> u64 \<times> u64 \<times> u64 \<Rightarrow> u64 \<times> u64 \<times> u64 \<times> u64" where
  "rfc7693_mix x y (a, b, c, d) =
    (let a1 = a + b + x; d1 = word_rotr 32 (d XOR a1); c1 = c + d1; b1 = word_rotr 24 (b XOR c1);
         a2 = a1 + b1 + y; d2 = word_rotr 16 (d1 XOR a2); c2 = c1 + d2; b2 = word_rotr 63 (b1 XOR c2)
     in (a2, b2, c2, d2))"

fun rfc7693_G :: "(nat \<Rightarrow> u64) \<Rightarrow> quad \<Rightarrow> u64 \<Rightarrow> u64 \<Rightarrow> nat \<Rightarrow> u64" where
  "rfc7693_G v (a, b, c, d) x y =
    (case rfc7693_mix x y (v a, v b, v c, v d) of (a', b', c', d') \<Rightarrow> v(a := a', b := b', c := c', d := d'))"

definition rfc7693_round :: "(nat \<Rightarrow> u64) \<Rightarrow> (nat \<Rightarrow> u64) \<Rightarrow> nat \<Rightarrow> nat \<Rightarrow> u64" where
  "rfc7693_round m v i =
    (let s = rfc7693_sigma ! (i mod 10)
     in foldl (\<lambda>v j. rfc7693_G v (columns_diagonals ! j) (m (s ! (2 * j))) (m (s ! (2 * j + 1)))) v [0..<8])"

definition rfc7693_init :: "(nat \<Rightarrow> u64) \<Rightarrow> nat \<Rightarrow> bool \<Rightarrow> nat \<Rightarrow> u64" where
  "rfc7693_init h t f =
    (let v = (\<lambda>i. if i < 8 then h i else fips_IV512 (i - 8));
         v = v(12 := v 12 XOR of_nat t);
         v = v(13 := v 13 XOR of_nat (t div 2 ^ 64))
     in if f then v(14 := NOT (v 14)) else v)"

definition rfc7693_F :: "(nat \<Rightarrow> u64) \<Rightarrow> (nat \<Rightarrow> u64) \<Rightarrow> nat \<Rightarrow> bool \<Rightarrow> nat \<Rightarrow> u64" where
  "rfc7693_F h m t f =
    (let v = foldl (rfc7693_round m) (rfc7693_init h t f) [0..<12]
     in (\<lambda>i. h i XOR v i XOR v (i + 8)))"

text \<open>Block \<open>k\<close> of the input, padded with zeros, as sixteen little-endian words.\<close>

definition padded_byte :: "bytes \<Rightarrow> nat \<Rightarrow> u8" where
  "padded_byte xs p = (if p < length xs then xs ! p else 0)"

definition rfc7693_block :: "bytes \<Rightarrow> nat \<Rightarrow> nat \<Rightarrow> u64" where
  "rfc7693_block xs k i = u64_from_le (map (\<lambda>j. padded_byte xs (128 * k + (8 * i + j))) [0..<8])"

text \<open>The chain value after \<open>k\<close> blocks for a digest of \<open>n\<close> bytes, and the digest.\<close>

primrec rfc7693_chain :: "nat \<Rightarrow> bytes \<Rightarrow> nat \<Rightarrow> nat \<Rightarrow> u64" where
  "rfc7693_chain n xs 0 = fips_IV512(0 := fips_IV512 0 XOR 0x01010000 XOR of_nat n)"
| "rfc7693_chain n xs (Suc k) = rfc7693_F (rfc7693_chain n xs k) (rfc7693_block xs k) (128 * Suc k) False"

definition blake2b_spec :: "nat \<Rightarrow> bytes \<Rightarrow> bytes" where
  "blake2b_spec n xs =
    (let dd = max 1 ((length xs + 127) div 128);
         h = rfc7693_F (rfc7693_chain n xs (dd - 1)) (rfc7693_block xs (dd - 1)) (length xs) True
     in map (\<lambda>j. u64_to_le (h (j div 8)) ! (j mod 8)) [0..<n])"

lemma blake2b_spec_length [simp]: "length (blake2b_spec n xs) = n"
  by (simp add: blake2b_spec_def Let_def)

end
