(* ===== verification/Blake2b.thy ===== *)
theory Blake2b
  imports Rfc7693 MachineInts "HOL-Library.While_Combinator"
begin

text \<open>
  BLAKE2b (crates/blindplane-crypto/src/argon2/blake2b.rs) against the specification of RFC 7693:
  the compression function is F, and the input is cut into blocks of 128 bytes, the last one padded
  and flagged. The code keeps a full buffer back until it knows that more input follows; the lemmas
  show that any sequence of updates leads to the digest of the specification. An operation that can panic, or a loop whose end is not
  evident, returns an option; \<open>None\<close> is the panic or the loop that does not end.
\<close>

section \<open>The compression function\<close>

definition BLAKE2B_IV :: "u64 list" where
  "BLAKE2B_IV = [0x6a09e667f3bcc908, 0xbb67ae8584caa73b, 0x3c6ef372fe94f82b, 0xa54ff53a5f1d36f1,
    0x510e527fade682d1, 0x9b05688c2b3e6c1f, 0x1f83d9abfb41bd6b, 0x5be0cd19137e2179]"

definition B2_SIGMA :: "nat list list" where
  "B2_SIGMA =
   [ [0, 1, 2, 3, 4, 5, 6, 7, 8, 9, 10, 11, 12, 13, 14, 15],
    [14, 10, 4, 8, 9, 15, 13, 6, 1, 12, 0, 2, 11, 7, 5, 3],
    [11, 8, 12, 0, 5, 2, 15, 13, 10, 14, 3, 6, 7, 1, 9, 4],
    [7, 9, 3, 1, 13, 12, 11, 14, 2, 6, 5, 10, 4, 0, 15, 8],
    [9, 0, 5, 7, 2, 4, 10, 15, 14, 1, 11, 12, 6, 8, 3, 13],
    [2, 12, 6, 10, 0, 11, 8, 3, 4, 13, 7, 5, 15, 14, 1, 9],
    [12, 5, 1, 15, 14, 13, 4, 10, 0, 7, 6, 3, 9, 2, 8, 11],
    [13, 11, 7, 14, 12, 1, 3, 9, 5, 0, 15, 4, 8, 6, 2, 10],
    [6, 15, 14, 9, 11, 3, 0, 8, 12, 2, 13, 7, 1, 4, 10, 5],
    [10, 2, 8, 4, 7, 6, 1, 5, 15, 11, 9, 14, 3, 12, 13, 0],
    [0, 1, 2, 3, 4, 5, 6, 7, 8, 9, 10, 11, 12, 13, 14, 15],
    [14, 10, 4, 8, 9, 15, 13, 6, 1, 12, 0, 2, 11, 7, 5, 3] ]"

definition b2_mix :: "u64 list \<Rightarrow> nat \<Rightarrow> nat \<Rightarrow> nat \<Rightarrow> nat \<Rightarrow> u64 \<Rightarrow> u64 \<Rightarrow> u64 list" where
  "b2_mix v a b c d x y =
    (let v = v[a := v ! a + v ! b + x];
         v = v[d := word_rotr 32 (v ! d XOR v ! a)];
         v = v[c := v ! c + v ! d];
         v = v[b := word_rotr 24 (v ! b XOR v ! c)];
         v = v[a := v ! a + v ! b + y];
         v = v[d := word_rotr 16 (v ! d XOR v ! a)];
         v = v[c := v ! c + v ! d];
         v = v[b := word_rotr 63 (v ! b XOR v ! c)]
     in v)"

definition b2_round :: "u64 list \<Rightarrow> u64 list \<Rightarrow> nat list \<Rightarrow> u64 list" where
  "b2_round m v s =
    (let v = b2_mix v 0 4 8 12 (m ! (s ! 0)) (m ! (s ! 1));
         v = b2_mix v 1 5 9 13 (m ! (s ! 2)) (m ! (s ! 3));
         v = b2_mix v 2 6 10 14 (m ! (s ! 4)) (m ! (s ! 5));
         v = b2_mix v 3 7 11 15 (m ! (s ! 6)) (m ! (s ! 7));
         v = b2_mix v 0 5 10 15 (m ! (s ! 8)) (m ! (s ! 9));
         v = b2_mix v 1 6 11 12 (m ! (s ! 10)) (m ! (s ! 11));
         v = b2_mix v 2 7 8 13 (m ! (s ! 12)) (m ! (s ! 13));
         v = b2_mix v 3 4 9 14 (m ! (s ! 14)) (m ! (s ! 15))
     in v)"

definition b2_compress :: "u64 list \<Rightarrow> bytes \<Rightarrow> u128 \<Rightarrow> bool \<Rightarrow> u64 list" where
  "b2_compress h block counter last_block =
    (let m = map (\<lambda>i. u64_from_le (take 8 (drop (i * 8) block))) [0..<16];
         v = h @ BLAKE2B_IV;
         v = v[12 := v ! 12 XOR ucast counter];
         v = v[13 := v ! 13 XOR ucast (drop_bit 64 counter)];
         v = (if last_block then v[14 := NOT (v ! 14)] else v);
         v = foldl (\<lambda>v round. b2_round m v (B2_SIGMA ! round)) v [0..<12]
     in map (\<lambda>i. h ! i XOR (v ! i XOR v ! (i + 8))) [0..<8])"

section \<open>The streaming digest\<close>

record blake2b =
  b2_h :: "u64 list"
  b2_buffer :: bytes
  b2_buffered :: nat
  b2_counter :: u128
  b2_output_len :: nat

definition blake2b_new :: "nat \<Rightarrow> blake2b option" where
  "blake2b_new output_len =
    (if \<not> (1 \<le> output_len \<and> output_len \<le> 64) then None
     else
       let h = BLAKE2B_IV;
           h = h[0 := h ! 0 XOR (0x01010000 XOR of_nat output_len)]
       in Some \<lparr>b2_h = h, b2_buffer = replicate 128 0, b2_buffered = 0, b2_counter = 0, b2_output_len = output_len\<rparr>)"

text \<open>One turn of the loop of \<open>update\<close>, on the state and the input still to be read.\<close>

definition b2_absorb :: "blake2b \<times> bytes \<Rightarrow> blake2b \<times> bytes" where
  "b2_absorb = (\<lambda>(s, data).
    let s = (if b2_buffered s = 128 then
               let counter = b2_counter s + 128
               in s\<lparr>b2_counter := counter, b2_h := b2_compress (b2_h s) (b2_buffer s) counter False, b2_buffered := 0\<rparr>
             else s);
        tk = min (128 - b2_buffered s) (length data);
        s = s\<lparr>b2_buffer := copy_into (b2_buffer s) (b2_buffered s) (take tk data), b2_buffered := b2_buffered s + tk\<rparr>
    in (s, drop tk data))"

definition blake2b_update :: "blake2b \<Rightarrow> bytes \<Rightarrow> blake2b option" where
  "blake2b_update s data = map_option fst (while_option (\<lambda>(s, data). data \<noteq> []) b2_absorb (s, data))"

definition blake2b_finalize_into :: "blake2b \<Rightarrow> nat \<Rightarrow> bytes option" where
  "blake2b_finalize_into s out_len =
    (if out_len \<noteq> b2_output_len s then None
     else
       let counter = b2_counter s + of_nat (b2_buffered s);
           block = take (b2_buffered s) (b2_buffer s) @ replicate (length (b2_buffer s) - b2_buffered s) 0;
           h = b2_compress (b2_h s) block counter True;
           digest = concat (map u64_to_le h)
       in Some (take (b2_output_len s) digest))"

definition blake2b_digest :: "nat \<Rightarrow> bytes \<Rightarrow> bytes option" where
  "blake2b_digest n data =
    Option.bind (blake2b_new n) (\<lambda>s.
    Option.bind (blake2b_update s data) (\<lambda>s.
    blake2b_finalize_into s n))"

section \<open>The compression function and the standard\<close>

lemma BLAKE2B_IV_roots: "roots_ok 2 64 (map int (take 8 first_primes)) [1, 1, 2, 2, 3, 3, 4, 4] (map uint BLAKE2B_IV)"
  by code_simp

lemma BLAKE2B_IV_fips: "BLAKE2B_IV = map fips_IV512 [0..<8]"
proof (rule nth_equalityI)
  show "length BLAKE2B_IV = length (map fips_IV512 [0..<8])" by (simp add: BLAKE2B_IV_def)
  then show "\<And>i. i < length BLAKE2B_IV \<Longrightarrow> BLAKE2B_IV ! i = map fips_IV512 [0..<8] ! i"
    using table_entry [OF BLAKE2B_IV_roots] by (simp add: fips_IV512_def)
qed

lemma counter_words:
  "low64 (of_nat t) = of_nat t" "low64 (drop_bit 64 (of_nat t)) = of_nat (t div 2 ^ 64)"
proof -
  have "t mod (B64 * B64) = B64 * (t div B64 mod B64) + t mod B64" by (rule mod_mult2_eq)
  then have m: "t mod B128 = B64 * (t div B64 mod B64) + t mod B64" by simp
  show "low64 (of_nat t) = of_nat t"
    by (simp add: word_unat_eq_iff unat_low64 unat_of_nat m)
  show "low64 (drop_bit 64 (of_nat t)) = of_nat (t div 2 ^ 64)"
    by (simp add: word_unat_eq_iff unat_low64 unat_high64 unat_of_nat m)
qed

lemma b2_mix_fun:
  assumes "a < 16" "b < 16" "c < 16" "d < 16" "distinct [a, b, c, d]"
  shows "b2_mix (map f [0..<16]) a b c d x y = map (rfc7693_G f (a, b, c, d) x y) [0..<16]"
  using assms
  by (simp add: b2_mix_def map_upt_update Let_def cong: let_weak_cong)

text \<open>A permutation of the message words, as both the code and the standard use it.\<close>

definition sigma_row :: "nat list \<Rightarrow> bool" where
  "sigma_row s \<longleftrightarrow> length s = 16 \<and> list_all (\<lambda>k. k < 16) s"

lemma sigma_rows_all: "list_all (\<lambda>i. B2_SIGMA ! i = rfc7693_sigma ! (i mod 10) \<and> sigma_row (B2_SIGMA ! i)) [0..<12]"
  by code_simp

lemma sigma_rows:
  assumes "i < 12"
  shows "rfc7693_sigma ! (i mod 10) = B2_SIGMA ! i" and "sigma_row (B2_SIGMA ! i)"
proof -
  have "i \<in> set [0..<12]" using assms by simp
  then show "rfc7693_sigma ! (i mod 10) = B2_SIGMA ! i" "sigma_row (B2_SIGMA ! i)"
    using sigma_rows_all unfolding list_all_iff by metis+
qed

lemma sigma_word: "sigma_row s \<Longrightarrow> k < 16 \<Longrightarrow> map m [0..<16] ! (s ! k) = m (s ! k)"
  by (simp add: sigma_row_def list_all_iff)

lemma b2_round_fun:
  assumes "i < 12"
  shows "b2_round (map m [0..<16]) (map f [0..<16]) (B2_SIGMA ! i) = map (rfc7693_round m f i) [0..<16]"
  by (simp add: b2_round_def rfc7693_round_def Let_def sigma_rows(1) [OF assms] sigma_word [OF sigma_rows(2) [OF assms]]
      b2_mix_fun eight_indices columns_diagonals_eq del: rfc7693_G.simps)

lemma b2_compress_fun:
  assumes "map (\<lambda>i. u64_from_le (take 8 (drop (i * 8) block))) [0..<16] = map m [0..<16]" and "counter = of_nat t"
  shows "b2_compress (map h [0..<8]) block counter l = map (rfc7693_F h m t l) [0..<8]"
proof -
  have t: "ucast counter = (of_nat t :: u64)" "ucast (drop_bit 64 counter) = (of_nat (t div 2 ^ 64) :: u64)"
    by (simp_all only: assms(2) counter_words)
  have init: "map h [0..<8] @ BLAKE2B_IV = map (\<lambda>i. if i < 8 then h i else fips_IV512 (i - 8)) [0..<16]"
    by (rule nth_equalityI) (simp_all add: BLAKE2B_IV_fips nth_append)
  have start: "(let v = map h [0..<8] @ BLAKE2B_IV;
        v = v[12 := v ! 12 XOR ucast counter];
        v = v[13 := v ! 13 XOR ucast (drop_bit 64 counter)]
      in if l then v[14 := NOT (v ! 14)] else v) = map (rfc7693_init h t l) [0..<16]"
    unfolding init t by (simp add: Let_def rfc7693_init_def map_upt_update)
  have rounds: "foldl (\<lambda>v round. b2_round (map m [0..<16]) v (B2_SIGMA ! round)) (map f [0..<16]) [0..<12] =
      map (foldl (rfc7693_round m) f [0..<12]) [0..<16]" for f
    by (rule foldl_map_upt) (simp add: b2_round_fun)
  show ?thesis
    unfolding b2_compress_def assms(1) Let_def start [unfolded Let_def] rounds rfc7693_F_def
    by (simp add: xor.assoc)
qed

section \<open>The chain of blocks\<close>

definition b2_start :: "nat \<Rightarrow> u64 list" where
  "b2_start n = BLAKE2B_IV[0 := BLAKE2B_IV ! 0 XOR (0x01010000 XOR of_nat n)]"

text \<open>The chaining value of the code after the first \<open>k\<close> blocks of the input, none of them the last.\<close>

fun b2_chain :: "nat \<Rightarrow> bytes \<Rightarrow> nat \<Rightarrow> u64 list" where
  "b2_chain n xs 0 = b2_start n"
| "b2_chain n xs (Suc k) =
    b2_compress (b2_chain n xs k) (take 128 (drop (128 * k) xs)) (of_nat (128 * Suc k)) False"

definition b2_digest :: "nat \<Rightarrow> bytes \<Rightarrow> bytes" where
  "b2_digest n xs =
    (let k = (length xs - 1) div 128;
         rest = drop (128 * k) xs
     in take n (concat (map u64_to_le
          (b2_compress (b2_chain n xs k) (rest @ replicate (128 - length rest) 0) (of_nat (length xs)) True))))"

lemma b2_block_words:
  assumes "length b = 128" "\<And>p. p < 128 \<Longrightarrow> b ! p = padded_byte xs (128 * k + p)"
  shows "map (\<lambda>i. u64_from_le (take 8 (drop (i * 8) b))) [0..<16] = map (rfc7693_block xs k) [0..<16]"
proof (rule map_upt_cong)
  fix i :: nat
  assume "i < 16"
  then have "take 8 (drop (i * 8) b) = map (\<lambda>j. padded_byte xs (128 * k + (8 * i + j))) [0..<8]"
    using assms slice_nth [of 8 i b] by (simp add: mult.commute)
  then show "u64_from_le (take 8 (drop (i * 8) b)) = rfc7693_block xs k i" by (simp only: rfc7693_block_def)
qed

lemma b2_chain_spec: "128 * k \<le> length xs \<Longrightarrow> b2_chain n xs k = map (rfc7693_chain n xs k) [0..<8]"
proof (induction k)
  case 0
  show ?case by (simp add: b2_start_def BLAKE2B_IV_fips map_upt_update xor.assoc)
next
  case (Suc k)
  let ?b = "take 128 (drop (128 * k) xs)"
  have "length ?b = 128" "?b ! p = padded_byte xs (128 * k + p)" if "p < 128" for p
    using Suc.prems that by (simp_all add: padded_byte_def)
  then have "map (\<lambda>i. u64_from_le (take 8 (drop (i * 8) ?b))) [0..<16] = map (rfc7693_block xs k) [0..<16]"
    using b2_block_words [of ?b xs k] by (metis zero_less_numeral)
  note b2_compress_fun [OF this refl, of "rfc7693_chain n xs k" "128 * Suc k" False]
  moreover have "b2_chain n xs k = map (rfc7693_chain n xs k) [0..<8]" using Suc by simp
  ultimately show ?case by (simp only: b2_chain.simps rfc7693_chain.simps)
qed

lemma last_block: "max 1 ((l + 127) div 128) - 1 = (l - 1) div (128 :: nat)"
proof (cases l)
  case (Suc n)
  have "(n + 128) div 128 = n div 128 + 1" by simp
  then show ?thesis by (simp add: Suc)
qed simp

lemma padded_last:
  assumes "m \<le> length xs" "length xs \<le> m + 128" "p < 128"
  shows "(drop m xs @ replicate (128 - length (drop m xs)) 0) ! p = padded_byte xs (m + p)"
proof (cases "m + p < length xs")
  case True
  then have "p < length (drop m xs)" by simp
  then show ?thesis using True by (simp only: nth_append if_True padded_byte_def nth_drop assms(1))
next
  case False
  then have "\<not> p < length (drop m xs)" "p - length (drop m xs) < 128 - length (drop m xs)" using assms by simp_all
  then show ?thesis using False by (simp only: nth_append if_False padded_byte_def nth_replicate)
qed

lemma b2_digest_spec:
  assumes "n \<le> 64"
  shows "b2_digest n xs = blake2b_spec n xs"
proof -
  let ?k = "(length xs - 1) div 128"
  let ?rest = "drop (128 * ?k) xs"
  let ?b = "?rest @ replicate (128 - length ?rest) 0"
  have k: "128 * ?k \<le> length xs" "length xs \<le> 128 * ?k + 128" by (cases xs; simp; linarith)+
  have "length ?b = 128" using k by simp
  then have "map (\<lambda>i. u64_from_le (take 8 (drop (i * 8) ?b))) [0..<16] = map (rfc7693_block xs ?k) [0..<16]"
    using b2_block_words [of ?b xs ?k] padded_last [OF k] by blast
  note words = b2_compress_fun [OF this refl, of "rfc7693_chain n xs ?k" "length xs" True]
  have "b2_digest n xs = take n (concat (map u64_to_le (map (rfc7693_F (rfc7693_chain n xs ?k)
      (rfc7693_block xs ?k) (length xs) True) [0..<8])))"
    unfolding b2_digest_def Let_def b2_chain_spec [OF k(1)] words ..
  also have "\<dots> = blake2b_spec n xs"
    unfolding blake2b_spec_def Let_def last_block by (rule take_concat_enc) (use assms in simp_all)
  finally show ?thesis .
qed

lemma b2_compress_length [simp]: "length (b2_compress h b c l) = 8"
  by (simp add: b2_compress_def Let_def)

section \<open>Streaming\<close>

definition b2_inv :: "nat \<Rightarrow> blake2b \<Rightarrow> bytes \<Rightarrow> bool" where
  "b2_inv n s xs \<longleftrightarrow>
    (let k = (length xs - 1) div 128 in
     b2_output_len s = n \<and> length (b2_buffer s) = 128 \<and> b2_counter s = of_nat (128 * k) \<and>
     b2_h s = b2_chain n xs k \<and> b2_buffered s = length xs - 128 * k \<and>
     take (b2_buffered s) (b2_buffer s) = drop (128 * k) xs)"

lemma b2_chain_append: "128 * k \<le> length xs \<Longrightarrow> b2_chain n (xs @ ys) k = b2_chain n xs k"
  by (induction k) simp_all

lemma b2_inv_bounds:
  assumes "b2_inv n s xs"
  shows "128 * ((length xs - 1) div 128) \<le> length xs" "b2_buffered s \<le> 128"
  using assms by (simp_all add: b2_inv_def Let_def)

lemma b2_invE:
  assumes "b2_inv n s xs"
  obtains k where "(length xs - 1) div 128 = k" "b2_output_len s = n" "length (b2_buffer s) = 128"
    "b2_counter s = of_nat (128 * k)" "b2_h s = b2_chain n xs k" "length xs = 128 * k + b2_buffered s"
    "take (b2_buffered s) (b2_buffer s) = drop (128 * k) xs" "b2_buffered s \<le> 128"
proof -
  note i = assms [unfolded b2_inv_def Let_def] and b = b2_inv_bounds [OF assms]
  have "length xs = 128 * ((length xs - 1) div 128) + b2_buffered s"
    using b(1) i by (metis le_add_diff_inverse)
  moreover note i b(2)
  ultimately show thesis by (elim conjE) (rule that [OF refl])
qed

lemma b2_invI:
  assumes "(length xs - 1) div 128 = k" "b2_output_len s = n" "length (b2_buffer s) = 128"
    "b2_counter s = of_nat (128 * k)" "b2_h s = b2_chain n xs k" "length xs = 128 * k + b2_buffered s"
    "take (b2_buffered s) (b2_buffer s) = drop (128 * k) xs"
  shows "b2_inv n s xs"
  unfolding b2_inv_def Let_def assms(1) using assms(2-7) by simp

lemma b2_inv_new: "1 \<le> n \<Longrightarrow> n \<le> 64 \<Longrightarrow> \<exists>s. blake2b_new n = Some s \<and> b2_inv n s []"
  by (simp add: blake2b_new_def b2_inv_def b2_start_def)

text \<open>Appending to the buffer without a compression.\<close>

lemma b2_inv_fill:
  assumes inv: "b2_inv n s xs" and room: "length ys \<le> 128 - b2_buffered s"
  shows "b2_inv n (s\<lparr>b2_buffer := copy_into (b2_buffer s) (b2_buffered s) ys, b2_buffered := b2_buffered s + length ys\<rparr>) (xs @ ys)"
  using inv
proof (rule b2_invE)
  fix k
  assume k: "(length xs - 1) div 128 = k" "length xs = 128 * k + b2_buffered s" "b2_buffered s \<le> 128"
    and rest: "b2_output_len s = n" "length (b2_buffer s) = 128" "b2_counter s = of_nat (128 * k)"
      "b2_h s = b2_chain n xs k" "take (b2_buffered s) (b2_buffer s) = drop (128 * k) xs"
  have "(length (xs @ ys) - 1) div 128 = k"
  proof (cases "xs = []")
    case True
    then show ?thesis using room k by simp
  next
    case False
    then have "128 * k \<le> length xs - 1" "0 < length xs" using k(1) by auto
    moreover have "length xs + length ys \<le> 128 * k + 128" using room k(2,3) by linarith
    ultimately show ?thesis by (intro div_nat_eqI) simp_all
  qed
  then show ?thesis
    by (rule b2_invI) (use k(2,3) rest room in \<open>simp_all add: b2_chain_append take_copy_into\<close>)
qed

text \<open>A full buffer is a block that is not the last as soon as more input arrives.\<close>

lemma b2_inv_flush:
  assumes inv: "b2_inv n s xs" and full: "b2_buffered s = 128" and ys: "ys \<noteq> []" "length ys \<le> 128"
  shows "b2_inv n (s\<lparr>b2_counter := b2_counter s + 128,
      b2_h := b2_compress (b2_h s) (b2_buffer s) (b2_counter s + 128) False,
      b2_buffer := copy_into (b2_buffer s) 0 ys, b2_buffered := length ys\<rparr>) (xs @ ys)"
  using inv
proof (rule b2_invE)
  fix k
  assume k: "length xs = 128 * k + b2_buffered s" "b2_output_len s = n" "length (b2_buffer s) = 128"
      "b2_counter s = of_nat (128 * k)" "b2_h s = b2_chain n xs k"
      "take (b2_buffered s) (b2_buffer s) = drop (128 * k) xs"
  have len: "length xs = 128 * Suc k" using k(1) full by simp
  have "1 \<le> length ys" using ys by (cases ys) simp_all
  then have "(length (xs @ ys) - 1) div 128 = Suc k"
    by (intro div_nat_eqI) (use len ys(2) in simp_all)
  then show ?thesis
  proof (rule b2_invI)
    have "take 128 (drop (128 * k) (xs @ ys)) = b2_buffer s" using k(3,6) full len by simp
    then show "b2_h (s\<lparr>b2_counter := b2_counter s + 128,
        b2_h := b2_compress (b2_h s) (b2_buffer s) (b2_counter s + 128) False,
        b2_buffer := copy_into (b2_buffer s) 0 ys, b2_buffered := length ys\<rparr>) = b2_chain n (xs @ ys) (Suc k)"
      using k(3,4,5) len by (simp add: b2_chain_append add.commute)
  qed (use k len ys in \<open>simp_all add: copy_into_def\<close>)
qed

lemma b2_absorb_inv:
  assumes inv: "b2_inv n s xs" and data: "data \<noteq> []"
  shows "\<exists>s' ys data'. b2_absorb (s, data) = (s', data') \<and> data = ys @ data' \<and> ys \<noteq> [] \<and> b2_inv n s' (xs @ ys)"
proof (cases "b2_buffered s = 128")
  case True
  let ?ys = "take (min 128 (length data)) data"
  have "b2_inv n (s\<lparr>b2_counter := b2_counter s + 128,
      b2_h := b2_compress (b2_h s) (b2_buffer s) (b2_counter s + 128) False,
      b2_buffer := copy_into (b2_buffer s) 0 ?ys, b2_buffered := length ?ys\<rparr>) (xs @ ?ys)"
    by (rule b2_inv_flush [OF inv True]) (use data in simp_all)
  then show ?thesis
    using data True by (intro exI [of _ ?ys] exI conjI) (auto simp: b2_absorb_def Let_def)
next
  case False
  let ?ys = "take (min (128 - b2_buffered s) (length data)) data"
  have room: "b2_buffered s < 128" using False b2_inv_bounds(2) [OF inv] by simp
  have "b2_inv n (s\<lparr>b2_buffer := copy_into (b2_buffer s) (b2_buffered s) ?ys,
      b2_buffered := b2_buffered s + length ?ys\<rparr>) (xs @ ?ys)"
    by (rule b2_inv_fill [OF inv]) (use room in simp_all)
  then show ?thesis
    using data False room by (intro exI [of _ ?ys] exI conjI) (auto simp: b2_absorb_def Let_def)
qed

lemma blake2b_update_inv:
  "b2_inv n s xs \<Longrightarrow> \<exists>s'. blake2b_update s data = Some s' \<and> b2_inv n s' (xs @ data)"
proof (induction data arbitrary: s xs rule: length_induct)
  case (1 data)
  show ?case
  proof (cases "data = []")
    case True
    then show ?thesis using "1.prems" by (simp add: blake2b_update_def while_option_unfold)
  next
    case False
    obtain s1 ys data' where step: "b2_absorb (s, data) = (s1, data')" "data = ys @ data'" "ys \<noteq> []"
        "b2_inv n s1 (xs @ ys)"
      using b2_absorb_inv [OF "1.prems" False] by blast
    then have "\<exists>s'. blake2b_update s1 data' = Some s' \<and> b2_inv n s' ((xs @ ys) @ data')"
      using "1.IH" [rule_format, of data' s1 "xs @ ys"] by (cases ys) simp_all
    moreover have "blake2b_update s data = blake2b_update s1 data'"
      using False step(1) by (simp add: blake2b_update_def while_option_unfold [of _ _ "(s, data)"])
    ultimately show ?thesis using step(2) by simp
  qed
qed

lemma blake2b_finalize_inv:
  assumes inv: "b2_inv n s xs"
  shows "blake2b_finalize_into s n = Some (b2_digest n xs)"
proof -
  let ?k = "(length xs - 1) div 128"
  have "128 * ?k + b2_buffered s = length xs"
    using inv b2_inv_bounds(1) [OF inv] by (simp add: b2_inv_def Let_def)
  then have c: "b2_counter s + of_nat (b2_buffered s) = of_nat (length xs)"
    using inv by (simp add: b2_inv_def Let_def flip: of_nat_add)
  have "length (drop (128 * ?k) xs) = b2_buffered s" using inv by (simp add: b2_inv_def Let_def)
  then show ?thesis
    using inv c by (simp add: b2_inv_def blake2b_finalize_into_def b2_digest_def Let_def)
qed

text \<open>A sequence of updates, in whatever pieces, and the digest.\<close>

lemma blake2b_stream:
  assumes "b2_inv n s xs"
  shows "\<exists>s'. foldl (\<lambda>s d. Option.bind s (\<lambda>s. blake2b_update s d)) (Some s) ds = Some s' \<and> b2_inv n s' (xs @ concat ds)"
  using assms
proof (induction ds arbitrary: s xs)
  case (Cons d ds)
  obtain s1 where s1: "blake2b_update s d = Some s1" "b2_inv n s1 (xs @ d)"
    using blake2b_update_inv [OF Cons.prems] by blast
  then show ?case using Cons.IH [OF s1(2)] by simp
qed simp

definition b2_hash :: "nat \<Rightarrow> bytes list \<Rightarrow> bytes option" where
  "b2_hash n ds =
    Option.bind (foldl (\<lambda>s d. Option.bind s (\<lambda>s. blake2b_update s d)) (blake2b_new n) ds) (\<lambda>s.
    blake2b_finalize_into s n)"

lemma b2_hash_spec:
  assumes "1 \<le> n" "n \<le> 64"
  shows "b2_hash n ds = Some (blake2b_spec n (concat ds))"
proof -
  obtain s where s: "blake2b_new n = Some s" "b2_inv n s []" using b2_inv_new [OF assms] by blast
  obtain s' where s': "foldl (\<lambda>s d. Option.bind s (\<lambda>s. blake2b_update s d)) (Some s) ds = Some s'" "b2_inv n s' (concat ds)"
    using blake2b_stream [OF s(2), of ds] by auto
  show ?thesis using b2_digest_spec [OF assms(2)] by (simp add: b2_hash_def s s'(1) blake2b_finalize_inv [OF s'(2)])
qed

lemma blake2b_digest_hash: "blake2b_digest n data = b2_hash n [data]"
  by (simp add: blake2b_digest_def b2_hash_def)

section \<open>Properties\<close>

text \<open>
  BLAKE2b computes RFC 7693 from input in any pieces: for a digest length of 1 to 64 bytes the
  updates end and the digest is that of the concatenated input; for any other length the
  constructor panics.
\<close>

theorem blake2b_correct:
  "Option.bind (foldl (\<lambda>s d. Option.bind s (\<lambda>s. blake2b_update s d)) (blake2b_new n) pieces) (\<lambda>s.
      blake2b_finalize_into s n) =
    (if 1 \<le> n \<and> n \<le> 64 then Some (blake2b_spec n (concat pieces)) else None)"
proof (cases "1 \<le> n \<and> n \<le> 64")
  case True
  then show ?thesis using b2_hash_spec [of n pieces] by (simp add: b2_hash_def)
next
  case False
  have "foldl (\<lambda>s d. Option.bind s (\<lambda>s. blake2b_update s d)) None pieces = None"
    by (induction pieces) simp_all
  moreover have "blake2b_new n = None" using False by (simp add: blake2b_new_def)
  ultimately show ?thesis using False by auto
qed

end
