(* ===== verification/Argon2.thy ===== *)
theory Argon2
  imports Blake2b "HOL-Library.Monad_Syntax"
begin

text \<open>
  Argon2id with one lane (crates/blindplane-crypto/src/argon2: argon2id.rs, block_mix.rs). The
  memory is a list of blocks of 128 words. Indexing, the subtractions of \<open>usize\<close> values and the
  digest lengths can panic in the source: these operations return an option, \<open>None\<close> being the
  panic.
\<close>

section \<open>block_mix.rs\<close>

definition BLOCK_LEN :: nat where "BLOCK_LEN = 1024"
definition QWORDS :: nat where "QWORDS = 128"

type_synonym block = "u64 list"

definition fused_add :: "u64 \<Rightarrow> u64 \<Rightarrow> u64" where
  "fused_add x y =
    (let low = (x AND 0xffffffff) * (y AND 0xffffffff)
     in x + y + low * 2)"

definition blamka :: "u64 list \<Rightarrow> nat \<Rightarrow> nat \<Rightarrow> nat \<Rightarrow> nat \<Rightarrow> u64 list" where
  "blamka v a b c d =
    (let v = v[a := fused_add (v ! a) (v ! b)];
         v = v[d := word_rotr 32 (v ! d XOR v ! a)];
         v = v[c := fused_add (v ! c) (v ! d)];
         v = v[b := word_rotr 24 (v ! b XOR v ! c)];
         v = v[a := fused_add (v ! a) (v ! b)];
         v = v[d := word_rotr 16 (v ! d XOR v ! a)];
         v = v[c := fused_add (v ! c) (v ! d)];
         v = v[b := word_rotr 63 (v ! b XOR v ! c)]
     in v)"

definition permute :: "u64 list \<Rightarrow> u64 list" where
  "permute v =
    (let v = blamka v 0 4 8 12;
         v = blamka v 1 5 9 13;
         v = blamka v 2 6 10 14;
         v = blamka v 3 7 11 15;
         v = blamka v 0 5 10 15;
         v = blamka v 1 6 11 12;
         v = blamka v 2 7 8 13;
         v = blamka v 3 4 9 14
     in v)"

definition permute_row :: "block \<Rightarrow> nat \<Rightarrow> block" where
  "permute_row z row = copy_into z (row * 16) (permute (take 16 (drop (row * 16) z)))"

definition permute_column :: "block \<Rightarrow> nat \<Rightarrow> block" where
  "permute_column z col =
    (let base = col * 2;
         v = foldl (\<lambda>v k. (v[2 * k := z ! (base + 16 * k)])[2 * k + 1 := z ! (base + 16 * k + 1)])
           (replicate 16 0) [0..<8];
         v = permute v
     in foldl (\<lambda>z k. (z[base + 16 * k := v ! (2 * k)])[base + 16 * k + 1 := v ! (2 * k + 1)]) z [0..<8])"

definition compress_blocks :: "block \<Rightarrow> block \<Rightarrow> block" where
  "compress_blocks x y =
    (let r = map (\<lambda>i. x ! i XOR y ! i) [0..<QWORDS];
         z = r;
         z = foldl permute_row z [0..<8];
         z = foldl permute_column z [0..<8]
     in map (\<lambda>i. z ! i XOR r ! i) [0..<QWORDS])"

definition bytes_to_block :: "bytes \<Rightarrow> block" where
  "bytes_to_block bs = map (\<lambda>i. u64_from_le (take 8 (drop (i * 8) bs))) [0..<QWORDS]"

definition block_to_bytes :: "block \<Rightarrow> bytes" where
  "block_to_bytes b = concat (map u64_to_le b)"

section \<open>The variable-length hash\<close>

text \<open>The loop of \<open>hash_prime\<close>: 32 bytes of each digest until at most 64 bytes are missing.\<close>

function hash_chain :: "nat \<Rightarrow> nat \<Rightarrow> bytes \<Rightarrow> bytes \<Rightarrow> (bytes \<times> bytes \<times> nat) option" where
  "hash_chain out_len written out block =
    (if out_len - written > 64 then do {
       hasher \<leftarrow> blake2b_new 64;
       hasher \<leftarrow> blake2b_update hasher block;
       nxt \<leftarrow> blake2b_finalize_into hasher 64;
       hash_chain out_len (written + 32) (out @ take 32 nxt) nxt
     } else Some (out, block, written))"
  by pat_completeness auto
termination
  by (relation "measure (\<lambda>(out_len, written, _). out_len - written)") auto

declare hash_chain.simps [simp del]

definition hash_prime :: "bytes \<Rightarrow> nat \<Rightarrow> bytes option" where
  "hash_prime input out_len =
    (if out_len \<le> 64 then do {
       hasher \<leftarrow> blake2b_new out_len;
       hasher \<leftarrow> blake2b_update hasher (u32_to_le (of_nat out_len));
       hasher \<leftarrow> blake2b_update hasher input;
       blake2b_finalize_into hasher out_len
     } else do {
       hasher \<leftarrow> blake2b_new 64;
       hasher \<leftarrow> blake2b_update hasher (u32_to_le (of_nat out_len));
       hasher \<leftarrow> blake2b_update hasher input;
       block \<leftarrow> blake2b_finalize_into hasher 64;
       (out, block, written) \<leftarrow> hash_chain out_len 32 (take 32 block) block;
       hasher \<leftarrow> blake2b_new (out_len - written);
       hasher \<leftarrow> blake2b_update hasher block;
       rest \<leftarrow> blake2b_finalize_into hasher (out_len - written);
       Some (out @ rest)
     })"

section \<open>argon2id.rs\<close>

record argon2_params =
  ap_memory_kib :: u32
  ap_passes :: u32
  ap_output_len :: nat

definition default_params :: argon2_params where
  "default_params = \<lparr>ap_memory_kib = 65536, ap_passes = 3, ap_output_len = 32\<rparr>"

datatype invalid_params = InvalidParams

definition next_address_block :: "block \<Rightarrow> block" where
  "next_address_block input_block =
    (let zero = replicate QWORDS 0;
         fst_block = compress_blocks zero input_block
     in compress_blocks zero fst_block)"

text \<open>Subtraction of \<open>usize\<close> values and of \<open>u64\<close> values, which panics below zero.\<close>

definition sub_usize :: "nat \<Rightarrow> nat \<Rightarrow> nat option" where
  "sub_usize a b = (if b \<le> a then Some (a - b) else None)"

definition sub_u64 :: "u64 \<Rightarrow> u64 \<Rightarrow> u64 option" where
  "sub_u64 a b = (if b \<le> a then Some (a - b) else None)"

definition reference_index :: "u64 \<Rightarrow> nat \<Rightarrow> nat \<Rightarrow> nat \<Rightarrow> nat \<Rightarrow> nat \<Rightarrow> nat option" where
  "reference_index pseudo_random pass slice_no index segment_length block_count =
    do {
      (reference_area_size, start_position) \<leftarrow>
        (if pass = 0 then do {
           area \<leftarrow> sub_usize (slice_no * segment_length + index) 1;
           Some (area, 0)
         } else do {
           rest \<leftarrow> sub_usize block_count segment_length;
           area \<leftarrow> sub_usize (rest + index) 1;
           Some (area, if slice_no = 3 then 0 else (slice_no + 1) * segment_length)
         });
      let j1 = pseudo_random AND 0xffffffff;
      let relative = drop_bit 32 (j1 * j1);
      last_position \<leftarrow> sub_u64 (of_nat reference_area_size) 1;
      relative \<leftarrow> sub_u64 last_position (drop_bit 32 (of_nat reference_area_size * relative));
      Some ((start_position + unat relative) mod block_count)
    }"

definition mem_at :: "block list \<Rightarrow> nat \<Rightarrow> block option" where
  "mem_at memory i = (if i < length memory then Some (memory ! i) else None)"

fun ofold :: "('a \<Rightarrow> 's \<Rightarrow> 's option) \<Rightarrow> 'a list \<Rightarrow> 's \<Rightarrow> 's option" where
  "ofold f [] s = Some s"
| "ofold f (x # xs) s = do { s \<leftarrow> f x s; ofold f xs s }"

text \<open>The variables of one segment: the memory and the generator of data-independent addresses.\<close>

record segment_state =
  sg_memory :: "block list"
  sg_input :: block
  sg_address :: block
  sg_counter :: u64

definition next_addresses :: "segment_state \<Rightarrow> segment_state" where
  "next_addresses st =
    (let counter = sg_counter st + 1;
         input = (sg_input st)[6 := counter]
     in st\<lparr>sg_counter := counter, sg_input := input, sg_address := next_address_block input\<rparr>)"

definition fill_index :: "nat \<Rightarrow> nat \<Rightarrow> nat \<Rightarrow> nat \<Rightarrow> bool \<Rightarrow> nat \<Rightarrow> segment_state \<Rightarrow> segment_state option" where
  "fill_index pass slice_no segment_length block_count data_independent index st =
    do {
      let current = slice_no * segment_length + index;
      let previous = (if current = 0 then block_count - 1 else current - 1);
      let st = (if data_independent \<and> index mod QWORDS = 0 then next_addresses st else st);
      previous_block \<leftarrow> mem_at (sg_memory st) previous;
      let pseudo_random = (if data_independent then sg_address st ! (index mod QWORDS) else previous_block ! 0);
      reference \<leftarrow> reference_index pseudo_random pass slice_no index segment_length block_count;
      reference_block \<leftarrow> mem_at (sg_memory st) reference;
      let mixed = compress_blocks previous_block reference_block;
      current_block \<leftarrow> mem_at (sg_memory st) current;
      let updated = (if pass = 0 then mixed else map (\<lambda>(slot, v). slot XOR v) (zip current_block mixed));
      Some (st\<lparr>sg_memory := (sg_memory st)[current := updated]\<rparr>)
    }"

definition fill_segment :: "u32 \<Rightarrow> u32 \<Rightarrow> nat \<Rightarrow> nat \<Rightarrow> block list \<Rightarrow> block list option" where
  "fill_segment passes blocks pass slice_no memory =
    do {
      let segment_length = unat (blocks div 4);
      let block_count = unat blocks;
      let data_independent = (pass = 0 \<and> slice_no < 2);
      let input = replicate QWORDS 0;
      let input = (if data_independent
        then input[0 := of_nat pass, 1 := 0, 2 := of_nat slice_no, 3 := ucast blocks, 4 := ucast passes, 5 := 2]
        else input);
      let st = \<lparr>sg_memory = memory, sg_input = input, sg_address = replicate QWORDS 0, sg_counter = 0\<rparr>;
      let start = (if pass = 0 \<and> slice_no = 0 then 2 else 0);
      let st = (if data_independent \<and> start = 2 then next_addresses st else st);
      st \<leftarrow> ofold (fill_index pass slice_no segment_length block_count data_independent) [start..<segment_length] st;
      Some (sg_memory st)
    }"

definition fill_memory :: "u32 \<Rightarrow> u32 \<Rightarrow> block list \<Rightarrow> block list option" where
  "fill_memory passes blocks memory =
    ofold (\<lambda>pass memory. ofold (\<lambda>slice_no memory. fill_segment passes blocks pass slice_no memory) [0..<4] memory)
      [0..<unat passes] memory"

definition h0_bytes :: "bytes \<Rightarrow> bytes \<Rightarrow> argon2_params \<Rightarrow> bytes" where
  "h0_bytes password salt params =
    (let lanes = 1 :: u32;
         h0_input = u32_to_le lanes;
         h0_input = h0_input @ u32_to_le (of_nat (ap_output_len params));
         h0_input = h0_input @ u32_to_le (ap_memory_kib params);
         h0_input = h0_input @ u32_to_le (ap_passes params);
         h0_input = h0_input @ u32_to_le 0x13;
         h0_input = h0_input @ u32_to_le 2;
         h0_input = h0_input @ u32_to_le (of_nat (length password));
         h0_input = h0_input @ password;
         h0_input = h0_input @ u32_to_le (of_nat (length salt));
         h0_input = h0_input @ salt;
         h0_input = h0_input @ u32_to_le 0;
         h0_input = h0_input @ u32_to_le 0
     in h0_input)"

definition first_block :: "bytes \<Rightarrow> nat \<Rightarrow> block list \<Rightarrow> block list option" where
  "first_block h0 index memory =
    do {
      let input = h0 @ u32_to_le (of_nat index) @ u32_to_le 0;
      bs \<leftarrow> hash_prime input BLOCK_LEN;
      slot \<leftarrow> mem_at memory index;
      Some (memory[index := bytes_to_block bs])
    }"

definition argon2id :: "bytes \<Rightarrow> bytes \<Rightarrow> argon2_params \<Rightarrow> (invalid_params + bytes) option" where
  "argon2id password salt params =
    (if ap_memory_kib params < 8 \<or> ap_passes params = 0 \<or> ap_output_len params < 4 \<or> length salt < 8
     then Some (Inl InvalidParams)
     else do {
       let blocks = (ap_memory_kib params div 4) * 4;
       let block_count = unat blocks;
       hasher \<leftarrow> blake2b_new 64;
       hasher \<leftarrow> blake2b_update hasher (h0_bytes password salt params);
       h0 \<leftarrow> blake2b_finalize_into hasher 64;
       let memory = replicate block_count (replicate QWORDS 0);
       memory \<leftarrow> ofold (first_block h0) [0..<2] memory;
       memory \<leftarrow> fill_memory (ap_passes params) blocks memory;
       final_block \<leftarrow> mem_at memory (block_count - 1);
       out \<leftarrow> hash_prime (block_to_bytes final_block) (ap_output_len params);
       Some (Inr out)
     })"

end
