(* ===== verification/Rfc9106.thy ===== *)
theory Rfc9106
  imports Rfc7693
begin

text \<open>
  The compression function of Argon2 as RFC 9106 describes it: GB with the multiplying addition and
  the permutation P (section 3.6), the compression function G on blocks of 1024 bytes, seen as an
  8x8 matrix of 16-byte registers (3.5). This is a specification, written from the standard.
\<close>

text \<open>\<open>a + b + 2 * trunc(a) * trunc(b)\<close> modulo \<open>2 ^ 64\<close>, \<open>trunc\<close> being the low 32 bits.\<close>

definition rfc9106_add :: "u64 \<Rightarrow> u64 \<Rightarrow> u64" where
  "rfc9106_add a b = of_nat (unat a + unat b + 2 * (unat a mod 2 ^ 32) * (unat b mod 2 ^ 32))"

fun rfc9106_mix :: "u64 \<times> u64 \<times> u64 \<times> u64 \<Rightarrow> u64 \<times> u64 \<times> u64 \<times> u64" where
  "rfc9106_mix (a, b, c, d) =
    (let a1 = rfc9106_add a b; d1 = word_rotr 32 (d XOR a1);
         c1 = rfc9106_add c d1; b1 = word_rotr 24 (b XOR c1);
         a2 = rfc9106_add a1 b1; d2 = word_rotr 16 (d1 XOR a2);
         c2 = rfc9106_add c1 d2; b2 = word_rotr 63 (b1 XOR c2)
     in (a2, b2, c2, d2))"

fun rfc9106_GB :: "(nat \<Rightarrow> u64) \<Rightarrow> quad \<Rightarrow> nat \<Rightarrow> u64" where
  "rfc9106_GB v (a, b, c, d) =
    (case rfc9106_mix (v a, v b, v c, v d) of (a', b', c', d') \<Rightarrow> v(a := a', b := b', c := c', d := d'))"

definition rfc9106_P :: "(nat \<Rightarrow> u64) \<Rightarrow> nat \<Rightarrow> u64" where
  "rfc9106_P v = foldl rfc9106_GB v columns_diagonals"

text \<open>
  Register \<open>i\<close> of a block consists of its words \<open>2 * i\<close> and \<open>2 * i + 1\<close>; row \<open>r\<close> of the matrix has
  the registers \<open>8 * r, \<dots>, 8 * r + 7\<close>, column \<open>c\<close> the registers \<open>c, c + 8, \<dots>, c + 56\<close>. \<open>P\<close> acts on
  the eight registers of a row or a column, that is on sixteen words.
\<close>

definition register_word :: "(nat \<Rightarrow> nat) \<Rightarrow> nat \<Rightarrow> nat" where
  "register_word reg k = 2 * reg (k div 2) + k mod 2"

definition rfc9106_rows :: "(nat \<Rightarrow> u64) \<Rightarrow> nat \<Rightarrow> u64" where
  "rfc9106_rows R j =
    (let r = j div 2 div 8
     in rfc9106_P (\<lambda>k. R (register_word (\<lambda>i. 8 * r + i) k)) (register_word (\<lambda>i. i mod 8) j))"

definition rfc9106_columns :: "(nat \<Rightarrow> u64) \<Rightarrow> nat \<Rightarrow> u64" where
  "rfc9106_columns Q j =
    (let c = j div 2 mod 8
     in rfc9106_P (\<lambda>k. Q (register_word (\<lambda>i. c + 8 * i) k)) (register_word (\<lambda>i. i div 8) j))"

definition rfc9106_G :: "u64 list \<Rightarrow> u64 list \<Rightarrow> u64 list" where
  "rfc9106_G X Y =
    (let R = (\<lambda>j. X ! j XOR Y ! j);
         Z = rfc9106_columns (rfc9106_rows R)
     in map (\<lambda>j. Z j XOR R j) [0..<128])"

text \<open>Blocks as 1024 bytes, little-endian.\<close>

definition rfc9106_load :: "bytes \<Rightarrow> u64 list" where
  "rfc9106_load bs = map (\<lambda>i. u64_from_le (map (\<lambda>j. bs ! (8 * i + j)) [0..<8])) [0..<128]"

definition rfc9106_store :: "u64 list \<Rightarrow> bytes" where
  "rfc9106_store b = map (\<lambda>j. u64_to_le (b ! (j div 8)) ! (j mod 8)) [0..<1024]"

end
