(* ===== verification/Argon2Compress.thy ===== *)
theory Argon2Compress
  imports Argon2 Rfc9106
begin

text \<open>
  The compression function of argon2/block_mix.rs is the one of RFC 9106: the mixing, the
  permutation of sixteen words, its application to the rows and the columns of a block in place,
  and the conversions between blocks and bytes.
\<close>

lemma unat_fused_add:
  "unat (fused_add x y) = (unat x + unat y + 2 * (unat x mod 2 ^ 32) * (unat y mod 2 ^ 32)) mod 2 ^ 64"
proof -
  have low: "unat (w AND 0xffffffff :: u64) = unat w mod 2 ^ 32" for w
    using unat_and_mask [of w 32] by (simp add: mask_eq_exp_minus_1)
  have "w AND 0xffffffff = of_nat (unat w mod 2 ^ 32)" for w :: u64
    unfolding low [symmetric] by simp
  then have "fused_add x y = of_nat (unat x + unat y + 2 * (unat x mod 2 ^ 32) * (unat y mod 2 ^ 32))"
    by (simp add: fused_add_def mult.commute mult.left_commute)
  then show ?thesis by (simp only: unat_of_nat word_size) simp
qed

lemma fused_add_rfc: "fused_add x y = rfc9106_add x y"
  by (simp only: word_unat_eq_iff unat_fused_add rfc9106_add_def unat_of_nat) simp

section \<open>The permutation\<close>

lemma blamka_fun:
  assumes "a < 16" "b < 16" "c < 16" "d < 16" "distinct [a, b, c, d]"
  shows "blamka (map f [0..<16]) a b c d = map (rfc9106_GB f (a, b, c, d)) [0..<16]"
  using assms
  by (simp add: blamka_def fused_add_rfc map_upt_update Let_def cong: let_weak_cong)

lemma permute_fun: "permute (map f [0..<16]) = map (rfc9106_P f) [0..<16]"
  by (simp add: permute_def Let_def blamka_fun rfc9106_P_def columns_diagonals_eq del: rfc9106_GB.simps)

section \<open>Rows and columns\<close>

lemma copy_into_fun:
  assumes "off + m \<le> n"
  shows "copy_into (map f [0..<n]) off (map g [0..<m]) =
    map (\<lambda>j. if off \<le> j \<and> j < off + m then g (j - off) else f j) [0..<n]"
  by (rule nth_equalityI) (use assms in \<open>auto simp: copy_into_def nth_append\<close>)

lemma rfc_row_word: "rfc9106_rows f j = rfc9106_P (\<lambda>k. f (16 * (j div 16) + k)) (j mod 16)"
proof -
  have "register_word (\<lambda>i. 8 * (j div 16) + i) k = 16 * (j div 16) + k" for k
    by (simp add: register_word_def)
  moreover have "register_word (\<lambda>i. i mod 8) j = j mod 16"
    using mod_mult2_eq [of j 2 8] by (simp add: register_word_def)
  ultimately show ?thesis by (simp add: rfc9106_rows_def Let_def flip: div_mult2_eq)
qed

lemma rfc_column_word:
  "rfc9106_columns f j =
    rfc9106_P (\<lambda>k. f (2 * (j div 2 mod 8) + 16 * (k div 2) + k mod 2)) (2 * (j div 16) + j mod 2)"
  by (simp add: rfc9106_columns_def register_word_def Let_def flip: div_mult2_eq)

definition row_done :: "nat \<Rightarrow> (nat \<Rightarrow> u64) \<Rightarrow> nat \<Rightarrow> u64" where
  "row_done n f j = (if j div 16 < n then rfc9106_rows f j else f j)"

lemma permute_row_fun:
  assumes "n < 8"
  shows "permute_row (map (row_done n f) [0..<128]) n = map (row_done (Suc n) f) [0..<128]"
proof -
  have "take 16 (drop (n * 16) (map (row_done n f) [0..<128])) = map (\<lambda>k. f (16 * n + k)) [0..<16]"
    by (rule nth_equalityI) (use assms in \<open>simp_all add: row_done_def mult.commute\<close>)
  then have "permute_row (map (row_done n f) [0..<128]) n =
      map (\<lambda>j. if 16 * n \<le> j \<and> j < 16 * n + 16 then rfc9106_P (\<lambda>k. f (16 * n + k)) (j - 16 * n) else row_done n f j) [0..<128]"
    unfolding permute_row_def using assms by (simp add: permute_fun copy_into_fun mult.commute)
  also have "\<dots> = map (row_done (Suc n) f) [0..<128]"
  proof (rule map_upt_cong)
    fix j :: nat
    have "16 * n \<le> j \<and> j < 16 * n + 16 \<longleftrightarrow> j div 16 = n" by linarith
    then show "(if 16 * n \<le> j \<and> j < 16 * n + 16 then rfc9106_P (\<lambda>k. f (16 * n + k)) (j - 16 * n) else row_done n f j) =
        row_done (Suc n) f j"
      by (auto simp: row_done_def rfc_row_word modulo_nat_def less_Suc_eq mult.commute)
  qed
  finally show ?thesis .
qed

lemma rows_fun: "n \<le> 8 \<Longrightarrow> foldl permute_row (map f [0..<128]) [0..<n] = map (row_done n f) [0..<128]"
  by (induction n) (simp_all add: permute_row_fun, simp add: row_done_def)

text \<open>A column is gathered into sixteen words and scattered again.\<close>

lemma pairs_written:
  "2 * n \<le> length v \<Longrightarrow>
    foldl (\<lambda>v k. (v[2 * k := f k])[2 * k + 1 := g k]) v [0..<n] =
    map (\<lambda>i. if i < 2 * n then (if even i then f (i div 2) else g (i div 2)) else v ! i) [0..<length v]"
proof (induction n)
  case 0
  show ?case by (simp add: map_upt_nth)
next
  case (Suc n)
  then show ?case
    by (simp add: map_upt_update)
qed

definition in_column :: "nat \<Rightarrow> nat \<Rightarrow> bool" where
  "in_column c j \<longleftrightarrow> j div 2 mod 8 = c"

lemma column_index:
  assumes "c < 8"
  shows "in_column c j \<and> j div 16 = n \<longleftrightarrow> j = c * 2 + 16 * n \<or> j = c * 2 + 16 * n + 1"
    and "j = c * 2 + 16 * n \<Longrightarrow> j mod 2 = 0" and "j = c * 2 + 16 * n + 1 \<Longrightarrow> j mod 2 = 1"
proof -
  have "j div 16 = j div 2 div 8" by (simp flip: div_mult2_eq)
  then have "in_column c j \<and> j div 16 = n \<longleftrightarrow> j div 2 = 8 * n + c"
    unfolding in_column_def using assms by auto
  also have "\<dots> \<longleftrightarrow> j = c * 2 + 16 * n \<or> j = c * 2 + 16 * n + 1" by linarith
  finally show "in_column c j \<and> j div 16 = n \<longleftrightarrow> j = c * 2 + 16 * n \<or> j = c * 2 + 16 * n + 1" .
qed (presburger+)

lemma column_scattered:
  assumes "c < 8"
  shows "n \<le> 8 \<Longrightarrow>
    foldl (\<lambda>z k. (z[c * 2 + 16 * k := v ! (2 * k)])[c * 2 + 16 * k + 1 := v ! (2 * k + 1)]) (map f [0..<128]) [0..<n] =
    map (\<lambda>j. if in_column c j \<and> j div 16 < n then v ! (2 * (j div 16) + j mod 2) else f j) [0..<128]"
proof (induction n)
  case 0
  show ?case by simp
next
  case (Suc n)
  let ?g = "\<lambda>n j. if in_column c j \<and> j div 16 < n then v ! (2 * (j div 16) + j mod 2) else f j"
  have "map ((?g n)(c * 2 + 16 * n := v ! (2 * n), c * 2 + 16 * n + 1 := v ! (2 * n + 1))) [0..<128] = map (?g (Suc n)) [0..<128]"
  proof (rule map_upt_cong)
    fix j :: nat
    show "((?g n)(c * 2 + 16 * n := v ! (2 * n), c * 2 + 16 * n + 1 := v ! (2 * n + 1))) j = ?g (Suc n) j"
      using column_index [OF assms, of j n] by (auto simp: less_Suc_eq)
  qed
  moreover have "c * 2 + 16 * n < 128" "c * 2 + 16 * n + 1 < 128" using assms Suc.prems by linarith+
  ultimately show ?case using Suc by (simp add: map_upt_update)
qed

definition column_done :: "nat \<Rightarrow> (nat \<Rightarrow> u64) \<Rightarrow> nat \<Rightarrow> u64" where
  "column_done n f j = (if j div 2 mod 8 < n then rfc9106_columns f j else f j)"

lemma permute_column_fun:
  assumes "n < 8"
  shows "permute_column (map (column_done n f) [0..<128]) n = map (column_done (Suc n) f) [0..<128]"
proof -
  let ?z = "map (column_done n f) [0..<128]" and ?w = "\<lambda>k. f (2 * n + 16 * (k div 2) + k mod 2)"
  have "foldl (\<lambda>v k. (v[2 * k := ?z ! (n * 2 + 16 * k)])[2 * k + 1 := ?z ! (n * 2 + 16 * k + 1)]) (replicate 16 0) [0..<8] =
      map (\<lambda>k. if k < 16 then (if even k then ?z ! (n * 2 + 16 * (k div 2)) else ?z ! (n * 2 + 16 * (k div 2) + 1))
        else replicate 16 0 ! k) [0..<16]"
    using pairs_written [of 8 "replicate 16 0" "\<lambda>k. ?z ! (n * 2 + 16 * k)" "\<lambda>k. ?z ! (n * 2 + 16 * k + 1)"] by simp
  also have "\<dots> = map ?w [0..<16]"
  proof (rule map_upt_cong)
    fix k :: nat
    assume "k < 16"
    then have "k div 2 \<le> 7" by simp
    then have "n * 2 + 16 * (k div 2) + 1 < 128" using assms by linarith
    moreover have "(n * 2 + 16 * m) div 2 mod 8 = n" "(n * 2 + 16 * m + 1) div 2 mod 8 = n" for m
    proof -
      have "(n * 2 + 16 * m) div 2 = n + 8 * m" "(n * 2 + 16 * m + 1) div 2 = n + 8 * m" by linarith+
      then show "(n * 2 + 16 * m) div 2 mod 8 = n" "(n * 2 + 16 * m + 1) div 2 mod 8 = n" using assms by simp_all
    qed
    ultimately show "(if k < 16 then (if even k then ?z ! (n * 2 + 16 * (k div 2)) else ?z ! (n * 2 + 16 * (k div 2) + 1))
        else replicate 16 0 ! k) = ?w k"
      using \<open>k < 16\<close> by (simp add: column_done_def mult.commute even_iff_mod_2_eq_zero odd_iff_mod_2_eq_one)
  qed
  finally have gathered: "foldl (\<lambda>v k. (v[2 * k := ?z ! (n * 2 + 16 * k)])[2 * k + 1 := ?z ! (n * 2 + 16 * k + 1)])
      (replicate 16 0) [0..<8] = map ?w [0..<16]" .
  have "permute_column ?z n =
      map (\<lambda>j. if in_column n j \<and> j div 16 < 8 then map (rfc9106_P ?w) [0..<16] ! (2 * (j div 16) + j mod 2)
        else column_done n f j) [0..<128]"
    unfolding permute_column_def Let_def gathered permute_fun by (rule column_scattered [OF assms]) simp
  also have "\<dots> = map (column_done (Suc n) f) [0..<128]"
  proof (rule map_upt_cong)
    fix j :: nat
    assume "j < 128"
    then have row: "j div 16 < 8" by linarith
    have "j mod 2 < 2" by simp
    with row have "2 * (j div 16) + j mod 2 < 16" by linarith
    with row show "(if in_column n j \<and> j div 16 < 8 then map (rfc9106_P ?w) [0..<16] ! (2 * (j div 16) + j mod 2)
        else column_done n f j) = column_done (Suc n) f j"
      by (auto simp: column_done_def in_column_def rfc_column_word less_Suc_eq)
  qed
  finally show ?thesis .
qed

lemma columns_fun: "n \<le> 8 \<Longrightarrow> foldl permute_column (map f [0..<128]) [0..<n] = map (column_done n f) [0..<128]"
  by (induction n) (simp_all add: permute_column_fun, simp add: column_done_def)

section \<open>The compression function\<close>

lemma compress_blocks_rfc: "compress_blocks x y = rfc9106_G x y"
proof -
  have rows: "map (row_done 8 f) [0..<128] = map (rfc9106_rows f) [0..<128]" for f
    by (rule map_upt_cong) (auto simp: row_done_def)
  have columns: "map (column_done 8 f) [0..<128] = map (rfc9106_columns f) [0..<128]" for f
    by (rule map_upt_cong) (simp add: column_done_def)
  show ?thesis
    by (simp add: compress_blocks_def rfc9106_G_def QWORDS_def rows_fun rows columns_fun columns)
qed

lemma bytes_to_block_rfc:
  assumes "length bs = 1024"
  shows "bytes_to_block bs = rfc9106_load bs"
  unfolding bytes_to_block_def rfc9106_load_def QWORDS_def
proof (rule map_upt_cong)
  fix i :: nat
  assume "i < 128"
  then have "take 8 (drop (8 * i) bs) = map (\<lambda>j. bs ! (8 * i + j)) [0..<8]" by (intro slice_nth) (simp add: assms)
  then show "u64_from_le (take 8 (drop (i * 8) bs)) = u64_from_le (map (\<lambda>j. bs ! (8 * i + j)) [0..<8])"
    by (simp only: mult.commute)
qed

lemma block_to_bytes_rfc:
  assumes "length b = 128"
  shows "block_to_bytes b = rfc9106_store b"
proof -
  have "take 1024 (concat (map u64_to_le (map ((!) b) [0..<128]))) = rfc9106_store b"
    unfolding rfc9106_store_def by (rule take_concat_enc) simp_all
  moreover have "length (concat (map u64_to_le b)) = 1024" using concat_enc_length [of u64_to_le 8 b] assms by simp
  ultimately show ?thesis by (simp add: block_to_bytes_def map_upt_nth [OF assms] del: map_map)
qed

end
