(* ===== verification/Argon2Correct.thy ===== *)
theory Argon2Correct
  imports Argon2Compress
begin

text \<open>
  Argon2id after RFC 9106 with one lane, and the correctness of the code of argon2/: it never panics,
  refuses exactly the invalid parameters and otherwise computes the specified hash.
\<close>

section \<open>The specification\<close>

text \<open>Section 3.3, the variable-length hash: \<open>rfc_v T a i\<close> is \<open>V_(i+1)\<close>.\<close>

fun rfc_v :: "nat \<Rightarrow> bytes \<Rightarrow> nat \<Rightarrow> bytes" where
  "rfc_v T a 0 = blake2b_spec 64 (u32_to_le (of_nat T) @ a)"
| "rfc_v T a (Suc i) = blake2b_spec 64 (rfc_v T a i)"

definition rfc_hprime :: "nat \<Rightarrow> bytes \<Rightarrow> bytes" where
  "rfc_hprime T a =
    (if T \<le> 64 then blake2b_spec T (u32_to_le (of_nat T) @ a)
     else
       let r = (T + 31) div 32 - 2
       in concat (map (\<lambda>i. take 32 (rfc_v T a i)) [0..<r]) @ blake2b_spec (T - 32 * r) (rfc_v T a (r - 1)))"

text \<open>
  Section 3.4: the blocks that may be referred to, oldest first. The finished segments (those of
  this pass in the first pass, the last three in a later one), then the current segment, without
  the block written last.
\<close>

definition rfc_segment :: "nat \<Rightarrow> nat \<Rightarrow> nat list" where
  "rfc_segment seg i = [i * seg..<(i + 1) * seg]"

definition rfc_finished :: "bool \<Rightarrow> nat \<Rightarrow> nat list" where
  "rfc_finished first_pass s = (if first_pass then [0..<s] else map (\<lambda>k. (s + 1 + k) mod 4) [0..<3])"

definition rfc_window :: "bool \<Rightarrow> nat \<Rightarrow> nat \<Rightarrow> nat \<Rightarrow> nat list" where
  "rfc_window first_pass s index seg =
    butlast (concat (map (rfc_segment seg) (rfc_finished first_pass s)) @ [s * seg..<s * seg + index])"

definition rfc_position :: "nat \<Rightarrow> nat \<Rightarrow> nat" where
  "rfc_position w j1 = (let x = j1 ^ 2 div 2 ^ 32; y = w * x div 2 ^ 32 in w - 1 - y)"

definition rfc_reference :: "bool \<Rightarrow> nat \<Rightarrow> nat \<Rightarrow> nat \<Rightarrow> nat \<Rightarrow> nat" where
  "rfc_reference first_pass s index seg j =
    (let W = rfc_window first_pass s index seg in W ! rfc_position (length W) (j mod 2 ^ 32))"

text \<open>The word at a position of the data-independent addresses of a segment.\<close>

definition address_input :: "u32 \<Rightarrow> u32 \<Rightarrow> nat \<Rightarrow> nat \<Rightarrow> nat \<Rightarrow> block" where
  "address_input passes blocks pass s counter =
    [of_nat pass, 0, of_nat s, ucast blocks, ucast passes, 2, of_nat counter] @ replicate 121 0"

definition rfc_address :: "u32 \<Rightarrow> u32 \<Rightarrow> nat \<Rightarrow> nat \<Rightarrow> nat \<Rightarrow> u64" where
  "rfc_address passes blocks pass s index =
    (let zero = replicate 128 0
     in rfc9106_G zero (rfc9106_G zero (address_input passes blocks pass s (index div 128 + 1)))
          ! (index mod 128))"

text \<open>One block of the memory.\<close>

definition rfc_step :: "u32 \<Rightarrow> u32 \<Rightarrow> nat \<Rightarrow> nat \<Rightarrow> block list \<Rightarrow> nat \<Rightarrow> block list" where
  "rfc_step passes blocks pass s memory index =
    (let q = unat blocks; seg = q div 4;
         cur = s * seg + index;
         prev = (cur + q - 1) mod q;
         J = (if pass = 0 \<and> s < 2 then rfc_address passes blocks pass s index else memory ! prev ! 0);
         ref = rfc_reference (pass = 0) s index seg (unat J);
         new = rfc9106_G (memory ! prev) (memory ! ref)
     in memory[cur := if pass = 0 then new else map2 (XOR) (memory ! cur) new])"

definition rfc_fill :: "u32 \<Rightarrow> u32 \<Rightarrow> block list \<Rightarrow> block list" where
  "rfc_fill passes blocks memory =
    foldl (\<lambda>memory pass. foldl (\<lambda>memory s.
      foldl (rfc_step passes blocks pass s) memory
        [(if pass = 0 \<and> s = 0 then 2 else 0)..<unat blocks div 4]) memory [0..<4]) memory [0..<unat passes]"

definition rfc_h0 :: "bytes \<Rightarrow> bytes \<Rightarrow> argon2_params \<Rightarrow> bytes" where
  "rfc_h0 password salt params =
    blake2b_spec 64 (u32_to_le 1 @ u32_to_le (of_nat (ap_output_len params)) @ u32_to_le (ap_memory_kib params) @
      u32_to_le (ap_passes params) @ u32_to_le 19 @ u32_to_le 2 @
      u32_to_le (of_nat (length password)) @ password @ u32_to_le (of_nat (length salt)) @ salt @
      u32_to_le 0 @ u32_to_le 0)"

definition rfc_argon2id :: "bytes \<Rightarrow> bytes \<Rightarrow> argon2_params \<Rightarrow> bytes" where
  "rfc_argon2id password salt params =
    (let q = 4 * (unat (ap_memory_kib params) div 4);
         start = \<lambda>i. rfc9106_load (rfc_hprime 1024 (rfc_h0 password salt params @ u32_to_le (of_nat i) @ u32_to_le 0));
         memory = [start 0, start 1] @ replicate (q - 2) (replicate 128 0);
         memory = rfc_fill (ap_passes params) (of_nat q) memory
     in rfc_hprime (ap_output_len params) (rfc9106_store (memory ! (q - 1))))"

definition argon2_valid :: "bytes \<Rightarrow> argon2_params \<Rightarrow> bool" where
  "argon2_valid salt params \<longleftrightarrow>
    8 \<le> ap_memory_kib params \<and> 1 \<le> ap_passes params \<and> 4 \<le> ap_output_len params \<and> 8 \<le> length salt"

lemmas rfc_address_code = rfc_address_def [folded compress_blocks_rfc]
lemmas rfc_step_code = rfc_step_def [folded compress_blocks_rfc]

section \<open>The hashes\<close>

lemma b2_run1:
  assumes "1 \<le> n" "n \<le> 64"
  shows "\<exists>h h1. blake2b_new n = Some h \<and> blake2b_update h a = Some h1 \<and>
    blake2b_finalize_into h1 n = Some (blake2b_spec n a)"
  using b2_hash_spec [OF assms, of "[a]"] by (simp add: b2_hash_def bind_eq_Some_conv)

lemma b2_run2:
  assumes "1 \<le> n" "n \<le> 64"
  shows "\<exists>h h1 h2. blake2b_new n = Some h \<and> blake2b_update h a = Some h1 \<and> blake2b_update h1 b = Some h2 \<and>
    blake2b_finalize_into h2 n = Some (blake2b_spec n (a @ b))"
  using b2_hash_spec [OF assms, of "[a, b]"] by (auto simp: b2_hash_def bind_eq_Some_conv)

lemma rfc_v_length [simp]: "length (rfc_v T a i) = 64"
  by (cases i) (simp_all add: blake2b_spec_length)

lemma hprime_rounds:
  assumes "64 < (T :: nat)" "r = (T + 31) div 32 - 2"
  shows "1 \<le> r" "32 * r + 32 < T" "T \<le> 32 * r + 64"
  using assms by linarith+

lemma hash_chain_run:
  assumes T: "64 < T" and r: "r = (T + 31) div 32 - 2" and j: "Suc j \<le> r"
  shows "hash_chain T (32 * Suc j) (concat (map (\<lambda>i. take 32 (rfc_v T a i)) [0..<Suc j])) (rfc_v T a j) =
    Some (concat (map (\<lambda>i. take 32 (rfc_v T a i)) [0..<r]), rfc_v T a (r - 1), 32 * r)"
  using j
proof (induction "r - Suc j" arbitrary: j)
  case 0
  then have "Suc j = r" by simp
  then show ?case using hprime_rounds [OF T r] by (subst hash_chain.simps) auto
next
  case (Suc d)
  have le: "Suc (Suc j) \<le> r" using Suc.hyps(2) by simp
  have "d = r - Suc (Suc j)" using Suc.hyps(2) by simp
  note IH = Suc.hyps(1) [OF this le]
  obtain h h1 where h: "blake2b_new 64 = Some h" "blake2b_update h (rfc_v T a j) = Some h1"
      "blake2b_finalize_into h1 64 = Some (rfc_v T a (Suc j))"
    using b2_run1 [of 64 "rfc_v T a j"] by auto
  have "32 * Suc (Suc j) \<le> 32 * r" using le by (rule mult_le_mono2)
  then have "64 < T - 32 * Suc j" using hprime_rounds(2) [OF T r] by simp
  then show ?case using IH h by (subst hash_chain.simps) (simp add: add.commute)
qed

lemma hash_prime_spec:
  assumes "1 \<le> T"
  shows "hash_prime a T = Some (rfc_hprime T a)"
proof (cases "T \<le> 64")
  case True
  then show ?thesis using b2_run2 [OF assms True, of "u32_to_le (of_nat T)" a]
    by (auto simp: hash_prime_def rfc_hprime_def)
next
  case False
  let ?r = "(T + 31) div 32 - 2"
  have T: "64 < T" using False by simp
  note r = hprime_rounds [OF T refl]
  obtain h h1 h2 where h: "blake2b_new 64 = Some h" "blake2b_update h (u32_to_le (of_nat T)) = Some h1"
      "blake2b_update h1 a = Some h2" "blake2b_finalize_into h2 64 = Some (rfc_v T a 0)"
    using b2_run2 [of 64 "u32_to_le (of_nat T)" a] by auto
  have chain: "hash_chain T 32 (take 32 (rfc_v T a 0)) (rfc_v T a 0) =
      Some (concat (map (\<lambda>i. take 32 (rfc_v T a i)) [0..<?r]), rfc_v T a (?r - 1), 32 * ?r)"
    using hash_chain_run [OF T refl, of 0 a] r(1) by simp
  have "1 \<le> T - 32 * ?r" "T - 32 * ?r \<le> 64" using r by linarith+
  from b2_run1 [OF this, of "rfc_v T a (?r - 1)"] show ?thesis
    using False h chain by (auto simp: hash_prime_def rfc_hprime_def Let_def simp del: rfc_v.simps)
qed

lemma rfc_hprime_length: "length (rfc_hprime T a) = T"
proof (cases "T \<le> 64")
  case False
  then have T: "64 < T" by simp
  have "length (concat (map (\<lambda>i. take 32 (rfc_v T a i)) [0..<r])) = 32 * r" for r
    by (induction r) simp_all
  then show ?thesis using False hprime_rounds [OF T refl]
    by (simp add: rfc_hprime_def Let_def blake2b_spec_length)
qed (simp add: rfc_hprime_def blake2b_spec_length)

section \<open>The reference\<close>

definition window_start :: "bool \<Rightarrow> nat \<Rightarrow> nat \<Rightarrow> nat" where
  "window_start first_pass s seg = (if first_pass \<or> s = 3 then 0 else (s + 1) * seg)"

definition window_size :: "bool \<Rightarrow> nat \<Rightarrow> nat \<Rightarrow> nat \<Rightarrow> nat" where
  "window_size first_pass s index seg = (if first_pass then s * seg else 3 * seg) + index - 1"

lemma concat_segments: "concat (map (rfc_segment seg) [a..<a + n]) = [a * seg..<(a + n) * seg]"
proof (induction n)
  case (Suc n)
  have "[a * seg..<(a + Suc n) * seg] = [a * seg..<(a + n) * seg] @ [(a + n) * seg..<(a + n + 1) * seg]"
    using upt_add_eq_append [of "a * seg" "(a + n) * seg" seg] by (simp add: add_mult_distrib add.commute)
  with Suc show ?case by (simp add: rfc_segment_def)
qed simp

lemma butlast_upto: "butlast [a..<b] = [a..<b - 1]"
  by (cases b) simp_all

lemma finished_later_all: "\<forall>s\<in>set [0..<4]. rfc_finished False s = [s + 1..<s + 1 + (3 - s)] @ [0..<0 + s]"
  by (simp add: rfc_finished_def upt_rec)

lemma window_later:
  assumes "s < 4"
  shows "rfc_window False s index seg = butlast ([(s + 1) * seg..<4 * seg] @ [0..<s * seg + index])"
proof -
  have f: "rfc_finished False s = [s + 1..<s + 1 + (3 - s)] @ [0..<0 + s]"
    using finished_later_all assms by simp
  have "s + 1 + (3 - s) = 4" using assms by simp
  then have "concat (map (rfc_segment seg) (rfc_finished False s)) = [(s + 1) * seg..<4 * seg] @ [0..<s * seg]"
    unfolding f map_append concat_append concat_segments by simp
  moreover have "[0..<s * seg] @ [s * seg..<s * seg + index] = [0..<s * seg + index]"
    by (rule upt_add_eq_append [symmetric]) simp
  ultimately show ?thesis by (simp only: rfc_window_def append_assoc)
qed

lemma window_first: "rfc_window True s index seg = [0..<s * seg + index - 1]"
  using concat_segments [of seg 0 s]
  by (simp add: rfc_window_def rfc_finished_def butlast_upto flip: upt_add_eq_append)

lemma window_length: "s < 4 \<Longrightarrow> length (rfc_window first_pass s index seg) = window_size first_pass s index seg"
proof (cases first_pass)
  case False
  assume "s < 4"
  then have "(3 - s) * seg + s * seg = 3 * seg" by (simp flip: add_mult_distrib)
  then show ?thesis using False \<open>s < 4\<close>
    by (simp add: window_later window_size_def flip: diff_mult_distrib)
qed (simp add: window_first window_size_def)

lemma window_nth:
  assumes s: "s < 4" and index: "index < seg" and i: "i < window_size first_pass s index seg"
  shows "rfc_window first_pass s index seg ! i = (window_start first_pass s seg + i) mod (4 * seg)"
proof (cases first_pass)
  case True
  have "s * seg \<le> 3 * seg" using s by (intro mult_le_mono1) simp
  moreover have "i < s * seg + index - 1" using i by (simp add: window_size_def True)
  ultimately have "i < 4 * seg" using index by linarith
  then show ?thesis using True i by (simp add: window_first window_start_def window_size_def)
next
  case False
  have len: "length ([(s + 1) * seg..<4 * seg] @ [0..<s * seg + index]) = Suc (window_size False s index seg)"
    using window_length [OF s, of False index seg] index i False by (simp add: window_later [OF s])
  have "rfc_window False s index seg ! i = ([(s + 1) * seg..<4 * seg] @ [0..<s * seg + index]) ! i"
    using i len False by (simp only: window_later [OF s] nth_butlast length_butlast)
  also have "\<dots> = (window_start False s seg + i) mod (4 * seg)"
  proof (cases "i < (3 - s) * seg")
    case True
    have "(s + 1) * seg + (3 - s) * seg = 4 * seg" using s by (simp flip: add_mult_distrib)
    moreover from this have "s < 3" using True s by (cases "s = 3") simp_all
    ultimately show ?thesis using True by (simp add: window_start_def nth_append diff_mult_distrib)
  next
    case False
    have e: "(s + 1) * seg + (3 - s) * seg = 4 * seg" using s by (simp flip: add_mult_distrib)
    obtain m where m: "i = (3 - s) * seg + m" using False by (metis le_add_diff_inverse not_less)
    have "Suc i < (4 - (s + 1)) * seg + (s * seg + index) + 1"
      using i len e \<open>\<not> first_pass\<close> by (simp add: diff_mult_distrib)
    then have ml: "m < s * seg + index" by (simp add: m)
    have "s * seg \<le> 3 * seg" using s by (intro mult_le_mono1) simp
    then have m4: "m < 4 * seg" using ml index by linarith
    have "([(s + 1) * seg..<4 * seg] @ [0..<s * seg + index]) ! i = m"
      using ml by (simp add: nth_append m diff_mult_distrib)
    moreover have "(window_start False s seg + i) mod (4 * seg) = m"
    proof (cases "s = 3")
      case True
      then show ?thesis using m4 by (simp add: window_start_def m)
    next
      case False
      then have "window_start False s seg + i = m + 4 * seg" using e by (simp add: window_start_def m)
      then show ?thesis using m4 by simp
    qed
    ultimately show ?thesis by simp
  qed
  finally show ?thesis using False by simp
qed

lemma position_bound: "0 < w \<Longrightarrow> j1 < (2 :: nat) ^ 32 \<Longrightarrow> w * (j1 ^ 2 div 2 ^ 32) div 2 ^ 32 \<le> w - 1"
proof -
  assume w: "0 < w" and j: "j1 < (2 :: nat) ^ 32"
  have "j1 ^ 2 < 2 ^ 32 * 2 ^ 32"
    using mult_strict_mono [OF j j] j by (simp add: power2_eq_square)
  then have x: "j1 ^ 2 div 2 ^ 32 < 2 ^ 32" by (simp add: less_mult_imp_div_less)
  then have "w * (j1 ^ 2 div 2 ^ 32) < w * 2 ^ 32" using w by simp
  then have "w * (j1 ^ 2 div 2 ^ 32) div 2 ^ 32 < w" by (rule less_mult_imp_div_less)
  then show ?thesis by simp
qed

lemma position_less: "0 < w \<Longrightarrow> rfc_position w j1 < w"
  by (simp add: rfc_position_def Let_def)

text \<open>The computation of the relative position in 64-bit words.\<close>

lemma relative_words:
  assumes area: "1 \<le> area" "area < 2 ^ 32"
  shows "(do { last_position \<leftarrow> sub_u64 (of_nat area) 1;
      relative \<leftarrow> sub_u64 last_position
        (drop_bit 32 (of_nat area * drop_bit 32 ((J AND 0xffffffff) * (J AND 0xffffffff))));
      Some (f (unat relative)) }) = Some (f (rfc_position area (unat J mod 2 ^ 32)))"
proof -
  let ?j = "J AND 0xffffffff"
  have j: "unat ?j = unat J mod 2 ^ 32" using unat_and_mask [of J 32] by (simp add: mask_eq_exp_minus_1)
  then have jb: "unat ?j < 2 ^ 32" by simp
  have "unat ?j * unat ?j \<le> 4294967295 * 4294967295" using jb by (intro mult_bound) simp_all
  then have jj: "unat (?j * ?j) = unat ?j * unat ?j" by (intro unat_mul64) simp
  then have x: "unat (drop_bit 32 (?j * ?j)) = (unat J mod 2 ^ 32) ^ 2 div 2 ^ 32"
    by (simp only: unat_shr j power2_eq_square)
  have a: "unat (of_nat area :: u64) = area" using area(2) by (simp add: unat_of_nat)
  have "unat (drop_bit 32 (?j * ?j)) < 2 ^ 32"
  proof -
    have "unat ?j * unat ?j < 2 ^ 32 * 2 ^ 32" using mult_strict_mono [OF jb jb] by simp
    then show ?thesis by (simp only: unat_shr jj less_mult_imp_div_less)
  qed
  then have "area * unat (drop_bit 32 (?j * ?j)) \<le> 4294967295 * 4294967295"
    using area(2) by (intro mult_bound) simp_all
  then have prod: "unat (of_nat area * drop_bit 32 (?j * ?j)) = area * unat (drop_bit 32 (?j * ?j))"
    using unat_mul64 [of "of_nat area" "drop_bit 32 (?j * ?j)"] by (simp only: a)
  have y: "unat (drop_bit 32 (of_nat area * drop_bit 32 (?j * ?j))) =
      area * ((unat J mod 2 ^ 32) ^ 2 div 2 ^ 32) div 2 ^ 32"
    unfolding unat_shr [of 32 "of_nat area * drop_bit 32 (?j * ?j)"] prod x ..
  have yb: "area * ((unat J mod 2 ^ 32) ^ 2 div 2 ^ 32) div 2 ^ 32 \<le> area - 1"
    by (rule position_bound) (use area in simp_all)
  have l: "sub_u64 (of_nat area) 1 = Some (of_nat area - 1)" "unat (of_nat area - 1 :: u64) = area - 1"
    using area a by (simp_all add: sub_u64_def word_le_nat_alt unat_sub)
  have "sub_u64 (of_nat area - 1) (drop_bit 32 (of_nat area * drop_bit 32 (?j * ?j))) =
      Some (of_nat area - 1 - drop_bit 32 (of_nat area * drop_bit 32 (?j * ?j)))"
    using yb by (simp only: sub_u64_def word_le_nat_alt l(2) y if_True)
  moreover have "unat (of_nat area - 1 - drop_bit 32 (of_nat area * drop_bit 32 (?j * ?j)) :: u64) =
      rfc_position area (unat J mod 2 ^ 32)"
    using yb by (simp only: unat_sub word_le_nat_alt l(2) y rfc_position_def Let_def)
  ultimately show ?thesis by (simp add: l(1))
qed

text \<open>The position of a block in the memory, and the parameters of a fill.\<close>

definition fill_ok :: "nat \<Rightarrow> nat \<Rightarrow> nat \<Rightarrow> nat \<Rightarrow> bool" where
  "fill_ok seg pass s index \<longleftrightarrow>
    2 \<le> seg \<and> 4 * seg < 2 ^ 32 \<and> s < 4 \<and> index < seg \<and> (pass = 0 \<and> s = 0 \<longrightarrow> 2 \<le> index)"

lemma fill_ok_current: "fill_ok seg pass s index \<Longrightarrow> s * seg + index < 4 * seg"
proof -
  assume ok: "fill_ok seg pass s index"
  then have "s * seg \<le> 3 * seg" by (intro mult_le_mono1) (simp add: fill_ok_def)
  then show ?thesis using ok unfolding fill_ok_def by linarith
qed

lemma fill_ok_size:
  assumes "fill_ok seg pass s index"
  shows "1 \<le> window_size (pass = 0) s index seg" "window_size (pass = 0) s index seg < 4 * seg"
proof -
  have "2 \<le> s * seg + index" if "pass = 0"
  proof (cases "s = 0")
    case False
    then have "1 * seg \<le> s * seg" by (intro mult_le_mono1) simp
    then show ?thesis using assms unfolding fill_ok_def by linarith
  qed (use assms that in \<open>simp add: fill_ok_def\<close>)
  then show "1 \<le> window_size (pass = 0) s index seg"
    using assms unfolding fill_ok_def window_size_def by (cases "pass = 0"; simp only: if_True if_False simp_thms; linarith)
  show "window_size (pass = 0) s index seg < 4 * seg"
    using fill_ok_current [OF assms] assms unfolding fill_ok_def window_size_def by (cases "pass = 0") auto
qed

lemma reference_index_spec:
  assumes ok: "fill_ok seg pass s index"
  shows "reference_index J pass s index seg (4 * seg) = Some (rfc_reference (pass = 0) s index seg (unat J))"
    and "rfc_reference (pass = 0) s index seg (unat J) < 4 * seg"
proof -
  let ?w = "window_size (pass = 0) s index seg"
  have w: "1 \<le> ?w" "?w < 2 ^ 32"
    using fill_ok_size [OF ok] ok unfolding fill_ok_def by linarith+
  have s: "s < 4" "index < seg" using ok by (simp_all add: fill_ok_def)
  have r: "rfc_reference (pass = 0) s index seg (unat J) =
      (window_start (pass = 0) s seg + rfc_position ?w (unat J mod 2 ^ 32)) mod (4 * seg)"
    unfolding rfc_reference_def Let_def window_length [OF s(1)]
    by (rule window_nth [OF s position_less]) (use w in simp)
  then show "rfc_reference (pass = 0) s index seg (unat J) < 4 * seg" using s by simp
  have area: "(if pass = 0 then do { area \<leftarrow> sub_usize (s * seg + index) 1; Some (area, 0) }
      else do { rest \<leftarrow> sub_usize (4 * seg) seg; area \<leftarrow> sub_usize (rest + index) 1;
        Some (area, if s = 3 then 0 else (s + 1) * seg) }) = Some (?w, window_start (pass = 0) s seg)"
  proof (cases "pass = 0")
    case True
    then have "1 \<le> s * seg + index" using w(1) by (simp add: window_size_def)
    then show ?thesis using True by (simp add: sub_usize_def window_size_def window_start_def)
  next
    case False
    then have "1 \<le> 3 * seg + index" using w(1) by (simp add: window_size_def)
    then show ?thesis using False by (simp add: sub_usize_def window_size_def window_start_def)
  qed
  show "reference_index J pass s index seg (4 * seg) = Some (rfc_reference (pass = 0) s index seg (unat J))"
    unfolding reference_index_def area Let_def bind.bind_lunit prod.case r by (rule relative_words [OF w])
qed

section \<open>The addresses\<close>

text \<open>The generator before it serves position \<open>index\<close> of the segment.\<close>

definition address_inv :: "u32 \<Rightarrow> u32 \<Rightarrow> nat \<Rightarrow> nat \<Rightarrow> nat \<Rightarrow> segment_state \<Rightarrow> bool" where
  "address_inv passes blocks pass s index st \<longleftrightarrow>
    (let counter = (index + 127) div 128 in
      sg_counter st = of_nat counter \<and> sg_input st = address_input passes blocks pass s counter \<and>
      (index mod 128 \<noteq> 0 \<longrightarrow> sg_address st = next_address_block (address_input passes blocks pass s counter)))"

lemma round_up: "(i + 127) div 128 = (if i mod 128 = 0 then i div 128 else i div 128 + (1 :: nat))"
proof -
  obtain q r where i: "i = 128 * q + r" "r < 128"
    by (metis mult_div_mod_eq mod_less_divisor zero_less_numeral)
  have "(128 * q + r + 127) div 128 = (if r = 0 then q else q + 1)"
    using i(2) by (auto intro: div_nat_eqI)
  then show ?thesis using i by simp
qed

lemma next_addresses_sel:
  assumes "sg_counter st = of_nat c" "sg_input st = address_input passes blocks pass s c"
  shows "sg_memory (next_addresses st) = sg_memory st" "sg_counter (next_addresses st) = of_nat (c + 1)"
    "sg_input (next_addresses st) = address_input passes blocks pass s (c + 1)"
    "sg_address (next_addresses st) = next_address_block (address_input passes blocks pass s (c + 1))"
  using assms by (simp_all add: next_addresses_def Let_def address_input_def add.commute)

lemma address_step:
  fixes st :: segment_state and index :: nat
  defines "st' \<equiv> if index mod QWORDS = 0 then next_addresses st else st"
  assumes "address_inv passes blocks pass s index st"
  shows "sg_memory st' = sg_memory st" "address_inv passes blocks pass s (Suc index) (st'\<lparr>sg_memory := m\<rparr>)"
    "sg_address st' ! (index mod QWORDS) = rfc_address passes blocks pass s index"
proof -
  let ?c = "(index + 127) div 128"
  have i: "sg_counter st = of_nat ?c" "sg_input st = address_input passes blocks pass s ?c"
    using assms(2) by (simp_all add: address_inv_def Let_def)
  have c: "?c = (if index mod 128 = 0 then index div 128 else index div 128 + 1)"
    by (rule round_up)
  have c': "(Suc index + 127) div 128 = index div 128 + 1" by simp
  have new: "sg_counter st' = of_nat (index div 128 + 1)"
    "sg_input st' = address_input passes blocks pass s (index div 128 + 1)"
    "sg_address st' = next_address_block (address_input passes blocks pass s (index div 128 + 1))"
  proof -
    have "sg_address st = next_address_block (address_input passes blocks pass s ?c)" if "index mod 128 \<noteq> 0"
      using assms(2) that by (simp add: address_inv_def Let_def)
    note old = i this
    show "sg_counter st' = of_nat (index div 128 + 1)"
      "sg_input st' = address_input passes blocks pass s (index div 128 + 1)"
      "sg_address st' = next_address_block (address_input passes blocks pass s (index div 128 + 1))"
      using next_addresses_sel(2-4) [OF i] old unfolding c st'_def QWORDS_def
      by (cases "index mod 128 = 0"; simp only: if_True if_False not_True_eq_False not_False_eq_True simp_thms)+
  qed
  show "sg_memory st' = sg_memory st" using next_addresses_sel(1) [OF i] by (simp add: st'_def)
  show "address_inv passes blocks pass s (Suc index) (st'\<lparr>sg_memory := m\<rparr>)"
    unfolding address_inv_def Let_def c' using new by simp
  show "sg_address st' ! (index mod QWORDS) = rfc_address passes blocks pass s index"
    using new(3) by (simp add: rfc_address_code next_address_block_def QWORDS_def Let_def)
qed

section \<open>The memory\<close>

definition memory_wf :: "nat \<Rightarrow> block list \<Rightarrow> bool" where
  "memory_wf n memory \<longleftrightarrow> length memory = n \<and> (\<forall>b\<in>set memory. length b = QWORDS)"

lemma compress_blocks_length [simp]: "length (compress_blocks x y) = 128"
  by (simp add: compress_blocks_def QWORDS_def Let_def)

lemma memory_wf_update: "memory_wf n memory \<Longrightarrow> length b = QWORDS \<Longrightarrow> memory_wf n (memory[i := b])"
  by (auto simp: memory_wf_def dest: set_update_subset_insert [THEN subsetD])

lemma rfc_step_wf:
  assumes "memory_wf (unat blocks) memory" "s * (unat blocks div 4) + index < unat blocks"
  shows "memory_wf (unat blocks) (rfc_step passes blocks pass s memory index)"
proof -
  have "length (memory ! (s * (unat blocks div 4) + index)) = QWORDS"
    using assms by (simp add: memory_wf_def)
  then show ?thesis
    using assms(1) by (simp add: rfc_step_code Let_def memory_wf_update QWORDS_def)
qed

lemma map_zip_xor: "map (\<lambda>(slot, v). slot XOR v) (zip a b) = map2 (XOR) a b"
  by (rule refl)

lemma previous_eq: "cur < q \<Longrightarrow> (if cur = 0 then q - 1 else cur - 1) = (cur + q - 1) mod (q :: nat)"
  by (cases cur) simp_all

lemma fill_index_run:
  assumes "st0 = (if di \<and> index mod QWORDS = 0 then next_addresses st else st)"
    and "length (sg_memory st0) = q" and "s * seg + index < q"
    and "reference_index (if di then sg_address st0 ! (index mod QWORDS)
        else sg_memory st0 ! ((s * seg + index + q - 1) mod q) ! 0) pass s index seg q = Some ref"
    and "ref < q"
  shows "fill_index pass s seg q di index st = Some (st0\<lparr>sg_memory := (sg_memory st0)[s * seg + index :=
    if pass = 0 then compress_blocks (sg_memory st0 ! ((s * seg + index + q - 1) mod q)) (sg_memory st0 ! ref)
    else map2 (XOR) (sg_memory st0 ! (s * seg + index))
      (compress_blocks (sg_memory st0 ! ((s * seg + index + q - 1) mod q)) (sg_memory st0 ! ref))]\<rparr>)"
proof -
  have prev: "(s * seg + index + q - 1) mod q < q" using assms(3) by simp
  show ?thesis
    unfolding fill_index_def assms(1) [symmetric] previous_eq [OF assms(3)] Let_def mem_at_def assms(2)
      if_P [OF prev] bind.bind_lunit assms(4) if_P [OF assms(5)] if_P [OF assms(3)] ..
qed

lemma fill_index_spec:
  assumes ok: "fill_ok seg pass s index" and blocks: "unat blocks = 4 * seg"
    and wf: "memory_wf (4 * seg) (sg_memory st)"
    and addr: "pass = 0 \<and> s < 2 \<Longrightarrow> address_inv passes blocks pass s index st"
  shows "\<exists>st'. fill_index pass s seg (4 * seg) (pass = 0 \<and> s < 2) index st = Some st' \<and>
    sg_memory st' = rfc_step passes blocks pass s (sg_memory st) index \<and>
    (pass = 0 \<and> s < 2 \<longrightarrow> address_inv passes blocks pass s (Suc index) st')"
proof -
  let ?di = "pass = 0 \<and> s < 2" and ?cur = "s * seg + index" and ?q = "4 * seg"
  let ?st = "if ?di \<and> index mod QWORDS = 0 then next_addresses st else st"
  have mem: "sg_memory ?st = sg_memory st"
    using address_step(1) [OF addr] by auto
  have next_inv: "address_inv passes blocks pass s (Suc index) (?st\<lparr>sg_memory := m\<rparr>)" if ?di for m
    using address_step(2) [OF addr [OF that]] that by simp
  have adr: "sg_address ?st ! (index mod QWORDS) = rfc_address passes blocks pass s index" if ?di
    using address_step(3) [OF addr [OF that]] that by simp
  have cur: "?cur < ?q" by (rule fill_ok_current [OF ok])
  let ?prev = "(?cur + ?q - 1) mod ?q"
  have len: "length (sg_memory st) = ?q" using wf by (simp add: memory_wf_def)
  have prev: "?prev < ?q" using cur by simp
  let ?J = "if ?di then sg_address ?st ! (index mod QWORDS) else sg_memory st ! ?prev ! 0"
  have J: "?J = (if ?di then rfc_address passes blocks pass s index else sg_memory st ! ?prev ! 0)"
    using adr by simp
  note ref = reference_index_spec [OF ok, of ?J]
  have "fill_index pass s seg ?q ?di index st =
      Some (?st\<lparr>sg_memory := rfc_step passes blocks pass s (sg_memory st) index\<rparr>)"
    unfolding fill_index_run [OF refl len [folded mem] cur ref [folded mem]] mem J
    by (simp only: rfc_step_code Let_def blocks nonzero_mult_div_cancel_left zero_neq_numeral not_False_eq_True)
  then show ?thesis using next_inv by auto
qed

lemma fill_indices_spec:
  assumes seg: "2 \<le> seg" "4 * seg < 2 ^ 32" and s: "s < 4" and blocks: "unat blocks = 4 * seg"
    and i: "i \<le> seg" "pass = 0 \<and> s = 0 \<longrightarrow> 2 \<le> i"
    and wf: "memory_wf (4 * seg) (sg_memory st)"
    and addr: "pass = 0 \<and> s < 2 \<longrightarrow> address_inv passes blocks pass s i st"
  shows "\<exists>st'. ofold (fill_index pass s seg (4 * seg) (pass = 0 \<and> s < 2)) [i..<seg] st = Some st' \<and>
    sg_memory st' = foldl (rfc_step passes blocks pass s) (sg_memory st) [i..<seg] \<and>
    memory_wf (4 * seg) (sg_memory st')"
  using i wf addr
proof (induction "seg - i" arbitrary: i st)
  case 0
  then show ?case by simp
next
  case (Suc d)
  have ok: "fill_ok seg pass s i" using seg s Suc.hyps(2) Suc.prems(2) by (simp add: fill_ok_def)
  obtain st1 where st1: "fill_index pass s seg (4 * seg) (pass = 0 \<and> s < 2) i st = Some st1"
      "sg_memory st1 = rfc_step passes blocks pass s (sg_memory st) i"
      "pass = 0 \<and> s < 2 \<longrightarrow> address_inv passes blocks pass s (Suc i) st1"
    using fill_index_spec [OF ok blocks Suc.prems(3), of passes] Suc.prems(4) by blast
  have wf1: "memory_wf (4 * seg) (sg_memory st1)"
    using rfc_step_wf [of blocks "sg_memory st" s i] fill_ok_current [OF ok] Suc.prems(3) st1(2) blocks by simp
  have i: "i < seg" "d = seg - Suc i" "Suc i \<le> seg" using Suc.hyps(2) by simp_all
  have two: "pass = 0 \<and> s = 0 \<longrightarrow> 2 \<le> Suc i" using Suc.prems(2) by auto
  show ?case
    using Suc.hyps(1) [OF i(2,3) two wf1 st1(3)] st1(1,2) i(1) by (simp only: upt_conv_Cons ofold.simps foldl.simps bind.bind_lunit)
qed

text \<open>The loops over slices and passes.\<close>

lemma fill_segment_spec:
  assumes q: "unat blocks = 4 * seg" "2 \<le> seg" and s: "s < 4" and wf: "memory_wf (4 * seg) memory"
  shows "fill_segment passes blocks pass s memory =
      Some (foldl (rfc_step passes blocks pass s) memory [(if pass = 0 \<and> s = 0 then 2 else 0)..<seg])"
    and "memory_wf (4 * seg) (foldl (rfc_step passes blocks pass s) memory [(if pass = 0 \<and> s = 0 then 2 else 0)..<seg])"
proof -
  let ?di = "pass = 0 \<and> s < 2" and ?start = "if pass = 0 \<and> s = 0 then 2 else 0 :: nat"
  let ?input = "if ?di then (replicate QWORDS 0)[0 := of_nat pass, 1 := 0, 2 := of_nat s, 3 := ucast blocks,
      4 := ucast passes, 5 := 2] else replicate QWORDS 0"
  let ?init = "\<lparr>sg_memory = memory, sg_input = ?input, sg_address = replicate QWORDS 0, sg_counter = 0\<rparr>"
  let ?st = "if ?di \<and> ?start = 2 then next_addresses ?init else ?init"
  have bound: "4 * seg < 2 ^ 32" using unat_bounds(3) [of blocks] q(1) by simp
  have seg: "unat (blocks div 4) = seg" using q(1) by (simp add: unat_div)
  have input: "?input = address_input passes blocks pass s 0" if ?di
    using that by (simp add: address_input_def QWORDS_def numeral_eq_Suc)
  have mem: "sg_memory ?st = memory" by (simp add: next_addresses_def Let_def)
  have inv: "address_inv passes blocks pass s ?start ?st" if ?di
  proof -
    have st0: "sg_counter ?init = of_nat 0" "sg_input ?init = address_input passes blocks pass s 0"
      using input [OF that] by simp_all
    show ?thesis
    proof (cases "s = 0")
      case True
      then show ?thesis using next_addresses_sel [OF st0] that by (simp add: address_inv_def)
    next
      case False
      then show ?thesis using st0 by (simp add: address_inv_def)
    qed
  qed
  have start: "?start \<le> seg" "pass = 0 \<and> s = 0 \<longrightarrow> 2 \<le> ?start" using q(2) by simp_all
  have wf': "memory_wf (4 * seg) (sg_memory ?st)" unfolding mem by (rule wf)
  have inv': "?di \<longrightarrow> address_inv passes blocks pass s ?start ?st" using inv by blast
  obtain st' where st': "ofold (fill_index pass s seg (4 * seg) ?di) [?start..<seg] ?st = Some st'"
      "sg_memory st' = foldl (rfc_step passes blocks pass s) memory [?start..<seg]"
      "memory_wf (4 * seg) (sg_memory st')"
    using fill_indices_spec [OF q(2) bound s q(1) start wf' inv'] unfolding mem by blast
  show "fill_segment passes blocks pass s memory = Some (foldl (rfc_step passes blocks pass s) memory [?start..<seg])"
    unfolding fill_segment_def Let_def seg q(1) using st'(1,2) by (simp only: bind.bind_lunit)
  show "memory_wf (4 * seg) (foldl (rfc_step passes blocks pass s) memory [?start..<seg])"
    using st'(2,3) by simp
qed

lemma ofold_foldl:
  assumes "\<And>x s. x \<in> set xs \<Longrightarrow> P s \<Longrightarrow> f x s = Some (g s x) \<and> P (g s x)" and "P s"
  shows "ofold f xs s = Some (foldl g s xs) \<and> P (foldl g s xs)"
  using assms
proof (induction xs arbitrary: s)
  case (Cons x xs)
  then have "f x s = Some (g s x)" "P (g s x)" by simp_all
  then show ?case using Cons.IH [of "g s x"] Cons.prems(1) by simp
qed simp

lemma fill_memory_spec:
  assumes q: "unat blocks = 4 * seg" "2 \<le> seg" and wf: "memory_wf (4 * seg) memory"
  shows "fill_memory passes blocks memory = Some (rfc_fill passes blocks memory) \<and>
    memory_wf (4 * seg) (rfc_fill passes blocks memory)"
proof -
  have d: "unat blocks div 4 = seg" using q by simp
  have slices: "ofold (\<lambda>s m. fill_segment passes blocks pass s m) [0..<4] m =
        Some (foldl (\<lambda>m s. foldl (rfc_step passes blocks pass s) m [(if pass = 0 \<and> s = 0 then 2 else 0)..<seg]) m [0..<4]) \<and>
      memory_wf (4 * seg) (foldl (\<lambda>m s. foldl (rfc_step passes blocks pass s) m [(if pass = 0 \<and> s = 0 then 2 else 0)..<seg]) m [0..<4])"
    if "memory_wf (4 * seg) m" for pass m
    by (rule ofold_foldl [where P = "memory_wf (4 * seg)", OF _ that]) (use fill_segment_spec [OF q] in simp)
  show ?thesis
    unfolding fill_memory_def rfc_fill_def d
    by (rule ofold_foldl [where P = "memory_wf (4 * seg)", OF _ wf]) (rule slices)
qed

section \<open>The function\<close>

lemma first_blocks:
  assumes "2 \<le> q"
  shows "ofold (first_block h0) [0..<2] (replicate q (replicate QWORDS 0)) =
    Some ([rfc9106_load (rfc_hprime 1024 (h0 @ u32_to_le (of_nat 0) @ u32_to_le 0)),
      rfc9106_load (rfc_hprime 1024 (h0 @ u32_to_le (of_nat 1) @ u32_to_le 0))] @ replicate (q - 2) (replicate 128 0))"
proof -
  obtain n where "q = Suc (Suc n)" using assms by (metis add_2_eq_Suc le_Suc_ex)
  then show ?thesis
    by (simp add: upt_rec first_block_def hash_prime_spec BLOCK_LEN_def mem_at_def QWORDS_def bytes_to_block_rfc rfc_hprime_length)
qed

lemma blocks_value: "unat ((m div 4) * 4 :: u32) = 4 * (unat m div 4)"
proof -
  have "unat m div 4 * 4 < 2 ^ 32" using unat_bounds(3) [of m] by simp
  then show ?thesis by (simp add: unat_word_ariths unat_div)
qed

lemma h0_bytes_eq: "blake2b_spec 64 (h0_bytes password salt params) = rfc_h0 password salt params"
  by (simp add: h0_bytes_def rfc_h0_def)

lemma argon2id_spec:
  "argon2id password salt params =
    Some (if argon2_valid salt params then Inr (rfc_argon2id password salt params) else Inl InvalidParams)"
proof (cases "argon2_valid salt params")
  case False
  then have "ap_memory_kib params < 8 \<or> ap_passes params = 0 \<or> ap_output_len params < 4 \<or> length salt < 8"
    unfolding argon2_valid_def not_le [symmetric] using word_gt_0 [of "ap_passes params"]
    by (metis le_less_linear not_le word_le_less_eq word_not_simps(1) One_nat_def word_coorder.not_eq_extremum
        order.strict_implies_not_eq word_less_1)
  then show ?thesis using False by (simp add: argon2id_def)
next
  case True
  let ?blocks = "(ap_memory_kib params div 4) * 4" and ?seg = "unat (ap_memory_kib params) div 4"
  have "8 \<le> unat (ap_memory_kib params)" using True by (simp add: argon2_valid_def word_le_nat_alt)
  then have seg: "2 \<le> ?seg" by simp
  have q: "unat ?blocks = 4 * ?seg" by (rule blocks_value)
  have of_q: "of_nat (4 * ?seg) = ?blocks" by (simp flip: q)
  let ?h0 = "rfc_h0 password salt params"
  let ?start = "\<lambda>i. rfc9106_load (rfc_hprime 1024 (?h0 @ u32_to_le (of_nat i) @ u32_to_le 0))"
  let ?m = "[?start 0, ?start 1] @ replicate (4 * ?seg - 2) (replicate 128 0)"
  let ?r = "rfc_fill (ap_passes params) ?blocks ?m"
  obtain h h1 where h: "blake2b_new 64 = Some h" "blake2b_update h (h0_bytes password salt params) = Some h1"
      "blake2b_finalize_into h1 64 = Some ?h0"
    using b2_run1 [of 64 "h0_bytes password salt params"] h0_bytes_eq by auto
  have first: "ofold (first_block ?h0) [0..<2] (replicate (4 * ?seg) (replicate QWORDS 0)) = Some ?m"
    by (rule first_blocks) (use seg in linarith)
  have "memory_wf (4 * ?seg) ?m"
    using seg by (auto simp: memory_wf_def QWORDS_def rfc9106_load_def)
  note fill = fill_memory_spec [OF q seg this, of "ap_passes params"]
  have last_block: "mem_at ?r (4 * ?seg - 1) = Some (?r ! (4 * ?seg - 1))"
    using fill seg by (auto simp: mem_at_def memory_wf_def)
  have "length (?r ! (4 * ?seg - 1)) = 128"
    using fill seg by (simp add: memory_wf_def QWORDS_def)
  note store = block_to_bytes_rfc [OF this]
  have "1 \<le> ap_output_len params" using True by (simp add: argon2_valid_def)
  note out = hash_prime_spec [OF this, of "block_to_bytes (?r ! (4 * ?seg - 1))", unfolded store]
  have valid: "\<not> (ap_memory_kib params < 8 \<or> ap_passes params = 0 \<or> ap_output_len params < 4 \<or> length salt < 8)"
    using True by (auto simp: argon2_valid_def not_less)
  show ?thesis
    unfolding argon2id_def if_not_P [OF valid] if_P [OF True] Let_def q bind.bind_lunit h first
      conjunct1 [OF fill] last_block store out rfc_argon2id_def of_q ..
qed

lemma rfc_argon2id_length: "length (rfc_argon2id password salt params) = ap_output_len params"
  by (simp add: rfc_argon2id_def Let_def rfc_hprime_length)

section \<open>Properties\<close>

text \<open>
  C17. Argon2id: the code never panics; it refuses exactly the parameters outside the documented
  ranges and otherwise returns the hash of RFC 9106 for one lane, of the requested length.
\<close>

theorem argon2id_correct:
  "argon2id password salt params =
      Some (if argon2_valid salt params then Inr (rfc_argon2id password salt params) else Inl InvalidParams) \<and>
    length (rfc_argon2id password salt params) = ap_output_len params"
  by (simp only: argon2id_spec rfc_argon2id_length simp_thms)

text \<open>
  C36. The type of the memory: filling a memory of whole blocks, for any number of passes, reads and
  writes no block outside it, subtracts nothing below zero, and leaves as many whole blocks.
\<close>

theorem argon2_memory_typed:
  assumes "unat blocks = 4 * seg" and "2 \<le> seg" and "memory_wf (4 * seg) memory"
  shows "\<exists>filled. fill_memory passes blocks memory = Some filled \<and> memory_wf (4 * seg) filled"
  using fill_memory_spec [OF assms] by blast

theorem argon2_memory_typed_witness:
  "\<exists>filled. fill_memory 3 8 (replicate 8 (replicate 128 0)) = Some filled \<and> memory_wf 8 filled"
  using argon2_memory_typed [of 8 2 "replicate 8 (replicate 128 0)" 3] by (simp add: memory_wf_def QWORDS_def)

end
