(* ===== verification/Password.thy ===== *)
theory Password
  imports SimpleKey Argon2Correct Codec
begin

text \<open>
  Password storage (crates/blindplane-crypto/src/simple/password.rs, and \<open>Key::from_password\<close> of
  key.rs). A stored hash is the text \<open>argon2id$v=19$m=..,t=..,p=1$salt$hash\<close>; the parser is the one
  of the source, on the methods of the standard library it calls: \<open>split\<close>, \<open>split_once\<close>, \<open>parse\<close>.
  A result of \<open>None\<close> at the outside of an operation is a panic.
\<close>

section \<open>Text of the standard library\<close>

text \<open>\<open>str::split\<close> and \<open>str::split_once\<close> at a character.\<close>

fun split_on :: "u8 \<Rightarrow> str \<Rightarrow> str list" where
  "split_on c [] = [ [] ]"
| "split_on c (x # xs) =
    (if x = c then [] # split_on c xs else (x # hd (split_on c xs)) # tl (split_on c xs))"

definition split_once :: "u8 \<Rightarrow> str \<Rightarrow> (str \<times> str) option" where
  "split_once c text =
    (if c \<in> set text then Some (takeWhile (\<lambda>x. x \<noteq> c) text, tl (dropWhile (\<lambda>x. x \<noteq> c) text)) else None)"

text \<open>\<open>u32::from_str\<close>: an optional plus sign and at least one decimal digit, checked for overflow.\<close>

fun parse_digits :: "bytes \<Rightarrow> nat \<Rightarrow> nat option" where
  "parse_digits [] acc = Some acc"
| "parse_digits (d # ds) acc =
    (if 48 \<le> d \<and> d \<le> 57 \<and> acc * 10 + (unat d - 48) < 2 ^ 32
     then parse_digits ds (acc * 10 + (unat d - 48)) else None)"

definition parse_u32 :: "str \<Rightarrow> u32 option" where
  "parse_u32 text =
    (if text = [] \<or> text = [43] \<or> text = [45] then None
     else map_option of_nat (parse_digits (if hd text = 43 then tl text else text) 0))"

text \<open>The decimal text of an integer, as \<open>format!\<close> writes it.\<close>

fun decimal :: "nat \<Rightarrow> str" where
  "decimal n = (if n < 10 then [of_nat (48 + n)] else decimal (n div 10) @ [of_nat (48 + n mod 10)])"

declare decimal.simps [simp del]

text \<open>\<open>Iterator::next\<close> on the parts of a text.\<close>

definition next_part :: "str list \<Rightarrow> (str \<times> str list) option" where
  "next_part parts = (case parts of [] \<Rightarrow> None | p # ps \<Rightarrow> Some (p, ps))"

section \<open>password.rs\<close>

definition SALT_LEN :: nat where "SALT_LEN = 16"
definition HASH_LEN :: nat where "HASH_LEN = 32"

fun of_invalid_params :: "invalid_params \<Rightarrow> crypto_error" where
  "of_invalid_params InvalidParams = InvalidParameters"

definition pw_hex :: "bytes \<Rightarrow> str" where
  "pw_hex bs =
    (let digits = ascii ''0123456789abcdef''
     in foldl (\<lambda>out byte. (out @ [digits ! unat (drop_bit 4 byte)]) @ [digits ! unat (byte AND 15)]) [] bs)"

definition pw_unhex_byte :: "bytes \<Rightarrow> nat \<Rightarrow> u8 option" where
  "pw_unhex_byte bs i =
    do {
      hi \<leftarrow> to_digit16 (bs ! (i * 2));
      lo \<leftarrow> to_digit16 (bs ! (i * 2 + 1));
      Some (ucast (push_bit 4 (of_nat hi :: u32) OR of_nat lo))
    }"

definition pw_unhex :: "str \<Rightarrow> bytes option" where
  "pw_unhex text =
    (if length text mod 2 \<noteq> 0 \<or> text = [] then None
     else collect_opt (pw_unhex_byte text) [0..<length text div 2])"

fun parse_settings :: "str list \<Rightarrow> u32 \<times> u32 \<Rightarrow> (u32 \<times> u32) option" where
  "parse_settings [] (memory_kib, passes) = Some (memory_kib, passes)"
| "parse_settings (setting # rest) (memory_kib, passes) =
    do {
      (name, v) \<leftarrow> split_once 61 setting;
      if name = ascii ''m'' then do { memory_kib \<leftarrow> parse_u32 v; parse_settings rest (memory_kib, passes) }
      else if name = ascii ''t'' then do { passes \<leftarrow> parse_u32 v; parse_settings rest (memory_kib, passes) }
      else if name = ascii ''p'' then (if v \<noteq> ascii ''1'' then None else parse_settings rest (memory_kib, passes))
      else None
    }"

definition parse_stored :: "str \<Rightarrow> (bytes \<times> bytes \<times> argon2_params) option" where
  "parse_stored stored =
    do {
      (algorithm, parts) \<leftarrow> next_part (split_on 36 stored);
      if algorithm \<noteq> ascii ''argon2id'' then None else do {
      (version, parts) \<leftarrow> next_part parts;
      if version \<noteq> ascii ''v=19'' then None else do {
      (settings, parts) \<leftarrow> next_part parts;
      (memory_kib, passes) \<leftarrow> parse_settings (split_on 44 settings) (0, 0);
      (salt_text, parts) \<leftarrow> next_part parts;
      salt \<leftarrow> pw_unhex salt_text;
      (expected_text, parts) \<leftarrow> next_part parts;
      expected \<leftarrow> pw_unhex expected_text;
      if next_part parts \<noteq> None \<or> length salt < 8 \<or> expected = [] then None
      else Some (salt, expected, \<lparr>ap_memory_kib = memory_kib, ap_passes = passes, ap_output_len = HASH_LEN\<rparr>)
      } }
    }"

definition format_stored :: "argon2_params \<Rightarrow> bytes \<Rightarrow> bytes \<Rightarrow> str" where
  "format_stored params salt hash =
    ascii ''argon2id$v=19$m='' @ decimal (unat (ap_memory_kib params)) @ ascii '',t='' @
    decimal (unat (ap_passes params)) @ ascii '',p=1$'' @ pw_hex salt @ ascii ''$'' @ pw_hex hash"

definition hash_password :: "'w os \<Rightarrow> str \<Rightarrow> 'w \<Rightarrow> (crypto_error + str) option \<times> 'w" where
  "hash_password os password w =
    (case emap_err (\<lambda>_. Randomness) (rand_fill os (replicate SALT_LEN 0)) w of
       (Inl e, w') \<Rightarrow> (Some (Inl e), w')
     | (Inr salt, w') \<Rightarrow>
        (do {
          r \<leftarrow> argon2id password salt default_params;
          Some (rbind (map_err of_invalid_params r) (\<lambda>hash. Inr (format_stored default_params salt hash)))
        }, w'))"

definition verify_password :: "str \<Rightarrow> str \<Rightarrow> bool option" where
  "verify_password password stored =
    (case parse_stored stored of
       None \<Rightarrow> Some False
     | Some (salt, expected, params) \<Rightarrow> do {
        r \<leftarrow> argon2id password salt params;
        (case r of
           Inl _ \<Rightarrow> Some False
         | Inr derived \<Rightarrow> Some (is_set (ct_eq_bytes derived expected)))
      })"

section \<open>Key::from_password\<close>

text \<open>The copy into the 32-byte key panics when the lengths differ.\<close>

definition key_from_password :: "str \<Rightarrow> bytes \<Rightarrow> (crypto_error + bytes) option" where
  "key_from_password password salt =
    do {
      r \<leftarrow> argon2id password salt default_params;
      (case map_err of_invalid_params r of
         Inl e \<Rightarrow> Some (Inl e)
       | Inr derived \<Rightarrow> if length derived = 32 then Some (Inr derived) else None)
    }"

section \<open>Text\<close>

lemma decimal_digits: "c \<in> set (decimal n) \<Longrightarrow> 48 \<le> c \<and> c \<le> 57"
proof (induction n rule: decimal.induct)
  case (1 n)
  have d: "48 \<le> (of_nat (48 + k) :: u8) \<and> (of_nat (48 + k) :: u8) \<le> 57" if "k < 10" for k
    using that by (simp only: word_le_nat_alt unat_of_nat) simp
  from 1 show ?case using d [of n] d [of "n mod 10"]
    by (cases "n < 10") (auto simp: decimal.simps [of n] simp del: of_nat_add)
qed

lemma decimal_ne: "decimal n \<noteq> []"
  by (simp add: decimal.simps [of n])

lemma parse_digits_append: "parse_digits (xs @ ys) a = Option.bind (parse_digits xs a) (parse_digits ys)"
  by (induction xs a rule: parse_digits.induct) simp_all

lemma digit_value: "k < 10 \<Longrightarrow> unat (of_nat (48 + k) :: u8) - 48 = k \<and> 48 \<le> (of_nat (48 + k) :: u8) \<and> (of_nat (48 + k) :: u8) \<le> 57"
  by (simp only: word_le_nat_alt unat_of_nat) simp

lemma parse_digits_decimal: "n < 2 ^ 32 \<Longrightarrow> parse_digits (decimal n) 0 = Some n"
proof (induction n rule: decimal.induct)
  case (1 n)
  show ?case
  proof (cases "n < 10")
    case True
    then show ?thesis using digit_value [of n] by (simp add: decimal.simps [of n] del: of_nat_add)
  next
    case False
    have "parse_digits (decimal (n div 10)) 0 = Some (n div 10)" using False "1.IH" "1.prems" by simp
    then show ?thesis using False "1.prems" digit_value [of "n mod 10"]
      by (simp add: decimal.simps [of n] parse_digits_append del: of_nat_add)
  qed
qed

lemma parse_u32_decimal: "parse_u32 (decimal (unat n)) = Some n"
proof -
  have "decimal (unat n) \<noteq> [43]" "decimal (unat n) \<noteq> [45]" "hd (decimal (unat n)) \<noteq> 43"
    using decimal_digits [of _ "unat n"] decimal_ne [of "unat n"]
    by (auto dest!: hd_in_set simp: neq_Nil_conv) fastforce+
  then show ?thesis
    using parse_digits_decimal [of "unat n"] unat_bounds(3) [of n] decimal_ne [of "unat n"]
    by (simp add: parse_u32_def)
qed

lemma split_on_none: "c \<notin> set xs \<Longrightarrow> split_on c xs = [xs]"
  by (induction xs) auto

lemma split_on_append: "c \<notin> set xs \<Longrightarrow> split_on c (xs @ c # ys) = xs # split_on c ys"
  by (induction xs) auto

lemma split_once_append: "c \<notin> set xs \<Longrightarrow> split_once c (xs @ c # ys) = Some (xs, ys)"
proof -
  assume "c \<notin> set xs"
  then have "\<forall>x\<in>set xs. x \<noteq> c" by blast
  then show ?thesis by (simp add: split_once_def takeWhile_append2 dropWhile_append2)
qed

lemma pw_hex_encode: "pw_hex bs = hex_encode bs"
proof -
  let ?f = "\<lambda>out byte. (out @ [HEX_DIGITS ! unat (drop_bit 4 byte)]) @ [HEX_DIGITS ! unat (byte AND 15)]"
  have "foldl ?f out bs = out @ hex_encode bs" for out
    by (induction bs arbitrary: out) (simp_all add: hex_encode_def)
  then show ?thesis by (simp add: pw_hex_def HEX_DIGITS_def Let_def)
qed

lemma hex_encode_length: "length (hex_encode bs) = 2 * length bs"
  by (induction bs) (simp_all add: hex_encode_def)

lemma hex_encode_nth:
  "i < length bs \<Longrightarrow> hex_encode bs ! (i * 2) = HEX_DIGITS ! unat (drop_bit 4 (bs ! i)) \<and>
    hex_encode bs ! (i * 2 + 1) = HEX_DIGITS ! unat (bs ! i AND 15)"
proof (induction bs arbitrary: i)
  case (Cons b bs)
  then show ?case by (cases i) (simp_all add: hex_encode_def)
qed simp

lemma hex_value: "ucast (push_bit 4 (of_nat (unat (drop_bit 4 b)) :: u32) OR of_nat (unat (b AND 15))) = (b :: u8)"
proof -
  have "(of_nat (unat x) :: u32) = ucast x" for x :: u8 by (simp add: unsigned_ucast_eq flip: word_unat_eq_iff)
  moreover have "b AND 15 = take_bit 4 b" by (simp add: take_bit_eq_mask mask_eq_exp_minus_1)
  ultimately show ?thesis by (simp only:) (rule bit_word_eqI, auto simp: bit_simps)
qed

lemma pw_unhex_hex: "bs \<noteq> [] \<Longrightarrow> pw_unhex (pw_hex bs) = Some bs"
proof -
  assume ne: "bs \<noteq> []"
  have "pw_unhex_byte (hex_encode bs) i = Some (bs ! i)" if "i < length bs" for i
    using hex_encode_nth [OF that] nibbles_small [of "bs ! i"] hex_value [of "bs ! i"]
    by (simp only: pw_unhex_byte_def to_digit16_digit bind.bind_lunit)
  then have "collect_opt (pw_unhex_byte (hex_encode bs)) (map id [0..<length bs]) = Some (map (\<lambda>i. bs ! i) [0..<length bs])"
    by (intro collect_opt_map) simp
  then have "collect_opt (pw_unhex_byte (hex_encode bs)) [0..<length bs] = Some bs" by (simp add: map_nth)
  moreover have "hex_encode bs \<noteq> []" using ne hex_encode_length [of bs] by (cases bs) auto
  ultimately show ?thesis by (simp add: pw_unhex_def pw_hex_encode hex_encode_length)
qed

lemma hex_digits_range: "c \<in> set (pw_hex bs) \<Longrightarrow> 48 \<le> c"
proof -
  have "\<forall>n\<in>set [0..<16]. 48 \<le> HEX_DIGITS ! n" by (simp add: upt_rec HEX_DIGITS_def)
  then have "48 \<le> HEX_DIGITS ! n" if "n < 16" for n using that by simp
  moreover assume "c \<in> set (pw_hex bs)"
  ultimately show ?thesis using nibbles_small by (auto simp: pw_hex_encode hex_encode_def)
qed

text \<open>The parser reads back what \<open>hash_password\<close> writes, for any parameters.\<close>

lemma not_in_text: "36 \<notin> set (decimal n)" "44 \<notin> set (decimal n)" "36 \<notin> set (pw_hex bs)"
  using decimal_digits [of _ n] hex_digits_range [of _ bs] by fastforce+

lemma parse_settings_format:
  "parse_settings (split_on 44 (ascii ''m='' @ decimal (unat m) @ ascii '',t='' @ decimal (unat t) @ ascii '',p=1'')) (0, 0) =
    Some (m, t)"
proof -
  have "split_on 44 (A @ 44 # B @ 44 # C) = [A, B, C]" if "44 \<notin> set A" "44 \<notin> set B" "44 \<notin> set C" for A B C :: str
    by (simp add: split_on_append split_on_none that)
  from this [of "109 # 61 # decimal (unat m)" "116 # 61 # decimal (unat t)" "[112, 61, 49]"]
  have "split_on 44 ((109 # 61 # decimal (unat m)) @ 44 # (116 # 61 # decimal (unat t)) @ 44 # [112, 61, 49]) =
      [109 # 61 # decimal (unat m), 116 # 61 # decimal (unat t), [112, 61, 49]]"
    by (simp add: not_in_text)
  moreover have "split_once 61 (c # 61 # ds) = Some ([c], ds)" if "c \<noteq> 61" for c ds
    using split_once_append [of 61 "[c]" ds] that by simp
  ultimately show ?thesis by (simp add: parse_u32_decimal parse_u32_def [of "[49]"])
qed

lemma split_five:
  assumes "c \<notin> set p" "c \<notin> set q" "c \<notin> set r" "c \<notin> set s" "c \<notin> set t"
  shows "split_on c (p @ c # q @ c # r @ c # s @ c # t) = [p, q, r, s, t]"
  using assms by (simp add: split_on_append split_on_none)

lemma parse_format:
  assumes "8 \<le> length salt" and "hash \<noteq> []"
  shows "parse_stored (format_stored \<lparr>ap_memory_kib = m, ap_passes = t, ap_output_len = n\<rparr> salt hash) =
    Some (salt, hash, \<lparr>ap_memory_kib = m, ap_passes = t, ap_output_len = HASH_LEN\<rparr>)"
proof -
  let ?set = "ascii ''m='' @ decimal (unat m) @ ascii '',t='' @ decimal (unat t) @ ascii '',p=1''"
  have "salt \<noteq> []" using assms(1) by auto
  note salt = pw_unhex_hex [OF this] and hash = pw_unhex_hex [OF assms(2)]
  have written: "format_stored \<lparr>ap_memory_kib = m, ap_passes = t, ap_output_len = n\<rparr> salt hash =
      ascii ''argon2id'' @ 36 # ascii ''v=19'' @ 36 # ?set @ 36 # pw_hex salt @ 36 # pw_hex hash"
    by (simp add: format_stored_def)
  have parts: "split_on 36 (format_stored \<lparr>ap_memory_kib = m, ap_passes = t, ap_output_len = n\<rparr> salt hash) =
      [ascii ''argon2id'', ascii ''v=19'', ?set, pw_hex salt, pw_hex hash]"
    unfolding written by (rule split_five) (simp_all add: not_in_text)
  show ?thesis
    unfolding parse_stored_def parts next_part_def list.case bind.bind_lunit prod.case parse_settings_format salt hash
    using assms by simp
qed

section \<open>Storing and checking\<close>

lemma default_valid: "8 \<le> length salt \<Longrightarrow> argon2_valid salt default_params"
  by (simp add: argon2_valid_def default_params_def)

lemma hash_password_cases:
  assumes "rand_fill os (replicate 16 0) w = (r, w')"
  shows "hash_password os password w = (Some (case r of Inl e \<Rightarrow> Inl Randomness | Inr salt \<Rightarrow>
      if argon2_valid salt default_params
      then Inr (format_stored default_params salt (rfc_argon2id password salt default_params))
      else Inl InvalidParameters), w')"
  using assms by (cases r) (simp_all add: hash_password_def SALT_LEN_def emap_err_def argon2id_spec)

lemma verify_password_eq:
  "verify_password password stored = Some (case parse_stored stored of None \<Rightarrow> False
    | Some (salt, expected, params) \<Rightarrow> argon2_valid salt params \<and> rfc_argon2id password salt params = expected)"
  by (auto simp: verify_password_def argon2id_spec split: option.splits)

lemma verify_written:
  assumes "8 \<le> length salt"
  shows "verify_password password (format_stored default_params salt (rfc_argon2id owner salt default_params)) =
    Some (rfc_argon2id password salt default_params = rfc_argon2id owner salt default_params)"
proof -
  have ne: "rfc_argon2id owner salt default_params \<noteq> []"
    using rfc_argon2id_length [of owner salt default_params] by (auto simp: default_params_def)
  have d: "default_params = \<lparr>ap_memory_kib = 65536, ap_passes = 3, ap_output_len = HASH_LEN\<rparr>"
    by (simp add: default_params_def HASH_LEN_def)
  show ?thesis
    using parse_format [OF assms ne, of 65536 3 HASH_LEN] default_valid [OF assms]
    by (simp add: verify_password_eq flip: d)
qed

section \<open>Properties\<close>

text \<open>
  C18. Password storage round trip: hashing a password fails only when the operating system gives no
  randomness; otherwise the stored text, under a fresh 16-byte salt, is accepted for exactly the
  passwords that have the same Argon2id hash under that salt, the password itself among them.
\<close>

theorem password_roundtrip:
  assumes "os_ok os"
  shows "case hash_password os owner w of
      (Some (Inr stored), w') \<Rightarrow> verify_password owner stored = Some True \<and>
        (\<exists>salt. rand_fill os (replicate 16 0) w = (Inr salt, w') \<and> length salt = 16 \<and>
          (\<forall>password. verify_password password stored =
            Some (rfc_argon2id password salt default_params = rfc_argon2id owner salt default_params)))
    | (Some (Inl e), w') \<Rightarrow> e = Randomness \<and> os_failed os
    | (None, w') \<Rightarrow> False"
proof (cases "rand_fill os (replicate 16 0) w")
  case (Pair r w')
  show ?thesis
  proof (cases r)
    case (Inl e)
    then show ?thesis using rand_fill_error Pair by (auto simp: hash_password_cases [OF Pair])
  next
    case (Inr salt)
    have "rand_fill os (replicate 16 0) w = (Inr salt, w')" using Pair Inr by simp
    then have "length salt = 16" using rand_fill_length [OF assms] by fastforce
    then show ?thesis
      using Pair Inr verify_written [of salt] default_valid [of salt] by (simp add: hash_password_cases [OF Pair])
  qed
qed

theorem password_roundtrip_witness:
  "\<exists>stored. hash_password counter_os (ascii ''secret'') 5 = (Some (Inr stored), 6) \<and>
    verify_password (ascii ''secret'') stored = Some True"
proof -
  have fill: "rand_fill counter_os (replicate 16 0) 5 = (Inr (replicate 16 5), 6)"
    using counter_os_fill [of "replicate 16 0" 5] by simp
  have "argon2_valid (replicate 16 5) default_params" by (rule default_valid) simp
  then obtain stored where "hash_password counter_os (ascii ''secret'') 5 = (Some (Inr stored), 6)"
    using hash_password_cases [OF fill, of "ascii ''secret''"] by simp
  then show ?thesis
    using password_roundtrip [OF counter_os_ok, of "ascii ''secret''" 5] by (simp del: ascii_Cons)
qed

text \<open>
  C20. Checking a password never panics, whatever the stored text holds, and accepts exactly when
  the text parses to valid parameters and the hash of the password under them is the stored one.
\<close>

theorem verify_password_total:
  "\<exists>accepted. verify_password password stored = Some accepted \<and>
    accepted = (\<exists>salt expected params. parse_stored stored = Some (salt, expected, params) \<and>
      argon2_valid salt params \<and> rfc_argon2id password salt params = expected)"
  by (auto simp: verify_password_eq split: option.splits)

text \<open>
  C37. The parser reads back every text the formatter writes, whatever the cost parameters in it:
  no bound on memory or passes is checked, so the text alone decides what a check costs.
\<close>

theorem stored_text_roundtrip:
  assumes "8 \<le> length salt" and "hash \<noteq> []"
  shows "parse_stored (format_stored params salt hash) = Some (salt, hash, params\<lparr>ap_output_len := HASH_LEN\<rparr>)"
  by (cases params) (simp add: parse_format [OF assms])

theorem stored_text_roundtrip_witness:
  "parse_stored (format_stored \<lparr>ap_memory_kib = 4294967295, ap_passes = 4294967295, ap_output_len = 32\<rparr>
      (replicate 8 1) [2]) =
    Some (replicate 8 1, [2], \<lparr>ap_memory_kib = 4294967295, ap_passes = 4294967295, ap_output_len = HASH_LEN\<rparr>)"
  using stored_text_roundtrip [of "replicate 8 1" "[2]"
    "\<lparr>ap_memory_kib = 4294967295, ap_passes = 4294967295, ap_output_len = 32\<rparr>"] by simp

lemma key_from_password_eq:
  "key_from_password password salt = Some (if 8 \<le> length salt
    then Inr (rfc_argon2id password salt default_params) else Inl InvalidParameters)"
  using rfc_argon2id_length [of password salt default_params]
  by (simp add: key_from_password_def argon2id_spec argon2_valid_def default_params_def)

end
