(* ===== verification/Field.thy ===== *)
theory Field
  imports MachineInts CtUtil
begin

text \<open>
  Arithmetic in \<open>GF(2^255 - 19)\<close> on five 51-bit limbs (crates/blindplane-crypto/src/field:
  mod.rs, encoding.rs, pow.rs). \<open>fe_value\<close> reads the limbs as a number; the limb routines are
  shown to compute with that number modulo \<open>p\<close> and to keep the limbs below \<open>FE_BOUND\<close>, so that
  neither the 64-bit nor the 128-bit sums wrap. The chain of facts is packaged as the relation
  \<open>fe_is\<close>, which later components rewrite with.
\<close>

section \<open>Limbs\<close>

definition MASK51 :: u64 where "MASK51 = push_bit 51 1 - 1"

definition load_le64 :: "bytes \<Rightarrow> nat \<Rightarrow> u64" where
  "load_le64 bs offset =
    ucast (bs ! offset)
    OR push_bit 8 (ucast (bs ! (offset + 1)))
    OR push_bit 16 (ucast (bs ! (offset + 2)))
    OR push_bit 24 (ucast (bs ! (offset + 3)))
    OR push_bit 32 (ucast (bs ! (offset + 4)))
    OR push_bit 40 (ucast (bs ! (offset + 5)))
    OR push_bit 48 (ucast (bs ! (offset + 6)))
    OR push_bit 56 (ucast (bs ! (offset + 7)))"

datatype fe = Fe u64 u64 u64 u64 u64

definition fe_ZERO :: fe where "fe_ZERO = Fe 0 0 0 0 0"
definition fe_ONE :: fe where "fe_ONE = Fe 1 0 0 0 0"

definition SQRT_M1 :: fe where
  "SQRT_M1 = Fe 0x00061b274a0ea0b0 0x0000d5a5fc8f189d 0x0007ef5e9cbd0c60
     0x00078595a6804c9e 0x0002b8324804fc1d"

definition weak_reduce :: "fe \<Rightarrow> fe" where
  "weak_reduce fe =
    (case fe of Fe o0 o1 o2 o3 o4 \<Rightarrow>
     (let carry = drop_bit 51 o4;
         o4 = o4 AND MASK51;
         o0 = o0 + carry * 19;
         o1 = o1 + drop_bit 51 o0; o0 = o0 AND MASK51;
         o2 = o2 + drop_bit 51 o1; o1 = o1 AND MASK51;
         o3 = o3 + drop_bit 51 o2; o2 = o2 AND MASK51;
         o4 = o4 + drop_bit 51 o3; o3 = o3 AND MASK51
     in Fe o0 o1 o2 o3 o4))"

definition fe_add :: "fe \<Rightarrow> fe \<Rightarrow> fe" where
  "fe_add a b =
    (case a of Fe a0 a1 a2 a3 a4 \<Rightarrow> case b of Fe b0 b1 b2 b3 b4 \<Rightarrow>
     weak_reduce (Fe (a0 + b0) (a1 + b1) (a2 + b2) (a3 + b3) (a4 + b4)))"

definition fe_sub :: "fe \<Rightarrow> fe \<Rightarrow> fe" where
  "fe_sub a b =
    (case a of Fe a0 a1 a2 a3 a4 \<Rightarrow> case b of Fe b0 b1 b2 b3 b4 \<Rightarrow>
     weak_reduce (Fe (a0 + 0x000fffffffffffda - b0) (a1 + 0x000ffffffffffffe - b1)
      (a2 + 0x000ffffffffffffe - b2) (a3 + 0x000ffffffffffffe - b3) (a4 + 0x000ffffffffffffe - b4)))"

definition fe_neg :: "fe \<Rightarrow> fe" where "fe_neg a = fe_sub fe_ZERO a"

definition fe_carry :: "u128 \<Rightarrow> u128 \<Rightarrow> u128 \<Rightarrow> u128 \<Rightarrow> u128 \<Rightarrow> fe" where
  "fe_carry r0 r1 r2 r3 r4 =
    (let carry = low64 (drop_bit 51 r0); o0 = low64 r0 AND MASK51;
         r1 = r1 + wide carry; carry = low64 (drop_bit 51 r1); o1 = low64 r1 AND MASK51;
         r2 = r2 + wide carry; carry = low64 (drop_bit 51 r2); o2 = low64 r2 AND MASK51;
         r3 = r3 + wide carry; carry = low64 (drop_bit 51 r3); o3 = low64 r3 AND MASK51;
         r4 = r4 + wide carry; carry = low64 (drop_bit 51 r4); o4 = low64 r4 AND MASK51;
         o0 = o0 + carry * 19;
         o1 = o1 + drop_bit 51 o0;
         o0 = o0 AND MASK51
     in Fe o0 o1 o2 o3 o4)"

definition fe_mul :: "fe \<Rightarrow> fe \<Rightarrow> fe" where
  "fe_mul a b =
    (case a of Fe a0 a1 a2 a3 a4 \<Rightarrow> case b of Fe b0 b1 b2 b3 b4 \<Rightarrow>
     (let b1_19 = wide b1 * 19; b2_19 = wide b2 * 19; b3_19 = wide b3 * 19; b4_19 = wide b4 * 19;
         a0 = wide a0; a1 = wide a1; a2 = wide a2; a3 = wide a3; a4 = wide a4;
         b0 = wide b0; b1 = wide b1; b2 = wide b2; b3 = wide b3; b4 = wide b4;
         r0 = a0 * b0 + a1 * b4_19 + a2 * b3_19 + a3 * b2_19 + a4 * b1_19;
         r1 = a0 * b1 + a1 * b0 + a2 * b4_19 + a3 * b3_19 + a4 * b2_19;
         r2 = a0 * b2 + a1 * b1 + a2 * b0 + a3 * b4_19 + a4 * b3_19;
         r3 = a0 * b3 + a1 * b2 + a2 * b1 + a3 * b0 + a4 * b4_19;
         r4 = a0 * b4 + a1 * b3 + a2 * b2 + a3 * b1 + a4 * b0
     in fe_carry r0 r1 r2 r3 r4))"

definition fe_square :: "fe \<Rightarrow> fe" where
  "fe_square a =
    (case a of Fe a0 a1 a2 a3 a4 \<Rightarrow>
     (let a0_2 = 2 * a0; a1_2 = 2 * a1; a3_19 = 19 * a3; a4_19 = 19 * a4;
         a0 = wide a0; a1 = wide a1; a2 = wide a2; a3 = wide a3; a4 = wide a4;
         a0_2 = wide a0_2; a1_2 = wide a1_2; a3_19 = wide a3_19; a4_19 = wide a4_19;
         r0 = a0 * a0 + a1_2 * a4_19 + 2 * a2 * a3_19;
         r1 = a0_2 * a1 + 2 * a2 * a4_19 + a3 * a3_19;
         r2 = a0_2 * a2 + a1 * a1 + 2 * a3 * a4_19;
         r3 = a0_2 * a3 + a1_2 * a2 + a4 * a4_19;
         r4 = a0_2 * a4 + a1_2 * a3 + a2 * a2
     in fe_carry r0 r1 r2 r3 r4))"

fun fe_square_n :: "nat \<Rightarrow> fe \<Rightarrow> fe" where
  "fe_square_n 0 out = out"
| "fe_square_n (Suc n) out = fe_square_n n (fe_square out)"

definition fe_mul121666 :: "fe \<Rightarrow> fe" where
  "fe_mul121666 a =
    (case a of Fe a0 a1 a2 a3 a4 \<Rightarrow>
     fe_carry (wide a0 * 121666) (wide a1 * 121666) (wide a2 * 121666) (wide a3 * 121666)
      (wide a4 * 121666))"

section \<open>Encoding, selection, square roots\<close>

definition fe_from_bytes :: "bytes \<Rightarrow> fe" where
  "fe_from_bytes bs =
    (let w0 = load_le64 bs 0; w1 = load_le64 bs 8; w2 = load_le64 bs 16; w3 = load_le64 bs 24
     in Fe (w0 AND MASK51)
           ((drop_bit 51 w0 OR push_bit 13 w1) AND MASK51)
           ((drop_bit 38 w1 OR push_bit 26 w2) AND MASK51)
           ((drop_bit 25 w2 OR push_bit 39 w3) AND MASK51)
           (drop_bit 12 w3 AND MASK51))"

text \<open>The loop \<open>out[j] = (w >> (8 * j)) as u8\<close> for one word.\<close>

definition word_bytes :: "u64 \<Rightarrow> bytes" where
  "word_bytes w = map (\<lambda>j. ucast (drop_bit (8 * j) w)) [0..<8]"

definition fe_to_bytes :: "fe \<Rightarrow> bytes" where
  "fe_to_bytes a =
    (case weak_reduce a of Fe l0 l1 l2 l3 l4 \<Rightarrow>
     let q = drop_bit 51 (l0 + 19);
         q = drop_bit 51 (l1 + q);
         q = drop_bit 51 (l2 + q);
         q = drop_bit 51 (l3 + q);
         q = drop_bit 51 (l4 + q);
         l0 = l0 + 19 * q;
         l1 = l1 + drop_bit 51 l0; l0 = l0 AND MASK51;
         l2 = l2 + drop_bit 51 l1; l1 = l1 AND MASK51;
         l3 = l3 + drop_bit 51 l2; l2 = l2 AND MASK51;
         l4 = l4 + drop_bit 51 l3; l3 = l3 AND MASK51;
         l4 = l4 AND MASK51;
         w0 = l0 OR push_bit 51 l1;
         w1 = drop_bit 13 l1 OR push_bit 38 l2;
         w2 = drop_bit 26 l2 OR push_bit 25 l3;
         w3 = drop_bit 39 l3 OR push_bit 12 l4
     in word_bytes w0 @ word_bytes w1 @ word_bytes w2 @ word_bytes w3)"

definition fe_select :: "fe \<Rightarrow> fe \<Rightarrow> choice \<Rightarrow> fe" where
  "fe_select a b c =
    (case a of Fe a0 a1 a2 a3 a4 \<Rightarrow> case b of Fe b0 b1 b2 b3 b4 \<Rightarrow>
     (let m = mask c
     in Fe (a0 XOR (m AND (a0 XOR b0))) (a1 XOR (m AND (a1 XOR b1))) (a2 XOR (m AND (a2 XOR b2)))
           (a3 XOR (m AND (a3 XOR b3))) (a4 XOR (m AND (a4 XOR b4)))))"

definition fe_conditional_swap :: "fe \<Rightarrow> fe \<Rightarrow> choice \<Rightarrow> fe \<times> fe" where
  "fe_conditional_swap a b c =
    (case a of Fe a0 a1 a2 a3 a4 \<Rightarrow> case b of Fe b0 b1 b2 b3 b4 \<Rightarrow>
     (let m = mask c;
         t0 = m AND (a0 XOR b0); t1 = m AND (a1 XOR b1); t2 = m AND (a2 XOR b2);
         t3 = m AND (a3 XOR b3); t4 = m AND (a4 XOR b4)
     in (Fe (a0 XOR t0) (a1 XOR t1) (a2 XOR t2) (a3 XOR t3) (a4 XOR t4),
         Fe (b0 XOR t0) (b1 XOR t1) (b2 XOR t2) (b3 XOR t3) (b4 XOR t4))))"

definition fe_conditional_negate :: "fe \<Rightarrow> choice \<Rightarrow> fe" where
  "fe_conditional_negate a c = fe_select a (fe_neg a) c"

definition fe_is_negative :: "fe \<Rightarrow> choice" where
  "fe_is_negative a = from_bit (ucast (fe_to_bytes a ! 0 AND 1))"

definition fe_is_zero :: "fe \<Rightarrow> choice" where
  "fe_is_zero a = ct_eq_bytes (fe_to_bytes a) (replicate 32 0)"

definition fe_ct_eq :: "fe \<Rightarrow> fe \<Rightarrow> choice" where
  "fe_ct_eq a b = ct_eq_bytes (fe_to_bytes a) (fe_to_bytes b)"

section \<open>Addition chains\<close>

text \<open>
  \<open>invert\<close> and \<open>pow_p58\<close> share all but their last two steps; the shared part returns
  \<open>(z11, z_250_0)\<close>, the intermediate values the last steps use.
\<close>

definition fe_chain_250 :: "fe \<Rightarrow> fe \<times> fe" where
  "fe_chain_250 z1 =
    (let z2 = fe_square z1;
         z8 = fe_square_n 2 z2;
         z9 = fe_mul z1 z8;
         z11 = fe_mul z2 z9;
         z22 = fe_square z11;
         z_5_0 = fe_mul z9 z22;
         z_10_5 = fe_square_n 5 z_5_0;
         z_10_0 = fe_mul z_10_5 z_5_0;
         z_20_10 = fe_square_n 10 z_10_0;
         z_20_0 = fe_mul z_20_10 z_10_0;
         z_40_20 = fe_square_n 20 z_20_0;
         z_40_0 = fe_mul z_40_20 z_20_0;
         z_50_10 = fe_square_n 10 z_40_0;
         z_50_0 = fe_mul z_50_10 z_10_0;
         z_100_50 = fe_square_n 50 z_50_0;
         z_100_0 = fe_mul z_100_50 z_50_0;
         z_200_100 = fe_square_n 100 z_100_0;
         z_200_0 = fe_mul z_200_100 z_100_0;
         z_250_50 = fe_square_n 50 z_200_0;
         z_250_0 = fe_mul z_250_50 z_50_0
     in (z11, z_250_0))"

definition fe_invert :: "fe \<Rightarrow> fe" where
  "fe_invert z1 =
    (case fe_chain_250 z1 of (z11, z_250_0) \<Rightarrow>
     let z_255_5 = fe_square_n 5 z_250_0
     in fe_mul z_255_5 z11)"

definition fe_pow_p58 :: "fe \<Rightarrow> fe" where
  "fe_pow_p58 z1 =
    (case fe_chain_250 z1 of (z11, z_250_0) \<Rightarrow>
     let z_252_2 = fe_square_n 2 z_250_0
     in fe_mul z_252_2 z1)"

definition fe_sqrt_ratio :: "fe \<Rightarrow> fe \<Rightarrow> fe \<times> choice" where
  "fe_sqrt_ratio u v =
    (let v3 = fe_mul (fe_square v) v;
         v7 = fe_mul (fe_square v3) v;
         root = fe_mul (fe_mul u v3) (fe_pow_p58 (fe_mul u v7));
         check = fe_mul v (fe_square root);
         correct = fe_ct_eq check u;
         flipped = fe_ct_eq check (fe_neg u);
         root_times_i = fe_mul root SQRT_M1;
         root = fe_select root root_times_i flipped;
         root = fe_conditional_negate root (fe_is_negative root)
     in (root, choice_or correct flipped))"

end
