(* ===== verification/FieldValue.thy ===== *)
theory FieldValue
  imports Field
begin

text \<open>
  Correctness of the limb arithmetic of \<open>Field\<close>: what each routine does to the number its limbs
  stand for, modulo \<open>p = 2^255 - 19\<close>, and the bound it keeps.
\<close>

section \<open>Values and bounds\<close>

abbreviation B51 :: nat where "B51 \<equiv> 2251799813685248"

definition P25519 :: nat where "P25519 = 2 ^ 255 - 19"

lemma P25519_eq: "P25519 = 57896044618658097711785492504343953926634992332820282019728792003956564819949"
  by (simp add: P25519_def)

definition val5 :: "nat \<Rightarrow> nat \<Rightarrow> nat \<Rightarrow> nat \<Rightarrow> nat \<Rightarrow> nat" where
  "val5 a0 a1 a2 a3 a4 = a0 + B51 * (a1 + B51 * (a2 + B51 * (a3 + B51 * a4)))"

fun fe_value :: "fe \<Rightarrow> nat" where
  "fe_value (Fe a0 a1 a2 a3 a4) = val5 (unat a0) (unat a1) (unat a2) (unat a3) (unat a4)"

text \<open>
  Every routine leaves limbs below \<open>2^51 + 2^13\<close>. This is tighter than the \<open>2^52\<close> of the
  source comment, and \<open>sub\<close> needs it: its limbs of \<open>2 * p\<close> are slightly below \<open>2^52\<close>.
\<close>

abbreviation FE_BOUND :: nat where "FE_BOUND \<equiv> 2251799813693440"

fun fe_ok :: "fe \<Rightarrow> bool" where
  "fe_ok (Fe a0 a1 a2 a3 a4) \<longleftrightarrow> unat a0 < FE_BOUND \<and> unat a1 < FE_BOUND \<and> unat a2 < FE_BOUND \<and>
     unat a3 < FE_BOUND \<and> unat a4 < FE_BOUND"

lemma MASK51_mask: "MASK51 = semiring_bit_operations_class.mask 51"
  by (simp add: MASK51_def mask_eq_exp_minus_1)

lemma unat_mask51: "unat (w AND MASK51) = unat w mod B51"
  using unat_and_mask [of w 51] by (simp add: MASK51_mask)

lemma unat_shr51: "unat (drop_bit 51 (w :: u64)) = unat w div B51"
  by (simp add: unat_shr)

lemma unat_low_mask51: "unat (low64 t AND MASK51) = unat t mod B51"
  unfolding unat_mask51 unat_low64 by (rule mod_mod_cancel) simp

lemma unat_low_shr51:
  assumes "unat t < 2 ^ 115"
  shows "unat (low64 (drop_bit 51 t)) = unat t div B51"
proof -
  have d: "unat (drop_bit 51 t) = unat t div B51"
    using unat_drop_bit_eq [of 51 t] by (simp add: drop_bit_eq_div [of 51 "unat t"])
  have "unat t div B51 < B64"
    using assms by (simp add: div_less_iff_less_mult)
  then show ?thesis by (simp only: unat_low64 d mod_less)
qed

section \<open>Carrying, on naturals\<close>

lemma carry_chain:
  fixes r0 r1 r2 r3 r4 :: nat
  assumes "s1 = r1 + r0 div B51" "s2 = r2 + s1 div B51" "s3 = r3 + s2 div B51" "s4 = r4 + s3 div B51"
  shows "val5 r0 r1 r2 r3 r4 =
    val5 (r0 mod B51) (s1 mod B51) (s2 mod B51) (s3 mod B51) s4"
proof -
  have "val5 r0 r1 r2 r3 r4 = val5 m0 m1 m2 m3 (r4 + q3)"
    if "r0 = B51 * q0 + m0" "r1 + q0 = B51 * q1 + m1" "r2 + q1 = B51 * q2 + m2"
      "r3 + q2 = B51 * q3 + m3" for q0 q1 q2 q3 m0 m1 m2 m3
    using that unfolding val5_def by algebra
  from this [of "r0 div B51" "r0 mod B51" "s1 div B51" "s1 mod B51" "s2 div B51" "s2 mod B51"
      "s3 div B51" "s3 mod B51"]
  show ?thesis using assms by (simp only: mult_div_mod_eq refl simp_thms)
qed

lemma fold_top:
  "val5 o0 o1 o2 o3 s4 mod P25519 = val5 (o0 + s4 div B51 * 19) o1 o2 o3 (s4 mod B51) mod P25519"
proof -
  have "val5 o0 o1 o2 o3 (B51 * q + m) = val5 (o0 + q * 19) o1 o2 o3 m + P25519 * q" for q m
    unfolding val5_def P25519_eq by (simp add: algebra_simps)
  from this [of "s4 div B51" "s4 mod B51"] show ?thesis
    by (simp only: mult_div_mod_eq mod_mult_self2)
qed

lemma carry_first:
  "val5 x0 o1 o2 o3 o4 = val5 (x0 mod B51) (o1 + x0 div B51) o2 o3 o4"
proof -
  have "val5 (B51 * q + m) o1 o2 o3 o4 = val5 m (o1 + q) o2 o3 o4" for q m
    unfolding val5_def by (simp add: algebra_simps)
  from this [of "x0 div B51" "x0 mod B51"] show ?thesis by (simp only: mult_div_mod_eq)
qed

section \<open>The carrying routines\<close>

lemma fe_carry_value:
  assumes "unat r0 < 2 ^ 112" "unat r1 < 2 ^ 112" "unat r2 < 2 ^ 112" "unat r3 < 2 ^ 112" "unat r4 < 2 ^ 108"
  shows "fe_ok (fe_carry r0 r1 r2 r3 r4) \<and>
    fe_value (fe_carry r0 r1 r2 r3 r4) mod P25519 =
      val5 (unat r0) (unat r1) (unat r2) (unat r3) (unat r4) mod P25519"
proof -
  note b = assms [simplified]
  define c0 where "c0 = low64 (drop_bit 51 r0)"
  define s1 where "s1 = r1 + wide c0"
  define c1 where "c1 = low64 (drop_bit 51 s1)"
  define s2 where "s2 = r2 + wide c1"
  define c2 where "c2 = low64 (drop_bit 51 s2)"
  define s3 where "s3 = r3 + wide c2"
  define c3 where "c3 = low64 (drop_bit 51 s3)"
  define s4 where "s4 = r4 + wide c3"
  define c4 where "c4 = low64 (drop_bit 51 s4)"
  have c0: "unat c0 = unat r0 div B51"
    unfolding c0_def by (rule unat_low_shr51) (use b in simp)
  have s1: "unat s1 = unat r1 + unat r0 div B51"
    unfolding s1_def by (subst unat_add128) (use b c0 in auto)
  have s1b: "unat s1 < 2 ^ 113" using b s1 by simp
  have c1: "unat c1 = unat s1 div B51"
    unfolding c1_def by (rule unat_low_shr51) (use s1b in simp)
  have s2: "unat s2 = unat r2 + unat s1 div B51"
    unfolding s2_def by (subst unat_add128) (use b s1b c1 in auto)
  have s2b: "unat s2 < 2 ^ 113" using b s1b s2 by simp
  have c2: "unat c2 = unat s2 div B51"
    unfolding c2_def by (rule unat_low_shr51) (use s2b in simp)
  have s3: "unat s3 = unat r3 + unat s2 div B51"
    unfolding s3_def by (subst unat_add128) (use b s2b c2 in auto)
  have s3b: "unat s3 < 2 ^ 113" using b s2b s3 by simp
  have c3: "unat c3 = unat s3 div B51"
    unfolding c3_def by (rule unat_low_shr51) (use s3b in simp)
  have s4: "unat s4 = unat r4 + unat s3 div B51"
    unfolding s4_def by (subst unat_add128) (use b s3b c3 in auto)
  have s4b: "unat s4 < 2 ^ 109" using b s3b s4 by simp
  have c4: "unat c4 = unat s4 div B51"
    unfolding c4_def by (rule unat_low_shr51) (use s4b in simp)
  have c4b: "unat c4 < 2 ^ 58" using s4b c4 by simp
  define x0 where "x0 = (low64 r0 AND MASK51) + c4 * 19"
  have x0: "unat x0 = unat r0 mod B51 + unat s4 div B51 * 19"
    unfolding x0_def
    by (subst unat_add64; (subst unat_mul64)?) (use c4b c4 unat_low_mask51 [of r0] in auto)
  have x0b: "unat x0 < B51 + 2 ^ 58 * 19" using x0 c4b c4 by simp
  have o1: "unat ((low64 s1 AND MASK51) + drop_bit 51 x0) = unat s1 mod B51 + unat x0 div B51"
    by (subst unat_add64) (use x0b unat_low_mask51 [of s1] in \<open>auto simp: unat_shr51\<close>)
  have eq: "fe_carry r0 r1 r2 r3 r4 = Fe (x0 AND MASK51) ((low64 s1 AND MASK51) + drop_bit 51 x0)
      (low64 s2 AND MASK51) (low64 s3 AND MASK51) (low64 s4 AND MASK51)"
    unfolding fe_carry_def Let_def x0_def c4_def s4_def c3_def s3_def c2_def s2_def c1_def s1_def c0_def ..
  have "val5 (unat r0) (unat r1) (unat r2) (unat r3) (unat r4) mod P25519 =
      val5 (unat x0) (unat s1 mod B51) (unat s2 mod B51) (unat s3 mod B51) (unat s4 mod B51) mod P25519"
    by (simp only: carry_chain [OF s1 s2 s3 s4] fold_top [of _ _ _ _ "unat s4"] x0)
  also have "\<dots> = fe_value (fe_carry r0 r1 r2 r3 r4) mod P25519"
    unfolding eq fe_value.simps unat_mask51 [of x0] o1 unat_low_mask51 carry_first [of "unat x0"] ..
  finally have v: "fe_value (fe_carry r0 r1 r2 r3 r4) mod P25519 =
      val5 (unat r0) (unat r1) (unat r2) (unat r3) (unat r4) mod P25519" ..
  have m: "n mod B51 < FE_BOUND" for n
    by (rule order_less_le_trans [OF mod_less_divisor]) simp_all
  have "unat s1 mod B51 + unat x0 div B51 < FE_BOUND"
    using x0b mod_less_divisor [of B51 "unat s1"] by (simp add: less_mult_imp_div_less)
  then have "fe_ok (fe_carry r0 r1 r2 r3 r4)"
    unfolding eq fe_ok.simps unat_mask51 [of x0] o1 unat_low_mask51 using m by blast
  with v show ?thesis by blast
qed

lemma weak_reduce_value:
  assumes "unat a0 < 2 ^ 54" "unat a1 < 2 ^ 54" "unat a2 < 2 ^ 54" "unat a3 < 2 ^ 54" "unat a4 < 2 ^ 54"
  shows "fe_ok (weak_reduce (Fe a0 a1 a2 a3 a4)) \<and>
    fe_value (weak_reduce (Fe a0 a1 a2 a3 a4)) mod P25519 =
      val5 (unat a0) (unat a1) (unat a2) (unat a3) (unat a4) mod P25519"
proof -
  note b = assms [simplified]
  define c where "c = drop_bit 51 a4"
  define t4 where "t4 = a4 AND MASK51"
  define x0 where "x0 = a0 + c * 19"
  define x1 where "x1 = a1 + drop_bit 51 x0"
  define x2 where "x2 = a2 + drop_bit 51 x1"
  define x3 where "x3 = a3 + drop_bit 51 x2"
  define x4 where "x4 = t4 + drop_bit 51 x3"
  have c: "unat c = unat a4 div B51" "unat c < 8" using b by (simp_all add: c_def unat_shr51)
  have t4: "unat t4 = unat a4 mod B51" by (simp add: t4_def unat_mask51)
  have x0: "unat x0 = unat a0 + unat a4 div B51 * 19"
    unfolding x0_def by (subst unat_add64; (subst unat_mul64)?) (use b c in auto)
  have x0b: "unat x0 < 2 ^ 55" using b c x0 by simp
  have x1: "unat x1 = unat a1 + unat x0 div B51"
    unfolding x1_def by (subst unat_add64) (use b x0b in \<open>auto simp: unat_shr51\<close>)
  have x1b: "unat x1 < 2 ^ 55" using x0b b x1 by (simp add: div_less_iff_less_mult)
  have x2: "unat x2 = unat a2 + unat x1 div B51"
    unfolding x2_def by (subst unat_add64) (use b x1b in \<open>auto simp: unat_shr51\<close>)
  have x2b: "unat x2 < 2 ^ 55" using x1b b x2 by simp
  have x3: "unat x3 = unat a3 + unat x2 div B51"
    unfolding x3_def by (subst unat_add64) (use b x2b in \<open>auto simp: unat_shr51\<close>)
  have x3b: "unat x3 div B51 < 16" using x2b b x3 by simp
  have x4: "unat x4 = unat t4 + unat x3 div B51"
    unfolding x4_def by (subst unat_add64) (use x3b t4 in \<open>auto simp: unat_shr51\<close>)
  have eq: "weak_reduce (Fe a0 a1 a2 a3 a4) =
      Fe (x0 AND MASK51) (x1 AND MASK51) (x2 AND MASK51) (x3 AND MASK51) x4"
    unfolding weak_reduce_def fe.case Let_def x4_def x3_def x2_def x1_def x0_def t4_def c_def ..
  have "val5 (unat a0) (unat a1) (unat a2) (unat a3) (unat a4) mod P25519 =
      val5 (unat x0) (unat a1) (unat a2) (unat a3) (unat t4) mod P25519"
    by (simp only: fold_top [of _ _ _ _ "unat a4"] x0 t4)
  also have "\<dots> = fe_value (weak_reduce (Fe a0 a1 a2 a3 a4)) mod P25519"
    unfolding carry_chain [OF x1 x2 x3 x4] eq fe_value.simps unat_mask51 ..
  finally have v: "fe_value (weak_reduce (Fe a0 a1 a2 a3 a4)) mod P25519 =
      val5 (unat a0) (unat a1) (unat a2) (unat a3) (unat a4) mod P25519" ..
  have m: "n mod B51 < FE_BOUND" for n
    by (rule order_less_le_trans [OF mod_less_divisor]) simp_all
  have "unat x4 < FE_BOUND"
    using x4 x3b t4 mod_less_divisor [of B51 "unat a4"] by simp
  then have "fe_ok (weak_reduce (Fe a0 a1 a2 a3 a4))"
    unfolding eq fe_ok.simps unat_mask51 using m by blast
  with v show ?thesis by blast
qed

section \<open>What an element stands for\<close>

text \<open>\<open>fe_is x z\<close>: the limbs of \<open>x\<close> are in bounds and stand for \<open>z\<close> modulo \<open>p\<close>.\<close>

abbreviation p25519 :: int where "p25519 \<equiv> int P25519"

definition fe_is :: "fe \<Rightarrow> int \<Rightarrow> bool" where
  "fe_is x z \<longleftrightarrow> fe_ok x \<and> int (fe_value x) mod p25519 = z mod p25519"

lemma fe_is_cong: "fe_is x z \<Longrightarrow> z mod p25519 = w mod p25519 \<Longrightarrow> fe_is x w"
  by (simp add: fe_is_def)

lemma fe_is_value: "fe_ok x \<Longrightarrow> fe_is x (int (fe_value x))"
  by (simp add: fe_is_def)

lemma fe_isI_nat: "fe_ok x \<Longrightarrow> fe_value x mod P25519 = n mod P25519 \<Longrightarrow> fe_is x (int n)"
  by (simp add: fe_is_def flip: zmod_int)

lemma fe_is_constants: "fe_is fe_ZERO 0" "fe_is fe_ONE 1"
  by (simp_all add: fe_is_def fe_ZERO_def fe_ONE_def val5_def)

lemma val5_add: "val5 a0 a1 a2 a3 a4 + val5 b0 b1 b2 b3 b4 =
    val5 (a0 + b0) (a1 + b1) (a2 + b2) (a3 + b3) (a4 + b4)"
  by (simp add: val5_def)

lemma fe_add_raw:
  assumes "fe_ok a" "fe_ok b"
  shows "fe_ok (fe_add a b) \<and> fe_value (fe_add a b) mod P25519 = (fe_value a + fe_value b) mod P25519"
proof -
  obtain a0 a1 a2 a3 a4 b0 b1 b2 b3 b4 where e: "a = Fe a0 a1 a2 a3 a4" "b = Fe b0 b1 b2 b3 b4"
    by (cases a; cases b) blast
  have l: "unat (x + y) = unat x + unat y" "unat (x + y) < 2 ^ 54"
    if "unat x < FE_BOUND" "unat y < FE_BOUND" for x y :: u64
    using that by (simp_all add: unat_add64)
  show ?thesis
    using assms weak_reduce_value [of "a0 + b0" "a1 + b1" "a2 + b2" "a3 + b3" "a4 + b4"] l
    unfolding e by (simp only: fe_add_def fe.case fe_ok.simps fe_value.simps val5_add simp_thms)
qed

lemma fe_sub_raw:
  assumes "fe_ok a" "fe_ok b"
  shows "fe_ok (fe_sub a b) \<and>
    (fe_value (fe_sub a b) + fe_value b) mod P25519 = fe_value a mod P25519"
proof -
  obtain a0 a1 a2 a3 a4 b0 b1 b2 b3 b4 where e: "a = Fe a0 a1 a2 a3 a4" "b = Fe b0 b1 b2 b3 b4"
    by (cases a; cases b) blast
  have l: "unat (x + c - y) + unat y = unat x + unat c" "unat (x + c - y) < 2 ^ 54"
    if "unat x < FE_BOUND" "unat y < FE_BOUND" "FE_BOUND \<le> unat c" "unat c < 2 ^ 53" for x y c :: u64
  proof -
    have s: "unat (x + c) = unat x + unat c" using that by (simp add: unat_add64)
    moreover have "unat (x + c - y) = unat (x + c) - unat y"
      by (rule unat_sub) (use that s in \<open>simp add: word_le_nat_alt\<close>)
    ultimately show "unat (x + c - y) + unat y = unat x + unat c" "unat (x + c - y) < 2 ^ 54"
      using that by simp_all
  qed
  let ?k = "0x000fffffffffffda :: u64" and ?c = "0x000ffffffffffffe :: u64"
  have c: "FE_BOUND \<le> unat ?k" "unat ?k < 2 ^ 53" "FE_BOUND \<le> unat ?c" "unat ?c < 2 ^ 53" by simp_all
  let ?d = "Fe (a0 + ?k - b0) (a1 + ?c - b1) (a2 + ?c - b2) (a3 + ?c - b3) (a4 + ?c - b4)"
  have lim: "unat (a0 + ?k - b0) < 2 ^ 54" "unat (a1 + ?c - b1) < 2 ^ 54" "unat (a2 + ?c - b2) < 2 ^ 54"
    "unat (a3 + ?c - b3) < 2 ^ 54" "unat (a4 + ?c - b4) < 2 ^ 54"
    by (rule l(2); use assms c in \<open>simp only: e fe_ok.simps simp_thms\<close>)+
  have w: "fe_ok (fe_sub a b)" "fe_value (fe_sub a b) mod P25519 = fe_value ?d mod P25519"
    using weak_reduce_value [OF lim] unfolding e fe_sub_def fe.case fe_value.simps by blast+
  have sums: "unat (a0 + ?k - b0) + unat b0 = unat a0 + unat ?k" "unat (a1 + ?c - b1) + unat b1 = unat a1 + unat ?c"
    "unat (a2 + ?c - b2) + unat b2 = unat a2 + unat ?c" "unat (a3 + ?c - b3) + unat b3 = unat a3 + unat ?c"
    "unat (a4 + ?c - b4) + unat b4 = unat a4 + unat ?c"
    by (rule l(1); use assms c in \<open>simp only: e fe_ok.simps simp_thms\<close>)+
  have "fe_value ?d + fe_value b = fe_value a + val5 (unat ?k) (unat ?c) (unat ?c) (unat ?c) (unat ?c)"
    unfolding e fe_value.simps val5_add sums ..
  also have "val5 (unat ?k) (unat ?c) (unat ?c) (unat ?c) (unat ?c) = 2 * P25519"
    by (simp add: val5_def P25519_eq)
  finally have s: "fe_value ?d + fe_value b = fe_value a + 2 * P25519" .
  have "(fe_value ?d + fe_value b) mod P25519 = fe_value a mod P25519"
    unfolding s by (rule mod_mult_self1)
  moreover have "(fe_value (fe_sub a b) + fe_value b) mod P25519 = (fe_value ?d + fe_value b) mod P25519"
    by (rule mod_add_cong [OF w(2) refl])
  ultimately show ?thesis using w(1) by (simp only: simp_thms)
qed

text \<open>The schoolbook product with the high limbs folded back.\<close>

lemma mul_fold:
  "val5 a0 a1 a2 a3 a4 * val5 b0 b1 b2 b3 b4 =
    val5 (a0 * b0 + a1 * (b4 * 19) + a2 * (b3 * 19) + a3 * (b2 * 19) + a4 * (b1 * 19))
         (a0 * b1 + a1 * b0 + a2 * (b4 * 19) + a3 * (b3 * 19) + a4 * (b2 * 19))
         (a0 * b2 + a1 * b1 + a2 * b0 + a3 * (b4 * 19) + a4 * (b3 * 19))
         (a0 * b3 + a1 * b2 + a2 * b1 + a3 * b0 + a4 * (b4 * 19))
         (a0 * b4 + a1 * b3 + a2 * b2 + a3 * b1 + a4 * b0) +
    P25519 * (a1 * b4 + a2 * b3 + a3 * b2 + a4 * b1 + B51 * (a2 * b4 + a3 * b3 + a4 * b2 +
      B51 * (a3 * b4 + a4 * b3 + B51 * (a4 * b4))))"
  unfolding val5_def P25519_eq by (simp add: algebra_simps)

lemma unat_sum5:
  assumes "unat a < 2 ^ 109" "unat b < 2 ^ 109" "unat c < 2 ^ 109" "unat d < 2 ^ 109" "unat e < 2 ^ 109"
  shows "unat (a + b + c + d + e :: u128) = unat a + unat b + unat c + unat d + unat e \<and>
    unat (a + b + c + d + e) < 2 ^ 112"
proof -
  note b = assms [simplified]
  have 1: "unat (a + b) = unat a + unat b" by (rule unat_add128) (use b in simp)
  have 2: "unat (a + b + c) = unat a + unat b + unat c" by (subst unat_add128) (use b 1 in simp_all)
  have 3: "unat (a + b + c + d) = unat a + unat b + unat c + unat d"
    by (subst unat_add128) (use b 2 in simp_all)
  have "unat (a + b + c + d + e) = unat a + unat b + unat c + unat d + unat e"
    by (subst unat_add128) (use b 3 in simp_all)
  with b show ?thesis by simp
qed

lemma limb_product:
  assumes "unat x < FE_BOUND" "unat y < FE_BOUND"
  shows "unat (wide x * wide y) = unat x * unat y" "unat x * unat y < 2 ^ 104"
    "unat (wide x * (wide y * 19)) = unat x * (unat y * 19)" "unat x * (unat y * 19) < 2 ^ 109"
proof -
  show 1: "unat (wide x * wide y) = unat x * unat y" by (rule unat_wide_mul)
  have "unat x * unat y \<le> (FE_BOUND - 1) * (FE_BOUND - 1)"
    by (rule mult_bound) (use assms in simp_all)
  then show 2: "unat x * unat y < 2 ^ 104" by simp
  then show 3: "unat x * (unat y * 19) < 2 ^ 109"
    by (simp add: mult.assoc [symmetric])
  have "unat (wide y * 19) = unat y * 19" by (subst unat_mul128) (use assms(2) in simp_all)
  with 3 show "unat (wide x * (wide y * 19)) = unat x * (unat y * 19)"
    by (subst unat_mul128) simp_all
qed

lemma fe_mul_raw:
  assumes "fe_ok a" "fe_ok b"
  shows "fe_ok (fe_mul a b) \<and> fe_value (fe_mul a b) mod P25519 = (fe_value a * fe_value b) mod P25519"
proof -
  obtain a0 a1 a2 a3 a4 b0 b1 b2 b3 b4 where e: "a = Fe a0 a1 a2 a3 a4" "b = Fe b0 b1 b2 b3 b4"
    by (cases a; cases b) blast
  have a: "unat a0 < FE_BOUND" "unat a1 < FE_BOUND" "unat a2 < FE_BOUND" "unat a3 < FE_BOUND" "unat a4 < FE_BOUND"
    and b: "unat b0 < FE_BOUND" "unat b1 < FE_BOUND" "unat b2 < FE_BOUND" "unat b3 < FE_BOUND" "unat b4 < FE_BOUND"
    using assms by (simp_all add: e)
  have p: "unat (wide x * wide y) = unat x * unat y" "unat (wide x * wide y) < 2 ^ 109"
    "unat (wide x * wide y) < 2 ^ 104"
    "unat (wide x * (wide y * 19)) = unat x * (unat y * 19)" "unat (wide x * (wide y * 19)) < 2 ^ 109"
    if "unat x < FE_BOUND" "unat y < FE_BOUND" for x y
    using limb_product [OF that] by simp_all
  let ?r0 = "wide a0 * wide b0 + wide a1 * (wide b4 * 19) + wide a2 * (wide b3 * 19) + wide a3 * (wide b2 * 19) + wide a4 * (wide b1 * 19)"
  let ?r1 = "wide a0 * wide b1 + wide a1 * wide b0 + wide a2 * (wide b4 * 19) + wide a3 * (wide b3 * 19) + wide a4 * (wide b2 * 19)"
  let ?r2 = "wide a0 * wide b2 + wide a1 * wide b1 + wide a2 * wide b0 + wide a3 * (wide b4 * 19) + wide a4 * (wide b3 * 19)"
  let ?r3 = "wide a0 * wide b3 + wide a1 * wide b2 + wide a2 * wide b1 + wide a3 * wide b0 + wide a4 * (wide b4 * 19)"
  let ?r4 = "wide a0 * wide b4 + wide a1 * wide b3 + wide a2 * wide b2 + wide a3 * wide b1 + wide a4 * wide b0"
  note s0 = unat_sum5 [OF p(2) [OF a(1) b(1)] p(5) [OF a(2) b(5)] p(5) [OF a(3) b(4)] p(5) [OF a(4) b(3)] p(5) [OF a(5) b(2)]]
  note s1 = unat_sum5 [OF p(2) [OF a(1) b(2)] p(2) [OF a(2) b(1)] p(5) [OF a(3) b(5)] p(5) [OF a(4) b(4)] p(5) [OF a(5) b(3)]]
  note s2 = unat_sum5 [OF p(2) [OF a(1) b(3)] p(2) [OF a(2) b(2)] p(2) [OF a(3) b(1)] p(5) [OF a(4) b(5)] p(5) [OF a(5) b(4)]]
  note s3 = unat_sum5 [OF p(2) [OF a(1) b(4)] p(2) [OF a(2) b(3)] p(2) [OF a(3) b(2)] p(2) [OF a(4) b(1)] p(5) [OF a(5) b(5)]]
  note s4 = unat_sum5 [OF p(2) [OF a(1) b(5)] p(2) [OF a(2) b(4)] p(2) [OF a(3) b(3)] p(2) [OF a(4) b(2)] p(2) [OF a(5) b(1)]]
  have lim: "unat ?r4 < 2 ^ 108"
    using s4 p(3) [OF a(1) b(5)] p(3) [OF a(2) b(4)] p(3) [OF a(3) b(3)] p(3) [OF a(4) b(2)] p(3) [OF a(5) b(1)]
    by simp
  have eq: "fe_mul a b = fe_carry ?r0 ?r1 ?r2 ?r3 ?r4"
    unfolding e fe_mul_def fe.case Let_def ..
  have "val5 (unat ?r0) (unat ?r1) (unat ?r2) (unat ?r3) (unat ?r4) mod P25519 =
      (fe_value a * fe_value b) mod P25519"
    unfolding e fe_value.simps mul_fold mod_mult_self2
    unfolding s0 [THEN conjunct1] s1 [THEN conjunct1] s2 [THEN conjunct1] s3 [THEN conjunct1] s4 [THEN conjunct1]
    by (simp only: p(1,4) a b)
  then show ?thesis
    using fe_carry_value [OF s0 [THEN conjunct2] s1 [THEN conjunct2] s2 [THEN conjunct2] s3 [THEN conjunct2] lim]
    by (simp only: eq simp_thms)
qed

text \<open>\<open>square\<close> computes the same five sums as \<open>mul a a\<close>, with shared cross terms.\<close>

lemma fe_square_mul:
  assumes "fe_ok a"
  shows "fe_square a = fe_mul a a"
proof -
  obtain a0 a1 a2 a3 a4 where e: "a = Fe a0 a1 a2 a3 a4" by (cases a)
  have dbl: "wide (2 * x) = 2 * wide x" if "unat x < FE_BOUND" for x
    by (rule word_unat_eq_iff [THEN iffD2]) (use that in \<open>simp add: unat_word_ariths\<close>)
  have n19: "wide (19 * x) = wide x * 19" if "unat x < FE_BOUND" for x
    by (rule word_unat_eq_iff [THEN iffD2]) (use that in \<open>simp add: unat_word_ariths\<close>)
  have w: "wide (2 * a0) = 2 * wide a0" "wide (2 * a1) = 2 * wide a1"
    "wide (19 * a3) = wide a3 * 19" "wide (19 * a4) = wide a4 * 19"
    using assms by (simp_all only: e fe_ok.simps dbl n19)
  have r: "a * a + 2 * b * (e * 19) + 2 * c * (d * 19) = a * a + b * (e * 19) + c * (d * 19) + d * (c * 19) + e * (b * 19)"
    "2 * a * b + 2 * c * (e * 19) + d * (d * 19) = a * b + b * a + c * (e * 19) + d * (d * 19) + e * (c * 19)"
    "2 * a * c + b * b + 2 * d * (e * 19) = a * c + b * b + c * a + d * (e * 19) + e * (d * 19)"
    "2 * a * d + 2 * b * c + e * (e * 19) = a * d + b * c + c * b + d * a + e * (e * 19)"
    "2 * a * e + 2 * b * d + c * c = a * e + b * d + c * c + d * b + e * a" for a b e c d :: u128
    by (simp_all add: algebra_simps)
  show ?thesis
    unfolding e fe_square_def fe_mul_def fe.case Let_def w
      r [where a = "wide a0" and b = "wide a1" and c = "wide a2" and d = "wide a3" and e = "wide a4"] ..
qed

lemma fe_mul121666_raw:
  assumes "fe_ok a"
  shows "fe_ok (fe_mul121666 a) \<and> fe_value (fe_mul121666 a) mod P25519 = (fe_value a * 121666) mod P25519"
proof -
  obtain a0 a1 a2 a3 a4 where e: "a = Fe a0 a1 a2 a3 a4" by (cases a)
  have m: "unat (wide x * 121666) = unat x * 121666" "unat (wide x * 121666) < 2 ^ 108"
    "unat (wide x * 121666) < 2 ^ 112" if "unat x < FE_BOUND" for x
  proof -
    show *: "unat (wide x * 121666) = unat x * 121666"
      by (subst unat_mul128) (use that in simp_all)
    show "unat (wide x * 121666) < 2 ^ 108" "unat (wide x * 121666) < 2 ^ 112"
      unfolding * using that by simp_all
  qed
  have a: "unat a0 < FE_BOUND" "unat a1 < FE_BOUND" "unat a2 < FE_BOUND" "unat a3 < FE_BOUND" "unat a4 < FE_BOUND"
    using assms by (simp_all add: e)
  have "val5 (unat a0) (unat a1) (unat a2) (unat a3) (unat a4) * 121666 =
      val5 (unat a0 * 121666) (unat a1 * 121666) (unat a2 * 121666) (unat a3 * 121666) (unat a4 * 121666)"
    by (simp add: val5_def algebra_simps)
  then show ?thesis
    using fe_carry_value [OF m(3) m(3) m(3) m(3) m(2), OF a] m(1) [OF a(1)] m(1) [OF a(2)] m(1) [OF a(3)]
      m(1) [OF a(4)] m(1) [OF a(5)]
    unfolding e fe_mul121666_def fe.case fe_value.simps by (simp only: simp_thms)
qed

lemma fe_is_nat: "fe_is x (int n) \<longleftrightarrow> fe_ok x \<and> fe_value x mod P25519 = n mod P25519"
  by (simp add: fe_is_def flip: zmod_int)

lemma fe_is_obtain:
  assumes "fe_is x z"
  shows "fe_ok x" "int (fe_value x) mod p25519 = z mod p25519"
  using assms by (simp_all add: fe_is_def)

named_theorems fe_intro \<open>what the field operations compute\<close>

lemma fe_is_add [fe_intro]:
  assumes "fe_is x a" "fe_is y b"
  shows "fe_is (fe_add x y) (a + b)"
proof -
  note x = fe_is_obtain [OF assms(1)] and y = fe_is_obtain [OF assms(2)]
  have "fe_is (fe_add x y) (int (fe_value x + fe_value y))"
    using fe_add_raw [OF x(1) y(1)] by (simp only: fe_is_nat simp_thms)
  then show ?thesis
    by (rule fe_is_cong) (simp only: of_nat_add, rule mod_add_cong [OF x(2) y(2)])
qed

lemma fe_is_mul [fe_intro]:
  assumes "fe_is x a" "fe_is y b"
  shows "fe_is (fe_mul x y) (a * b)"
proof -
  note x = fe_is_obtain [OF assms(1)] and y = fe_is_obtain [OF assms(2)]
  have "fe_is (fe_mul x y) (int (fe_value x * fe_value y))"
    using fe_mul_raw [OF x(1) y(1)] by (simp only: fe_is_nat simp_thms)
  then show ?thesis
    by (rule fe_is_cong) (simp only: of_nat_mult, rule mod_mult_cong [OF x(2) y(2)])
qed

lemma fe_is_square [fe_intro]: "fe_is x a \<Longrightarrow> fe_is (fe_square x) (a * a)"
  using fe_square_mul [OF fe_is_obtain(1)] fe_is_mul by metis

lemma fe_is_sub [fe_intro]:
  assumes "fe_is x a" "fe_is y b"
  shows "fe_is (fe_sub x y) (a - b)"
proof -
  note x = fe_is_obtain [OF assms(1)] and y = fe_is_obtain [OF assms(2)]
  note raw = fe_sub_raw [OF x(1) y(1)]
  have "int (fe_value (fe_sub x y) + fe_value y) mod p25519 = int (fe_value x) mod p25519"
    using raw by (simp only: flip: zmod_int)
  then have "(int (fe_value (fe_sub x y)) + int (fe_value y)) mod p25519 = a mod p25519"
    using x(2) by (simp only: of_nat_add)
  from mod_diff_cong [OF this y(2)]
  have "int (fe_value (fe_sub x y)) mod p25519 = (a - b) mod p25519" by simp
  with raw show ?thesis by (simp only: fe_is_def simp_thms)
qed

lemma fe_is_neg [fe_intro]: "fe_is x a \<Longrightarrow> fe_is (fe_neg x) (- a)"
  using fe_is_sub [OF fe_is_constants(1)] by (simp add: fe_neg_def)

lemma fe_is_mul121666 [fe_intro]:
  assumes "fe_is x a"
  shows "fe_is (fe_mul121666 x) (a * 121666)"
proof -
  note x = fe_is_obtain [OF assms]
  have "fe_is (fe_mul121666 x) (int (fe_value x * 121666))"
    using fe_mul121666_raw [OF x(1)] by (simp only: fe_is_nat simp_thms)
  then show ?thesis
    by (rule fe_is_cong) (simp only: of_nat_mult of_nat_numeral, rule mod_mult_cong [OF x(2) refl])
qed

lemma fe_is_square_n: "fe_is x a \<Longrightarrow> fe_is (fe_square_n n x) (a ^ 2 ^ n)"
proof (induction n arbitrary: x a)
  case (Suc n)
  have "(a * a) ^ 2 ^ n = a ^ 2 ^ Suc n"
    by (simp add: power_mult [symmetric] power2_eq_square [symmetric])
  with Suc.IH [OF fe_is_square [OF Suc.prems]] show ?case by simp
qed simp

section \<open>Selection\<close>

lemma select_word:
  "a XOR (- 1 AND (a XOR b)) = (b :: u64)" "b XOR (- 1 AND (a XOR b)) = (a :: u64)"
  "b XOR a XOR b = (a :: u64)"
  by (rule bit_word_eqI; auto simp: bit_simps)+

lemma fe_select_eq: "choice_wf c \<Longrightarrow> fe_select a b c = (if is_set c then b else a)"
  by (cases a; cases b)
     (auto simp: choice_wf_def fe_select_def choice_TRUE_def choice_FALSE_def is_set_def select_word)

lemma fe_swap_eq: "choice_wf c \<Longrightarrow> fe_conditional_swap a b c = (if is_set c then (b, a) else (a, b))"
  by (cases a; cases b)
     (auto simp: choice_wf_def fe_conditional_swap_def choice_TRUE_def choice_FALSE_def is_set_def select_word)

section \<open>The addition chains\<close>

text \<open>Powers of one base: the relation the chains are followed with.\<close>

definition fe_pow :: "int \<Rightarrow> fe \<Rightarrow> nat \<Rightarrow> bool" where
  "fe_pow z x k \<longleftrightarrow> fe_is x (z ^ k)"

lemma fe_pow_start: "fe_is x z \<Longrightarrow> fe_pow z x 1"
  by (simp add: fe_pow_def)

lemma fe_pow_mul: "fe_pow z x k \<Longrightarrow> fe_pow z y l \<Longrightarrow> fe_pow z (fe_mul x y) (k + l)"
  unfolding fe_pow_def power_add by (rule fe_is_mul)

lemma fe_pow_square: "fe_pow z x k \<Longrightarrow> fe_pow z (fe_square x) (k + k)"
  unfolding fe_pow_def power_add by (rule fe_is_square)

lemma fe_pow_square_n: "fe_pow z x k \<Longrightarrow> fe_pow z (fe_square_n n x) (k * 2 ^ n)"
  unfolding fe_pow_def power_mult by (rule fe_is_square_n)

lemma fe_chain_250_pow:
  assumes "fe_is x z"
  shows "case fe_chain_250 x of (z11, z250) \<Rightarrow> fe_pow z z11 11 \<and> fe_pow z z250 (2 ^ 250 - 1)"
proof -
  note z1 = fe_pow_start [OF assms]
  note z2 = fe_pow_square [OF z1]
  note z9 = fe_pow_mul [OF z1 fe_pow_square_n [OF z2, of 2]]
  note z11 = fe_pow_mul [OF z2 z9]
  note z5 = fe_pow_mul [OF z9 fe_pow_square [OF z11]]
  note z10 = fe_pow_mul [OF fe_pow_square_n [OF z5, of 5] z5]
  note z20 = fe_pow_mul [OF fe_pow_square_n [OF z10, of 10] z10]
  note z40 = fe_pow_mul [OF fe_pow_square_n [OF z20, of 20] z20]
  note z50 = fe_pow_mul [OF fe_pow_square_n [OF z40, of 10] z10]
  note z100 = fe_pow_mul [OF fe_pow_square_n [OF z50, of 50] z50]
  note z200 = fe_pow_mul [OF fe_pow_square_n [OF z100, of 100] z100]
  note z250 = fe_pow_mul [OF fe_pow_square_n [OF z200, of 50] z50]
  have c: "k = l \<Longrightarrow> fe_pow z y k \<Longrightarrow> fe_pow z y l" for k l y by simp
  show ?thesis
    unfolding fe_chain_250_def Let_def prod.case
    by (rule conjI; rule c [OF _ z11] c [OF _ z250]; simp)
qed

lemma fe_invert_is: "fe_is x z \<Longrightarrow> fe_is (fe_invert x) (z ^ (2 ^ 255 - 21))"
proof -
  assume x: "fe_is x z"
  obtain z11 z250 where c: "fe_chain_250 x = (z11, z250)" by (cases "fe_chain_250 x")
  have p: "fe_pow z z11 11" "fe_pow z z250 (2 ^ 250 - 1)"
    using fe_chain_250_pow [OF x] by (simp_all add: c)
  have e: "(2 ^ 250 - 1) * 2 ^ 5 + 11 = (2 ^ 255 - 21 :: nat)" by simp
  show ?thesis
    using fe_pow_mul [OF fe_pow_square_n [OF p(2), of 5] p(1)]
    unfolding e fe_invert_def c prod.case Let_def fe_pow_def .
qed

lemma fe_pow_p58_is: "fe_is x z \<Longrightarrow> fe_is (fe_pow_p58 x) (z ^ (2 ^ 252 - 3))"
proof -
  assume x: "fe_is x z"
  obtain z11 z250 where c: "fe_chain_250 x = (z11, z250)" by (cases "fe_chain_250 x")
  have p: "fe_pow z z250 (2 ^ 250 - 1)"
    using fe_chain_250_pow [OF x] by (simp add: c)
  have e: "(2 ^ 250 - 1) * 2 ^ 2 + 1 = (2 ^ 252 - 3 :: nat)" by simp
  show ?thesis
    using fe_pow_mul [OF fe_pow_square_n [OF p, of 2] fe_pow_start [OF x]]
    unfolding e fe_pow_p58_def c prod.case Let_def fe_pow_def .
qed

end
