(* ===== verification/FieldBytes.thy ===== *)
theory FieldBytes
  imports FieldValue
begin

text \<open>
  The byte encodings of field elements: loading ignores the top bit, storing writes the canonical
  representative below \<open>p\<close>, whatever the limbs. Equality, sign and zero tests and the square root
  of a quotient follow.
\<close>

section \<open>Words\<close>

lemma or_push_bit:
  assumes "unat a < 2 ^ k" "k \<le> 64"
  shows "unat (a OR push_bit k b :: u64) = (unat a + 2 ^ k * unat b) mod B64"
proof -
  have "take_bit k a = a"
    by (rule word_unat_eq_iff [THEN iffD2]) (use assms(1) in \<open>simp add: unsigned_take_bit_eq take_bit_nat_eq_self\<close>)
  then have low: "bit a n \<Longrightarrow> n < k" for n
    by (metis bit_take_bit_iff)
  have "a OR push_bit k b = a + push_bit k b"
    by (rule disjunctive_add [symmetric]) (auto simp: bit_push_bit_iff dest: low)
  moreover have "unat (push_bit k b) = (2 ^ k * unat b) mod B64"
    unfolding unsigned_push_bit_eq by (simp add: take_bit_eq_mod push_bit_eq_mult mult.commute)
  ultimately show ?thesis
    by (simp add: unat_word_ariths mod_add_right_eq)
qed

lemma or_push_bit_small:
  assumes "unat a < 2 ^ k" "k \<le> 64" "unat b < 2 ^ (64 - k)"
  shows "unat (a OR push_bit k b :: u64) = unat a + 2 ^ k * unat b"
proof -
  have "unat a + 2 ^ k * unat b < 2 ^ k * (unat b + 1)" using assms(1) by simp
  also have "\<dots> \<le> 2 ^ k * 2 ^ (64 - k)" using assms(3) by (intro mult_le_mono) simp_all
  also have "\<dots> = B64" using assms(2) by (simp flip: power_add)
  finally show ?thesis using or_push_bit [OF assms(1,2)] by simp
qed

text \<open>Loading eight bytes.\<close>

definition byte_then :: "u8 \<Rightarrow> u64 \<Rightarrow> u64" where
  "byte_then b w = ucast b OR push_bit 8 w"

lemma byte_then_value: "unat w < 2 ^ 56 \<Longrightarrow> unat (byte_then b w) = unat b + 256 * unat w"
proof -
  assume w: "unat w < 2 ^ 56"
  have b: "unat (ucast b :: u64) = unat b"
    using unat_bounds(1) [of b] by (simp add: unsigned_ucast_eq take_bit_nat_eq_self)
  show ?thesis
    unfolding byte_then_def using or_push_bit_small [of "ucast b" 8 w] w b unat_bounds(1) [of b] by simp
qed

lemma load_le64_horner:
  "load_le64 bs off = byte_then (bs ! off) (byte_then (bs ! (off + 1)) (byte_then (bs ! (off + 2))
    (byte_then (bs ! (off + 3)) (byte_then (bs ! (off + 4)) (byte_then (bs ! (off + 5))
    (byte_then (bs ! (off + 6)) (byte_then (bs ! (off + 7)) 0)))))))"
  by (simp add: load_le64_def byte_then_def push_bit_or push_bit_push_bit or.assoc)

lemma load_le64_value:
  assumes "off + 8 \<le> length bs"
  shows "unat (load_le64 bs off) = from_le (take 8 (drop off bs))"
proof -
  have l: "take 8 (drop off bs) = map (\<lambda>i. bs ! (off + i)) [0..<8]"
    by (rule nth_equalityI) (use assms in simp_all)
  let ?f = "\<lambda>i j. from_le (map (\<lambda>i. bs ! (off + i)) [i..<j])"
  have b: "unat w = from_le xs \<Longrightarrow> length xs < 8 \<Longrightarrow> unat (byte_then b w) = from_le (b # xs)" for b w xs
  proof -
    assume w: "unat w = from_le xs" "length xs < 8"
    have "(256 :: nat) ^ length xs \<le> 256 ^ 7" using w(2) by (intro power_increasing) simp_all
    then have "unat w < 2 ^ 56" using from_le_bound [of xs] w(1) by simp
    then show ?thesis using w by (simp add: byte_then_value)
  qed
  have "map (\<lambda>i. bs ! (off + i)) [0..<8] = [bs ! off, bs ! (off + 1), bs ! (off + 2), bs ! (off + 3),
      bs ! (off + 4), bs ! (off + 5), bs ! (off + 6), bs ! (off + 7)]"
    by (simp add: upt_rec eval_nat_numeral)
  then show ?thesis
    unfolding l load_le64_horner by (simp only:) (intro b; simp)
qed

lemma to_le_map: "to_le k n = map (\<lambda>j. of_nat (n div 256 ^ j)) [0..<k]"
proof (induction k arbitrary: n)
  case (Suc k)
  have "[0..<Suc k] = 0 # map Suc [0..<k]" by (simp add: upt_conv_Cons map_Suc_upt del: upt_Suc)
  then show ?case using Suc by (simp add: div_mult2_eq del: upt_Suc)
qed simp

lemma word_bytes_le: "word_bytes w = u64_to_le w"
proof -
  have "ucast (drop_bit (8 * j) w) = (of_nat (unat w div 256 ^ j) :: u8)" for j
  proof -
    have "(ucast (drop_bit (8 * j) w) :: u8) = of_nat (unat (drop_bit (8 * j) w))" by simp
    then show ?thesis by (simp add: unat_shr power_mult)
  qed
  then show ?thesis by (simp add: word_bytes_def u64_to_le_def to_le_map)
qed

section \<open>Loading\<close>

lemma mod_limb: "a < 2 ^ k \<Longrightarrow> (a + 2 ^ k * b) mod 2 ^ (k + m) = a + 2 ^ k * (b mod 2 ^ m)" for a b :: nat
  by (simp add: power_add mod_mult2_eq)

lemma limb_or:
  assumes "unat a < 2 ^ k" "k \<le> 51"
  shows "unat ((a OR push_bit k b) AND MASK51) = unat a + 2 ^ k * (unat b mod 2 ^ (51 - k))"
proof -
  have "unat ((a OR push_bit k b) AND MASK51) = (unat a + 2 ^ k * unat b) mod B64 mod B51"
    using or_push_bit [OF assms(1)] assms(2) by (simp add: unat_mask51)
  also have "\<dots> = (unat a + 2 ^ k * unat b) mod 2 ^ (k + (51 - k))"
    using assms(2) by (simp add: mod_mod_cancel)
  finally show ?thesis by (simp only: mod_limb [OF assms(1)])
qed

lemma from_le_split8:
  assumes "length bs = 8 * Suc n"
  shows "from_le bs = from_le (take 8 bs) + B64 * from_le (drop 8 bs)"
proof -
  have "from_le (take 8 bs @ drop 8 bs) = from_le (take 8 bs) + B64 * from_le (drop 8 bs)"
    unfolding from_le_append using assms by simp
  then show ?thesis by simp
qed

text \<open>The limbs of a number given as four 64-bit words.\<close>

lemma limbs_of_words:
  fixes w0 w1 w2 w3 :: nat
  assumes "w0 = B51 * q0 + l0" "w1 = 2 ^ 38 * q1 + m1" "w2 = 2 ^ 25 * q2 + m2" "w3 = 2 ^ 12 * q3 + m3"
  shows "w0 + B64 * (w1 + B64 * (w2 + B64 * w3)) =
    val5 l0 (q0 + 2 ^ 13 * m1) (q1 + 2 ^ 26 * m2) (q2 + 2 ^ 39 * m3) q3"
  unfolding assms val5_def by (simp add: algebra_simps)

lemma val5_top: "val5 a b c d q = val5 a b c d (q mod B51) + 2 ^ 255 * (q div B51)"
proof -
  have "val5 a b c d (B51 * x + y) = val5 a b c d y + 2 ^ 255 * x" for x y
    by (simp add: val5_def algebra_simps)
  from this [of "q div B51" "q mod B51"] show ?thesis by (simp only: mult_div_mod_eq)
qed

lemma val5_bound:
  assumes "a0 < B51" "a1 < B51" "a2 < B51" "a3 < B51" "a4 < B51"
  shows "val5 a0 a1 a2 a3 a4 < 2 ^ 255"
  using assms unfolding val5_def by simp

lemma fe_from_bytes_raw:
  assumes "length bs = 32"
  shows "fe_ok (fe_from_bytes bs) \<and> fe_value (fe_from_bytes bs) = from_le bs mod 2 ^ 255"
proof -
  let ?w0 = "load_le64 bs 0" and ?w1 = "load_le64 bs 8" and ?w2 = "load_le64 bs 16" and ?w3 = "load_le64 bs 24"
  note lw = load_le64_value [of 0 bs] load_le64_value [of 8 bs] load_le64_value [of 16 bs] load_le64_value [of 24 bs]
  have W: "from_le bs = unat ?w0 + B64 * (unat ?w1 + B64 * (unat ?w2 + B64 * unat ?w3))"
    using lw assms from_le_split8 [of bs 3] from_le_split8 [of "drop 8 bs" 2] from_le_split8 [of "drop 16 bs" 1]
    by simp
  have l: "unat ((drop_bit 51 ?w0 OR push_bit 13 ?w1) AND MASK51) = unat ?w0 div B51 + 2 ^ 13 * (unat ?w1 mod 2 ^ 38)"
    "unat ((drop_bit 38 ?w1 OR push_bit 26 ?w2) AND MASK51) = unat ?w1 div 2 ^ 38 + 2 ^ 26 * (unat ?w2 mod 2 ^ 25)"
    "unat ((drop_bit 25 ?w2 OR push_bit 39 ?w3) AND MASK51) = unat ?w2 div 2 ^ 25 + 2 ^ 39 * (unat ?w3 mod 2 ^ 12)"
    using limb_or [of "drop_bit 51 ?w0" 13 ?w1] limb_or [of "drop_bit 38 ?w1" 26 ?w2]
      limb_or [of "drop_bit 25 ?w2" 39 ?w3] unat_bounds(4) [of ?w0] unat_bounds(4) [of ?w1] unat_bounds(4) [of ?w2]
    by (simp_all add: unat_shr div_less_iff_less_mult)
  have t: "unat (drop_bit 12 ?w3 AND MASK51) = (unat ?w3 div 2 ^ 12) mod B51"
    by (simp add: unat_mask51 unat_shr)
  let ?q = "unat ?w3 div 2 ^ 12"
  have bw: "from_le bs = val5 (unat ?w0 mod B51) (unat ?w0 div B51 + 2 ^ 13 * (unat ?w1 mod 2 ^ 38))
      (unat ?w1 div 2 ^ 38 + 2 ^ 26 * (unat ?w2 mod 2 ^ 25)) (unat ?w2 div 2 ^ 25 + 2 ^ 39 * (unat ?w3 mod 2 ^ 12)) ?q"
    unfolding W by (rule limbs_of_words) (rule mult_div_mod_eq [symmetric])+
  have lt: "unat (w AND MASK51) < B51" for w by (simp add: unat_mask51)
  have v: "fe_value (fe_from_bytes bs) = val5 (unat ?w0 mod B51) (unat ?w0 div B51 + 2 ^ 13 * (unat ?w1 mod 2 ^ 38))
      (unat ?w1 div 2 ^ 38 + 2 ^ 26 * (unat ?w2 mod 2 ^ 25)) (unat ?w2 div 2 ^ 25 + 2 ^ 39 * (unat ?w3 mod 2 ^ 12)) (?q mod B51)"
    unfolding fe_from_bytes_def Let_def fe_value.simps l t unat_mask51 [of ?w0] ..
  have small: "fe_value (fe_from_bytes bs) < 2 ^ 255"
    unfolding fe_from_bytes_def Let_def fe_value.simps by (intro val5_bound lt)
  have "from_le bs = fe_value (fe_from_bytes bs) + 2 ^ 255 * (?q div B51)"
    unfolding bw v val5_top [of _ _ _ _ ?q] by simp
  then have "from_le bs mod 2 ^ 255 = fe_value (fe_from_bytes bs)"
    using small by (simp only: mod_mult_self2 mod_less)
  moreover have "unat (w AND MASK51) < FE_BOUND" for w
    by (rule order_less_trans [OF lt]) simp
  ultimately show ?thesis unfolding fe_from_bytes_def Let_def fe_ok.simps by simp
qed


section \<open>Storing\<close>

text \<open>Four words packed from five 51-bit limbs.\<close>

lemma words_of_limbs:
  assumes "unat l0 < B51" "unat l1 < B51" "unat l2 < B51" "unat l3 < B51" "unat l4 < B51"
  shows "word_bytes (l0 OR push_bit 51 l1) @ word_bytes (drop_bit 13 l1 OR push_bit 38 l2) @
      word_bytes (drop_bit 26 l2 OR push_bit 25 l3) @ word_bytes (drop_bit 39 l3 OR push_bit 12 l4) =
    to_le 32 (val5 (unat l0) (unat l1) (unat l2) (unat l3) (unat l4))"
    (is "?bs = _")
proof -
  have m: "(a + 2 ^ k * b) mod B64 = a + 2 ^ k * (b mod 2 ^ (64 - k))" if "a < 2 ^ k" "k \<le> 64" for a b k :: nat
    using mod_limb [OF that(1), of b "64 - k"] that(2) by simp
  let ?w0 = "l0 OR push_bit 51 l1" and ?w1 = "drop_bit 13 l1 OR push_bit 38 l2"
    and ?w2 = "drop_bit 26 l2 OR push_bit 25 l3" and ?w3 = "drop_bit 39 l3 OR push_bit 12 l4"
  have w: "unat ?w0 = unat l0 + 2 ^ 51 * (unat l1 mod 2 ^ 13)"
    "unat ?w1 = unat l1 div 2 ^ 13 + 2 ^ 38 * (unat l2 mod 2 ^ 26)"
    "unat ?w2 = unat l2 div 2 ^ 26 + 2 ^ 25 * (unat l3 mod 2 ^ 39)"
    using or_push_bit [of l0 51 l1] or_push_bit [of "drop_bit 13 l1" 38 l2] or_push_bit [of "drop_bit 26 l2" 25 l3]
      m [of "unat l0" 51] m [of "unat l1 div 2 ^ 13" 38] m [of "unat l2 div 2 ^ 26" 25] assms
    by (simp_all add: unat_shr div_less_iff_less_mult)
  have w3: "unat ?w3 = unat l3 div 2 ^ 39 + 2 ^ 12 * unat l4"
    using or_push_bit_small [of "drop_bit 39 l3" 12 l4] assms by (simp add: unat_shr div_less_iff_less_mult)
  have s: "from_le (u64_to_le a @ bs) = unat a + B64 * from_le bs" for a bs
    using unat_bounds(4) [of a] by (simp add: from_le_append u64_to_le_def from_le_to_le)
  have arith: "l0 + 2 ^ 51 * m1 + B64 * (q1 + 2 ^ 38 * m2 + B64 * (q2 + 2 ^ 25 * m3 + B64 * (q3 + 2 ^ 12 * l4))) =
      val5 l0 (2 ^ 13 * q1 + m1) (2 ^ 26 * q2 + m2) (2 ^ 39 * q3 + m3) l4" for l0 m1 q1 m2 q2 m3 q3 l4 :: nat
    by (simp add: val5_def algebra_simps)
  have nil: "bs @ [] = bs" for bs :: bytes by simp
  have "from_le ?bs = unat ?w0 + B64 * (unat ?w1 + B64 * (unat ?w2 + B64 * unat ?w3))"
    using s [of ?w3 "[]"] unfolding word_bytes_le s nil by simp
  also have "\<dots> = val5 (unat l0) (unat l1) (unat l2) (unat l3) (unat l4)"
    unfolding w w3 arith by (simp only: mult_div_mod_eq)
  finally have v: "from_le ?bs = val5 (unat l0) (unat l1) (unat l2) (unat l3) (unat l4)" .
  have "length ?bs = 32" by (simp add: word_bytes_le)
  then show ?thesis using to_le_from_le [of ?bs] v by simp
qed

lemma div_chain:
  fixes a0 a1 a2 a3 a4 :: nat
  shows "(a4 + (a3 + (a2 + (a1 + (a0 + 19) div B51) div B51) div B51) div B51) div B51 =
    (val5 a0 a1 a2 a3 a4 + 19) div 2 ^ 255"
proof -
  have step: "(x + B51 * y) div (B51 * d) = (y + x div B51) div d" for x y d :: nat
    by (simp add: div_mult2_eq add.commute)
  have d: "(2 :: nat) ^ 255 = B51 * (B51 * (B51 * (B51 * B51)))" by simp
  have e: "val5 a0 a1 a2 a3 a4 + 19 = (a0 + 19) + B51 * (a1 + B51 * (a2 + B51 * (a3 + B51 * a4)))"
    by (simp add: val5_def)
  have r: "a1 + B51 * b + x div B51 = (a1 + x div B51) + B51 * b" for a1 b x :: nat by simp
  have l: "(x + B51 * y) div B51 = y + x div B51" for x y :: nat by simp
  show ?thesis unfolding d e step r l by (simp add: add.commute)
qed

lemma weak_reduce_again:
  assumes "fe_ok a"
  shows "\<exists>l0 l1 l2 l3 l4. weak_reduce a = Fe l0 l1 l2 l3 l4 \<and> unat l0 < B51 \<and> unat l1 < B51 \<and>
    unat l2 < B51 \<and> unat l3 < B51 \<and> unat l4 \<le> B51"
proof -
  obtain a0 a1 a2 a3 a4 where e: "a = Fe a0 a1 a2 a3 a4" by (cases a)
  have b: "unat a0 < FE_BOUND" "unat a1 < FE_BOUND" "unat a2 < FE_BOUND" "unat a3 < FE_BOUND" "unat a4 < FE_BOUND"
    using assms by (simp_all add: e)
  define x0 where "x0 = a0 + drop_bit 51 a4 * 19"
  define x1 where "x1 = a1 + drop_bit 51 x0"
  define x2 where "x2 = a2 + drop_bit 51 x1"
  define x3 where "x3 = a3 + drop_bit 51 x2"
  define x4 where "x4 = (a4 AND MASK51) + drop_bit 51 x3"
  have c: "unat (drop_bit 51 a4) < 2" using b(5) by (simp add: unat_shr51 div_less_iff_less_mult)
  have x0: "unat x0 < 2 * B51"
    unfolding x0_def by (subst unat_add64; (subst unat_mul64)?) (use b c in auto)
  have step: "unat (a + drop_bit 51 x) < 2 * B51" if "unat a < FE_BOUND" "unat x < 2 * B51" for a x :: u64
    using that by (subst unat_add64) (auto simp: unat_shr51)
  have x1: "unat x1 < 2 * B51" unfolding x1_def by (rule step [OF b(2) x0])
  have x2: "unat x2 < 2 * B51" unfolding x2_def by (rule step [OF b(3) x1])
  have x3: "unat x3 < 2 * B51" unfolding x3_def by (rule step [OF b(4) x2])
  have "unat (drop_bit 51 x3) < 2" "unat (a4 AND MASK51) < B51"
    using x3 by (simp_all add: unat_shr51 unat_mask51 div_less_iff_less_mult)
  then have x4: "unat x4 \<le> B51" unfolding x4_def by (subst unat_add64) auto
  have "weak_reduce a = Fe (x0 AND MASK51) (x1 AND MASK51) (x2 AND MASK51) (x3 AND MASK51) x4"
    unfolding e weak_reduce_def fe.case Let_def x4_def x3_def x2_def x1_def x0_def ..
  then show ?thesis using x4 by (intro exI conjI) (assumption, simp_all add: unat_mask51)
qed

lemma canonical_by_19:
  fixes V :: nat
  assumes "V < 2 ^ 255 + 2 ^ 204"
  shows "(V + 19 * ((V + 19) div 2 ^ 255)) mod 2 ^ 255 = V mod P25519" "(V + 19) div 2 ^ 255 < 2"
proof -
  note P = P25519_eq
  have m: "\<lbrakk>x = q * d + r; r < d\<rbrakk> \<Longrightarrow> x mod d = r" for x q d r :: nat by simp
  consider "V < P25519" | "P25519 \<le> V" "V < 2 * P25519" | "2 * P25519 \<le> V" by linarith
  then show "(V + 19 * ((V + 19) div 2 ^ 255)) mod 2 ^ 255 = V mod P25519"
  proof cases
    case 1
    then have "(V + 19) div 2 ^ 255 = 0" by (simp add: P)
    with 1 show ?thesis by (simp add: P)
  next
    case 2
    then have q: "(V + 19) div 2 ^ 255 = 1" by (intro div_nat_eqI) (simp_all add: P)
    have "(V + 19) mod 2 ^ 255 = V - P25519" by (rule m [of _ 1]) (use 2 in \<open>simp_all add: P\<close>)
    moreover have "V mod P25519 = V - P25519" by (rule m [of _ 1]) (use 2 in \<open>simp_all add: P\<close>)
    ultimately show ?thesis by (simp only: q mult_1_right)
  next
    case 3
    then have False using assms by (simp add: P)
    then show ?thesis ..
  qed
  show "(V + 19) div 2 ^ 255 < 2"
    by (rule less_mult_imp_div_less) (use assms in \<open>simp add: P\<close>)
qed

lemma fe_to_bytes_raw:
  assumes "fe_ok a"
  shows "fe_to_bytes a = to_le 32 (fe_value a mod P25519)"
proof -
  obtain l0 l1 l2 l3 l4 where w: "weak_reduce a = Fe l0 l1 l2 l3 l4" and
    b: "unat l0 < B51" "unat l1 < B51" "unat l2 < B51" "unat l3 < B51" "unat l4 \<le> B51"
    using weak_reduce_again [OF assms] by blast
  obtain a0 a1 a2 a3 a4 where e: "a = Fe a0 a1 a2 a3 a4" by (cases a)
  define V where "V = val5 (unat l0) (unat l1) (unat l2) (unat l3) (unat l4)"
  have V: "V mod P25519 = fe_value a mod P25519"
    using weak_reduce_value [of a0 a1 a2 a3 a4] assms w by (simp add: e V_def)
  have Vb: "V < 2 ^ 255 + 2 ^ 204" using b unfolding V_def val5_def by simp
  define q0 where "q0 = drop_bit 51 (l0 + 19)"
  define q1 where "q1 = drop_bit 51 (l1 + q0)"
  define q2 where "q2 = drop_bit 51 (l2 + q1)"
  define q3 where "q3 = drop_bit 51 (l3 + q2)"
  define q where "q = drop_bit 51 (l4 + q3)"
  have step: "unat (drop_bit 51 (l + c)) = (unat l + unat c) div B51" "unat (drop_bit 51 (l + c)) < 4"
    if "unat l \<le> B51" "unat c < 20" for l c :: u64
  proof -
    show *: "unat (drop_bit 51 (l + c)) = (unat l + unat c) div B51"
      unfolding unat_shr51 by (subst unat_add64) (use that in simp_all)
    show "unat (drop_bit 51 (l + c)) < 4"
      unfolding * by (rule less_mult_imp_div_less) (use that in simp)
  qed
  have q0: "unat q0 = (unat l0 + 19) div B51" "unat q0 < 20" using step [of l0 19] b by (simp_all add: q0_def)
  have q1: "unat q1 = (unat l1 + unat q0) div B51" "unat q1 < 20" using step [of l1 q0] b q0 by (simp_all add: q1_def)
  have q2: "unat q2 = (unat l2 + unat q1) div B51" "unat q2 < 20" using step [of l2 q1] b q1 by (simp_all add: q2_def)
  have q3: "unat q3 = (unat l3 + unat q2) div B51" "unat q3 < 20" using step [of l3 q2] b q2 by (simp_all add: q3_def)
  have "unat q = (unat l4 + unat q3) div B51" using step [of l4 q3] b q3 by (simp add: q_def)
  then have q: "unat q = (V + 19) div 2 ^ 255" unfolding V_def div_chain [symmetric] q3(1) q2(1) q1(1) q0(1) .
  have qb: "unat q < 2" using canonical_by_19(2) [OF Vb] by (simp only: q)
  define x0 where "x0 = l0 + 19 * q"
  define x1 where "x1 = l1 + drop_bit 51 x0"
  define x2 where "x2 = l2 + drop_bit 51 x1"
  define x3 where "x3 = l3 + drop_bit 51 x2"
  define x4 where "x4 = l4 + drop_bit 51 x3"
  have x0: "unat x0 = unat l0 + 19 * unat q" "unat x0 < 2 * B51"
    unfolding x0_def by (subst unat_add64; (subst unat_mul64)?; use b qb in auto)+
  have add: "unat (l + drop_bit 51 x) = unat l + unat x div B51" "unat (l + drop_bit 51 x) < 2 * B51"
    if "unat l \<le> B51" "unat x < 2 * B51" for l x :: u64
  proof -
    have "unat x div B51 < 2" using that by (simp add: div_less_iff_less_mult)
    then show "unat (l + drop_bit 51 x) = unat l + unat x div B51" "unat (l + drop_bit 51 x) < 2 * B51"
      using that by (subst unat_add64; simp add: unat_shr51)+
  qed
  note x1 = add [of l1 x0, folded x1_def, OF less_imp_le [OF b(2)] x0(2)]
  note x2 = add [of l2 x1, folded x2_def, OF less_imp_le [OF b(3)] x1(2)]
  note x3 = add [of l3 x2, folded x3_def, OF less_imp_le [OF b(4)] x2(2)]
  note x4 = add [of l4 x3, folded x4_def, OF b(5) x3(2)]
  let ?V = "val5 (unat x0 mod B51) (unat x1 mod B51) (unat x2 mod B51) (unat x3 mod B51) (unat x4 mod B51)"
  have "V + 19 * unat q = val5 (unat x0) (unat l1) (unat l2) (unat l3) (unat l4)"
    unfolding V_def x0(1) by (simp add: val5_def)
  also have "\<dots> = ?V + 2 ^ 255 * (unat x4 div B51)"
    unfolding carry_chain [OF x1(1) x2(1) x3(1) x4(1)] by (rule val5_top)
  finally have "(V + 19 * unat q) mod 2 ^ 255 = ?V mod 2 ^ 255" by (simp only: mod_mult_self2)
  also have "\<dots> = ?V" by (rule mod_less) (intro val5_bound mod_less_divisor, simp_all)
  finally have "?V = fe_value a mod P25519" using canonical_by_19(1) [OF Vb] V by (simp only: q)
  moreover have lt: "unat (w AND MASK51) < B51" for w by (simp add: unat_mask51)
  ultimately have "to_le 32 (fe_value a mod P25519) = to_le 32 (val5 (unat (x0 AND MASK51))
      (unat (x1 AND MASK51)) (unat (x2 AND MASK51)) (unat (x3 AND MASK51)) (unat (x4 AND MASK51)))"
    by (simp only: unat_mask51)
  also have "\<dots> = fe_to_bytes a"
    unfolding words_of_limbs [OF lt lt lt lt lt, symmetric] fe_to_bytes_def w fe.case Let_def
      x4_def x3_def x2_def x1_def x0_def q_def q3_def q2_def q1_def q0_def ..
  finally show ?thesis ..
qed

section \<open>Encodings of what an element stands for\<close>

lemma fe_is_from_bytes: "length bs = 32 \<Longrightarrow> fe_is (fe_from_bytes bs) (int (from_le bs mod 2 ^ 255))"
  using fe_from_bytes_raw [of bs] by (simp add: fe_is_nat)

lemma fe_to_bytes_is:
  assumes "fe_is x a"
  shows "fe_to_bytes x = to_le 32 (nat (a mod p25519))"
proof -
  note x = fe_is_obtain [OF assms]
  have "nat (a mod p25519) = fe_value x mod P25519"
    unfolding x(2) [symmetric] by (simp only: zmod_int [symmetric] nat_int)
  then show ?thesis using fe_to_bytes_raw [OF x(1)] by simp
qed

lemma canonical_nat: "nat (a mod p25519) < P25519" "nat (a mod p25519) < 256 ^ 32"
proof -
  have "a mod p25519 < p25519" by (rule pos_mod_bound) (simp add: P25519_eq)
  then show "nat (a mod p25519) < P25519" by (simp add: nat_less_iff P25519_eq)
  then show "nat (a mod p25519) < 256 ^ 32" by (rule order_less_trans) (simp add: P25519_eq)
qed

lemma canonical_inj: "nat (a mod p25519) = nat (b mod p25519) \<longleftrightarrow> a mod p25519 = b mod p25519"
  by (subst eq_nat_nat_iff) (simp_all add: P25519_eq)

lemma to_le_canonical_inj:
  "to_le 32 (nat (a mod p25519)) = to_le 32 (nat (b mod p25519)) \<longleftrightarrow> a mod p25519 = b mod p25519"
  using from_le_to_le [of 32 "nat (a mod p25519)"] from_le_to_le [of 32 "nat (b mod p25519)"]
    canonical_nat(2) [of a] canonical_nat(2) [of b] canonical_inj by (metis mod_less)

lemma fe_ct_eq_is:
  "fe_is x a \<Longrightarrow> fe_is y b \<Longrightarrow>
    fe_ct_eq x y = (if a mod p25519 = b mod p25519 then choice_TRUE else choice_FALSE)"
  by (simp only: fe_ct_eq_def fe_to_bytes_is ct_eq_bytes_eq to_le_canonical_inj)

lemma fe_is_zero_is:
  assumes "fe_is x a"
  shows "fe_is_zero x = (if a mod p25519 = 0 then choice_TRUE else choice_FALSE)"
proof -
  have "to_le 32 (nat (0 mod p25519)) = replicate 32 0"
    by (simp add: to_le_map replicate_eq_replicate map_replicate_const)
  then show ?thesis
    using to_le_canonical_inj [of a 0] by (simp add: fe_is_zero_def fe_to_bytes_is [OF assms] ct_eq_bytes_eq)
qed

lemma fe_is_negative_is:
  assumes "fe_is x a"
  shows "fe_is_negative x = (if odd (a mod p25519) then choice_TRUE else choice_FALSE)"
proof -
  have "to_le (Suc k) n ! 0 = of_nat n" for k n by simp
  from this [of 31 "nat (a mod p25519)"] have b: "fe_to_bytes x ! 0 = of_nat (nat (a mod p25519))"
    by (simp only: fe_to_bytes_is [OF assms] eval_nat_numeral BitM.simps Suc_eq_plus1 [symmetric] pred_numeral_simps)
  have "0 \<le> a mod p25519" by (simp add: P25519_eq)
  then have o: "odd (nat (a mod p25519)) \<longleftrightarrow> odd (a mod p25519)" by (simp add: even_nat_iff)
  have one: "(w :: u8) AND 1 = of_bool (bit w 0)" for w
    by (simp add: and_one_eq mod2_eq_if bit_0)
  have "bit (of_nat (nat (a mod p25519)) :: u8) 0 \<longleftrightarrow> odd (a mod p25519)"
    using o by (simp add: bit_0)
  then show ?thesis by (simp add: fe_is_negative_def b one)
qed

section \<open>Square roots\<close>

lemma fe_is_select:
  "fe_is x a \<Longrightarrow> fe_is y b \<Longrightarrow> choice_wf c \<Longrightarrow> fe_is (fe_select x y c) (if is_set c then b else a)"
  by (simp add: fe_select_eq)

lemma SQRT_M1_is: "fe_is SQRT_M1 (int (fe_value SQRT_M1))"
  by (rule fe_is_value) (simp add: SQRT_M1_def)

lemma SQRT_M1_square: "(int (fe_value SQRT_M1) * int (fe_value SQRT_M1)) mod p25519 = (- 1) mod p25519"
  by (simp add: SQRT_M1_def val5_def P25519_eq)

lemma mod_p_nonneg: "0 \<le> a mod p25519" "a mod p25519 < p25519"
  by (simp_all add: P25519_eq)

lemma neg_even:
  assumes "odd (a mod p25519)"
  shows "even ((- a) mod p25519)"
proof -
  have nz: "a mod p25519 \<noteq> 0" using assms by auto
  have "(- a) mod p25519 = p25519 - a mod p25519"
    by (simp add: zmod_zminus1_eq_if nz)
  moreover have "odd p25519" by (simp add: P25519_eq)
  ultimately show ?thesis using assms by simp
qed

text \<open>The end of \<open>sqrt_ratio\<close>: choosing between the candidate and its product with the root of -1.\<close>

lemma root_choice:
  assumes "(v * (r * r)) mod p25519 = (- u) mod p25519" "(i * i) mod p25519 = (- 1) mod p25519"
  shows "(v * ((r * i) * (r * i))) mod p25519 = u mod p25519"
proof -
  have "v * ((r * i) * (r * i)) = (v * (r * r)) * (i * i)" by (simp add: algebra_simps)
  also have "\<dots> mod p25519 = ((- u) * (- 1)) mod p25519" by (rule mod_mult_cong [OF assms])
  finally show ?thesis by simp
qed

lemma sqrt_ratio_is:
  assumes u: "fe_is x u" and v: "fe_is y v"
  shows "\<exists>r. fe_is (fst (fe_sqrt_ratio x y)) r \<and> even (r mod p25519) \<and>
    (is_set (snd (fe_sqrt_ratio x y)) \<longrightarrow> (v * (r * r)) mod p25519 = u mod p25519)"
proof -
  define root where "root = fe_mul (fe_mul x (fe_mul (fe_square y) y)) (fe_pow_p58 (fe_mul x
    (fe_mul (fe_square (fe_mul (fe_square y) y)) y)))"
  obtain r where r: "fe_is root r"
    unfolding root_def using fe_is_mul [OF fe_is_mul [OF u fe_is_mul [OF fe_is_square [OF v] v]]
      fe_pow_p58_is [OF fe_is_mul [OF u fe_is_mul [OF fe_is_square [OF fe_is_mul [OF fe_is_square [OF v] v]] v]]]]
    by blast
  note ch = fe_is_mul [OF v fe_is_square [OF r]]
  let ?i = "int (fe_value SQRT_M1)"
  let ?c = "fe_ct_eq (fe_mul y (fe_square root)) x" and ?f = "fe_ct_eq (fe_mul y (fe_square root)) (fe_neg x)"
  have cf: "?c = (if (v * (r * r)) mod p25519 = u mod p25519 then choice_TRUE else choice_FALSE)"
    "?f = (if (v * (r * r)) mod p25519 = (- u) mod p25519 then choice_TRUE else choice_FALSE)"
    by (rule fe_ct_eq_is [OF ch u] fe_ct_eq_is [OF ch fe_is_neg [OF u]])+
  have wf: "choice_wf ?c" "choice_wf ?f" by (auto simp: cf choice_wf_def)
  define s where "s = (if is_set ?f then r * ?i else r)"
  have sel: "fe_is (fe_select root (fe_mul root SQRT_M1) ?f) s"
    unfolding s_def by (rule fe_is_select [OF r fe_is_mul [OF r SQRT_M1_is] wf(2)])
  let ?root = "fe_select root (fe_mul root SQRT_M1) ?f"
  define t where "t = (if odd (s mod p25519) then - s else s)"
  have neg: "fe_is_negative ?root = (if odd (s mod p25519) then choice_TRUE else choice_FALSE)"
    by (rule fe_is_negative_is [OF sel])
  then have nwf: "choice_wf (fe_is_negative ?root)" by (simp add: choice_wf_def)
  have fin: "fe_is (fe_conditional_negate ?root (fe_is_negative ?root)) t"
    using fe_is_select [OF sel fe_is_neg [OF sel] nwf] neg
    by (simp add: fe_conditional_negate_def t_def split: if_splits)
  have "even (t mod p25519)" using neg_even [of s] by (simp add: t_def)
  moreover have "(v * (t * t)) mod p25519 = u mod p25519" if "is_set (choice_or ?c ?f)"
  proof (cases "is_set ?f")
    case True
    then have "(v * (r * r)) mod p25519 = (- u) mod p25519" using cf by (auto split: if_splits)
    from root_choice [OF this SQRT_M1_square] True show ?thesis by (simp add: s_def t_def)
  next
    case False
    then have "is_set ?c" using that cf by (auto simp: choice_or_def choice_TRUE_def choice_FALSE_def is_set_def split: if_splits)
    with False cf show ?thesis by (auto simp: s_def t_def split: if_splits)
  qed
  moreover have "fe_sqrt_ratio x y = (fe_conditional_negate ?root (fe_is_negative ?root), choice_or ?c ?f)"
    unfolding fe_sqrt_ratio_def Let_def root_def ..
  ultimately show ?thesis using fin by (intro exI [of _ t]) simp
qed

section \<open>Properties\<close>

text \<open>
  C28. The limb arithmetic computes in \<open>GF(2^255 - 19)\<close>: if the operands are in bounds, every
  operation's result is in bounds again and stands for the sum, difference, negation, product,
  square, multiple by 121666, inverse power \<open>a^(p - 2)\<close> and square-root power \<open>a^((p - 5) / 8)\<close>,
  so no 64- or 128-bit intermediate wraps.
\<close>

theorem field_arithmetic:
  assumes "fe_is x a" "fe_is y b"
  shows "fe_is (fe_add x y) (a + b) \<and> fe_is (fe_sub x y) (a - b) \<and> fe_is (fe_neg x) (- a) \<and>
    fe_is (fe_mul x y) (a * b) \<and> fe_is (fe_square x) (a * a) \<and> fe_is (fe_mul121666 x) (a * 121666) \<and>
    fe_is (fe_invert x) (a ^ (P25519 - 2)) \<and> fe_is (fe_pow_p58 x) (a ^ ((P25519 - 5) div 8))"
proof -
  have e: "P25519 - 2 = 2 ^ 255 - 21" "(P25519 - 5) div 8 = 2 ^ 252 - 3"
    by (simp_all add: P25519_eq)
  show ?thesis
    unfolding e using assms fe_invert_is [OF assms(1)] fe_pow_p58_is [OF assms(1)]
    by (intro conjI fe_intro)
qed

theorem field_arithmetic_witness:
  "fe_is (fe_mul SQRT_M1 SQRT_M1) (- 1) \<and> fe_is (fe_invert fe_ONE) (1 ^ (P25519 - 2))"
proof
  have "fe_is (fe_mul SQRT_M1 SQRT_M1) (int (fe_value SQRT_M1) * int (fe_value SQRT_M1))"
    using field_arithmetic [OF SQRT_M1_is SQRT_M1_is] by (elim conjE)
  then show "fe_is (fe_mul SQRT_M1 SQRT_M1) (- 1)" by (rule fe_is_cong) (rule SQRT_M1_square)
  show "fe_is (fe_invert fe_ONE) (1 ^ (P25519 - 2))"
    using field_arithmetic [OF fe_is_constants(2) fe_is_constants(1)] by (elim conjE)
qed

text \<open>
  C29. The 32-byte encoding is canonical: loading takes any 32 bytes to the number they hold below
  \<open>2^255\<close>, storing an element that stands for \<open>a\<close> writes exactly the little-endian bytes of
  \<open>a mod p\<close>, and comparison through the encodings decides equality modulo \<open>p\<close>.
\<close>

theorem field_encoding_canonical:
  assumes "length bs = 32" "fe_is x a" "fe_is y b"
  shows "fe_is (fe_from_bytes bs) (int (from_le bs mod 2 ^ 255)) \<and>
    fe_to_bytes x = to_le 32 (nat (a mod p25519)) \<and>
    (is_set (fe_ct_eq x y) \<longleftrightarrow> a mod p25519 = b mod p25519)"
  using fe_is_from_bytes [OF assms(1)] fe_to_bytes_is [OF assms(2)] fe_ct_eq_is [OF assms(2,3)] by simp

theorem field_encoding_canonical_witness:
  "fe_is (fe_from_bytes (replicate 32 255)) (int (from_le (replicate 32 255) mod 2 ^ 255)) \<and>
    fe_to_bytes fe_ONE = to_le 32 (nat (1 mod p25519)) \<and>
    (is_set (fe_ct_eq fe_ONE fe_ZERO) \<longleftrightarrow> 1 mod p25519 = 0 mod p25519)"
  by (rule field_encoding_canonical [OF _ fe_is_constants(2) fe_is_constants(1)]) simp

text \<open>
  \<open>sqrt_ratio\<close> is sound: whenever its flag is set, the returned element \<open>r\<close> satisfies
  \<open>v * r^2 = u\<close>; and it always returns the root whose canonical encoding is even.
\<close>

theorem sqrt_ratio_sound:
  assumes "fe_is x u" and "fe_is y v"
  shows "\<exists>r. fe_is (fst (fe_sqrt_ratio x y)) r \<and> even (r mod p25519) \<and>
    (is_set (snd (fe_sqrt_ratio x y)) \<longrightarrow> (v * (r * r)) mod p25519 = u mod p25519)"
  by (rule sqrt_ratio_is [OF assms])

theorem sqrt_ratio_sound_witness:
  "\<exists>r. fe_is (fst (fe_sqrt_ratio fe_ONE fe_ONE)) r \<and> even (r mod p25519) \<and>
    (is_set (snd (fe_sqrt_ratio fe_ONE fe_ONE)) \<longrightarrow> (1 * (r * r)) mod p25519 = 1 mod p25519)"
  by (rule sqrt_ratio_sound [OF fe_is_constants(2) fe_is_constants(2)])

end
