(* ===== verification/Montgomery.thy ===== *)
theory Montgomery
  imports FieldBytes Entropy
begin

text \<open>
  X25519 (crates/blindplane-crypto/src/montgomery.rs): the Montgomery ladder over field elements
  and the key pair type. \<open>rfc7748\<close> is the function of RFC 7748 on integers modulo \<open>p\<close>; the ladder
  is shown to compute it, so that everything built on X25519 can be read on integers.
\<close>

section \<open>The code\<close>

definition clamp :: "bytes \<Rightarrow> bytes" where
  "clamp scalar =
    (let clamped = scalar;
         clamped = clamped[0 := clamped ! 0 AND 0b11111000];
         clamped = clamped[31 := clamped ! 31 AND 127];
         clamped = clamped[31 := clamped ! 31 OR 64]
     in clamped)"

type_synonym ladder = "fe \<times> fe \<times> fe \<times> fe \<times> choice"

text \<open>One iteration of the loop \<open>for i in (0..255).rev()\<close>.\<close>

definition ladder_step :: "bytes \<Rightarrow> fe \<Rightarrow> ladder \<Rightarrow> nat \<Rightarrow> ladder" where
  "ladder_step clamped x1 st i =
    (case st of (x2, z2, x3, z3, swap) \<Rightarrow>
     let bit = from_bit (ucast (drop_bit (i mod 8) (clamped ! (i div 8)) AND 1));
         swap = choice_xor swap bit;
         (x2, x3) = fe_conditional_swap x2 x3 swap;
         (z2, z3) = fe_conditional_swap z2 z3 swap;
         swap = bit;
         a = fe_add x2 z2;
         b = fe_sub x2 z2;
         c = fe_add x3 z3;
         d = fe_sub x3 z3;
         da = fe_mul d a;
         cb = fe_mul c b;
         aa = fe_square a;
         bb = fe_square b;
         x3 = fe_square (fe_add da cb);
         z3 = fe_mul x1 (fe_square (fe_sub da cb));
         x2 = fe_mul aa bb;
         e = fe_sub aa bb;
         z2 = fe_mul e (fe_add bb (fe_mul121666 e))
     in (x2, z2, x3, z3, swap))"

definition x25519 :: "bytes \<Rightarrow> bytes \<Rightarrow> bytes" where
  "x25519 scalar point =
    (let clamped = clamp scalar;
         x1 = fe_from_bytes point;
         st = (fe_ONE, fe_ZERO, x1, fe_ONE, choice_FALSE);
         (x2, z2, x3, z3, swap) = foldl (ladder_step clamped x1) st (rev [0..<255]);
         (x2, x3) = fe_conditional_swap x2 x3 swap;
         (z2, z3) = fe_conditional_swap z2 z3 swap
     in fe_to_bytes (fe_mul x2 (fe_invert z2)))"

definition BASEPOINT :: bytes where
  "BASEPOINT = 9 # replicate 31 0"

definition public_key :: "bytes \<Rightarrow> bytes" where
  "public_key secret = x25519 secret BASEPOINT"

text \<open>
  \<open>StaticSecret\<close>: both fields are private, and \<open>from_bytes\<close> is the only constructor, so the
  public half always belongs to the secret.
\<close>

record static_secret =
  ss_secret :: bytes
  ss_public :: bytes

definition static_from_bytes :: "bytes \<Rightarrow> static_secret" where
  "static_from_bytes bs =
    (let public = public_key bs in \<lparr>ss_secret = bs, ss_public = public\<rparr>)"

definition static_generate :: "'w os \<Rightarrow> ('w, random_error, static_secret) eff" where
  "static_generate os = ebind (rand_fill os (replicate 32 0)) (\<lambda>bs. pure_eff (Inr (static_from_bytes bs)))"

definition static_to_bytes :: "static_secret \<Rightarrow> bytes" where
  "static_to_bytes s = ss_secret s"

definition diffie_hellman :: "static_secret \<Rightarrow> bytes \<Rightarrow> bytes option" where
  "diffie_hellman s peer =
    (let shared = x25519 (ss_secret s) peer
     in if is_set (ct_eq_bytes shared (replicate 32 0)) then None else Some shared)"

section \<open>RFC 7748 on integers\<close>

text \<open>The pseudocode of section 5, with arithmetic modulo \<open>p\<close> and \<open>k\<close> the decoded scalar.\<close>

definition rfc_cswap :: "bool \<Rightarrow> int \<Rightarrow> int \<Rightarrow> int \<times> int" where
  "rfc_cswap s a b = (if s then (b, a) else (a, b))"

definition rfc_step :: "nat \<Rightarrow> int \<Rightarrow> int \<times> int \<times> int \<times> int \<times> bool \<Rightarrow> nat \<Rightarrow> int \<times> int \<times> int \<times> int \<times> bool" where
  "rfc_step k x_1 st t =
    (case st of (x_2, z_2, x_3, z_3, swap) \<Rightarrow>
     let k_t = bit k t;
         swap = (swap \<noteq> k_t);
         (x_2, x_3) = rfc_cswap swap x_2 x_3;
         (z_2, z_3) = rfc_cswap swap z_2 z_3;
         A = x_2 + z_2; AA = A * A;
         B = x_2 - z_2; BB = B * B;
         E = AA - BB;
         C = x_3 + z_3;
         D = x_3 - z_3;
         DA = D * A;
         CB = C * B
     in ((AA * BB) mod p25519,
         (E * (AA + 121665 * E)) mod p25519,
         ((DA + CB) * (DA + CB)) mod p25519,
         (x_1 * ((DA - CB) * (DA - CB))) mod p25519,
         k_t))"

definition rfc7748 :: "nat \<Rightarrow> nat \<Rightarrow> nat" where
  "rfc7748 k u =
    (case foldl (rfc_step k (int u)) (1, 0, int u, 1, False) (rev [0..<255]) of
      (x_2, z_2, x_3, z_3, swap) \<Rightarrow>
        (case (rfc_cswap swap x_2 x_3, rfc_cswap swap z_2 z_3) of ((x_2, _), (z_2, _)) \<Rightarrow>
           nat ((x_2 * z_2 ^ (P25519 - 2)) mod p25519)))"

section \<open>The ladder computes it\<close>

definition ladder_is :: "ladder \<Rightarrow> int \<times> int \<times> int \<times> int \<times> bool \<Rightarrow> bool" where
  "ladder_is st rf = (case st of (x2, z2, x3, z3, swap) \<Rightarrow> case rf of (a2, b2, a3, b3, s) \<Rightarrow>
     fe_is x2 a2 \<and> fe_is z2 b2 \<and> fe_is x3 a3 \<and> fe_is z3 b3 \<and>
     swap = (if s then choice_TRUE else choice_FALSE))"

lemma swap_is:
  assumes "fe_is x a" "fe_is y b" "c = (if s then choice_TRUE else choice_FALSE)"
  shows "\<exists>x' y' a' b'. fe_conditional_swap x y c = (x', y') \<and> rfc_cswap s a b = (a', b') \<and>
    fe_is x' a' \<and> fe_is y' b'"
  using assms by (auto simp: fe_swap_eq choice_wf_def rfc_cswap_def)

lemma fe_is_mod: "fe_is x a \<Longrightarrow> fe_is x (a mod p25519)"
  by (simp add: fe_is_def)

lemma bit_of_byte: "(ucast (w AND 1 :: u8) :: u64) = of_bool (bit w 0)"
  by (simp add: and_one_eq mod2_eq_if bit_0)

lemma choice_bit: "from_bit (ucast (drop_bit j (w :: u8) AND 1)) = (if bit w j then choice_TRUE else choice_FALSE)"
  by (simp only: bit_of_byte) (simp add: bit_drop_bit_eq from_bit_def choice_TRUE_def choice_FALSE_def)

lemma xor_choice:
  "choice_xor (if a then choice_TRUE else choice_FALSE) (if b then choice_TRUE else choice_FALSE) =
    (if a \<noteq> b then choice_TRUE else choice_FALSE)"
  by (simp add: choice_xor_def choice_TRUE_def choice_FALSE_def)

lemma bit_from_le:
  assumes "i < 8 * length bs"
  shows "bit (from_le bs) i = bit (bs ! (i div 8)) (i mod 8)"
  using assms
proof (induction bs arbitrary: i)
  case (Cons b bs)
  have fl: "from_le (b # bs) = unat b + 2 ^ 8 * from_le bs" by simp
  have ub: "unat b < 2 ^ 8" using unat_bounds(1) [of b] by simp
  show ?case
  proof (cases "i < 8")
    case True
    have "take_bit 8 (from_le (b # bs)) = unat b"
      unfolding fl take_bit_eq_mod using ub by simp
    then have "bit (from_le (b # bs)) i = bit (unat b) i"
      using True by (metis bit_take_bit_iff)
    then show ?thesis using True by (simp add: bit_unsigned_iff)
  next
    case False
    have "drop_bit 8 (from_le (b # bs)) = from_le bs"
      unfolding fl drop_bit_eq_div using ub by simp
    then have "bit (from_le (b # bs)) (8 + (i - 8)) = bit (from_le bs) (i - 8)"
      by (metis bit_drop_bit_eq comp_apply)
    moreover have "i div 8 = Suc ((i - 8) div 8)" "i mod 8 = (i - 8) mod 8"
      using False by (simp_all add: le_div_geq le_mod_geq)
    ultimately show ?thesis using False Cons by simp
  qed
qed simp

lemma ladder_step_is:
  assumes st: "ladder_is st rf" and x1: "fe_is x1 a1" and len: "length clamped = 32" and i: "i < 255"
  shows "ladder_is (ladder_step clamped x1 st i) (rfc_step (from_le clamped) a1 rf i)"
proof -
  obtain x2 z2 x3 z3 swap a2 b2 a3 b3 s where e: "st = (x2, z2, x3, z3, swap)" "rf = (a2, b2, a3, b3, s)"
    by (metis prod_cases5)
  from st have r: "fe_is x2 a2" "fe_is z2 b2" "fe_is x3 a3" "fe_is z3 b3"
    "swap = (if s then choice_TRUE else choice_FALSE)"
    by (simp_all add: ladder_is_def e)
  let ?k = "bit (from_le clamped) i"
  have bit: "from_bit (ucast (drop_bit (i mod 8) (clamped ! (i div 8)) AND 1)) =
      (if ?k then choice_TRUE else choice_FALSE)"
    using bit_from_le [of i clamped] i len by (simp only: choice_bit)
  have sw: "choice_xor swap (if ?k then choice_TRUE else choice_FALSE) =
      (if s \<noteq> ?k then choice_TRUE else choice_FALSE)"
    unfolding r(5) by (rule xor_choice)
  obtain y2 y3 c2 c3 where x: "fe_conditional_swap x2 x3 (if s \<noteq> ?k then choice_TRUE else choice_FALSE) = (y2, y3)"
      "rfc_cswap (s \<noteq> ?k) a2 a3 = (c2, c3)" "fe_is y2 c2" "fe_is y3 c3"
    using swap_is [OF r(1,3) refl, of "s \<noteq> ?k"] by blast
  obtain w2 w3 d2 d3 where z: "fe_conditional_swap z2 z3 (if s \<noteq> ?k then choice_TRUE else choice_FALSE) = (w2, w3)"
      "rfc_cswap (s \<noteq> ?k) b2 b3 = (d2, d3)" "fe_is w2 d2" "fe_is w3 d3"
    using swap_is [OF r(2,4) refl, of "s \<noteq> ?k"] by blast
  have a24: "b + (a - b) * 121666 = a + 121665 * (a - b)" for a b :: int by (simp add: algebra_simps)
  note A = fe_is_add [OF x(3) z(3)] and B = fe_is_sub [OF x(3) z(3)]
    and C = fe_is_add [OF x(4) z(4)] and D = fe_is_sub [OF x(4) z(4)]
  note DA = fe_is_mul [OF D A] and CB = fe_is_mul [OF C B]
    and AA = fe_is_square [OF A] and BB = fe_is_square [OF B]
  note E = fe_is_sub [OF AA BB]
  note n = fe_is_mod [OF fe_is_mul [OF AA BB]]
    fe_is_mod [OF fe_is_mul [OF E fe_is_add [OF BB fe_is_mul121666 [OF E]]]]
    fe_is_mod [OF fe_is_square [OF fe_is_add [OF DA CB]]]
    fe_is_mod [OF fe_is_mul [OF x1 fe_is_square [OF fe_is_sub [OF DA CB]]]]
  show ?thesis
    unfolding e ladder_is_def ladder_step_def rfc_step_def prod.case Let_def bit sw x(1,2) z(1,2)
    using n unfolding a24 by blast
qed

lemma ladder_steps_is:
  assumes "fe_is x1 a1" "length clamped = 32" "\<forall>i\<in>set is. i < 255" "ladder_is st rf"
  shows "ladder_is (foldl (ladder_step clamped x1) st is) (foldl (rfc_step (from_le clamped) a1) rf is)"
  using assms(3,4)
proof (induction "is" arbitrary: st rf)
  case (Cons i "is")
  then show ?case using ladder_step_is [OF _ assms(1,2)] by simp
qed simp

lemma x25519_rfc7748:
  assumes "length scalar = 32" "length point = 32"
  shows "x25519 scalar point = to_le 32 (rfc7748 (from_le (clamp scalar)) (from_le point mod 2 ^ 255))"
proof -
  let ?x = "fe_from_bytes point" and ?u = "from_le point mod 2 ^ 255" and ?k = "from_le (clamp scalar)"
  note x1 = fe_is_from_bytes [OF assms(2)]
  have len: "length (clamp scalar) = 32" by (simp add: clamp_def assms(1))
  have init: "ladder_is (fe_ONE, fe_ZERO, ?x, fe_ONE, choice_FALSE) (1, 0, int ?u, 1, False)"
    using x1 fe_is_constants by (simp add: ladder_is_def)
  obtain x2 z2 x3 z3 swap where f: "foldl (ladder_step (clamp scalar) ?x) (fe_ONE, fe_ZERO, ?x, fe_ONE, choice_FALSE)
      (rev [0..<255]) = (x2, z2, x3, z3, swap)" by (metis prod_cases5)
  obtain a2 b2 a3 b3 s where g: "foldl (rfc_step ?k (int ?u)) (1, 0, int ?u, 1, False) (rev [0..<255]) = (a2, b2, a3, b3, s)"
    by (metis prod_cases5)
  have "ladder_is (x2, z2, x3, z3, swap) (a2, b2, a3, b3, s)"
    unfolding f [symmetric] g [symmetric] by (rule ladder_steps_is [OF x1 len _ init]) simp
  then have r: "fe_is x2 a2" "fe_is z2 b2" "fe_is x3 a3" "fe_is z3 b3"
    "swap = (if s then choice_TRUE else choice_FALSE)"
    by (simp_all add: ladder_is_def)
  obtain y2 y3 c2 c3 where x: "fe_conditional_swap x2 x3 swap = (y2, y3)" "rfc_cswap s a2 a3 = (c2, c3)" "fe_is y2 c2"
    using swap_is [OF r(1,3,5)] by blast
  obtain w2 w3 d2 d3 where z: "fe_conditional_swap z2 z3 swap = (w2, w3)" "rfc_cswap s b2 b3 = (d2, d3)" "fe_is w2 d2"
    using swap_is [OF r(2,4,5)] by blast
  have e: "P25519 - 2 = 2 ^ 255 - 21" by (simp add: P25519_eq)
  have "x25519 scalar point = fe_to_bytes (fe_mul y2 (fe_invert w2))"
    unfolding x25519_def Let_def f prod.case x(1) z(1) ..
  also have "\<dots> = to_le 32 (nat ((c2 * d2 ^ (P25519 - 2)) mod p25519))"
    unfolding e by (rule fe_to_bytes_is [OF fe_is_mul [OF x(3) fe_invert_is [OF z(3)]]])
  also have "nat ((c2 * d2 ^ (P25519 - 2)) mod p25519) = rfc7748 ?k ?u"
    unfolding rfc7748_def g prod.case x(2) z(2) ..
  finally show ?thesis .
qed

lemma x25519_length [simp]: "length (x25519 k u) = 32"
  by (simp add: x25519_def Let_def fe_to_bytes_def word_bytes_le split: prod.split fe.split)

section \<open>Key pairs\<close>

lemma BASEPOINT_length [simp]: "length BASEPOINT = 32"
  by (simp add: BASEPOINT_def)

lemma static_sel [simp]:
  "ss_secret (static_from_bytes bs) = bs" "ss_public (static_from_bytes bs) = public_key bs"
  by (simp_all add: static_from_bytes_def Let_def)

lemma public_key_length [simp]: "length (public_key s) = 32"
  by (simp add: public_key_def)

lemma diffie_hellman_eq: "diffie_hellman s peer =
    (if x25519 (ss_secret s) peer = replicate 32 0 then None else Some (x25519 (ss_secret s) peer))"
  by (simp add: diffie_hellman_def Let_def)

lemma diffie_hellman_length: "diffie_hellman s peer = Some d \<Longrightarrow> length d = 32"
  by (auto simp: diffie_hellman_eq split: if_splits)

section \<open>Properties\<close>

text \<open>
  C27. X25519 refines RFC 7748: for every 32-byte scalar and point the masked, limb-based ladder
  returns the little-endian bytes of the RFC's function on integers modulo \<open>p\<close>, of the clamped
  scalar and the point with its top bit ignored.
\<close>

theorem x25519_refines_rfc7748:
  assumes "length scalar = 32" and "length point = 32"
  shows "x25519 scalar point = to_le 32 (rfc7748 (from_le (clamp scalar)) (from_le point mod 2 ^ 255))"
  by (rule x25519_rfc7748 [OF assms])

theorem x25519_refines_rfc7748_witness:
  "x25519 (replicate 32 1) BASEPOINT =
    to_le 32 (rfc7748 (from_le (clamp (replicate 32 1))) (from_le BASEPOINT mod 2 ^ 255))"
  by (rule x25519_refines_rfc7748) simp_all

end
