(* ===== verification/Octal.thy ===== *)
theory Octal
  imports Main
begin

text \<open>
  Multi-precision arithmetic by rewriting, for the number-theoretic certificates of the curve: a
  natural number is written in octal digits, least significant first, and each rule consumes one
  digit of each operand. The rules of \<open>oct_eval\<close> are used with \<open>simp only\<close>; they evaluate sums,
  products and remainders of 256-bit numbers in some hundredths of a second.
\<close>

named_theorems oct_eval

section \<open>Digits\<close>

definition D0 :: "nat \<Rightarrow> nat" where "D0 x = 8 * x"
definition D1 :: "nat \<Rightarrow> nat" where "D1 x = 1 + 8 * x"
definition D2 :: "nat \<Rightarrow> nat" where "D2 x = 2 + 8 * x"
definition D3 :: "nat \<Rightarrow> nat" where "D3 x = 3 + 8 * x"
definition D4 :: "nat \<Rightarrow> nat" where "D4 x = 4 + 8 * x"
definition D5 :: "nat \<Rightarrow> nat" where "D5 x = 5 + 8 * x"
definition D6 :: "nat \<Rightarrow> nat" where "D6 x = 6 + 8 * x"
definition D7 :: "nat \<Rightarrow> nat" where "D7 x = 7 + 8 * x"

lemmas digit_defs = D0_def D1_def D2_def D3_def D4_def D5_def D6_def D7_def

definition oct_inc :: "nat \<Rightarrow> nat" where "oct_inc x = x + 1"
definition oct_adc :: "nat \<Rightarrow> nat \<Rightarrow> nat" where "oct_adc x y = x + y + 1"

text \<open>A leading zero says nothing.\<close>

lemma oct_normal [oct_eval]: "D0 0 = 0"
  by (simp add: digit_defs)

text \<open>Reading a numeral, three bits at a time.\<close>

lemma bits: "numeral (num.Bit0 k) = 2 * (numeral k :: nat)" "numeral (num.Bit1 k) = 2 * (numeral k :: nat) + 1"
  by (simp_all add: numeral_Bit0 numeral_Bit1)

lemma oct_numeral:
  "(numeral (num.Bit0 (num.Bit0 (num.Bit0 n))) :: nat) = D0 (numeral n)"
  "(numeral (num.Bit1 (num.Bit0 (num.Bit0 n))) :: nat) = D1 (numeral n)"
  "(numeral (num.Bit0 (num.Bit1 (num.Bit0 n))) :: nat) = D2 (numeral n)"
  "(numeral (num.Bit1 (num.Bit1 (num.Bit0 n))) :: nat) = D3 (numeral n)"
  "(numeral (num.Bit0 (num.Bit0 (num.Bit1 n))) :: nat) = D4 (numeral n)"
  "(numeral (num.Bit1 (num.Bit0 (num.Bit1 n))) :: nat) = D5 (numeral n)"
  "(numeral (num.Bit0 (num.Bit1 (num.Bit1 n))) :: nat) = D6 (numeral n)"
  "(numeral (num.Bit1 (num.Bit1 (num.Bit1 n))) :: nat) = D7 (numeral n)"
  "(numeral num.One :: nat) = D1 0"
  "(numeral (num.Bit0 num.One) :: nat) = D2 0"
  "(numeral (num.Bit1 num.One) :: nat) = D3 0"
  "(numeral (num.Bit0 (num.Bit0 num.One)) :: nat) = D4 0"
  "(numeral (num.Bit1 (num.Bit0 num.One)) :: nat) = D5 0"
  "(numeral (num.Bit0 (num.Bit1 num.One)) :: nat) = D6 0"
  "(numeral (num.Bit1 (num.Bit1 num.One)) :: nat) = D7 0"
  "(1 :: nat) = D1 0"
  unfolding digit_defs
  by (insert bits [of n] bits [of "num.Bit0 n"] bits [of "num.Bit1 n"] bits [of "num.Bit0 (num.Bit0 n)"]
      bits [of "num.Bit0 (num.Bit1 n)"] bits [of "num.Bit1 (num.Bit0 n)"] bits [of "num.Bit1 (num.Bit1 n)"], linarith+)

section \<open>Sums\<close>

lemma oct_inc [oct_eval]:
  "oct_inc 0 = D1 0" "oct_inc (D0 x) = D1 x" "oct_inc (D1 x) = D2 x"
  "oct_inc (D2 x) = D3 x" "oct_inc (D3 x) = D4 x" "oct_inc (D4 x) = D5 x"
  "oct_inc (D5 x) = D6 x" "oct_inc (D6 x) = D7 x" "oct_inc (D7 x) = D0 (oct_inc x)"
  by (simp_all add: digit_defs oct_inc_def)

lemma oct_ends [oct_eval]:
  "0 + y = (y :: nat)" "x + 0 = (x :: nat)" "oct_adc 0 y = oct_inc y"
  "oct_adc x 0 = oct_inc x"
  by (simp_all add: oct_adc_def oct_inc_def)

lemma oct_add [oct_eval]:
  "D0 x + D0 y = D0 (x + y)" "D0 x + D1 y = D1 (x + y)" "D0 x + D2 y = D2 (x + y)"
  "D0 x + D3 y = D3 (x + y)" "D0 x + D4 y = D4 (x + y)" "D0 x + D5 y = D5 (x + y)"
  "D0 x + D6 y = D6 (x + y)" "D0 x + D7 y = D7 (x + y)" "D1 x + D0 y = D1 (x + y)"
  "D1 x + D1 y = D2 (x + y)" "D1 x + D2 y = D3 (x + y)" "D1 x + D3 y = D4 (x + y)"
  "D1 x + D4 y = D5 (x + y)" "D1 x + D5 y = D6 (x + y)" "D1 x + D6 y = D7 (x + y)"
  "D1 x + D7 y = D0 (oct_adc x y)" "D2 x + D0 y = D2 (x + y)" "D2 x + D1 y = D3 (x + y)"
  "D2 x + D2 y = D4 (x + y)" "D2 x + D3 y = D5 (x + y)" "D2 x + D4 y = D6 (x + y)"
  "D2 x + D5 y = D7 (x + y)" "D2 x + D6 y = D0 (oct_adc x y)" "D2 x + D7 y = D1 (oct_adc x y)"
  "D3 x + D0 y = D3 (x + y)" "D3 x + D1 y = D4 (x + y)" "D3 x + D2 y = D5 (x + y)"
  "D3 x + D3 y = D6 (x + y)" "D3 x + D4 y = D7 (x + y)" "D3 x + D5 y = D0 (oct_adc x y)"
  "D3 x + D6 y = D1 (oct_adc x y)" "D3 x + D7 y = D2 (oct_adc x y)" "D4 x + D0 y = D4 (x + y)"
  "D4 x + D1 y = D5 (x + y)" "D4 x + D2 y = D6 (x + y)" "D4 x + D3 y = D7 (x + y)"
  "D4 x + D4 y = D0 (oct_adc x y)" "D4 x + D5 y = D1 (oct_adc x y)" "D4 x + D6 y = D2 (oct_adc x y)"
  "D4 x + D7 y = D3 (oct_adc x y)" "D5 x + D0 y = D5 (x + y)" "D5 x + D1 y = D6 (x + y)"
  "D5 x + D2 y = D7 (x + y)" "D5 x + D3 y = D0 (oct_adc x y)" "D5 x + D4 y = D1 (oct_adc x y)"
  "D5 x + D5 y = D2 (oct_adc x y)" "D5 x + D6 y = D3 (oct_adc x y)" "D5 x + D7 y = D4 (oct_adc x y)"
  "D6 x + D0 y = D6 (x + y)" "D6 x + D1 y = D7 (x + y)" "D6 x + D2 y = D0 (oct_adc x y)"
  "D6 x + D3 y = D1 (oct_adc x y)" "D6 x + D4 y = D2 (oct_adc x y)" "D6 x + D5 y = D3 (oct_adc x y)"
  "D6 x + D6 y = D4 (oct_adc x y)" "D6 x + D7 y = D5 (oct_adc x y)" "D7 x + D0 y = D7 (x + y)"
  "D7 x + D1 y = D0 (oct_adc x y)" "D7 x + D2 y = D1 (oct_adc x y)" "D7 x + D3 y = D2 (oct_adc x y)"
  "D7 x + D4 y = D3 (oct_adc x y)" "D7 x + D5 y = D4 (oct_adc x y)" "D7 x + D6 y = D5 (oct_adc x y)"
  "D7 x + D7 y = D6 (oct_adc x y)"
  by (simp_all add: digit_defs oct_adc_def)

lemma oct_adc [oct_eval]:
  "oct_adc (D0 x) (D0 y) = D1 (x + y)" "oct_adc (D0 x) (D1 y) = D2 (x + y)"
  "oct_adc (D0 x) (D2 y) = D3 (x + y)" "oct_adc (D0 x) (D3 y) = D4 (x + y)"
  "oct_adc (D0 x) (D4 y) = D5 (x + y)" "oct_adc (D0 x) (D5 y) = D6 (x + y)"
  "oct_adc (D0 x) (D6 y) = D7 (x + y)" "oct_adc (D0 x) (D7 y) = D0 (oct_adc x y)"
  "oct_adc (D1 x) (D0 y) = D2 (x + y)" "oct_adc (D1 x) (D1 y) = D3 (x + y)"
  "oct_adc (D1 x) (D2 y) = D4 (x + y)" "oct_adc (D1 x) (D3 y) = D5 (x + y)"
  "oct_adc (D1 x) (D4 y) = D6 (x + y)" "oct_adc (D1 x) (D5 y) = D7 (x + y)"
  "oct_adc (D1 x) (D6 y) = D0 (oct_adc x y)" "oct_adc (D1 x) (D7 y) = D1 (oct_adc x y)"
  "oct_adc (D2 x) (D0 y) = D3 (x + y)" "oct_adc (D2 x) (D1 y) = D4 (x + y)"
  "oct_adc (D2 x) (D2 y) = D5 (x + y)" "oct_adc (D2 x) (D3 y) = D6 (x + y)"
  "oct_adc (D2 x) (D4 y) = D7 (x + y)" "oct_adc (D2 x) (D5 y) = D0 (oct_adc x y)"
  "oct_adc (D2 x) (D6 y) = D1 (oct_adc x y)" "oct_adc (D2 x) (D7 y) = D2 (oct_adc x y)"
  "oct_adc (D3 x) (D0 y) = D4 (x + y)" "oct_adc (D3 x) (D1 y) = D5 (x + y)"
  "oct_adc (D3 x) (D2 y) = D6 (x + y)" "oct_adc (D3 x) (D3 y) = D7 (x + y)"
  "oct_adc (D3 x) (D4 y) = D0 (oct_adc x y)" "oct_adc (D3 x) (D5 y) = D1 (oct_adc x y)"
  "oct_adc (D3 x) (D6 y) = D2 (oct_adc x y)" "oct_adc (D3 x) (D7 y) = D3 (oct_adc x y)"
  "oct_adc (D4 x) (D0 y) = D5 (x + y)" "oct_adc (D4 x) (D1 y) = D6 (x + y)"
  "oct_adc (D4 x) (D2 y) = D7 (x + y)" "oct_adc (D4 x) (D3 y) = D0 (oct_adc x y)"
  "oct_adc (D4 x) (D4 y) = D1 (oct_adc x y)" "oct_adc (D4 x) (D5 y) = D2 (oct_adc x y)"
  "oct_adc (D4 x) (D6 y) = D3 (oct_adc x y)" "oct_adc (D4 x) (D7 y) = D4 (oct_adc x y)"
  "oct_adc (D5 x) (D0 y) = D6 (x + y)" "oct_adc (D5 x) (D1 y) = D7 (x + y)"
  "oct_adc (D5 x) (D2 y) = D0 (oct_adc x y)" "oct_adc (D5 x) (D3 y) = D1 (oct_adc x y)"
  "oct_adc (D5 x) (D4 y) = D2 (oct_adc x y)" "oct_adc (D5 x) (D5 y) = D3 (oct_adc x y)"
  "oct_adc (D5 x) (D6 y) = D4 (oct_adc x y)" "oct_adc (D5 x) (D7 y) = D5 (oct_adc x y)"
  "oct_adc (D6 x) (D0 y) = D7 (x + y)" "oct_adc (D6 x) (D1 y) = D0 (oct_adc x y)"
  "oct_adc (D6 x) (D2 y) = D1 (oct_adc x y)" "oct_adc (D6 x) (D3 y) = D2 (oct_adc x y)"
  "oct_adc (D6 x) (D4 y) = D3 (oct_adc x y)" "oct_adc (D6 x) (D5 y) = D4 (oct_adc x y)"
  "oct_adc (D6 x) (D6 y) = D5 (oct_adc x y)" "oct_adc (D6 x) (D7 y) = D6 (oct_adc x y)"
  "oct_adc (D7 x) (D0 y) = D0 (oct_adc x y)" "oct_adc (D7 x) (D1 y) = D1 (oct_adc x y)"
  "oct_adc (D7 x) (D2 y) = D2 (oct_adc x y)" "oct_adc (D7 x) (D3 y) = D3 (oct_adc x y)"
  "oct_adc (D7 x) (D4 y) = D4 (oct_adc x y)" "oct_adc (D7 x) (D5 y) = D5 (oct_adc x y)"
  "oct_adc (D7 x) (D6 y) = D6 (oct_adc x y)" "oct_adc (D7 x) (D7 y) = D7 (oct_adc x y)"
  by (simp_all add: digit_defs oct_adc_def)

section \<open>Products\<close>

text \<open>
  \<open>oct_row\<close> multiplies by the digits of its last argument; the other arguments are the multiples of
  the other factor, which \<open>oct_mult\<close> computes once.
\<close>

function oct_row :: "nat \<Rightarrow> nat \<Rightarrow> nat \<Rightarrow> nat \<Rightarrow> nat \<Rightarrow> nat \<Rightarrow> nat \<Rightarrow> nat \<Rightarrow> nat" where
  "oct_row t1 t2 t3 t4 t5 t6 t7 b =
    (if b = 0 then 0
     else [0, t1, t2, t3, t4, t5, t6, t7] ! (b mod 8) + 8 * oct_row t1 t2 t3 t4 t5 t6 t7 (b div 8))"
  by pat_completeness auto
termination
  by (relation "measure (\<lambda>(t1, t2, t3, t4, t5, t6, t7, b). b)") auto

declare oct_row.simps [simp del]

lemma oct_row_0 [oct_eval]: "oct_row t1 t2 t3 t4 t5 t6 t7 0 = 0"
  by (simp add: oct_row.simps)

lemma oct_row_digit:
  "d < 8 \<Longrightarrow> oct_row t1 t2 t3 t4 t5 t6 t7 (d + 8 * b) =
    [0, t1, t2, t3, t4, t5, t6, t7] ! d + 8 * oct_row t1 t2 t3 t4 t5 t6 t7 b"
  by (cases "d + 8 * b = 0") (simp_all add: oct_row.simps [of _ _ _ _ _ _ _ "d + 8 * b"] oct_row_0)

lemma oct_row [oct_eval]:
  "oct_row t1 t2 t3 t4 t5 t6 t7 (D0 b) = D0 (oct_row t1 t2 t3 t4 t5 t6 t7 b)"
  "oct_row t1 t2 t3 t4 t5 t6 t7 (D1 b) = t1 + D0 (oct_row t1 t2 t3 t4 t5 t6 t7 b)"
  "oct_row t1 t2 t3 t4 t5 t6 t7 (D2 b) = t2 + D0 (oct_row t1 t2 t3 t4 t5 t6 t7 b)"
  "oct_row t1 t2 t3 t4 t5 t6 t7 (D3 b) = t3 + D0 (oct_row t1 t2 t3 t4 t5 t6 t7 b)"
  "oct_row t1 t2 t3 t4 t5 t6 t7 (D4 b) = t4 + D0 (oct_row t1 t2 t3 t4 t5 t6 t7 b)"
  "oct_row t1 t2 t3 t4 t5 t6 t7 (D5 b) = t5 + D0 (oct_row t1 t2 t3 t4 t5 t6 t7 b)"
  "oct_row t1 t2 t3 t4 t5 t6 t7 (D6 b) = t6 + D0 (oct_row t1 t2 t3 t4 t5 t6 t7 b)"
  "oct_row t1 t2 t3 t4 t5 t6 t7 (D7 b) = t7 + D0 (oct_row t1 t2 t3 t4 t5 t6 t7 b)"
  unfolding digit_defs using oct_row_digit [of 0] oct_row_digit [of 1] oct_row_digit [of 2]
  by (simp_all add: oct_row_digit del: add_0)

lemma oct_row_val: "oct_row a (2 * a) (3 * a) (4 * a) (5 * a) (6 * a) (7 * a) b = a * b"
proof (induction b rule: less_induct)
  case (less b)
  have d: "b mod 8 \<in> {0, 1, 2, 3, 4, 5, 6, 7}" by auto
  have "oct_row a (2 * a) (3 * a) (4 * a) (5 * a) (6 * a) (7 * a) b = a * (b mod 8) + 8 * (a * (b div 8))"
    if "b \<noteq> 0"
    using less [of "b div 8"] that d by (subst oct_row.simps) auto
  also have "a * (b mod 8) + 8 * (a * (b div 8)) = a * (b mod 8 + 8 * (b div 8))"
    by (simp only: algebra_simps)
  finally show ?case by (cases "b = 0") (simp_all add: oct_row_0)
qed

definition oct_mult2 :: "nat \<Rightarrow> nat \<Rightarrow> nat \<Rightarrow> nat \<Rightarrow> nat \<Rightarrow> nat" where
  "oct_mult2 a a2 a3 a4 b = oct_row a a2 a3 a4 (a4 + a) (a3 + a3) (a4 + a3) b"

definition oct_mult1 :: "nat \<Rightarrow> nat \<Rightarrow> nat \<Rightarrow> nat" where
  "oct_mult1 a a2 b = oct_mult2 a a2 (a2 + a) (a2 + a2) b"

definition oct_mult :: "nat \<Rightarrow> nat \<Rightarrow> nat" where
  "oct_mult a b = oct_mult1 a (a + a) b"

lemmas oct_mult_defs [oct_eval] = oct_mult_def oct_mult1_def oct_mult2_def

lemma oct_mult_val: "oct_mult a b = a * b"
proof -
  have "a + a = 2 * a" "2 * a + a = 3 * a" "2 * a + 2 * a = 4 * a" "4 * a + a = 5 * a" "3 * a + 3 * a = 6 * a"
    "4 * a + 3 * a = 7 * a" by simp_all
  then show ?thesis by (simp only: oct_mult_defs oct_row_val)
qed

section \<open>Splitting and complements\<close>

text \<open>The digits to keep or drop are counted by a power of eight, or by one less.\<close>

definition oct_low :: "nat \<Rightarrow> nat \<Rightarrow> nat" where "oct_low m x = x mod m"
definition oct_high :: "nat \<Rightarrow> nat \<Rightarrow> nat" where "oct_high m x = x div m"
definition oct_com :: "nat \<Rightarrow> nat \<Rightarrow> nat" where "oct_com t x = t - x mod (t + 1)"

lemma oct_low_digit: "d < 8 \<Longrightarrow> oct_low (8 * m) (d + 8 * x) = d + 8 * oct_low m x"
  by (simp add: oct_low_def mod_mult2_eq)

lemma oct_high_digit: "d < 8 \<Longrightarrow> oct_high (8 * m) (d + 8 * x) = oct_high m x"
  by (simp add: oct_high_def div_mult2_eq)

lemma oct_com_digit:
  assumes "d < 8"
  shows "oct_com (7 + 8 * t) (d + 8 * x) = (7 - d) + 8 * oct_com t x"
proof -
  have "(d + 8 * x) mod (8 * (t + 1)) = d + 8 * (x mod (t + 1))"
    using assms mod_mult2_eq [of "d + 8 * x" 8 "t + 1"] by simp
  moreover have "x mod (t + 1) \<le> t" by (simp add: less_Suc_eq_le [symmetric])
  ultimately have "7 + 8 * t - (d + 8 * x) mod (8 * (t + 1)) = 7 - d + 8 * (t - x mod (t + 1))"
    using assms by linarith
  moreover have "7 + 8 * t + 1 = 8 * (t + 1)" by simp
  ultimately show ?thesis by (simp only: oct_com_def)
qed

lemma oct_low [oct_eval]:
  "oct_low (D1 0) x = 0" "oct_low m 0 = 0"
  "oct_low (D0 m) (D0 x) = D0 (oct_low m x)" "oct_low (D0 m) (D1 x) = D1 (oct_low m x)"
  "oct_low (D0 m) (D2 x) = D2 (oct_low m x)" "oct_low (D0 m) (D3 x) = D3 (oct_low m x)"
  "oct_low (D0 m) (D4 x) = D4 (oct_low m x)" "oct_low (D0 m) (D5 x) = D5 (oct_low m x)"
  "oct_low (D0 m) (D6 x) = D6 (oct_low m x)" "oct_low (D0 m) (D7 x) = D7 (oct_low m x)"
  unfolding digit_defs using oct_low_digit [of 0] oct_low_digit [of 1] oct_low_digit [of 2]
  by (simp_all add: oct_low_digit oct_low_def [of "Suc 0"] oct_low_def [of _ 0])

lemma oct_high [oct_eval]:
  "oct_high (D1 0) x = x" "oct_high m 0 = 0"
  "oct_high (D0 m) (D0 x) = oct_high m x" "oct_high (D0 m) (D1 x) = oct_high m x"
  "oct_high (D0 m) (D2 x) = oct_high m x" "oct_high (D0 m) (D3 x) = oct_high m x"
  "oct_high (D0 m) (D4 x) = oct_high m x" "oct_high (D0 m) (D5 x) = oct_high m x"
  "oct_high (D0 m) (D6 x) = oct_high m x" "oct_high (D0 m) (D7 x) = oct_high m x"
  unfolding digit_defs using oct_high_digit [of 0] oct_high_digit [of 1] oct_high_digit [of 2]
  by (simp_all add: oct_high_digit oct_high_def [of "Suc 0"] oct_high_def [of _ 0])

lemma oct_com [oct_eval]:
  "oct_com 0 x = 0" "oct_com (D7 t) 0 = D7 (oct_com t 0)"
  "oct_com (D7 t) (D0 x) = D7 (oct_com t x)" "oct_com (D7 t) (D1 x) = D6 (oct_com t x)"
  "oct_com (D7 t) (D2 x) = D5 (oct_com t x)" "oct_com (D7 t) (D3 x) = D4 (oct_com t x)"
  "oct_com (D7 t) (D4 x) = D3 (oct_com t x)" "oct_com (D7 t) (D5 x) = D2 (oct_com t x)"
  "oct_com (D7 t) (D6 x) = D1 (oct_com t x)" "oct_com (D7 t) (D7 x) = D0 (oct_com t x)"
  unfolding digit_defs using oct_com_digit [of 0] oct_com_digit [of 1] oct_com_digit [of 2] oct_com_digit [of 0 _ 0]
  by (simp_all add: oct_com_digit oct_com_def [of 0])

section \<open>Remainders and powers\<close>

text \<open>
  Barrett reduction modulo \<open>n\<close>: an estimate \<open>q\<close> of the quotient from the leading digits, then
  \<open>x - n * q\<close> as a sum with a complement. The difference is checked, so nothing has to be known
  about the quality of the estimate, the reciprocal \<open>mu\<close> or the sizes.
\<close>

definition oct_mod3 :: "nat \<Rightarrow> nat \<Rightarrow> nat \<Rightarrow> nat" where
  "oct_mod3 x y r = (if y + r = x then r else x)"

definition oct_mod2 :: "nat \<Rightarrow> nat \<Rightarrow> nat \<Rightarrow> nat \<Rightarrow> nat" where
  "oct_mod2 m t x y = oct_mod3 x y (oct_low m (oct_adc x (oct_com t y)))"

definition oct_mod1 :: "nat \<Rightarrow> nat \<Rightarrow> nat \<Rightarrow> nat \<Rightarrow> nat \<Rightarrow> nat" where
  "oct_mod1 n m t x q = oct_mod2 m t x (oct_mult q n)"

definition oct_mod :: "nat \<Rightarrow> nat \<Rightarrow> nat \<Rightarrow> nat \<Rightarrow> nat \<Rightarrow> nat \<Rightarrow> nat \<Rightarrow> nat" where
  "oct_mod n mu m1 m2 m t x = oct_mod1 n m t x (oct_high m2 (oct_mult (oct_high m1 x) mu))"

lemmas oct_mod_defs [oct_eval] = oct_mod_def oct_mod1_def oct_mod2_def oct_mod3_def
lemmas oct_if [oct_eval] = if_True refl [THEN eqTrueI]

lemma oct_mod_val: "oct_mod n mu m1 m2 m t x mod n = x mod n"
proof -
  have "oct_mod3 x (q * n) r mod n = x mod n" for q r by (auto simp: oct_mod3_def)
  then show ?thesis by (simp only: oct_mod_def oct_mod1_def oct_mod2_def oct_mult_val)
qed

definition oct_sq :: "nat \<Rightarrow> nat" where "oct_sq x = oct_mult x x"

declare oct_sq_def [oct_eval]

text \<open>Powers, with the reduction as a parameter.\<close>

fun oct_pow :: "(nat \<Rightarrow> nat) \<Rightarrow> nat \<Rightarrow> num \<Rightarrow> nat" where
  "oct_pow red g num.One = g"
| "oct_pow red g (num.Bit0 k) = red (oct_sq (oct_pow red g k))"
| "oct_pow red g (num.Bit1 k) = oct_mult g (red (oct_sq (oct_pow red g k)))"

declare oct_pow.simps [oct_eval]

lemma oct_pow_val:
  assumes red: "\<And>x. red x mod n = x mod n"
  shows "oct_pow red g k mod n = g ^ numeral k mod n"
proof (induction k)
  case (Bit0 k)
  let ?h = "oct_pow red g k"
  have "oct_pow red g (num.Bit0 k) mod n = (?h * ?h) mod n"
    by (simp only: oct_pow.simps red oct_sq_def oct_mult_val)
  also have "\<dots> = (g ^ numeral k * g ^ numeral k) mod n" by (rule mod_mult_cong [OF Bit0 Bit0])
  finally show ?case by (simp only: numeral_Bit0 power_add)
next
  case (Bit1 k)
  let ?h = "oct_pow red g k"
  have "oct_pow red g (num.Bit1 k) mod n = (g * (red (?h * ?h) mod n)) mod n"
    by (simp only: oct_pow.simps oct_sq_def oct_mult_val mod_mult_right_eq)
  also have "\<dots> = (g * (?h * ?h)) mod n" by (simp only: red mod_mult_right_eq)
  also have "\<dots> = (g * (g ^ numeral k * g ^ numeral k)) mod n"
    by (rule mod_mult_cong [OF refl mod_mult_cong [OF Bit1 Bit1]])
  finally show ?case by (simp only: numeral_Bit1 power_add power_one_right mult.commute [of g])
qed simp

text \<open>The exponent is written as an integer, which the digit rules leave alone.\<close>

definition oct_power :: "(nat \<Rightarrow> nat) \<Rightarrow> nat \<Rightarrow> int \<Rightarrow> nat" where
  "oct_power red g e = oct_pow red g (num_of_nat (nat e))"

lemma oct_power [oct_eval]: "oct_power red g (numeral k) = oct_pow red g k"
  by (simp add: oct_power_def num_of_nat_numeral_eq)

lemma oct_power_val:
  "(\<And>x. red x mod n = x mod n) \<Longrightarrow> oct_power red g (numeral k) mod n = g ^ numeral k mod n"
  by (simp only: oct_power oct_pow_val)

section \<open>The field of the curve\<close>

text \<open>
  Modulo \<open>2^255 - 19\<close> the digits above the eighty-fifth are worth 19 times their value. The
  reduction is applied twice to a product; it leaves a number just above \<open>2^255\<close>. Subtraction adds
  the complement to \<open>2^258 - 1\<close> and the residue of that constant, and is checked like \<open>oct_mod\<close>.
\<close>

definition fold19_2 :: "nat \<Rightarrow> nat \<Rightarrow> nat \<Rightarrow> nat" where
  "fold19_2 lo hi hi2 = lo + ((hi2 + hi) + D0 hi2)"

definition fold19_1 :: "nat \<Rightarrow> nat \<Rightarrow> nat" where
  "fold19_1 lo hi = fold19_2 lo hi (hi + hi)"

definition fold19 :: "nat \<Rightarrow> nat" where
  "fold19 x = fold19_1
     (oct_low 57896044618658097711785492504343953926634992332820282019728792003956564819968 x)
     (oct_high 57896044618658097711785492504343953926634992332820282019728792003956564819968 x)"

definition red25519 :: "nat \<Rightarrow> nat" where "red25519 x = fold19 (fold19 x)"

lemmas red25519_defs [oct_eval] = fold19_2_def fold19_1_def fold19_def red25519_def

lemma fold19_val: "fold19 x mod (2 ^ 255 - 19) = x mod (2 ^ 255 - 19)"
proof -
  define B :: nat where "B = 2 ^ 255"
  have "19 \<le> B" by (simp add: B_def)
  have "57896044618658097711785492504343953926634992332820282019728792003956564819968 = B"
    by (simp add: B_def)
  then have "fold19 x = x mod B + 19 * (x div B)"
    by (simp add: fold19_def fold19_1_def fold19_2_def oct_low_def oct_high_def D0_def)
  moreover have "19 * (x div B) + (B - 19) * (x div B) = B * (x div B)"
    using \<open>19 \<le> B\<close> by (simp flip: add_mult_distrib)
  ultimately have "x = fold19 x + (B - 19) * (x div B)" using mod_mult_div_eq [of x B] by linarith
  then have "x mod (B - 19) = (fold19 x + (B - 19) * (x div B)) mod (B - 19)" by simp
  then show ?thesis by (simp add: B_def)
qed

lemma red25519_val: "red25519 x mod (2 ^ 255 - 19) = x mod (2 ^ 255 - 19)"
  by (simp only: red25519_def fold19_val)

lemmas oct_rules = oct_eval oct_numeral

end
