(* ===== verification/Primality.thy ===== *)
theory Primality
  imports Octal Complex_Main
begin

text \<open>
  Primes, Fermat's little theorem and Pocklington's criterion, and with them the primality of the
  two numbers the curve rests on: the characteristic \<open>2^255 - 19\<close> of the field and the order of the
  base point.
\<close>

section \<open>Primes\<close>

definition is_prime :: "nat \<Rightarrow> bool" where
  "is_prime n \<longleftrightarrow> 1 < n \<and> (\<forall>d. d dvd n \<longrightarrow> d = 1 \<or> d = n)"

lemma is_prime_gt_1: "is_prime n \<Longrightarrow> 1 < n"
  by (simp add: is_prime_def)

lemma is_prime_coprime: "is_prime p \<Longrightarrow> \<not> p dvd a \<Longrightarrow> coprime p a"
  unfolding is_prime_def coprime_iff_gcd_eq_1 by (metis gcd_dvd1 gcd_dvd2)

lemma is_prime_dvd_mult: "is_prime p \<Longrightarrow> p dvd a * b \<Longrightarrow> p dvd a \<or> p dvd b"
  using is_prime_coprime coprime_dvd_mult_right_iff by blast

lemma is_prime_dvd_power: "is_prime p \<Longrightarrow> p dvd a ^ n \<Longrightarrow> p dvd a"
  by (induction n) (auto dest: is_prime_dvd_mult is_prime_gt_1)

lemma prime_factor: "1 < n \<Longrightarrow> \<exists>p. is_prime p \<and> p dvd n"
proof (induction n rule: less_induct)
  case (less n)
  show ?case
  proof (cases "is_prime n")
    case False
    then obtain d where d: "d dvd n" "d \<noteq> 1" "d \<noteq> n" using less.prems by (auto simp: is_prime_def)
    then have "0 < d" "d \<le> n" using less.prems by (auto dest: dvd_imp_le intro: gr0I)
    with d have "d < n" "1 < d" by simp_all
    with less.IH [of d] d(1) show ?thesis by (meson dvd_trans)
  next
    case True
    then show ?thesis by (intro exI [of _ n]) simp
  qed
qed

text \<open>A number that is not prime has a prime factor up to its root.\<close>

lemma small_prime_factor:
  assumes "1 < n" and "\<not> is_prime n"
  shows "\<exists>p. is_prime p \<and> p dvd n \<and> p * p \<le> n"
proof -
  from assms obtain d where d: "d dvd n" "d \<noteq> 1" "d \<noteq> n" by (auto simp: is_prime_def)
  then obtain e where e: "n = d * e" by blast
  have "d \<noteq> 0" "e \<noteq> 0" "e \<noteq> 1" using d assms(1) e by (auto intro: ccontr)
  with d have de: "1 < d" "1 < e" by linarith+
  define m where "m = min d e"
  have m: "1 < m" "m dvd n" "m * m \<le> n"
    using de by (auto simp: m_def e min_def intro: mult_le_mono)
  obtain p where p: "is_prime p" "p dvd m" using prime_factor [OF m(1)] by blast
  then have "p * p \<le> m * m" using m(1) by (intro mult_le_mono dvd_imp_le) auto
  with p m show ?thesis by (meson dvd_trans order_trans)
qed

lemma is_prime_trial:
  assumes "1 < n" and "n < k * k" and "list_all (\<lambda>d. n mod d \<noteq> 0) [2..<k]"
  shows "is_prime n"
proof (rule ccontr)
  assume "\<not> is_prime n"
  then obtain p where p: "is_prime p" "p dvd n" "p * p \<le> n" using small_prime_factor assms(1) by blast
  then have "p * p < k * k" using assms(2) by linarith
  then have "p < k" by (meson mult_le_mono not_le)
  then have "p \<in> set [2..<k]" using is_prime_gt_1 [OF p(1)] by simp
  then have "n mod p \<noteq> 0" using assms(3) by (auto simp: list_all_iff)
  with p(2) show False by (simp add: mod_eq_0_iff_dvd)
qed

section \<open>Fermat's little theorem\<close>

lemma prime_dvd_choose:
  assumes "is_prime p" and "0 < k" and "k < p"
  shows "p dvd p choose k"
proof -
  have "k * (p choose k) = p * (p - 1 choose (k - 1))"
    using binomial_absorption [of "k - 1" p] assms(2,3) by simp
  then have "p dvd k * (p choose k)" by simp
  moreover have "\<not> p dvd k" using assms(2,3) by (auto dest: dvd_imp_le)
  ultimately show ?thesis using is_prime_dvd_mult [OF assms(1)] by blast
qed

lemma freshman:
  assumes "is_prime p"
  shows "(a + 1) ^ p mod p = (a ^ p + 1) mod p"
proof -
  have "0 < p" using is_prime_gt_1 [OF assms] by simp
  have "(a + 1) ^ p = (\<Sum>k\<le>p. (p choose k) * a ^ k)" using binomial [of a 1 p] by simp
  also have "{..p} = {0, p} \<union> {0<..<p}" using \<open>0 < p\<close> by auto
  also have "(\<Sum>k\<in>{0, p} \<union> {0<..<p}. (p choose k) * a ^ k) =
      (\<Sum>k\<in>{0, p}. (p choose k) * a ^ k) + (\<Sum>k\<in>{0<..<p}. (p choose k) * a ^ k)"
    by (rule sum.union_disjoint) auto
  also have "(\<Sum>k\<in>{0, p}. (p choose k) * a ^ k) = 1 + a ^ p" using \<open>0 < p\<close> by simp
  finally have "(a + 1) ^ p = 1 + a ^ p + (\<Sum>k\<in>{0<..<p}. (p choose k) * a ^ k)" .
  moreover have "p dvd (\<Sum>k\<in>{0<..<p}. (p choose k) * a ^ k)"
    by (rule dvd_sum) (auto intro: dvd_mult2 prime_dvd_choose [OF assms])
  ultimately show ?thesis by (elim dvdE) (simp add: add.commute)
qed

lemma fermat_nat: "is_prime p \<Longrightarrow> a ^ p mod p = a mod p"
proof (induction a)
  case 0
  then show ?case using is_prime_gt_1 [of p] by (simp add: power_0_left)
next
  case (Suc a)
  have "(a ^ p + 1) mod p = (a + 1) mod p" by (rule mod_add_cong [OF Suc.IH [OF Suc.prems] refl])
  then show ?case using freshman [OF Suc.prems, of a] by simp
qed

lemma fermat_little:
  assumes "is_prime p" and "\<not> p dvd a"
  shows "a ^ (p - 1) mod p = 1"
proof -
  have p: "1 < p" by (rule is_prime_gt_1 [OF assms(1)])
  then have "a ^ p = a * a ^ (p - 1)" by (simp flip: power_Suc)
  then have eq: "(a * a ^ (p - 1)) mod p = a mod p" using fermat_nat [OF assms(1), of a] by simp
  have "1 \<le> a ^ (p - 1)" using assms(2) by (cases "a = 0") auto
  then have "p dvd a * a ^ (p - 1) - a * 1"
    using eq by (intro mod_eq_dvd_iff_nat [THEN iffD1]) simp_all
  then have "p dvd a * (a ^ (p - 1) - 1)" by (simp only: diff_mult_distrib2)
  then have "p dvd a ^ (p - 1) - 1" using is_prime_dvd_mult [OF assms(1)] assms(2) by blast
  then have "a ^ (p - 1) mod p = 1 mod p"
    using mod_eq_dvd_iff_nat [OF \<open>1 \<le> a ^ (p - 1)\<close>] by blast
  with p show ?thesis by simp
qed

section \<open>Pocklington's criterion\<close>

text \<open>An element of prime order \<open>q\<close> modulo the prime \<open>r\<close>: \<open>q\<close> divides \<open>r - 1\<close>.\<close>

lemma prime_order_dvd:
  assumes q: "is_prime q" and r: "is_prime r" and b: "b ^ q mod r = 1" "b mod r \<noteq> 1"
  shows "q dvd r - 1"
proof (rule ccontr)
  assume "\<not> q dvd r - 1"
  then have "coprime q (r - 1)" by (rule is_prime_coprime [OF q])
  then obtain x y where xy: "q * x = (r - 1) * y + 1"
    using bezout_nat [of q "r - 1"] is_prime_gt_1 [OF q] by auto
  have "\<not> r dvd b"
  proof
    assume "r dvd b"
    then have "r dvd b ^ q" using is_prime_gt_1 [OF q] by (simp add: dvd_power_le [of r b 1 q, simplified])
    with b(1) show False by (simp add: dvd_eq_mod_eq_0)
  qed
  then have f: "b ^ (r - 1) mod r = 1" by (rule fermat_little [OF r])
  have one: "1 mod r = 1" using is_prime_gt_1 [OF r] by simp
  have "b ^ (q * x) mod r = 1"
    using power_mod [of "b ^ q" r x] b(1) one by (simp add: power_mult)
  moreover have "b ^ ((r - 1) * y + 1) mod r = b mod r"
  proof -
    have "b ^ ((r - 1) * y) mod r = 1" using power_mod [of "b ^ (r - 1)" r y] f one by (simp add: power_mult)
    then show ?thesis by (metis mod_mult_left_eq mult_1 power_add power_one_right)
  qed
  ultimately show False using b(2) xy by simp
qed

lemma prime_factor_residue:
  assumes q: "is_prime q" and n: "n = e + 1" "e = q * m" and a: "a ^ e mod n = 1"
    and v: "((a ^ m + e) * v) mod n = 1" and r: "is_prime r" "r dvd n"
  shows "q dvd r - 1"
proof (rule prime_order_dvd [OF q r(1)])
  have r1: "1 mod r = 1" using is_prime_gt_1 [OF r(1)] by simp
  have down: "x mod r = 1" if "x mod n = 1" for x
    using that r1 mod_mod_cancel [OF r(2), of x] by simp
  have "(a ^ m) ^ q mod n = 1" using a n(2) by (simp add: power_mult mult.commute)
  then show "(a ^ m) ^ q mod r = 1" by (rule down)
  show "a ^ m mod r \<noteq> 1"
  proof
    assume "a ^ m mod r = 1"
    then have "(a ^ m + e) mod r = n mod r" unfolding n(1) by (metis mod_add_left_eq add.commute)
    also have "n mod r = 0" using r(2) by simp
    finally have "((a ^ m + e) * v) mod r = 0" by (simp add: mod_eq_0_iff_dvd)
    with down [OF v] show False by simp
  qed
qed

lemma pocklington:
  assumes q: "is_prime q" and n: "n = e + 1" "e = q * m" "m \<le> q" "0 < m"
    and a: "a ^ e mod n = 1" "((a ^ m + e) * v) mod n = 1"
  shows "is_prime n"
proof (rule ccontr)
  have "1 < n" using n is_prime_gt_1 [OF q] by simp
  moreover assume "\<not> is_prime n"
  ultimately obtain r where r: "is_prime r" "r dvd n" "r * r \<le> n" using small_prime_factor by blast
  have "q dvd r - 1" by (rule prime_factor_residue [OF q n(1,2) a r(1,2)])
  then have "q + 1 \<le> r" using is_prime_gt_1 [OF r(1)] by (auto dest: dvd_imp_le)
  then have "(q + 1) * (q + 1) \<le> r * r" by (intro mult_le_mono)
  moreover have "n \<le> q * q + 1" using n by simp
  moreover have "q * q + 1 < (q + 1) * (q + 1)" using is_prime_gt_1 [OF q] by simp
  ultimately show False using r(3) by linarith
qed

lemma pocklington_two:
  assumes q: "is_prime q1" "is_prime q2" "q1 < q2"
    and n: "n = e + 1" "e = q1 * m1" "e = q2 * m2" "m1 = q2 * k" "k \<le> q1 * q2" "0 < k"
    and a: "a ^ e mod n = 1" "((a ^ m1 + e) * v1) mod n = 1" "((a ^ m2 + e) * v2) mod n = 1"
  shows "is_prime n"
proof (rule ccontr)
  have e: "e = q1 * q2 * k" using n by simp
  then have "1 < n" using n is_prime_gt_1 [OF q(1)] is_prime_gt_1 [OF q(2)] by simp
  moreover assume "\<not> is_prime n"
  ultimately obtain r where r: "is_prime r" "r dvd n" "r * r \<le> n" using small_prime_factor by blast
  have "q1 dvd r - 1" by (rule prime_factor_residue [OF q(1) n(1,2) a(1,2) r(1,2)])
  moreover have "q2 dvd r - 1" by (rule prime_factor_residue [OF q(2) n(1,3) a(1,3) r(1,2)])
  moreover have "\<not> q1 dvd q2" using q unfolding is_prime_def by auto
  then have "coprime q1 q2" by (rule is_prime_coprime [OF q(1)])
  ultimately have "q1 * q2 dvd r - 1" by (simp add: divides_mult)
  then have "q1 * q2 + 1 \<le> r" using is_prime_gt_1 [OF r(1)] by (auto dest: dvd_imp_le)
  then have "(q1 * q2 + 1) * (q1 * q2 + 1) \<le> r * r" by (intro mult_le_mono)
  moreover have "n \<le> (q1 * q2) * (q1 * q2) + 1" using n(1,5) e by simp
  moreover have "(q1 * q2) * (q1 * q2) + 1 < (q1 * q2 + 1) * (q1 * q2 + 1)"
    using is_prime_gt_1 [OF q(1)] is_prime_gt_1 [OF q(2)] by simp
  ultimately show False using r(3) by linarith
qed

text \<open>The two residues a certificate needs, from evaluated powers.\<close>

lemma oct_power_one:
  assumes red: "\<And>x. red x mod n = x mod n" and "oct_power red a (numeral k) = c" and "c = oct_mult n w + 1"
    and "1 < n"
  shows "a ^ numeral k mod n = 1"
  using oct_power_val [of red n a k, OF red] assms(2-4) by (simp add: oct_mult_val Suc_times_mod_eq)

lemma oct_power_unit:
  assumes red: "\<And>x. red x mod n = x mod n" and "oct_power red a (numeral k) = c"
    and "oct_mult (c + e) v = oct_mult n w + 1" and "1 < n"
  shows "((a ^ numeral k + e) * v) mod n = 1"
proof -
  have "a ^ numeral k mod n = c mod n" using oct_power_val [of red n a k, OF red] assms(2) by simp
  then have "((a ^ numeral k + e) * v) mod n = ((c + e) * v) mod n"
    by (intro mod_mult_cong mod_add_cong refl)
  also have "\<dots> = 1" using assms(3,4) by (simp add: oct_mult_val Suc_times_mod_eq)
  finally show ?thesis .
qed

end
