(* ===== verification/CurvePrimes.thy ===== *)
theory CurvePrimes
  imports Primality
begin

text \<open>
  Primality certificates, down to primes that trial division settles. Each step shows for the next
  prime \<open>n\<close> that two is of order \<open>n - 1\<close> up to a small cofactor; the powers are evaluated by the
  rules of \<open>Octal\<close>.
\<close>

lemma red25519_mod:
  "red25519 x mod 57896044618658097711785492504343953926634992332820282019728792003956564819949 =
    x mod 57896044618658097711785492504343953926634992332820282019728792003956564819949"
  using red25519_val [of x] by simp

lemma prime_3: "is_prime 3"
  by (rule is_prime_trial [of _ 2]) simp_all

lemma prime_7: "is_prime 7"
  by (rule is_prime_trial [of _ 3]) simp_all

lemma prime_353: "is_prime 353"
  by (rule is_prime_trial [of _ 19]) simp_all

lemma prime_991: "is_prime 991"
  by (rule is_prime_trial [of _ 32]) simp_all

lemma prime_2551: "is_prime 2551"
  by (rule is_prime_trial [of _ 51]) simp_all

lemma prime_3797: "is_prime 3797"
  by (rule is_prime_trial [of _ 62]) simp_all

lemma prime_9463: "is_prime 9463"
  by (rule is_prime_trial [of _ 98]) simp_all

lemma prime_37853: "is_prime 37853"
proof (rule pocklington)
  show "is_prime 9463" by (rule prime_9463)
  show "(37853 :: nat) = 37852 + 1"
    "(37852 :: nat) = 9463 * 4"
    "4 \<le> (9463 :: nat)" "0 < (4 :: nat)"
    by simp_all
  show "(2 :: nat) ^ 37852
      mod 37853 = 1"
    by (rule oct_power_one [where red = "oct_mod 37853 116187528
        262144 16777216
        16777216 281474976710655"
      and c = 37854 and w = 1, OF oct_mod_val])
      (simp only: oct_rules, simp only: oct_rules, simp)
  show "((2 ^ 4 + 37852) * 32806)
      mod 37853 = (1 :: nat)"
    by (rule oct_power_unit [where red = "oct_mod 37853 116187528
        262144 16777216
        16777216 281474976710655"
      and c = 16
      and w = 32819, OF oct_mod_val])
      (simp only: oct_rules, simp only: oct_rules, simp)
qed

lemma prime_75707: "is_prime 75707"
proof (rule pocklington)
  show "is_prime 37853" by (rule prime_37853)
  show "(75707 :: nat) = 75706 + 1"
    "(75706 :: nat) = 37853 * 2"
    "2 \<le> (37853 :: nat)" "0 < (2 :: nat)"
    by simp_all
  show "(2 :: nat) ^ 75706
      mod 75707 = 1"
    by (rule oct_power_one [where red = "oct_mod 75707 58092996
        262144 16777216
        16777216 281474976710655"
      and c = 151415 and w = 2, OF oct_mod_val])
      (simp only: oct_rules, simp only: oct_rules, simp)
  show "((2 ^ 2 + 75706) * 25236)
      mod 75707 = (1 :: nat)"
    by (rule oct_power_unit [where red = "oct_mod 75707 58092996
        262144 16777216
        16777216 281474976710655"
      and c = 4
      and w = 25237, OF oct_mod_val])
      (simp only: oct_rules, simp only: oct_rules, simp)
qed

lemma prime_531581: "is_prime 531581"
proof (rule pocklington)
  show "is_prime 3797" by (rule prime_3797)
  show "(531581 :: nat) = 531580 + 1"
    "(531580 :: nat) = 3797 * 140"
    "140 \<le> (3797 :: nat)" "0 < (140 :: nat)"
    by simp_all
  show "(2 :: nat) ^ 531580
      mod 531581 = 1"
    by (rule oct_power_one [where red = "oct_mod 531581 529505337
        2097152 134217728
        134217728 18014398509481983"
      and c = 1063163 and w = 2, OF oct_mod_val])
      (simp only: oct_rules, simp only: oct_rules, simp)
  show "((2 ^ 140 + 531580) * 50673)
      mod 531581 = (1 :: nat)"
    by (rule oct_power_unit [where red = "oct_mod 531581 529505337
        2097152 134217728
        134217728 18014398509481983"
      and c = 2158625
      and w = 256444, OF oct_mod_val])
      (simp only: oct_rules, simp only: oct_rules, simp)
qed

lemma prime_1224481: "is_prime 1224481"
proof (rule pocklington)
  show "is_prime 2551" by (rule prime_2551)
  show "(1224481 :: nat) = 1224480 + 1"
    "(1224480 :: nat) = 2551 * 480"
    "480 \<le> (2551 :: nat)" "0 < (480 :: nat)"
    by simp_all
  show "(2 :: nat) ^ 1224480
      mod 1224481 = 1"
    by (rule oct_power_one [where red = "oct_mod 1224481 229872882
        2097152 134217728
        134217728 18014398509481983"
      and c = 2448963 and w = 2, OF oct_mod_val])
      (simp only: oct_rules, simp only: oct_rules, simp)
  show "((2 ^ 480 + 1224480) * 1100631)
      mod 1224481 = (1 :: nat)"
    by (rule oct_power_unit [where red = "oct_mod 1224481 229872882
        2097152 134217728
        134217728 18014398509481983"
      and c = 2146140
      and w = 3029699, OF oct_mod_val])
      (simp only: oct_rules, simp only: oct_rules, simp)
qed

lemma prime_8574133: "is_prime 8574133"
proof (rule pocklington_two)
  show "is_prime 3" by (rule prime_3)
  show "is_prime 991" by (rule prime_991)
  show "(3 :: nat) < 991" "(8574133 :: nat) = 8574132 + 1"
    "(8574132 :: nat) = 3 * 2858044"
    "(8574132 :: nat) = 991 * 8652"
    "(2858044 :: nat) = 991 * 2884"
    "2884 \<le> (3 :: nat) * 991" "0 < (2884 :: nat)"
    by simp_all
  show "(2 :: nat) ^ 8574132
      mod 8574133 = 1"
    by (rule oct_power_one [where red = "oct_mod 8574133 2101016920
        16777216 1073741824
        1073741824 1152921504606846975"
      and c = 8574134 and w = 1, OF oct_mod_val])
      (simp only: oct_rules, simp only: oct_rules, simp)
  show "((2 ^ 2858044 + 8574132) * 498358)
      mod 8574133 = (1 :: nat)"
    by (rule oct_power_unit [where red = "oct_mod 8574133 2101016920
        16777216 1073741824
        1073741824 1152921504606846975"
      and c = 15653190
      and w = 1408175, OF oct_mod_val])
      (simp only: oct_rules, simp only: oct_rules, simp)
  show "((2 ^ 8652 + 8574132) * 1014251)
      mod 8574133 = (1 :: nat)"
    by (rule oct_power_unit [where red = "oct_mod 8574133 2101016920
        16777216 1073741824
        1073741824 1152921504606846975"
      and c = 12009862
      and w = 2434921, OF oct_mod_val])
      (simp only: oct_rules, simp only: oct_rules, simp)
qed

lemma prime_51_653: "is_prime 1257559732178653"
proof (rule pocklington_two)
  show "is_prime 531581" by (rule prime_531581)
  show "is_prime 1224481" by (rule prime_1224481)
  show "(531581 :: nat) < 1224481" "(1257559732178653 :: nat) = 1257559732178652 + 1"
    "(1257559732178652 :: nat) = 531581 * 2365697292"
    "(1257559732178652 :: nat) = 1224481 * 1027014492"
    "(2365697292 :: nat) = 1224481 * 1932"
    "1932 \<le> (531581 :: nat) * 1224481" "0 < (1932 :: nat)"
    by simp_all
  show "(2 :: nat) ^ 1257559732178652
      mod 1257559732178653 = 1"
    by (rule oct_power_one [where red = "oct_mod 1257559732178653 258054186496744929
        2251799813685248 144115188075855872
        144115188075855872 20769187434139310514121985316880383"
      and c = 1257559732178654 and w = 1, OF oct_mod_val])
      (simp only: oct_rules, simp only: oct_rules, simp)
  show "((2 ^ 2365697292 + 1257559732178652) * 212927577457398)
      mod 1257559732178653 = (1 :: nat)"
    by (rule oct_power_unit [where red = "oct_mod 1257559732178653 258054186496744929
        2251799813685248 144115188075855872
        144115188075855872 20769187434139310514121985316880383"
      and c = 2397401766761877
      and w = 618850999881497, OF oct_mod_val])
      (simp only: oct_rules, simp only: oct_rules, simp)
  show "((2 ^ 1027014492 + 1257559732178652) * 790900187493841)
      mod 1257559732178653 = (1 :: nat)"
    by (rule oct_power_unit [where red = "oct_mod 1257559732178653 258054186496744929
        2251799813685248 144115188075855872
        144115188075855872 20769187434139310514121985316880383"
      and c = 1252739704402215
      and w = 1578768979520282, OF oct_mod_val])
      (simp only: oct_rules, simp only: oct_rules, simp)
qed

lemma prime_51_763: "is_prime 1919519569386763"
proof (rule pocklington_two)
  show "is_prime 7" by (rule prime_7)
  show "is_prime 8574133" by (rule prime_8574133)
  show "(7 :: nat) < 8574133" "(1919519569386763 :: nat) = 1919519569386762 + 1"
    "(1919519569386762 :: nat) = 7 * 274217081340966"
    "(1919519569386762 :: nat) = 8574133 * 223873314"
    "(274217081340966 :: nat) = 8574133 * 31981902"
    "31981902 \<le> (7 :: nat) * 8574133" "0 < (31981902 :: nat)"
    by simp_all
  show "(2 :: nat) ^ 1919519569386762
      mod 1919519569386763 = 1"
    by (rule oct_power_one [where red = "oct_mod 1919519569386763 169062383543243602
        2251799813685248 144115188075855872
        144115188075855872 20769187434139310514121985316880383"
      and c = 1919519569386764 and w = 1, OF oct_mod_val])
      (simp only: oct_rules, simp only: oct_rules, simp)
  show "((2 ^ 274217081340966 + 1919519569386762) * 681516913897206)
      mod 1919519569386763 = (1 :: nat)"
    by (rule oct_power_unit [where red = "oct_mod 1919519569386763 169062383543243602
        2251799813685248 144115188075855872
        144115188075855872 20769187434139310514121985316880383"
      and c = 1124719358789780
      and w = 1080843536364377, OF oct_mod_val])
      (simp only: oct_rules, simp only: oct_rules, simp)
  show "((2 ^ 223873314 + 1919519569386762) * 1290547218147893)
      mod 1919519569386763 = (1 :: nat)"
    by (rule oct_power_unit [where red = "oct_mod 1919519569386763 169062383543243602
        2251799813685248 144115188075855872
        144115188075855872 20769187434139310514121985316880383"
      and c = 1059928654987441
      and w = 2003167187719906, OF oct_mod_val])
      (simp only: oct_rules, simp only: oct_rules, simp)
qed

lemma prime_62_479: "is_prime 4434155615661930479"
proof (rule pocklington)
  show "is_prime 1257559732178653" by (rule prime_51_653)
  show "(4434155615661930479 :: nat) = 4434155615661930478 + 1"
    "(4434155615661930478 :: nat) = 1257559732178653 * 3526"
    "3526 \<le> (1257559732178653 :: nat)" "0 < (3526 :: nat)"
    by simp_all
  show "(2 :: nat) ^ 4434155615661930478
      mod 4434155615661930479 = 1"
    by (rule oct_power_one [where red = "oct_mod 4434155615661930479 1227858997890009352050
        9223372036854775808 590295810358705651712
        590295810358705651712 348449143727040986586495598010130648530943"
      and c = 8868311231323860959 and w = 2, OF oct_mod_val])
      (simp only: oct_rules, simp only: oct_rules, simp)
  show "((2 ^ 3526 + 4434155615661930478) * 1010501025739283171)
      mod 4434155615661930479 = (1 :: nat)"
    by (rule oct_power_unit [where red = "oct_mod 4434155615661930479 1227858997890009352050
        9223372036854775808 590295810358705651712
        590295810358705651712 348449143727040986586495598010130648530943"
      and c = 4849943428298212246
      and w = 2115756058233499557, OF oct_mod_val])
      (simp only: oct_rules, simp only: oct_rules, simp)
qed

lemma prime_88_691: "is_prime 172054593956031949258510691"
proof (rule pocklington)
  show "is_prime 4434155615661930479" by (rule prime_62_479)
  show "(172054593956031949258510691 :: nat) = 172054593956031949258510690 + 1"
    "(172054593956031949258510690 :: nat) = 4434155615661930479 * 38802110"
    "38802110 \<le> (4434155615661930479 :: nat)" "0 < (38802110 :: nat)"
    by simp_all
  show "(2 :: nat) ^ 172054593956031949258510690
      mod 172054593956031949258510691 = 1"
    by (rule oct_power_one [where red = "oct_mod 172054593956031949258510691 570049961237773590374579900502
        1237940039285380274899124224 79228162514264337593543950336
        79228162514264337593543950336 6277101735386680763835789423207666416102355444464034512895"
      and c = 1032327563736191695551064147 and w = 6, OF oct_mod_val])
      (simp only: oct_rules, simp only: oct_rules, simp)
  show "((2 ^ 38802110 + 172054593956031949258510690) * 154275350521713489305385904)
      mod 172054593956031949258510691 = (1 :: nat)"
    by (rule oct_power_unit [where red = "oct_mod 172054593956031949258510691 570049961237773590374579900502
        1237940039285380274899124224 79228162514264337593543950336
        79228162514264337593543950336 6277101735386680763835789423207666416102355444464034512895"
      and c = 254036831575839004028408398
      and w = 382061312730914136678177461, OF oct_mod_val])
      (simp only: oct_rules, simp only: oct_rules, simp)
qed

lemma prime_116_801: "is_prime 75445702479781427272750846543864801"
proof (rule pocklington_two)
  show "is_prime 75707" by (rule prime_75707)
  show "is_prime 1919519569386763" by (rule prime_51_763)
  show "(75707 :: nat) < 1919519569386763" "(75445702479781427272750846543864801 :: nat) = 75445702479781427272750846543864800 + 1"
    "(75445702479781427272750846543864800 :: nat) = 75707 * 996548568557483816196003626400"
    "(75445702479781427272750846543864800 :: nat) = 1919519569386763 * 39304471641247389600"
    "(996548568557483816196003626400 :: nat) = 1919519569386763 * 519165620632800"
    "519165620632800 \<le> (75707 :: nat) * 1919519569386763" "0 < (519165620632800 :: nat)"
    by simp_all
  show "(2 :: nat) ^ 75445702479781427272750846543864800
      mod 75445702479781427272750846543864801 = 1"
    by (rule oct_power_one [where red = "oct_mod 75445702479781427272750846543864801 23418790026534365412250746821118394954
        166153499473114484112975882535043072 10633823966279326983230456482242756608
        10633823966279326983230456482242756608 113078212145816597093331040047546785012958969400039613319782796882727665663"
      and c = 226337107439344281818252539631594404 and w = 3, OF oct_mod_val])
      (simp only: oct_rules, simp only: oct_rules, simp)
  show "((2 ^ 996548568557483816196003626400 + 75445702479781427272750846543864800) * 8986369574106813140303762220009459)
      mod 75445702479781427272750846543864801 = (1 :: nat)"
    by (rule oct_power_unit [where red = "oct_mod 75445702479781427272750846543864801 23418790026534365412250746821118394954
        166153499473114484112975882535043072 10633823966279326983230456482242756608
        10633823966279326983230456482242756608 113078212145816597093331040047546785012958969400039613319782796882727665663"
      and c = 58781699294900834553279248901967638
      and w = 15987882671550015722085265390414241, OF oct_mod_val])
      (simp only: oct_rules, simp only: oct_rules, simp)
  show "((2 ^ 39304471641247389600 + 75445702479781427272750846543864800) * 74602835786463724888147869570305675)
      mod 75445702479781427272750846543864801 = (1 :: nat)"
    by (rule oct_power_unit [where red = "oct_mod 75445702479781427272750846543864801 23418790026534365412250746821118394954
        166153499473114484112975882535043072 10633823966279326983230456482242756608
        10633823966279326983230456482242756608 113078212145816597093331040047546785012958969400039613319782796882727665663"
      and c = 56747016255153332959347766392083459
      and w = 130715883924487458228144467679234624, OF oct_mod_val])
      (simp only: oct_rules, simp only: oct_rules, simp)
qed

lemma prime_134_339: "is_prime 19757330305831588566944191468367130476339"
proof (rule pocklington)
  show "is_prime 172054593956031949258510691" by (rule prime_88_691)
  show "(19757330305831588566944191468367130476339 :: nat) = 19757330305831588566944191468367130476338 + 1"
    "(19757330305831588566944191468367130476338 :: nat) = 172054593956031949258510691 * 114831751082918"
    "114831751082918 \<le> (172054593956031949258510691 :: nat)" "0 < (114831751082918 :: nat)"
    by simp_all
  show "(2 :: nat) ^ 19757330305831588566944191468367130476338
      mod 19757330305831588566944191468367130476339 = 1"
    by (rule oct_power_one [where red = "oct_mod 19757330305831588566944191468367130476339 6145405471521149324790473170910962406892560
        43556142965880123323311949751266331066368 2787593149816327892691964784081045188247552
        2787593149816327892691964784081045188247552 7770675568902916283677847627294075626569627356208558085007249638955617140820833992703"
      and c = 19757330305831588566944191468367130476340 and w = 1, OF oct_mod_val])
      (simp only: oct_rules, simp only: oct_rules, simp)
  show "((2 ^ 114831751082918 + 19757330305831588566944191468367130476338) * 16371654433361644093796961727196399386194)
      mod 19757330305831588566944191468367130476339 = (1 :: nat)"
    by (rule oct_power_unit [where red = "oct_mod 19757330305831588566944191468367130476339 6145405471521149324790473170910962406892560
        43556142965880123323311949751266331066368 2787593149816327892691964784081045188247552
        2787593149816327892691964784081045188247552 7770675568902916283677847627294075626569627356208558085007249638955617140820833992703"
      and c = 48663419089801388335660354513832861140850
      and w = 56695962857204099496713939504705737789789, OF oct_mod_val])
      (simp only: oct_rules, simp only: oct_rules, simp)
qed

lemma prime_138_747: "is_prime 276602624281642239937218680557139826668747"
proof (rule pocklington)
  show "is_prime 19757330305831588566944191468367130476339" by (rule prime_134_339)
  show "(276602624281642239937218680557139826668747 :: nat) = 276602624281642239937218680557139826668746 + 1"
    "(276602624281642239937218680557139826668746 :: nat) = 19757330305831588566944191468367130476339 * 14"
    "14 \<le> (19757330305831588566944191468367130476339 :: nat)" "0 < (14 :: nat)"
    by simp_all
  show "(2 :: nat) ^ 276602624281642239937218680557139826668746
      mod 276602624281642239937218680557139826668747 = 1"
    by (rule oct_power_one [where red = "oct_mod 276602624281642239937218680557139826668747 28093282155525254056185020209878685288651603
        348449143727040986586495598010130648530944 22300745198530623141535718272648361505980416
        22300745198530623141535718272648361505980416 497323236409786642155382248146820840100456150797347717440463976893159497012533375533055"
      and c = 276602624281642239937218680557139826668748 and w = 1, OF oct_mod_val])
      (simp only: oct_rules, simp only: oct_rules, simp)
  show "((2 ^ 14 + 276602624281642239937218680557139826668746) * 94074944912245044309966580483695483989395)
      mod 276602624281642239937218680557139826668747 = (1 :: nat)"
    by (rule oct_power_unit [where red = "oct_mod 276602624281642239937218680557139826668747 28093282155525254056185020209878685288651603
        348449143727040986586495598010130648530944 22300745198530623141535718272648361505980416
        22300745198530623141535718272648361505980416 497323236409786642155382248146820840100456150797347717440463976893159497012533375533055"
      and c = 16384
      and w = 94074944912245044309966580483695483994967, OF oct_mod_val])
      (simp only: oct_rules, simp only: oct_rules, simp)
qed

lemma prime_236_907: "is_prime 74058212732561358302231226437062788676166966415465897661863160754340907"
proof (rule pocklington_two)
  show "is_prime 353" by (rule prime_353)
  show "is_prime 75445702479781427272750846543864801" by (rule prime_116_801)
  show "(353 :: nat) < 75445702479781427272750846543864801" "(74058212732561358302231226437062788676166966415465897661863160754340907 :: nat) = 74058212732561358302231226437062788676166966415465897661863160754340906 + 1"
    "(74058212732561358302231226437062788676166966415465897661863160754340906 :: nat) = 353 * 209796636636151156663544550813209033076960244803019540118592523383402"
    "(74058212732561358302231226437062788676166966415465897661863160754340906 :: nat) = 75445702479781427272750846543864801 * 981609426360740691344999861639072106"
    "(209796636636151156663544550813209033076960244803019540118592523383402 :: nat) = 75445702479781427272750846543864801 * 2780763247480851816841359381413802"
    "2780763247480851816841359381413802 \<le> (353 :: nat) * 75445702479781427272750846543864801" "0 < (2780763247480851816841359381413802 :: nat)"
    by simp_all
  show "(2 :: nat) ^ 74058212732561358302231226437062788676166966415465897661863160754340906
      mod 74058212732561358302231226437062788676166966415465897661863160754340907 = 1"
    by (rule oct_power_one [where red = "oct_mod 74058212732561358302231226437062788676166966415465897661863160754340907 42152631492596705536876128764977629107890537144686016210234965525736194048
        220855883097298041197912187592864814478435487109452369765200775161577472 14134776518227074636666380005943348126619871175004951664972849610340958208
        14134776518227074636666380005943348126619871175004951664972849610340958208 199791907220223502808422222706762643567910281130558153654986045416023791284464999687699590596063486154228923591770023865308670443474450259602571263"
      and c = 74058212732561358302231226437062788676166966415465897661863160754340908 and w = 1, OF oct_mod_val])
      (simp only: oct_rules, simp only: oct_rules, simp)
  show "((2 ^ 209796636636151156663544550813209033076960244803019540118592523383402 + 74058212732561358302231226437062788676166966415465897661863160754340906) * 37940283535957283147790493383286696582099159842122763948555891970476459)
      mod 74058212732561358302231226437062788676166966415465897661863160754340907 = (1 :: nat)"
    by (rule oct_power_unit [where red = "oct_mod 74058212732561358302231226437062788676166966415465897661863160754340907 42152631492596705536876128764977629107890537144686016210234965525736194048
        220855883097298041197912187592864814478435487109452369765200775161577472 14134776518227074636666380005943348126619871175004951664972849610340958208
        14134776518227074636666380005943348126619871175004951664972849610340958208 199791907220223502808422222706762643567910281130558153654986045416023791284464999687699590596063486154228923591770023865308670443474450259602571263"
      and c = 156679342351988935390150757420289765831221991724661104512557817756520890
      and w = 118207663124611136350464563425317145851187421215248891261639661578464609, OF oct_mod_val])
      (simp only: oct_rules, simp only: oct_rules, simp)
  show "((2 ^ 981609426360740691344999861639072106 + 74058212732561358302231226437062788676166966415465897661863160754340906) * 70463328703800545008217672123162676565183935400628861884889913886334520)
      mod 74058212732561358302231226437062788676166966415465897661863160754340907 = (1 :: nat)"
    by (rule oct_power_unit [where red = "oct_mod 74058212732561358302231226437062788676166966415465897661863160754340907 42152631492596705536876128764977629107890537144686016210234965525736194048
        220855883097298041197912187592864814478435487109452369765200775161577472 14134776518227074636666380005943348126619871175004951664972849610340958208
        14134776518227074636666380005943348126619871175004951664972849610340958208 199791907220223502808422222706762643567910281130558153654986045416023791284464999687699590596063486154228923591770023865308670443474450259602571263"
      and c = 69490809710348678725736597923071784769591275419387514694139338586948360
      and w = 136580962195658683469611413900812535587668186987855916800302518265776717, OF oct_mod_val])
      (simp only: oct_rules, simp only: oct_rules, simp)
qed

lemma prime_L: "is_prime 7237005577332262213973186563042994240857116359379907606001950938285454250989"
proof (rule pocklington)
  show "is_prime 276602624281642239937218680557139826668747" by (rule prime_138_747)
  show "(7237005577332262213973186563042994240857116359379907606001950938285454250989 :: nat) = 7237005577332262213973186563042994240857116359379907606001950938285454250988 + 1"
    "(7237005577332262213973186563042994240857116359379907606001950938285454250988 :: nat) = 276602624281642239937218680557139826668747 * 26163907866482859529727157400808004"
    "26163907866482859529727157400808004 \<le> (276602624281642239937218680557139826668747 :: nat)" "0 < (26163907866482859529727157400808004 :: nat)"
    by simp_all
  show "(2 :: nat) ^ 7237005577332262213973186563042994240857116359379907606001950938285454250988
      mod 7237005577332262213973186563042994240857116359379907606001950938285454250989 = 1"
    by (rule oct_power_one [where red = "oct_mod 7237005577332262213973186563042994240857116359379907606001950938285454250989 29642774844752946028434172162224104410323483540787867234018291968834301763596723
        57896044618658097711785492504343953926634992332820282019728792003956564819968 3705346855594118253554271520278013051304639509300498049262642688253220148477952
        3705346855594118253554271520278013051304639509300498049262642688253220148477952 13729595320261219429963801598162786434538870600286610818788926918371086366795312104245119281322909109954592622782961716074243975999433287625148056582230114303"
      and c = 7237005577332262213973186563042994240857116359379907606001950938285454250990 and w = 1, OF oct_mod_val])
      (simp only: oct_rules, simp only: oct_rules, simp)
  show "((2 ^ 26163907866482859529727157400808004 + 7237005577332262213973186563042994240857116359379907606001950938285454250988) * 2233364593245673852815932892735013076939656528578070433728021143254617821614)
      mod 7237005577332262213973186563042994240857116359379907606001950938285454250989 = (1 :: nat)"
    by (rule oct_power_unit [where red = "oct_mod 7237005577332262213973186563042994240857116359379907606001950938285454250989 29642774844752946028434172162224104410323483540787867234018291968834301763596723
        57896044618658097711785492504343953926634992332820282019728792003956564819968 3705346855594118253554271520278013051304639509300498049262642688253220148477952
        3705346855594118253554271520278013051304639509300498049262642688253220148477952 13729595320261219429963801598162786434538870600286610818788926918371086366795312104245119281322909109954592622782961716074243975999433287625148056582230114303"
      and c = 2975531125133123119648879457563281269120703404158613135195788908093573672641
      and w = 3151623642511524238647231142946772089479018819627294655777100958564855734345, OF oct_mod_val])
      (simp only: oct_rules, simp only: oct_rules, simp)
qed

text \<open>
  Two to the quarter of the group order is the root of minus one of the code, which makes two a
  generator up to its square and, later, a number without a root.
\<close>

lemma two_quarter:
  "(2 :: nat) ^ 14474011154664524427946373126085988481658748083205070504932198000989141204987 mod 57896044618658097711785492504343953926634992332820282019728792003956564819949 =
    19681161376707505956807079304988542015446066515923890162744021073123829784752"
proof -
  have "oct_power red25519 2 14474011154664524427946373126085988481658748083205070504932198000989141204987 =
      19681161376707505956807079304988542015446066515923890162744021073123829784752"
    by (simp only: oct_rules)
  moreover have "oct_power red25519 2 14474011154664524427946373126085988481658748083205070504932198000989141204987 mod
      57896044618658097711785492504343953926634992332820282019728792003956564819949 =
      (2 :: nat) ^ 14474011154664524427946373126085988481658748083205070504932198000989141204987 mod 57896044618658097711785492504343953926634992332820282019728792003956564819949"
    by (rule oct_power_val [where red = red25519, OF red25519_mod])
  moreover have "19681161376707505956807079304988542015446066515923890162744021073123829784752 mod
      57896044618658097711785492504343953926634992332820282019728792003956564819949 =
      (19681161376707505956807079304988542015446066515923890162744021073123829784752 :: nat)"
    by simp
  ultimately show ?thesis by (simp only:)
qed

lemma root_square:
  "19681161376707505956807079304988542015446066515923890162744021073123829784752 *
    19681161376707505956807079304988542015446066515923890162744021073123829784752 mod
    57896044618658097711785492504343953926634992332820282019728792003956564819949 = (57896044618658097711785492504343953926634992332820282019728792003956564819948 :: nat)"
proof -
  have "oct_mult 19681161376707505956807079304988542015446066515923890162744021073123829784752 19681161376707505956807079304988542015446066515923890162744021073123829784752 =
      oct_mult 57896044618658097711785492504343953926634992332820282019728792003956564819949 6690407189080634018507799843845558368979872843924222843531373839242004886244 + 57896044618658097711785492504343953926634992332820282019728792003956564819948"
    by (simp only: oct_rules)
  then show ?thesis unfolding oct_mult_val by (simp only:) simp
qed

lemma two_half: "(2 :: nat) ^ (14474011154664524427946373126085988481658748083205070504932198000989141204987 * 2) mod 57896044618658097711785492504343953926634992332820282019728792003956564819949 = 57896044618658097711785492504343953926634992332820282019728792003956564819948"
  unfolding power_mult [of 2 _ 2] power2_eq_square
  by (subst mod_mult_eq [symmetric], simp only: two_quarter root_square)

lemma prime_p: "is_prime 57896044618658097711785492504343953926634992332820282019728792003956564819949"
proof (rule pocklington)
  show "is_prime 74058212732561358302231226437062788676166966415465897661863160754340907" by (rule prime_236_907)
  show "(57896044618658097711785492504343953926634992332820282019728792003956564819949 :: nat) = 57896044618658097711785492504343953926634992332820282019728792003956564819948 + 1"
    "(57896044618658097711785492504343953926634992332820282019728792003956564819948 :: nat) = 74058212732561358302231226437062788676166966415465897661863160754340907 * 781764"
    "781764 \<le> (74058212732561358302231226437062788676166966415465897661863160754340907 :: nat)" "0 < (781764 :: nat)"
    by simp_all
  have "(2 :: nat) ^ (14474011154664524427946373126085988481658748083205070504932198000989141204987 * 2 * 2) mod 57896044618658097711785492504343953926634992332820282019728792003956564819949 =
      (57896044618658097711785492504343953926634992332820282019728792003956564819948 * 57896044618658097711785492504343953926634992332820282019728792003956564819948) mod 57896044618658097711785492504343953926634992332820282019728792003956564819949"
    unfolding power_mult [of 2 "14474011154664524427946373126085988481658748083205070504932198000989141204987 * 2" 2] power2_eq_square
    by (subst mod_mult_eq [symmetric], simp only: two_half)
  also have "\<dots> = 1" by simp
  also have "(14474011154664524427946373126085988481658748083205070504932198000989141204987 * 2 * 2 :: nat) =
      57896044618658097711785492504343953926634992332820282019728792003956564819948"
    by simp
  finally show "(2 :: nat) ^ 57896044618658097711785492504343953926634992332820282019728792003956564819948
      mod 57896044618658097711785492504343953926634992332820282019728792003956564819949 = 1" .
  show "((2 ^ 781764 + 57896044618658097711785492504343953926634992332820282019728792003956564819948) * 55540832096118778044507775605005710249233119951144946814680141076505643269084)
      mod 57896044618658097711785492504343953926634992332820282019728792003956564819949 = (1 :: nat)"
    by (rule oct_power_unit [where red = "red25519"
      and c = 427094198651976259540344842774561673889945192655078505504941250475370961481
      and w = 55950552092239397598219982322519308357857968011929960664182527642122296848215, OF red25519_mod])
      (simp only: oct_rules, simp only: oct_rules, simp)
qed

end
