(* ===== verification/GF.thy ===== *)
theory GF
  imports FieldBytes CurvePrimes
begin

text \<open>
  The field \<open>GF(2^255 - 19)\<close> as a type, an instance of the library's class of fields, and the value
  of a limb representation in it. From here on the curve is treated with the library's algebra.
\<close>

section \<open>The type\<close>

lemma prime_P25519: "is_prime P25519"
  using prime_p by (simp only: P25519_eq)

lemma p25519_pos: "0 < P25519" "Suc 0 < P25519" "0 < p25519" "1 < p25519"
  using is_prime_gt_1 [OF prime_P25519] by simp_all

typedef gf = "{0..<p25519}"
  by (rule exI [of _ 0]) (simp add: p25519_pos)

setup_lifting type_definition_gf

instantiation gf :: comm_ring_1
begin

lift_definition zero_gf :: gf is 0 by (simp add: p25519_pos)
lift_definition one_gf :: gf is 1 by (simp add: p25519_pos)
lift_definition plus_gf :: "gf \<Rightarrow> gf \<Rightarrow> gf" is "\<lambda>a b. (a + b) mod p25519" by (simp add: p25519_pos)
lift_definition times_gf :: "gf \<Rightarrow> gf \<Rightarrow> gf" is "\<lambda>a b. (a * b) mod p25519" by (simp add: p25519_pos)
lift_definition uminus_gf :: "gf \<Rightarrow> gf" is "\<lambda>a. (- a) mod p25519" by (simp add: p25519_pos)
lift_definition minus_gf :: "gf \<Rightarrow> gf \<Rightarrow> gf" is "\<lambda>a b. (a - b) mod p25519" by (simp add: p25519_pos)

instance
proof
  fix a b c :: gf
  show "a * b * c = a * (b * c)" by transfer (simp add: mod_simps mult.assoc)
  show "a * b = b * a" by transfer (simp add: mult.commute)
  show "1 * a = a" by transfer simp
  show "a + b + c = a + (b + c)" by transfer (simp add: mod_simps add.assoc)
  show "a + b = b + a" by transfer (simp add: add.commute)
  show "0 + a = a" by transfer simp
  show "- a + a = 0" by transfer (simp add: mod_simps)
  show "a - b = a + - b" by transfer (simp add: mod_simps)
  show "(a + b) * c = a * c + b * c" by transfer (simp add: mod_simps distrib_right)
  show "(0 :: gf) \<noteq> 1" by transfer simp
qed

end

lemma Rep_gf_of_nat: "Rep_gf (of_nat n) = int n mod p25519"
  by (induction n) (simp_all add: zero_gf.rep_eq plus_gf.rep_eq one_gf.rep_eq mod_simps)

lemma Rep_gf_of_int: "Rep_gf (of_int z) = z mod p25519"
  by (cases z rule: int_diff_cases) (simp add: minus_gf.rep_eq Rep_gf_of_nat mod_simps)

lemma of_int_gf_eq: "(of_int z :: gf) = of_int w \<longleftrightarrow> z mod p25519 = w mod p25519"
  by (simp only: Rep_gf_inject [symmetric] Rep_gf_of_int)

lemma of_nat_gf_eq: "(of_nat m :: gf) = of_nat n \<longleftrightarrow> m mod P25519 = n mod P25519"
  by (simp only: Rep_gf_inject [symmetric] Rep_gf_of_nat of_nat_eq_iff flip: zmod_int)

lemma gf_of_nat: "\<exists>n. (a :: gf) = of_nat n"
proof -
  have "0 \<le> Rep_gf a" "Rep_gf a < p25519" using Rep_gf [of a] by simp_all
  then have "Rep_gf a = Rep_gf (of_nat (nat (Rep_gf a)))" by (simp only: Rep_gf_of_nat nat_0_le mod_pos_pos_trivial)
  then show ?thesis using Rep_gf_inject by blast
qed

text \<open>Fermat's little theorem makes the ring a field; its inverse is the power the code computes.\<close>

lemma gf_fermat:
  assumes "(a :: gf) \<noteq> 0"
  shows "a ^ (P25519 - 1) = 1"
proof -
  obtain n where n: "a = of_nat n" using gf_of_nat by blast
  have "\<not> P25519 dvd n" using assms of_nat_gf_eq [of n 0] by (auto simp: n)
  then have "n ^ (P25519 - 1) mod P25519 = 1" by (rule fermat_little [OF prime_P25519])
  moreover have "1 mod P25519 = 1" using is_prime_gt_1 [OF prime_P25519] by simp
  ultimately show ?thesis unfolding n using of_nat_gf_eq [of "n ^ (P25519 - 1)" 1] by simp
qed

instantiation gf :: field
begin

definition inverse_gf :: "gf \<Rightarrow> gf" where "inverse_gf a = a ^ (P25519 - 2)"
definition divide_gf :: "gf \<Rightarrow> gf \<Rightarrow> gf" where "divide_gf a b = a * inverse b"

instance
proof
  fix a b :: gf
  have "Suc (P25519 - 2) = P25519 - 1" using is_prime_gt_1 [OF prime_P25519] by simp
  then have "inverse a * a = a ^ (P25519 - 1)" by (simp only: inverse_gf_def flip: power_Suc2)
  then show "inverse a * a = 1" if "a \<noteq> 0" using gf_fermat [OF that] by (rule trans)
  show "a div b = a * inverse b" by (simp add: divide_gf_def)
  have "0 < P25519 - 2" by (simp add: P25519_eq)
  then show "inverse (0 :: gf) = 0" unfolding inverse_gf_def by (rule zero_power)
qed

end

section \<open>The value of a field element of the code\<close>

definition gfv :: "fe \<Rightarrow> gf" where "gfv x = of_nat (fe_value x)"

lemma fe_is_gfv: "fe_is x z \<longleftrightarrow> fe_ok x \<and> gfv x = of_int z"
  using of_int_gf_eq [of "int (fe_value x)" z] by (simp only: fe_is_def gfv_def of_int_of_nat_eq)

lemma gf_of_int: "\<exists>z. (a :: gf) = of_int z"
  using gf_of_nat [of a] by (metis of_int_of_nat_eq)

lemma P25519_exponent: "P25519 - 2 = 2 ^ 255 - 21"
  by (simp add: P25519_eq)

lemma fe_ok_gfv:
  assumes "fe_ok x" and "fe_ok y"
  shows "fe_ok (fe_add x y)" "gfv (fe_add x y) = gfv x + gfv y"
    "fe_ok (fe_sub x y)" "gfv (fe_sub x y) = gfv x - gfv y"
    "fe_ok (fe_mul x y)" "gfv (fe_mul x y) = gfv x * gfv y"
proof -
  note x = fe_is_value [OF assms(1)] and y = fe_is_value [OF assms(2)]
  have v: "gfv x = of_int (int (fe_value x))" "gfv y = of_int (int (fe_value y))" by (simp_all add: gfv_def)
  show "fe_ok (fe_add x y)" "gfv (fe_add x y) = gfv x + gfv y"
    using fe_is_add [OF x y] by (simp_all add: fe_is_gfv v)
  show "fe_ok (fe_sub x y)" "gfv (fe_sub x y) = gfv x - gfv y"
    using fe_is_sub [OF x y] by (simp_all add: fe_is_gfv v)
  show "fe_ok (fe_mul x y)" "gfv (fe_mul x y) = gfv x * gfv y"
    using fe_is_mul [OF x y] by (simp_all add: fe_is_gfv v)
qed

lemma fe_ok_gfv1:
  assumes "fe_ok x"
  shows "fe_ok (fe_square x)" "gfv (fe_square x) = gfv x * gfv x"
    "fe_ok (fe_neg x)" "gfv (fe_neg x) = - gfv x"
    "fe_ok (fe_invert x)" "gfv (fe_invert x) = inverse (gfv x)"
    "fe_ok (fe_mul121666 x)" "gfv (fe_mul121666 x) = gfv x * 121666"
proof -
  note x = fe_is_value [OF assms]
  have v: "gfv x = of_int (int (fe_value x))" by (simp add: gfv_def)
  show "fe_ok (fe_square x)" "gfv (fe_square x) = gfv x * gfv x"
    using fe_is_square [OF x] by (simp_all add: fe_is_gfv v)
  show "fe_ok (fe_neg x)" "gfv (fe_neg x) = - gfv x"
    using fe_is_neg [OF x] by (simp_all add: fe_is_gfv v)
  show "fe_ok (fe_invert x)" "gfv (fe_invert x) = inverse (gfv x)"
    using fe_invert_is [OF x] unfolding fe_is_gfv v inverse_gf_def of_int_power P25519_exponent by (simp_all only:)
  show "fe_ok (fe_mul121666 x)" "gfv (fe_mul121666 x) = gfv x * 121666"
    using fe_is_mul121666 [OF x] by (simp_all add: fe_is_gfv v)
qed

lemma gfv_constants: "fe_ok fe_ZERO" "gfv fe_ZERO = 0" "fe_ok fe_ONE" "gfv fe_ONE = 1"
  using fe_is_constants by (simp_all add: fe_is_gfv)

lemma gfv_select:
  assumes "fe_ok x" and "fe_ok y" and "choice_wf c"
  shows "fe_ok (fe_select x y c)" "gfv (fe_select x y c) = (if is_set c then gfv y else gfv x)"
  using assms by (auto simp: fe_select_eq)

text \<open>The canonical bytes determine the value.\<close>

definition gf_bytes :: "gf \<Rightarrow> bytes" where "gf_bytes a = to_le 32 (nat (Rep_gf a))"

lemma fe_to_bytes_gfv: "fe_ok x \<Longrightarrow> fe_to_bytes x = gf_bytes (gfv x)"
  using fe_to_bytes_raw [of x] by (simp add: gf_bytes_def gfv_def Rep_gf_of_nat nat_mod_distrib)

lemma gf_bytes_inj: "gf_bytes a = gf_bytes b \<longleftrightarrow> a = b"
proof -
  have r: "gf_bytes (of_int z) = to_le 32 (nat (z mod p25519))" for z
    by (simp add: gf_bytes_def Rep_gf_of_int)
  show ?thesis
    using gf_of_int [of a] gf_of_int [of b] by (auto simp: r to_le_canonical_inj of_int_gf_eq)
qed

definition gf_odd :: "gf \<Rightarrow> bool" where "gf_odd a \<longleftrightarrow> odd (Rep_gf a)"

lemma gfv_tests:
  assumes "fe_ok x"
  shows "is_set (fe_is_zero x) \<longleftrightarrow> gfv x = 0" "is_set (fe_is_negative x) \<longleftrightarrow> gf_odd (gfv x)"
    "choice_wf (fe_is_zero x)" "choice_wf (fe_is_negative x)"
proof -
  note x = fe_is_value [OF assms]
  have v: "gfv x = of_int (int (fe_value x))" by (simp add: gfv_def)
  note z = fe_is_zero_is [OF x] and n = fe_is_negative_is [OF x]
  have "gfv x = 0 \<longleftrightarrow> int (fe_value x) mod p25519 = 0"
    using of_int_gf_eq [of "int (fe_value x)" 0] unfolding v by simp
  then show "is_set (fe_is_zero x) \<longleftrightarrow> gfv x = 0" "choice_wf (fe_is_zero x)"
    unfolding z by (simp_all add: choice_wf_def)
  show "is_set (fe_is_negative x) \<longleftrightarrow> gf_odd (gfv x)" "choice_wf (fe_is_negative x)"
    unfolding n gf_odd_def v Rep_gf_of_int by (simp_all add: choice_wf_def)
qed

lemma gfv_ct_eq:
  assumes "fe_ok x" and "fe_ok y"
  shows "is_set (fe_ct_eq x y) \<longleftrightarrow> gfv x = gfv y" "choice_wf (fe_ct_eq x y)"
proof -
  note e = fe_ct_eq_is [OF fe_is_value [OF assms(1)] fe_is_value [OF assms(2)]]
  have v: "gfv x = of_int (int (fe_value x))" "gfv y = of_int (int (fe_value y))" by (simp_all add: gfv_def)
  show "is_set (fe_ct_eq x y) \<longleftrightarrow> gfv x = gfv y" "choice_wf (fe_ct_eq x y)"
    unfolding e v of_int_gf_eq by (simp_all add: choice_wf_def)
qed

lemma gf_odd_minus: "a \<noteq> 0 \<Longrightarrow> gf_odd (- a) \<longleftrightarrow> \<not> gf_odd a"
proof -
  assume a: "a \<noteq> 0"
  obtain z where z: "a = of_int z" using gf_of_int by blast
  have nz: "z mod p25519 \<noteq> 0" using a of_int_gf_eq [of z 0] by (auto simp: z)
  have "(- z) mod p25519 = p25519 - z mod p25519" using nz by (simp add: zmod_zminus1_eq_if)
  moreover have "odd p25519" by (simp add: P25519_eq)
  moreover have "- a = of_int (- z)" by (simp add: z)
  ultimately show ?thesis by (simp only: gf_odd_def z Rep_gf_of_int) simp
qed

end
