(* ===== verification/EdwardsCurve.thy ===== *)
theory EdwardsCurve
  imports Complex_Main
begin

text \<open>
  The group law of a twisted Edwards curve \<open>y^2 - x^2 = 1 + d x^2 y^2\<close> over a field in which minus
  one is a square and \<open>d\<close> is not: the addition formulas never divide by zero, stay on the curve and
  form a commutative group. Associativity is reduced to one polynomial identity per coordinate: with
  \<open>s = x y\<close> and \<open>a = x^2 + y^2\<close>, multiplication by \<open>a\<close> maps \<open>x\<close> and \<open>y\<close> to linear combinations of
  them.
\<close>

definition ed_on :: "'a :: field \<Rightarrow> 'a \<times> 'a \<Rightarrow> bool" where
  "ed_on d P = (case P of (x, y) \<Rightarrow> y * y - x * x = 1 + d * (x * y) * (x * y))"

definition ed_plus :: "'a :: field \<Rightarrow> 'a \<times> 'a \<Rightarrow> 'a \<times> 'a \<Rightarrow> 'a \<times> 'a" where
  "ed_plus d P Q =
    (case P of (x1, y1) \<Rightarrow> case Q of (x2, y2) \<Rightarrow>
     ((x1 * y2 + y1 * x2) / (1 + d * (x1 * y1) * (x2 * y2)),
      (y1 * y2 + x1 * x2) / (1 - d * (x1 * y1) * (x2 * y2))))"

definition ed_minus :: "'a :: field \<times> 'a \<Rightarrow> 'a \<times> 'a" where
  "ed_minus P = (case P of (x, y) \<Rightarrow> (- x, y))"

section \<open>Polynomial identities\<close>

lemma assoc_identity_x:
  fixes d :: "'a :: field"
  shows "(1 - d*d*s2*s2*s3*s3) * ((x1*y2 + y1*x2) * (1 - d*s1*s2) * y3 + (y1*y2 + x1*x2) * (1 + d*s1*s2) * x3)
    + d*s1 * (s2 * ((x1*y2 + y1*x2) * (1 - d*s1*s2) * (2*s3*x3 + (1 + d*s3*s3)*y3)
                  + (y1*y2 + x1*x2) * (1 + d*s1*s2) * (2*s3*y3 - (1 + d*s3*s3)*x3))
            + s3 * ((x1*(1 - d*s1*s2)*y3 + y1*(1 + d*s1*s2)*x3) * (2*s2*x2 + (1 + d*s2*s2)*y2)
                  + (y1*(1 - d*s1*s2)*y3 + x1*(1 + d*s1*s2)*x3) * (2*s2*y2 - (1 + d*s2*s2)*x2)))
  = (1 - d*d*s1*s1*s2*s2) * ((x2*y3 + y2*x3) * (1 - d*s2*s3) * y1 + (y2*y3 + x2*x3) * (1 + d*s2*s3) * x1)
    + d*s3 * (s1 * ((x3*(1 - d*s2*s3)*y1 + y3*(1 + d*s2*s3)*x1) * (2*s2*x2 + (1 + d*s2*s2)*y2)
                  + (y3*(1 - d*s2*s3)*y1 + x3*(1 + d*s2*s3)*x1) * (2*s2*y2 - (1 + d*s2*s2)*x2))
            + s2 * ((x2*y3 + y2*x3) * (1 - d*s2*s3) * (2*s1*x1 + (1 + d*s1*s1)*y1)
                  + (y2*y3 + x2*x3) * (1 + d*s2*s3) * (2*s1*y1 - (1 + d*s1*s1)*x1)))"
  by algebra

lemma assoc_identity_y:
  fixes d :: "'a :: field"
  shows "(1 - d*d*s2*s2*s3*s3) * ((y1*y2 + x1*x2) * (1 + d*s1*s2) * y3 + (x1*y2 + y1*x2) * (1 - d*s1*s2) * x3)
    - d*s1 * (s2 * ((y1*y2 + x1*x2) * (1 + d*s1*s2) * (2*s3*x3 + (1 + d*s3*s3)*y3)
                  + (x1*y2 + y1*x2) * (1 - d*s1*s2) * (2*s3*y3 - (1 + d*s3*s3)*x3))
            + s3 * ((y1*(1 + d*s1*s2)*y3 + x1*(1 - d*s1*s2)*x3) * (2*s2*x2 + (1 + d*s2*s2)*y2)
                  + (x1*(1 + d*s1*s2)*y3 + y1*(1 - d*s1*s2)*x3) * (2*s2*y2 - (1 + d*s2*s2)*x2)))
  = (1 - d*d*s1*s1*s2*s2) * ((y2*y3 + x2*x3) * (1 + d*s2*s3) * y1 + (x2*y3 + y2*x3) * (1 - d*s2*s3) * x1)
    - d*s3 * (s1 * ((y3*(1 + d*s2*s3)*y1 + x3*(1 - d*s2*s3)*x1) * (2*s2*x2 + (1 + d*s2*s2)*y2)
                  + (x3*(1 + d*s2*s3)*y1 + y3*(1 - d*s2*s3)*x1) * (2*s2*y2 - (1 + d*s2*s2)*x2))
            + s2 * ((y2*y3 + x2*x3) * (1 + d*s2*s3) * (2*s1*x1 + (1 + d*s1*s1)*y1)
                  + (x2*y3 + y2*x3) * (1 - d*s2*s3) * (2*s1*y1 - (1 + d*s1*s1)*x1)))"
  by algebra

text \<open>The action of \<open>a = x^2 + y^2\<close> on the coordinates of a point.\<close>

lemma ed_action:
  assumes "ed_on d (x, y)"
  shows "(x*x + y*y) * x = 2*(x*y)*y - (1 + d*(x*y)*(x*y))*x"
    "(x*x + y*y) * y = 2*(x*y)*x + (1 + d*(x*y)*(x*y))*y"
proof -
  have c: "1 + d * (x * y) * (x * y) = y * y - x * x" using assms by (simp add: ed_on_def)
  show "(x*x + y*y) * x = 2*(x*y)*y - (1 + d*(x*y)*(x*y))*x"
    "(x*x + y*y) * y = 2*(x*y)*x + (1 + d*(x*y)*(x*y))*y"
    unfolding c by algebra+
qed

lemma assoc_numerators_x:
  fixes d :: "'a :: field"
  assumes "ed_on d (x1, y1)" "ed_on d (x2, y2)" "ed_on d (x3, y3)"
    and s: "s1 = x1*y1" "s2 = x2*y2" "s3 = x3*y3"
    and a: "a1 = x1*x1 + y1*y1" "a2 = x2*x2 + y2*y2" "a3 = x3*x3 + y3*y3"
  shows "((x1*y2 + y1*x2) * (1 - d*s1*s2) * y3 + (y1*y2 + x1*x2) * (1 + d*s1*s2) * x3)
      * (1 - d*d*s2*s2*s3*s3 + d*s1*(s2*a3 + s3*a2))
    = ((x2*y3 + y2*x3) * (1 - d*s2*s3) * y1 + (y2*y3 + x2*x3) * (1 + d*s2*s3) * x1)
      * (1 - d*d*s1*s1*s2*s2 + d*s3*(s1*a2 + s2*a1))"
proof -
  note h = ed_action [OF assms(1)] ed_action [OF assms(2)] ed_action [OF assms(3)]
  note h = h [folded s, folded a]
  have e: "(X*y3 + Y*x3) * (k + d*s1*(s2*a3 + s3*a2)) =
      k*(X*y3 + Y*x3) + d*s1*(s2*(X*(a3*y3) + Y*(a3*x3)) + s3*(a2*(X*y3 + Y*x3)))" for X Y k
    by algebra
  have e': "(X*y1 + Y*x1) * (k + d*s3*(s1*a2 + s2*a1)) =
      k*(X*y1 + Y*x1) + d*s3*(s1*(a2*(X*y1 + Y*x1)) + s2*(X*(a1*y1) + Y*(a1*x1)))" for X Y k
    by algebra
  have f: "a2*((x1*y2 + y1*x2)*p*y3 + (y1*y2 + x1*x2)*q*x3) =
      (x1*p*y3 + y1*q*x3)*(a2*y2) + (y1*p*y3 + x1*q*x3)*(a2*x2)" for p q by algebra
  have f': "a2*((x2*y3 + y2*x3)*p*y1 + (y2*y3 + x2*x3)*q*x1) =
      (x3*p*y1 + y3*q*x1)*(a2*y2) + (y3*p*y1 + x3*q*x1)*(a2*x2)" for p q by algebra
  show ?thesis unfolding e e' f f' h by (rule assoc_identity_x)
qed

lemma assoc_numerators_y:
  fixes d :: "'a :: field"
  assumes "ed_on d (x1, y1)" "ed_on d (x2, y2)" "ed_on d (x3, y3)"
    and s: "s1 = x1*y1" "s2 = x2*y2" "s3 = x3*y3"
    and a: "a1 = x1*x1 + y1*y1" "a2 = x2*x2 + y2*y2" "a3 = x3*x3 + y3*y3"
  shows "((y1*y2 + x1*x2) * (1 + d*s1*s2) * y3 + (x1*y2 + y1*x2) * (1 - d*s1*s2) * x3)
      * (1 - d*d*s2*s2*s3*s3 - d*s1*(s2*a3 + s3*a2))
    = ((y2*y3 + x2*x3) * (1 + d*s2*s3) * y1 + (x2*y3 + y2*x3) * (1 - d*s2*s3) * x1)
      * (1 - d*d*s1*s1*s2*s2 - d*s3*(s1*a2 + s2*a1))"
proof -
  note h = ed_action [OF assms(1)] ed_action [OF assms(2)] ed_action [OF assms(3)]
  note h = h [folded s, folded a]
  have e: "(Y*y3 + X*x3) * (k - d*s1*(s2*a3 + s3*a2)) =
      k*(Y*y3 + X*x3) - d*s1*(s2*(Y*(a3*y3) + X*(a3*x3)) + s3*(a2*(Y*y3 + X*x3)))" for X Y k
    by algebra
  have e': "(Y*y1 + X*x1) * (k - d*s3*(s1*a2 + s2*a1)) =
      k*(Y*y1 + X*x1) - d*s3*(s1*(a2*(Y*y1 + X*x1)) + s2*(Y*(a1*y1) + X*(a1*x1)))" for X Y k
    by algebra
  have f: "a2*((y1*y2 + x1*x2)*p*y3 + (x1*y2 + y1*x2)*q*x3) =
      (y1*p*y3 + x1*q*x3)*(a2*y2) + (x1*p*y3 + y1*q*x3)*(a2*x2)" for p q by algebra
  have f': "a2*((y2*y3 + x2*x3)*p*y1 + (x2*y3 + y2*x3)*q*x1) =
      (y3*p*y1 + x3*q*x1)*(a2*y2) + (x3*p*y1 + y3*q*x1)*(a2*x2)" for p q by algebra
  show ?thesis unfolding e e' f f' h by (rule assoc_identity_y)
qed

section \<open>The group law\<close>

text \<open>The denominators of a sum of two points, multiplied out over the third one.\<close>

lemma plus_denominators:
  fixes d :: "'a :: field"
  shows "(1 + d*(x1*y1)*(x2*y2)) * (1 - d*(x1*y1)*(x2*y2)) + d*((x1*y2 + y1*x2)*(y1*y2 + x1*x2))*s3
    = 1 - d*d*(x1*y1)*(x1*y1)*(x2*y2)*(x2*y2) + d*s3*((x1*y1)*(x2*x2 + y2*y2) + (x2*y2)*(x1*x1 + y1*y1))"
  by algebra

locale edwards_curve =
  fixes d i :: "'a :: field"
  assumes root: "i * i = - 1" and nonsquare: "w * w \<noteq> d" and two: "(2 :: 'a) \<noteq> 0"
begin

lemma d_nonzero: "d \<noteq> 0"
  using nonsquare [of 0] by auto

text \<open>
  If a denominator vanished, \<open>d\<close> would be the square of a quotient: with \<open>e = d s1 s2\<close> and
  \<open>e^2 = 1\<close> the two factors \<open>y2 + i x2\<close> and \<open>y2 - i x2\<close> would both have to be zero.
\<close>

lemma no_quotient:
  assumes P: "ed_on d (x1, y1)" and Q: "ed_on d (x2, y2)" and e: "e = d * (x1 * y1) * (x2 * y2)" "e * e = 1"
    and k: "k * k = - 1"
  shows "y2 + k * x2 = 0"
proof (rule ccontr)
  assume nz: "y2 + k * x2 \<noteq> 0"
  have s: "x1 * y1 \<noteq> 0" using e by auto
  have P': "y1 * y1 - x1 * x1 = 1 + d * (x1 * y1) * (x1 * y1)" and Q': "y2 * y2 - x2 * x2 = 1 + d * (x2 * y2) * (x2 * y2)"
    using P Q by (simp_all add: ed_on_def)
  have "(y1 + k*e*x1) * (y1 + k*e*x1) = (y1*y1 + (k*k)*(e*e)*(x1*x1)) + 2*k*e*(x1*y1)" by algebra
  also have "\<dots> = (y1*y1 - x1*x1) + 2*k*e*(x1*y1)" by (simp add: k e(2))
  also have "\<dots> = d*(x1*y1)*(x1*y1) + e*e + 2*k*e*(x1*y1)" unfolding P' e(2) by algebra
  also have "\<dots> = d*(x1*y1)*(x1*y1)*((y2*y2 - x2*x2) + 2*k*(x2*y2))" unfolding Q' e(1) by algebra
  also have "\<dots> = d*((x1*y1)*(y2 + k*x2))*((x1*y1)*(y2 + k*x2))"
  proof -
    have "(y2 + k*x2)*(y2 + k*x2) = (y2*y2 + (k*k)*(x2*x2)) + 2*k*(x2*y2)" by algebra
    then have "(y2*y2 - x2*x2) + 2*k*(x2*y2) = (y2 + k*x2)*(y2 + k*x2)" by (simp add: k)
    then show ?thesis by (simp only: mult.assoc mult.left_commute mult.commute)
  qed
  finally have "(y1 + k*e*x1) * (y1 + k*e*x1) = d * ((x1*y1)*(y2 + k*x2)) * ((x1*y1)*(y2 + k*x2))" .
  moreover have "U / V * (U / V) = d" if "U * U = d * V * V" "V \<noteq> 0" for U V
    using that by (simp add: times_divide_times_eq)
  ultimately have "\<exists>w. w * w = d" using s nz by (metis mult_eq_0_iff)
  with nonsquare show False by blast
qed

lemma product_not_unit:
  assumes "ed_on d (x1, y1)" and "ed_on d (x2, y2)"
  shows "d * (x1 * y1) * (x2 * y2) * (d * (x1 * y1) * (x2 * y2)) \<noteq> 1"
proof
  define e where "e = d * (x1 * y1) * (x2 * y2)"
  assume "d * (x1 * y1) * (x2 * y2) * (d * (x1 * y1) * (x2 * y2)) = 1"
  then have e: "e * e = 1" by (simp add: e_def)
  have "y2 + i * x2 = 0" by (rule no_quotient [OF assms e_def e root])
  moreover have "y2 + - i * x2 = 0" by (rule no_quotient [OF assms e_def e]) (simp add: root)
  ultimately have "2 * y2 = 0" by algebra
  then have "y2 = 0" using two by simp
  with e show False by (simp add: e_def)
qed

lemma denominators:
  assumes "ed_on d (x1, y1)" and "ed_on d (x2, y2)"
  shows "1 + d * (x1 * y1) * (x2 * y2) \<noteq> 0" "1 - d * (x1 * y1) * (x2 * y2) \<noteq> 0"
proof -
  note n = product_not_unit [OF assms]
  have "e * e = 1" if "1 + e = 0 \<or> 1 - e = 0" for e :: 'a
    using that by (auto simp: add_eq_0_iff)
  with n show "1 + d * (x1 * y1) * (x2 * y2) \<noteq> 0" "1 - d * (x1 * y1) * (x2 * y2) \<noteq> 0" by blast+
qed

lemma closed:
  assumes "ed_on d P" and "ed_on d Q"
  shows "ed_on d (ed_plus d P Q)"
proof -
  obtain x1 y1 x2 y2 where PQ: "P = (x1, y1)" "Q = (x2, y2)" by (cases P, cases Q)
  define s1 s2 where s: "s1 = x1 * y1" "s2 = x2 * y2"
  define A B X Y where AB: "A = 1 + d*s1*s2" "B = 1 - d*s1*s2" and XY: "X = x1*y2 + y1*x2" "Y = y1*y2 + x1*x2"
  have nz: "A \<noteq> 0" "B \<noteq> 0" using denominators assms by (simp_all add: PQ AB s)
  have c: "y1*y1 - x1*x1 = 1 + d*s1*s1" "y2*y2 - x2*x2 = 1 + d*s2*s2"
    using assms by (simp_all add: PQ ed_on_def s)
  have a: "(x1*x1 + y1*y1)*(x1*x1 + y1*y1) = (y1*y1 - x1*x1)*(y1*y1 - x1*x1) + 4*s1*s1"
    "(x2*x2 + y2*y2)*(x2*x2 + y2*y2) = (y2*y2 - x2*x2)*(y2*y2 - x2*x2) + 4*s2*s2"
    unfolding s by algebra+
  have YX: "Y*Y - X*X = (y1*y1 - x1*x1)*(y2*y2 - x2*x2)" "Y*Y + X*X = (x1*x1 + y1*y1)*(x2*x2 + y2*y2) + 4*s1*s2"
    "X*Y = s1*(x2*x2 + y2*y2) + s2*(x1*x1 + y1*y1)"
    unfolding XY s by algebra+
  have "Y*Y*(A*A) - X*X*(B*B) = (Y*Y - X*X)*(1 + d*s1*s2*(d*s1*s2)) + 2*(d*s1*s2)*(Y*Y + X*X)"
    unfolding AB by algebra
  also have "\<dots> = (1 + d*s1*s1)*(1 + d*s2*s2)*(1 + d*s1*s2*(d*s1*s2))
      + 2*(d*s1*s2)*((x1*x1 + y1*y1)*(x2*x2 + y2*y2) + 4*s1*s2)"
    unfolding YX c ..
  also have "\<dots> = A*B*(A*B) + d*(s1*s1*((1 + d*s2*s2)*(1 + d*s2*s2) + 4*s2*s2) + s2*s2*((1 + d*s1*s1)*(1 + d*s1*s1) + 4*s1*s1)
      + 2*s1*s2*((x1*x1 + y1*y1)*(x2*x2 + y2*y2)))"
    unfolding AB by algebra
  also have "\<dots> = A*B*(A*B) + d*(X*Y)*(X*Y)"
    unfolding YX(3) by (subst c [symmetric])+ (subst a [symmetric], subst a [symmetric], algebra)
  finally have "Y*Y*(A*A) - X*X*(B*B) = A*B*(A*B) + d*(X*Y)*(X*Y)" .
  then have "(Y/B)*(Y/B) - (X/A)*(X/A) = 1 + d*((X/A)*(Y/B))*((X/A)*(Y/B))"
    using nz by (simp add: field_simps)
  then show ?thesis by (simp add: PQ ed_on_def ed_plus_def AB XY s)
qed

lemma commute: "ed_plus d P Q = ed_plus d Q P"
  by (cases P; cases Q) (simp add: ed_plus_def algebra_simps)

lemma neutral: "ed_on d (0, 1)" "ed_plus d (0, 1) P = P"
  by (cases P; simp add: ed_on_def ed_plus_def)+

lemma inverse:
  assumes "ed_on d P"
  shows "ed_on d (ed_minus P)" "ed_plus d (ed_minus P) P = (0, 1)"
proof -
  obtain x y where P: "P = (x, y)" by (cases P)
  have c: "y * y - x * x = 1 + d * (x * y) * (x * y)" using assms by (simp add: P ed_on_def)
  then show on: "ed_on d (ed_minus P)" by (simp add: P ed_on_def ed_minus_def)
  have "1 + d * (x * y) * (x * y) \<noteq> 0" using denominators assms by (simp add: P)
  with c show "ed_plus d (ed_minus P) P = (0, 1)" by (simp add: P ed_plus_def ed_minus_def)
qed

text \<open>The coordinates of a double sum as one fraction.\<close>

lemma plus_plus:
  assumes "ed_on d (x1, y1)" and "ed_on d (x2, y2)" and "ed_on d (x3, y3)"
  defines "s1 \<equiv> x1 * y1" and "s2 \<equiv> x2 * y2" and "s3 \<equiv> x3 * y3"
  defines "D \<equiv> s1*(x2*x2 + y2*y2) + s2*(x1*x1 + y1*y1)"
  shows "ed_plus d (ed_plus d (x1, y1) (x2, y2)) (x3, y3) =
    (((x1*y2 + y1*x2) * (1 - d*s1*s2) * y3 + (y1*y2 + x1*x2) * (1 + d*s1*s2) * x3)
       / (1 - d*d*s1*s1*s2*s2 + d*s3*D),
     ((y1*y2 + x1*x2) * (1 + d*s1*s2) * y3 + (x1*y2 + y1*x2) * (1 - d*s1*s2) * x3)
       / (1 - d*d*s1*s1*s2*s2 - d*s3*D))"
    and "1 - d*d*s1*s1*s2*s2 + d*s3*D \<noteq> 0" "1 - d*d*s1*s1*s2*s2 - d*s3*D \<noteq> 0"
proof -
  define A B X Y where AB: "A = 1 + d*s1*s2" "B = 1 - d*s1*s2" and XY: "X = x1*y2 + y1*x2" "Y = y1*y2 + x1*x2"
  have nz: "A \<noteq> 0" "B \<noteq> 0" using denominators [OF assms(1,2)] by (simp_all add: AB s1_def s2_def)
  have p: "ed_plus d (x1, y1) (x2, y2) = (X / A, Y / B)"
    by (simp add: ed_plus_def AB XY s1_def s2_def)
  have D: "A * B + d * (X * Y) * s3 = 1 - d*d*s1*s1*s2*s2 + d*s3*D"
    "A * B - d * (X * Y) * s3 = 1 - d*d*s1*s1*s2*s2 - d*s3*D"
    unfolding AB XY D_def s1_def s2_def by algebra+
  have "ed_on d (X / A, Y / B)" using closed [OF assms(1,2)] by (simp add: p)
  note q = denominators [OF this assms(3), folded s3_def]
  have r: "1 + d * (X / A * (Y / B)) * s3 = (A * B + d * (X * Y) * s3) / (A * B)"
    "1 - d * (X / A * (Y / B)) * s3 = (A * B - d * (X * Y) * s3) / (A * B)"
    using nz by (simp_all add: field_simps)
  from q show n: "1 - d*d*s1*s1*s2*s2 + d*s3*D \<noteq> 0" "1 - d*d*s1*s1*s2*s2 - d*s3*D \<noteq> 0"
    unfolding r D by auto
  have t: "X / A * y3 + Y / B * x3 = (X * B * y3 + Y * A * x3) / (A * B)"
    "Y / B * y3 + X / A * x3 = (Y * A * y3 + X * B * x3) / (A * B)"
    using nz by (simp_all add: field_simps)
  have "ed_plus d (X / A, Y / B) (x3, y3) =
      ((X * B * y3 + Y * A * x3) / (A * B + d * (X * Y) * s3), (Y * A * y3 + X * B * x3) / (A * B - d * (X * Y) * s3))"
    using nz by (simp only: ed_plus_def prod.case s3_def [symmetric] r t) simp
  then show "ed_plus d (ed_plus d (x1, y1) (x2, y2)) (x3, y3) =
    (((x1*y2 + y1*x2) * (1 - d*s1*s2) * y3 + (y1*y2 + x1*x2) * (1 + d*s1*s2) * x3)
       / (1 - d*d*s1*s1*s2*s2 + d*s3*D),
     ((y1*y2 + x1*x2) * (1 + d*s1*s2) * y3 + (x1*y2 + y1*x2) * (1 - d*s1*s2) * x3)
       / (1 - d*d*s1*s1*s2*s2 - d*s3*D))"
    unfolding p D by (simp only: AB XY)
qed

lemma assoc:
  assumes "ed_on d P" and "ed_on d Q" and "ed_on d R"
  shows "ed_plus d (ed_plus d P Q) R = ed_plus d P (ed_plus d Q R)"
proof -
  obtain x1 y1 x2 y2 x3 y3 where PQR: "P = (x1, y1)" "Q = (x2, y2)" "R = (x3, y3)"
    by (cases P, cases Q, cases R)
  note on = assms [unfolded PQR]
  note l = plus_plus [OF on] and r = plus_plus [OF on(2,3,1)]
  have "ed_plus d (ed_plus d (x1, y1) (x2, y2)) (x3, y3) = ed_plus d (ed_plus d (x2, y2) (x3, y3)) (x1, y1)"
    unfolding l(1) r(1) prod.inject frac_eq_eq [OF l(2) r(2)] frac_eq_eq [OF l(3) r(3)]
    using assoc_numerators_x [OF on refl refl refl refl refl refl]
      assoc_numerators_y [OF on refl refl refl refl refl refl] by (rule conjI)
  then show ?thesis unfolding PQR by (simp only: commute)
qed

end

end
