(* ===== verification/Multiples.thy ===== *)
theory Multiples
  imports Main
begin

text \<open>Integer multiples in a commutative group, the reading of scalar multiplication.\<close>

fun nmul :: "nat \<Rightarrow> 'a :: ab_group_add \<Rightarrow> 'a" where
  "nmul 0 P = 0"
| "nmul (Suc n) P = P + nmul n P"

definition smul :: "int \<Rightarrow> 'a :: ab_group_add \<Rightarrow> 'a" where
  "smul z P = (if 0 \<le> z then nmul (nat z) P else - nmul (nat (- z)) P)"

lemma nmul_add: "nmul (m + n) P = nmul m P + nmul n P"
  by (induction m) (simp_all add: add.assoc)

lemma smul_diff_nat: "smul (int m - int n) P = nmul m P - nmul n P"
proof (cases "n \<le> m")
  case True
  then have "nmul m P = nmul (m - n) P + nmul n P" by (simp flip: nmul_add)
  with True show ?thesis by (simp add: smul_def nat_diff_distrib)
next
  case False
  then have "nmul n P = nmul (n - m) P + nmul m P" by (simp flip: nmul_add)
  with False show ?thesis by (simp add: smul_def nat_diff_distrib)
qed

lemma smul_nat: "smul (int n) P = nmul n P"
  using smul_diff_nat [of n 0 P] by simp

lemma smul_0 [simp]: "smul 0 P = 0" and smul_1 [simp]: "smul 1 P = P"
  using smul_nat [of 0 P] smul_nat [of 1 P] by simp_all

lemma smul_add: "smul (a + b) P = smul a P + smul b P"
proof -
  obtain m n m' n' where ab: "a = int m - int n" "b = int m' - int n'" by (meson int_diff_cases)
  have "a + b = int (m + m') - int (n + n')" by (simp add: ab)
  then show ?thesis by (simp only: smul_diff_nat) (simp add: ab smul_diff_nat nmul_add)
qed

lemma smul_minus: "smul (- a) P = - smul a P"
  using smul_add [of a "- a" P] by (simp add: add_eq_0_iff)

lemma smul_diff: "smul (a - b) P = smul a P - smul b P"
  using smul_add [of a "- b" P] by (simp add: smul_minus)

lemma smul_zero [simp]: "smul a 0 = 0"
proof -
  have "nmul n (0 :: 'a) = 0" for n by (induction n) simp_all
  then show ?thesis by (simp add: smul_def)
qed

lemma smul_plus: "smul a (P + Q) = smul a P + smul a Q"
proof -
  have "nmul n (P + Q) = nmul n P + nmul n Q" for n by (induction n) (simp_all add: algebra_simps)
  then show ?thesis by (simp add: smul_def)
qed

lemma smul_neg: "smul a (- P) = - smul a P"
  using smul_plus [of a P "- P"] by (simp add: add_eq_0_iff)

lemma smul_smul: "smul a (smul b P) = smul (a * b) P"
proof -
  have n: "smul (int m * b) P = nmul m (smul b P)" for m
    by (induction m) (simp_all add: distrib_right smul_add)
  obtain m n' where a: "a = int m - int n'" by (rule int_diff_cases)
  show ?thesis unfolding a left_diff_distrib smul_diff n smul_nat ..
qed

lemma smul_2: "smul 2 P = P + P"
  using smul_add [of 1 1 P] by simp

text \<open>Multiples of an element of finite order depend on the factor modulo the order.\<close>

lemma smul_mod:
  assumes "smul n P = 0"
  shows "smul (a mod n) P = smul a P"
proof -
  have "smul a P = smul (n * (a div n) + a mod n) P" by simp
  also have "\<dots> = smul (a mod n) P"
    unfolding smul_add by (subst mult.commute, subst smul_smul [symmetric]) (simp add: assms)
  finally show ?thesis ..
qed

end
