(* ===== verification/Limbs.thy ===== *)
theory Limbs
  imports MachineInts
begin

text \<open>
  Multi-precision arithmetic on little-endian arrays of 64-bit limbs: the multiply-accumulate,
  borrow and carry loops of crates/blindplane-crypto/src/scalar/reduce.rs, and the numbers they
  compute.
\<close>

section \<open>The loop bodies\<close>

text \<open>
  \<open>let t = a * b[j] + out[i + j] + carry; out[i + j] = t as u64; carry = t >> 64;\<close>
\<close>

definition mac_step :: "u64 \<Rightarrow> (nat \<Rightarrow> u64) \<Rightarrow> nat \<Rightarrow> u64 list \<times> u128 \<Rightarrow> nat \<Rightarrow> u64 list \<times> u128" where
  "mac_step a b i st j =
    (case st of (out, carry) \<Rightarrow>
     let t = wide a * wide (b j) + wide (out ! (i + j)) + carry
     in (out[i + j := low64 t], drop_bit 64 t))"

definition overflowing_sub :: "u64 \<Rightarrow> u64 \<Rightarrow> u64 \<times> bool" where
  "overflowing_sub a b = (a - b, a < b)"

definition overflowing_add :: "u64 \<Rightarrow> u64 \<Rightarrow> u64 \<times> bool" where
  "overflowing_add a b = (a + b, a + b < a)"

text \<open>\<open>a[i] - b[i] - borrow\<close> and \<open>a[i] + b[i] + carry\<close> with the flag of either half.\<close>

definition sub_step :: "(nat \<Rightarrow> u64) \<Rightarrow> (nat \<Rightarrow> u64) \<Rightarrow> u64 list \<times> u64 \<Rightarrow> nat \<Rightarrow> u64 list \<times> u64" where
  "sub_step a b st i =
    (case st of (out, borrow) \<Rightarrow>
     case overflowing_sub (a i) (b i) of (d, b1) \<Rightarrow>
     case overflowing_sub d borrow of (d, b2) \<Rightarrow>
     (out[i := d], of_bool b1 OR of_bool b2))"

definition add_step :: "(nat \<Rightarrow> u64) \<Rightarrow> (nat \<Rightarrow> u64) \<Rightarrow> u64 list \<times> u64 \<Rightarrow> nat \<Rightarrow> u64 list \<times> u64" where
  "add_step a b st i =
    (case st of (out, carry) \<Rightarrow>
     case overflowing_add (a i) (b i) of (s, c1) \<Rightarrow>
     case overflowing_add s carry of (s, c2) \<Rightarrow>
     (out[i := s], of_bool c1 OR of_bool c2))"

section \<open>The number of a limb array\<close>

fun lval :: "u64 list \<Rightarrow> nat" where
  "lval [] = 0"
| "lval (x # xs) = unat x + B64 * lval xs"

text \<open>The number of the first \<open>n\<close> entries of an indexed operand.\<close>

fun fval :: "(nat \<Rightarrow> u64) \<Rightarrow> nat \<Rightarrow> nat" where
  "fval f 0 = 0"
| "fval f (Suc n) = fval f n + unat (f n) * B64 ^ n"

lemma lval_append: "lval (xs @ ys) = lval xs + B64 ^ length xs * lval ys"
  by (induction xs) (simp_all add: algebra_simps)

lemma lval_bound: "lval xs < B64 ^ length xs"
proof (induction xs)
  case (Cons x xs)
  have "unat x + B64 * lval xs < B64 + B64 * lval xs"
    using unat_bounds(4) [of x] by simp
  also have "\<dots> = B64 * Suc (lval xs)" by simp
  also have "\<dots> \<le> B64 * B64 ^ length xs" using Cons by (intro mult_le_mono2) simp
  finally show ?case by simp
qed simp

lemma lval_replicate_0 [simp]: "lval (replicate n 0) = 0"
  by (induction n) simp_all

lemma lval_update:
  "i < length xs \<Longrightarrow> lval (xs[i := y]) + unat (xs ! i) * B64 ^ i = lval xs + unat y * B64 ^ i"
proof (induction xs arbitrary: i)
  case (Cons x xs)
  show ?case
  proof (cases i)
    case (Suc k)
    then have "lval (xs[k := y]) + unat (xs ! k) * B64 ^ k = lval xs + unat y * B64 ^ k"
      using Cons by simp
    then have "B64 * (lval (xs[k := y]) + unat (xs ! k) * B64 ^ k) = B64 * (lval xs + unat y * B64 ^ k)"
      by (simp only:)
    then show ?thesis by (simp add: Suc algebra_simps)
  qed simp
qed simp

lemma fval_bound: "fval f n < B64 ^ n"
proof (induction n)
  case (Suc n)
  have "unat (f n) + 1 \<le> B64" using unat_bounds(4) [of "f n"] by simp
  then have "(unat (f n) + 1) * B64 ^ n \<le> B64 * B64 ^ n" by (rule mult_le_mono1)
  then have "unat (f n) * B64 ^ n + B64 ^ n \<le> B64 * B64 ^ n" by (simp only: add_mult_distrib mult_1)
  with Suc show ?case unfolding fval.simps power_Suc by linarith
qed simp

lemma fval_cong: "(\<And>i. i < n \<Longrightarrow> f i = g i) \<Longrightarrow> fval f n = fval g n"
  by (induction n) simp_all

lemma fval_nth: "n \<le> length xs \<Longrightarrow> fval ((!) xs) n = lval (take n xs)"
  by (induction n) (simp_all add: take_Suc_conv_app_nth lval_append)

lemma fval_nth_all: "fval ((!) xs) (length xs) = lval xs"
  by (simp add: fval_nth)

lemma lval_take_drop: "lval xs = lval (take n xs) + B64 ^ n * lval (drop n xs)" if "n \<le> length xs"
  using lval_append [of "take n xs" "drop n xs"] that by simp

lemma lval_take: "n \<le> length xs \<Longrightarrow> lval (take n xs) = lval xs mod B64 ^ n"
  using lval_take_drop [of n xs] lval_bound [of "take n xs"] by simp

lemma lval_drop: "n \<le> length xs \<Longrightarrow> lval (drop n xs) = lval xs div B64 ^ n"
  using lval_take_drop [of n xs] lval_bound [of "take n xs"] by simp

lemma lval_inject: "lval xs = lval ys \<Longrightarrow> length xs = length ys \<Longrightarrow> xs = ys"
proof (induction xs arbitrary: ys)
  case (Cons x xs)
  then obtain y zs where ys: "ys = y # zs" by (cases ys) auto
  have eq: "unat x + B64 * lval xs = unat y + B64 * lval zs" using Cons.prems by (simp add: ys)
  have "(unat x + B64 * lval xs) mod B64 = unat x" "(unat y + B64 * lval zs) mod B64 = unat y"
    using unat_bounds(4) [of x] unat_bounds(4) [of y] by simp_all
  with eq have "x = y" by (simp add: word_unat_eq_iff)
  with eq Cons show ?case by (simp add: ys)
qed simp

section \<open>What the loops compute\<close>

lemma foldl_upt_Suc: "foldl f s [0..<Suc n] = f (foldl f s [0..<n]) n"
  by simp

lemma unat_mac:
  assumes "unat c < B64"
  shows "unat (wide a * wide b + wide y + c) = unat a * unat b + unat y + unat c"
    and "unat a * unat b + unat y + unat c < B64 * B64"
proof -
  have "unat a * unat b \<le> 18446744073709551615 * 18446744073709551615"
    using unat_bounds(4) [of a] unat_bounds(4) [of b] by (intro mult_le_mono) simp_all
  then show bnd: "unat a * unat b + unat y + unat c < B64 * B64"
    using unat_bounds(4) [of y] assms by simp
  then show "unat (wide a * wide b + wide y + c) = unat a * unat b + unat y + unat c"
    by (simp add: unat_add128 unat_wide_mul)
qed

lemma mac_loop:
  assumes "foldl (mac_step a b i) (out, 0) [0..<n] = (out', c)" and "i + n \<le> length out"
  shows "length out' = length out \<and> unat c < B64 \<and>
    lval out' + unat c * B64 ^ (i + n) = lval out + unat a * fval b n * B64 ^ i \<and>
    (\<forall>k. k < i \<or> i + n \<le> k \<longrightarrow> out' ! k = out ! k)"
  using assms
proof (induction n arbitrary: out' c)
  case (Suc n)
  obtain o1 c1 where f: "foldl (mac_step a b i) (out, 0) [0..<n] = (o1, c1)" by fastforce
  have IH: "length o1 = length out" "unat c1 < B64"
    "lval o1 + unat c1 * B64 ^ (i + n) = lval out + unat a * fval b n * B64 ^ i"
    "\<forall>k. k < i \<or> i + n \<le> k \<longrightarrow> o1 ! k = out ! k"
    using Suc.IH [OF f] Suc.prems(2) by simp_all
  let ?t = "wide a * wide (b n) + wide (o1 ! (i + n)) + c1"
  have st: "out' = o1[i + n := low64 ?t]" "c = drop_bit 64 ?t"
    using Suc.prems(1) unfolding foldl_upt_Suc f by (simp_all add: mac_step_def Let_def)
  note t = unat_mac [OF IH(2), of a "b n" "o1 ! (i + n)"]
  have c: "unat c = unat ?t div B64" using st(2) by (simp only: unat_high64)
  have lo: "unat (low64 ?t) = unat ?t mod B64" by (simp only: unat_low64)
  have cb: "unat c < B64" using t unfolding c by (simp add: less_mult_imp_div_less)
  have split: "unat ?t = unat (low64 ?t) + B64 * unat c" unfolding c lo by simp
  have "lval out' + unat (o1 ! (i + n)) * B64 ^ (i + n) = lval o1 + unat (low64 ?t) * B64 ^ (i + n)"
    using lval_update [of "i + n" o1 "low64 ?t"] Suc.prems(2) IH(1) st(1) by simp
  then have "lval out' + unat c * B64 ^ (i + Suc n) + unat (o1 ! (i + n)) * B64 ^ (i + n) =
      lval o1 + unat ?t * B64 ^ (i + n)"
    unfolding split by (simp add: algebra_simps)
  then have "lval out' + unat c * B64 ^ (i + Suc n) = lval o1 + (unat a * unat (b n) + unat c1) * B64 ^ (i + n)"
    unfolding t(1) by (simp add: algebra_simps)
  also have "\<dots> = lval out + unat a * fval b (Suc n) * B64 ^ i"
    using IH(3) by (simp add: algebra_simps power_add)
  finally show ?case
    using IH cb st(1) Suc.prems(2) by auto
qed simp

text \<open>Storing the last carry in an empty limb.\<close>

lemma mac_store:
  assumes "foldl (mac_step a b i) (out, 0) [0..<n] = (out', c)" and "i + n < length out" and "out ! (i + n) = 0"
  shows "lval (out'[i + n := low64 c]) = lval out + unat a * fval b n * B64 ^ i"
    and "out' ! (i + n) = 0" and "length out' = length out"
    and "\<And>k. i + n < k \<Longrightarrow> (out'[i + n := low64 c]) ! k = out ! k"
proof -
  note m = mac_loop [OF assms(1)] assms(2,3)
  then show z: "out' ! (i + n) = 0" and len: "length out' = length out" by auto
  have "unat (low64 c) = unat c" using m by (simp add: unat_low64)
  then show "lval (out'[i + n := low64 c]) = lval out + unat a * fval b n * B64 ^ i"
    using lval_update [of "i + n" out' "low64 c"] m z by simp
  show "(out'[i + n := low64 c]) ! k = out ! k" if "i + n < k" for k
    using m that by simp
qed

lemma unat_sub_borrow:
  assumes "overflowing_sub a b = (d, f)"
  shows "int (unat d) = int (unat a) - int (unat b) + (if f then int B64 else 0)"
proof (cases "a < b")
  case True
  then have "unat (a - b) = unat a + B64 - unat b"
    using unat_sub_if' [of a b] by (simp add: word_less_nat_alt)
  then show ?thesis
    using assms True unat_bounds(4) [of b] by (simp add: overflowing_sub_def of_nat_diff)
next
  case False
  then have "b \<le> a" by simp
  then have "unat (a - b) = unat a - unat b" "unat b \<le> unat a"
    by (simp_all only: unat_sub word_le_nat_alt)
  then show ?thesis using assms False by (auto simp: overflowing_sub_def)
qed

lemma sub_loop:
  assumes "foldl (sub_step a b) (out, 0) [0..<n] = (out', w)" and "n \<le> length out"
  shows "length out' = length out \<and> (w = 0 \<or> w = 1) \<and>
    int (lval (take n out')) = int (fval a n) - int (fval b n) + int (unat w) * int (B64 ^ n) \<and>
    (\<forall>k. n \<le> k \<longrightarrow> out' ! k = out ! k)"
  using assms
proof (induction n arbitrary: out' w)
  case (Suc n)
  obtain o1 w1 where f: "foldl (sub_step a b) (out, 0) [0..<n] = (o1, w1)" by fastforce
  have IH: "length o1 = length out" "w1 = 0 \<or> w1 = 1"
    "int (lval (take n o1)) = int (fval a n) - int (fval b n) + int (unat w1) * int (B64 ^ n)"
    "\<forall>k. n \<le> k \<longrightarrow> o1 ! k = out ! k"
    using Suc.IH [OF f] Suc.prems(2) by simp_all
  obtain d b1 where d: "overflowing_sub (a n) (b n) = (d, b1)" by fastforce
  obtain e b2 where e: "overflowing_sub d w1 = (e, b2)" by fastforce
  have st: "out' = o1[n := e]" "w = of_bool b1 OR of_bool b2"
    using Suc.prems(1) d e unfolding foldl_upt_Suc f by (simp_all add: sub_step_def)
  note d' = unat_sub_borrow [OF d] and e' = unat_sub_borrow [OF e]
  have not_both: "\<not> (b1 \<and> b2)"
  proof
    assume b: "b1 \<and> b2"
    have D: "int (unat d) = int (unat (a n)) - int (unat (b n)) + int B64" using d' b by simp
    moreover have "a n < b n" using d b by (simp add: overflowing_sub_def)
    moreover have "d < w1" using e b by (simp add: overflowing_sub_def)
    ultimately have "unat d < unat w1" "unat w1 \<le> 1" using IH(2) by (auto simp: word_less_nat_alt)
    then have "unat d = 0" by simp
    with D unat_bounds(4) [of "b n"] show False by linarith
  qed
  have w: "unat w = of_bool b1 + of_bool b2" "w = 0 \<or> w = 1"
    using st(2) not_both by (cases b1; cases b2; simp)+
  have E: "int (unat e) = int (unat (a n)) - int (unat (b n)) - int (unat w1) + int (unat w) * int B64"
    using d' e' w(1) not_both by (cases b1; cases b2) simp_all
  have "take (Suc n) out' = take n o1 @ [e]"
    using Suc.prems(2) IH(1) by (simp add: st(1) take_Suc_conv_app_nth)
  then have "int (lval (take (Suc n) out')) = int (lval (take n o1)) + int (unat e) * int (B64 ^ n)"
    using Suc.prems(2) IH(1) by (simp add: lval_append algebra_simps)
  also have "\<dots> = int (fval a (Suc n)) - int (fval b (Suc n)) + int (unat w) * int (B64 ^ Suc n)"
    unfolding E IH(3) by (simp add: algebra_simps)
  finally show ?case using IH(1,4) w(2) by (auto simp: st(1))
qed simp

lemma unat_add_carry:
  assumes "overflowing_add a b = (s, f)"
  shows "int (unat s) = int (unat a) + int (unat b) - (if f then int B64 else 0)"
proof (cases "unat a + unat b < B64")
  case True
  then have "unat (a + b) = unat a + unat b" by (rule unat_add64)
  then show ?thesis using assms by (auto simp: overflowing_add_def word_less_nat_alt)
next
  case False
  have "(unat a + unat b) mod B64 = unat a + unat b - B64"
    using False unat_bounds(4) [of a] unat_bounds(4) [of b] by (simp add: le_mod_geq)
  then have "unat (a + b) = unat a + unat b - B64" by (simp add: unat_word_ariths)
  then show ?thesis
    using assms False unat_bounds(4) [of a] unat_bounds(4) [of b]
    by (auto simp: overflowing_add_def word_less_nat_alt of_nat_diff)
qed

lemma add_loop:
  assumes "foldl (add_step a b) (out, 0) [0..<n] = (out', w)" and "n \<le> length out"
  shows "length out' = length out \<and> (w = 0 \<or> w = 1) \<and>
    lval (take n out') + unat w * B64 ^ n = fval a n + fval b n \<and>
    (\<forall>k. n \<le> k \<longrightarrow> out' ! k = out ! k)"
  using assms
proof (induction n arbitrary: out' w)
  case (Suc n)
  obtain o1 w1 where f: "foldl (add_step a b) (out, 0) [0..<n] = (o1, w1)" by fastforce
  have IH: "length o1 = length out" "w1 = 0 \<or> w1 = 1"
    "lval (take n o1) + unat w1 * B64 ^ n = fval a n + fval b n"
    "\<forall>k. n \<le> k \<longrightarrow> o1 ! k = out ! k"
    using Suc.IH [OF f] Suc.prems(2) by simp_all
  obtain d b1 where d: "overflowing_add (a n) (b n) = (d, b1)" by fastforce
  obtain e b2 where e: "overflowing_add d w1 = (e, b2)" by fastforce
  have st: "out' = o1[n := e]" "w = of_bool b1 OR of_bool b2"
    using Suc.prems(1) d e unfolding foldl_upt_Suc f by (simp_all add: add_step_def)
  note d' = unat_add_carry [OF d] and e' = unat_add_carry [OF e]
  have w1: "unat w1 \<le> 1" using IH(2) by auto
  have not_both: "\<not> (b1 \<and> b2)"
  proof
    assume b: "b1 \<and> b2"
    have "int (unat e) = int (unat (a n)) + int (unat (b n)) + int (unat w1) - 2 * int B64"
      using d' e' b by simp
    with w1 unat_bounds(4) [of "a n"] unat_bounds(4) [of "b n"] show False by linarith
  qed
  have w: "unat w = of_bool b1 + of_bool b2" "w = 0 \<or> w = 1"
    using st(2) not_both by (cases b1; cases b2; simp)+
  have E: "int (unat e) + int (unat w) * int B64 = int (unat (a n)) + int (unat (b n)) + int (unat w1)"
    using d' e' w(1) not_both by (cases b1; cases b2) simp_all
  then have E: "unat e + unat w * B64 = unat (a n) + unat (b n) + unat w1" by linarith
  have "take (Suc n) out' = take n o1 @ [e]"
    using Suc.prems(2) IH(1) by (simp add: st(1) take_Suc_conv_app_nth)
  then have "lval (take (Suc n) out') + unat w * B64 ^ Suc n =
      lval (take n o1) + (unat e + unat w * B64) * B64 ^ n"
    using Suc.prems(2) IH(1) by (simp add: lval_append algebra_simps)
  also have "\<dots> = fval a (Suc n) + fval b (Suc n)"
    unfolding E using IH(3) by (simp add: algebra_simps)
  finally show ?case using IH(1,4) w(2) by (auto simp: st(1))
qed simp

end
