(* ===== verification/Scalar.thy ===== *)
theory Scalar
  imports Limbs CtUtil
begin

text \<open>
  Arithmetic modulo the order of the Ed25519 group
  (crates/blindplane-crypto/src/scalar/mod.rs, scalar/reduce.rs): wide multiplication, Barrett
  reduction, addition, the canonical check, and the two signed-digit expansions of a scalar.
\<close>

section \<open>reduce.rs\<close>

definition SC_L :: "u64 list" where
  "SC_L = [0x5812631a5cf5d3ed, 0x14def9dea2f79cd6, 0x0000000000000000, 0x1000000000000000]"

definition SC_MU :: "u64 list" where
  "SC_MU = [0xed9ce5a30a2c131b, 0x2106215d086329a7, 0xffffffffffffffeb, 0xffffffffffffffff,
     0x000000000000000f]"

definition mul_row :: "u64 list \<Rightarrow> u64 list \<Rightarrow> u64 list \<Rightarrow> nat \<Rightarrow> u64 list" where
  "mul_row a b out i =
    (case foldl (mac_step (a ! i) ((!) b) i) (out, 0) [0..<4] of (out, carry) \<Rightarrow>
     out[i + 4 := low64 carry])"

definition mul_wide :: "u64 list \<Rightarrow> u64 list \<Rightarrow> u64 list" where
  "mul_wide a b = foldl (mul_row a b) (replicate 8 0) [0..<4]"

definition sub_l_5 :: "u64 list \<Rightarrow> u64 list \<times> u64" where
  "sub_l_5 v = foldl (sub_step ((!) v) (\<lambda>i. if i < 4 then SC_L ! i else 0)) (replicate 5 0, 0) [0..<5]"

definition q2_row :: "u64 list \<Rightarrow> u64 list \<Rightarrow> nat \<Rightarrow> u64 list" where
  "q2_row q1 q2 i =
    (case foldl (mac_step (q1 ! i) ((!) SC_MU) i) (q2, 0) [0..<5] of (q2, carry) \<Rightarrow>
     q2[i + 5 := q2 ! (i + 5) + low64 carry])"

definition r2_row :: "u64 list \<Rightarrow> u64 list \<Rightarrow> nat \<Rightarrow> u64 list" where
  "r2_row q3 r2 i =
    (case foldl (mac_step (q3 ! i) (\<lambda>j. if j < 4 then SC_L ! j else 0) i) (r2, 0) [0..<5 - i] of
       (r2, carry) \<Rightarrow> r2)"

definition reduce_once :: "u64 list \<Rightarrow> u64 list" where
  "reduce_once result =
    (case sub_l_5 result of (candidate, borrow) \<Rightarrow>
     let underflowed = from_bit borrow;
         msk = choice.mask (choice_not underflowed)
     in map (\<lambda>i. result ! i XOR (msk AND (result ! i XOR candidate ! i))) [0..<5])"

definition barrett_reduce :: "u64 list \<Rightarrow> u64 list" where
  "barrett_reduce x =
    (let q1 = [x ! 3, x ! 4, x ! 5, x ! 6, x ! 7];
         q2 = foldl (q2_row q1) (replicate 10 0) [0..<5];
         q3 = [q2 ! 5, q2 ! 6, q2 ! 7, q2 ! 8, q2 ! 9];
         r2 = foldl (r2_row q3) (replicate 5 0) [0..<5];
         r1 = [x ! 0, x ! 1, x ! 2, x ! 3, x ! 4];
         (r, borrow) = foldl (sub_step ((!) r1) ((!) r2)) (replicate 5 0, 0) [0..<5];
         result = foldl (\<lambda>result _. reduce_once result) r [0..<2]
     in [result ! 0, result ! 1, result ! 2, result ! 3])"

definition add_mod_l :: "u64 list \<Rightarrow> u64 list \<Rightarrow> u64 list" where
  "add_mod_l a b =
    (let (s, carry) = foldl (add_step ((!) a) ((!) b)) (replicate 5 0, 0) [0..<4];
         s = s[4 := carry];
         (reduced, borrow) = sub_l_5 s;
         keep = from_bit borrow;
         msk = choice.mask keep
     in map (\<lambda>i. reduced ! i XOR (msk AND (reduced ! i XOR s ! i))) [0..<4])"

definition is_less_than :: "u64 list \<Rightarrow> u64 list \<Rightarrow> choice" where
  "is_less_than a b =
    from_bit (foldl (\<lambda>borrow i.
      case overflowing_sub (a ! i) (b ! i) of (d, b1) \<Rightarrow>
      case overflowing_sub d borrow of (_, b2) \<Rightarrow>
      of_bool b1 OR of_bool b2) 0 [0..<4])"

section \<open>mod.rs\<close>

datatype scalar = Scalar (sc_limbs: "u64 list")

definition sc_ZERO :: scalar where "sc_ZERO = Scalar [0, 0, 0, 0]"

text \<open>\<open>u64::from_le_bytes(bytes[i * 8..i * 8 + 8])\<close>.\<close>

definition limb_at :: "bytes \<Rightarrow> nat \<Rightarrow> u64" where
  "limb_at bs i = u64_from_le (take 8 (drop (i * 8) bs))"

definition from_wide_bytes :: "bytes \<Rightarrow> scalar" where
  "from_wide_bytes bs = Scalar (barrett_reduce (map (limb_at bs) [0..<8]))"

definition from_bytes_mod_order :: "bytes \<Rightarrow> scalar" where
  "from_bytes_mod_order bs = Scalar (barrett_reduce (map (limb_at bs) [0..<4] @ replicate 4 0))"

definition from_canonical_bytes :: "bytes \<Rightarrow> scalar option" where
  "from_canonical_bytes bs =
    (let limbs = map (limb_at bs) [0..<4]
     in if is_set (is_less_than limbs SC_L) then Some (Scalar limbs) else None)"

definition sc_to_bytes :: "scalar \<Rightarrow> bytes" where
  "sc_to_bytes s = concat (map u64_to_le (sc_limbs s))"

definition mul_add :: "scalar \<Rightarrow> scalar \<Rightarrow> scalar \<Rightarrow> scalar" where
  "mul_add s rhs addend =
    (let product = mul_wide (sc_limbs s) (sc_limbs rhs);
         reduced = barrett_reduce product
     in Scalar (add_mod_l reduced (sc_limbs addend)))"

definition sc_is_zero :: "scalar \<Rightarrow> choice" where
  "sc_is_zero s =
    (let acc = foldl (OR) 0 (sc_limbs s)
     in from_bit (drop_bit 63 (acc OR (- acc)) XOR 1))"

definition sc_bit :: "scalar \<Rightarrow> nat \<Rightarrow> u64" where
  "sc_bit s i = drop_bit (i mod 64) (sc_limbs s ! (i div 64)) AND 1"

text \<open>Signed digits: an \<open>i8\<close> is a byte read with its sign.\<close>

type_synonym i8 = "8 word"

definition radix16_step :: "i8 list \<times> i8 \<Rightarrow> nat \<Rightarrow> i8 list \<times> i8" where
  "radix16_step st i =
    (case st of (digits, carry) \<Rightarrow>
     let digit = digits ! i + carry;
         carry = signed_drop_bit 4 (digit + 8);
         digit = digit - push_bit 4 carry
     in (digits[i := digit], carry))"

definition radix16 :: "scalar \<Rightarrow> i8 list" where
  "radix16 s =
    (let bs = sc_to_bytes s;
         digits = concat (map (\<lambda>i. [bs ! i AND 0x0f, drop_bit 4 (bs ! i) AND 0x0f]) [0..<32]);
         (digits, carry) = foldl radix16_step (digits, 0) [0..<63]
     in digits[63 := digits ! 63 + carry])"

definition naf_window :: "nat \<Rightarrow> u64 list \<Rightarrow> nat \<Rightarrow> u64 \<Rightarrow> u64" where
  "naf_window width x pos carry =
    (let limb = pos div 64;
         b = pos mod 64;
         window_bits = (if b < 64 - width then drop_bit b (x ! limb)
           else drop_bit b (x ! limb) OR push_bit (64 - b) (x ! (limb + 1)))
     in carry + (window_bits AND (push_bit width 1 - 1)))"

text \<open>
  The loop over \<open>pos\<close>. Its \<open>debug_assert\<close> admits widths 2 to 8 only; width 0, for which the
  position would not advance, ends the loop here.
\<close>

function naf_loop :: "nat \<Rightarrow> u64 list \<Rightarrow> nat \<Rightarrow> u64 \<Rightarrow> i8 list \<Rightarrow> i8 list" where
  "naf_loop width x pos carry naf =
    (if 256 \<le> pos \<or> width = 0 then naf
     else
       let radix = push_bit width 1 :: u64;
           window = naf_window width x pos carry
       in if window AND 1 = 0 then naf_loop width x (pos + 1) carry naf
          else if window < radix div 2 then naf_loop width x (pos + width) 0 (naf[pos := ucast window])
          else naf_loop width x (pos + width) 1
            (naf[pos := ucast ((ucast window :: 16 word) - ucast radix)]))"
  by pat_completeness auto
termination
  by (relation "measure (\<lambda>(width, x, pos, carry, naf). 256 - pos)") auto

declare naf_loop.simps [simp del]

definition non_adjacent_form :: "scalar \<Rightarrow> nat \<Rightarrow> i8 list" where
  "non_adjacent_form s width = naf_loop width (sc_limbs s @ [0]) 0 0 (replicate 256 0)"

section \<open>Products\<close>

abbreviation ORDER_L :: nat where
  "ORDER_L \<equiv> 7237005577332262213973186563042994240857116359379907606001950938285454250989"

lemma SC_L_val: "lval SC_L = ORDER_L" "length SC_L = 4"
  by (simp_all add: SC_L_def)

lemma MU_div:
  "B64 ^ 8 div ORDER_L = 1852673427797059126777135760139006525645217721299241702126143248052143860224795"
proof (rule div_nat_eqI)
  show "ORDER_L * 1852673427797059126777135760139006525645217721299241702126143248052143860224795 \<le> B64 ^ 8"
    by simp
  show "B64 ^ 8 < ORDER_L * Suc 1852673427797059126777135760139006525645217721299241702126143248052143860224795"
    by simp
qed

lemma SC_MU_val: "lval SC_MU = B64 ^ 8 div ORDER_L" "length SC_MU = 5"
proof -
  have "lval SC_MU = 1852673427797059126777135760139006525645217721299241702126143248052143860224795"
    by (simp add: SC_MU_def)
  then show "lval SC_MU = B64 ^ 8 div ORDER_L" by (simp only: MU_div)
qed (simp add: SC_MU_def)

text \<open>The number of a product built row by row into an array of zeros.\<close>

lemma mul_rows:
  assumes row: "\<And>out i. i < n \<Longrightarrow> length out = N \<Longrightarrow> out ! (i + m) = 0 \<Longrightarrow>
      row out i = (case foldl (mac_step (a i) b i) (out, 0) [0..<m] of (o1, c) \<Rightarrow> o1[i + m := low64 c])"
    and N: "n + m \<le> N"
  shows "k \<le> n \<Longrightarrow> length (foldl row (replicate N 0) [0..<k]) = N \<and>
    lval (foldl row (replicate N 0) [0..<k]) = fval a k * fval b m \<and>
    (\<forall>j. k + m \<le> j \<and> j < N \<longrightarrow> foldl row (replicate N 0) [0..<k] ! j = 0)"
proof (induction k)
  case (Suc k)
  let ?o = "foldl row (replicate N 0) [0..<k]"
  have IH: "length ?o = N" "lval ?o = fval a k * fval b m" "\<forall>j. k + m \<le> j \<and> j < N \<longrightarrow> ?o ! j = 0"
    using Suc by simp_all
  obtain o1 c where f: "foldl (mac_step (a k) b k) (?o, 0) [0..<m] = (o1, c)" by fastforce
  have z: "k + m < length ?o" "?o ! (k + m) = 0" using Suc.prems N IH by simp_all
  have r: "foldl row (replicate N 0) [0..<Suc k] = o1[k + m := low64 c]"
    unfolding foldl_upt_Suc using row [of k ?o] Suc.prems IH z f by simp
  note ms = mac_store [OF f z]
  show ?case unfolding r
    using ms IH by (auto simp: algebra_simps)
qed simp

lemma mul_wide_val:
  assumes "length a = 4" "length b = 4"
  shows "lval (mul_wide a b) = lval a * lval b" "length (mul_wide a b) = 8"
proof -
  have "length (mul_wide a b) = 8 \<and> lval (mul_wide a b) = fval ((!) a) 4 * fval ((!) b) 4 \<and>
      (\<forall>j. 4 + 4 \<le> j \<and> j < 8 \<longrightarrow> mul_wide a b ! j = 0)"
    unfolding mul_wide_def by (rule mul_rows [where n = 4]) (simp_all add: mul_row_def)
  then show "lval (mul_wide a b) = lval a * lval b" "length (mul_wide a b) = 8"
    using assms by (simp_all add: fval_nth)
qed

section \<open>Barrett reduction\<close>

lemma barrett_estimate:
  fixes x m b :: nat
  assumes b: "0 < b" and x: "x < b ^ 8" and m: "b ^ 3 \<le> m"
    and mu: "mu = b ^ 8 div m" and q: "q = (x div b ^ 3 * mu) div b ^ 5"
  shows "q \<le> x div m" "x div m \<le> q + 2"
proof -
  have b3: "0 < b ^ 3" "0 < b ^ 5" using b by simp_all
  have m0: "0 < m" using m b3 by linarith
  let ?q1 = "x div b ^ 3" and ?Q = "x div m"
  have B8: "b ^ 8 = b ^ 3 * b ^ 5" by (simp only: power_add [symmetric]) simp
  have "m * (q * b ^ 5) \<le> m * (?q1 * mu)" unfolding q by (intro mult_le_mono2) simp
  also have "\<dots> = ?q1 * (mu * m)" by (simp only: mult_ac)
  also have "\<dots> \<le> ?q1 * b ^ 8" unfolding mu by (intro mult_le_mono2) simp
  also have "\<dots> = b ^ 3 * ?q1 * b ^ 5" unfolding B8 by (simp only: mult_ac)
  also have "\<dots> \<le> x * b ^ 5" by (intro mult_le_mono1) simp
  finally have "b ^ 5 * (q * m) \<le> b ^ 5 * x" by (simp only: mult_ac)
  then have "q * m \<le> x" using b3 by simp
  then show "q \<le> ?Q" using m0 by (simp add: less_eq_div_iff_mult_less_eq)
  have x1: "x < (?q1 + 1) * b ^ 3" using dividend_less_div_times [OF b3(1), of x] by (simp only: add_mult_distrib mult_1 add.commute)
  have m1: "b ^ 8 < (mu + 1) * m" unfolding mu using dividend_less_div_times [OF m0, of "b ^ 8"]
    by (simp only: add_mult_distrib mult_1 add.commute)
  have "?Q * b ^ 8 \<le> ?Q * ((mu + 1) * m)" using m1 by (intro mult_le_mono2) simp
  also have "\<dots> = (?Q * m) * (mu + 1)" by (simp only: mult_ac)
  also have "\<dots> \<le> x * (mu + 1)" by (intro mult_le_mono1) simp
  also have "\<dots> < (?q1 + 1) * b ^ 3 * (mu + 1)" using x1 by (intro mult_strict_right_mono) simp_all
  also have "\<dots> = b ^ 3 * ((?q1 + 1) * (mu + 1))" by (simp only: mult_ac)
  finally have "b ^ 3 * (?Q * b ^ 5) < b ^ 3 * ((?q1 + 1) * (mu + 1))"
    unfolding B8 by (simp only: mult_ac)
  then have *: "?Q * b ^ 5 < (?q1 + 1) * (mu + 1)" by (simp only: mult_less_cancel1)
  have "?q1 < b ^ 5" using x unfolding B8 by (simp only: less_mult_imp_div_less mult.commute)
  moreover have "mu \<le> b ^ 5"
  proof -
    have "mu \<le> b ^ 8 div b ^ 3" unfolding mu by (rule div_le_mono2 [OF b3(1) m])
    also have "\<dots> = b ^ 5" unfolding B8 by (rule nonzero_mult_div_cancel_left) (use b3 in simp)
    finally show ?thesis .
  qed
  ultimately have "(?q1 + 1) * (mu + 1) \<le> ?q1 * mu + 2 * b ^ 5" by (simp add: algebra_simps)
  also have "?q1 * mu < q * b ^ 5 + b ^ 5"
    unfolding q using dividend_less_div_times [OF b3(2), of "?q1 * mu"] by simp
  finally have "?Q * b ^ 5 < (q + 3) * b ^ 5" using * by (simp add: algebra_simps)
  then show "?Q \<le> q + 2" using b3 by simp
qed

text \<open>\<open>L\<close> as the five-limb operand of the subtractions.\<close>

lemma L5: "fval (\<lambda>i. if i < 4 then SC_L ! i else 0) 5 = ORDER_L" (is "fval ?f 5 = _")
proof -
  have "fval ?f 5 = fval ?f 4 + unat (?f 4) * B64 ^ 4" by (simp only: eval_nat_numeral fval.simps)
  also have "fval ?f 4 = fval ((!) SC_L) 4" by (rule fval_cong) simp
  also have "\<dots> = ORDER_L" using SC_L_val by (simp add: fval_nth)
  finally show ?thesis by simp
qed

lemma fval_mod: "k \<le> n \<Longrightarrow> fval f n mod B64 ^ k = fval f k mod B64 ^ k"
proof (induction n)
  case (Suc n)
  show ?case
  proof (cases "k = Suc n")
    case False
    then have k: "k \<le> n" using Suc.prems by simp
    then have "B64 ^ k dvd unat (f n) * B64 ^ n" by (intro dvd_mult le_imp_power_dvd)
    then have "fval f (Suc n) mod B64 ^ k = fval f n mod B64 ^ k"
      by (simp add: mod_add_eq [symmetric] dvd_imp_mod_0 del: dvd_mult_right)
    with Suc.IH [OF k] show ?thesis by simp
  qed simp
qed simp

lemma r2_rows:
  "k \<le> 5 \<Longrightarrow> length (foldl (r2_row q3) (replicate 5 0) [0..<k]) = 5 \<and>
    lval (foldl (r2_row q3) (replicate 5 0) [0..<k]) = fval ((!) q3) k * ORDER_L mod B64 ^ 5"
proof (induction k)
  case (Suc k)
  let ?b = "\<lambda>j. if j < 4 then SC_L ! j else 0" and ?a = "q3 ! k"
  let ?o = "foldl (r2_row q3) (replicate 5 0) [0..<k]"
  have IH: "length ?o = 5" "lval ?o = fval ((!) q3) k * ORDER_L mod B64 ^ 5" using Suc by simp_all
  obtain o1 c where f: "foldl (mac_step ?a ?b k) (?o, 0) [0..<5 - k] = (o1, c)" by fastforce
  have r: "foldl (r2_row q3) (replicate 5 0) [0..<Suc k] = o1"
    unfolding foldl_upt_Suc by (simp only: r2_row_def f prod.case)
  have k: "k + (5 - k) = 5" using Suc.prems by simp
  note m = mac_loop [OF f, unfolded k IH(1)]
  have len: "length o1 = 5" using m by simp
  have "lval o1 = lval o1 mod B64 ^ 5" using lval_bound [of o1] len by (simp only: mod_less)
  also have "\<dots> = (lval o1 + unat c * B64 ^ 5) mod B64 ^ 5" by (simp only: mod_mult_self3 add.commute mod_mult_self1)
  also have "\<dots> = (lval ?o + unat ?a * fval ?b (5 - k) * B64 ^ k) mod B64 ^ 5" using m by (simp only:)
  also have "\<dots> = (fval ((!) q3) k * ORDER_L + unat ?a * (fval ?b (5 - k) * B64 ^ k)) mod B64 ^ 5"
    unfolding IH(2) by (simp only: mod_add_left_eq mult.assoc)
  also have "\<dots> = (fval ((!) q3) k * ORDER_L + unat ?a * (ORDER_L * B64 ^ k)) mod B64 ^ 5"
  proof -
    have "fval ?b (5 - k) * B64 ^ k mod (B64 ^ (5 - k) * B64 ^ k) = ORDER_L * B64 ^ k mod (B64 ^ (5 - k) * B64 ^ k)"
      using fval_mod [of "5 - k" 5 ?b] unfolding L5 by (simp only: mult_mod_right [symmetric] mult_mod_left [symmetric])
    moreover have "B64 ^ (5 - k) * B64 ^ k = B64 ^ 5"
      unfolding power_add [symmetric] using Suc.prems by simp
    ultimately have "fval ?b (5 - k) * B64 ^ k mod B64 ^ 5 = ORDER_L * B64 ^ k mod B64 ^ 5" by (simp only:)
    then show ?thesis by (rule mod_add_cong [OF refl mod_mult_cong [OF refl]])
  qed
  also have "\<dots> = fval ((!) q3) (Suc k) * ORDER_L mod B64 ^ 5"
    by (simp only: fval.simps add_mult_distrib mult_ac)
  finally show ?case unfolding r using len by blast
qed simp

text \<open>Selecting limb by limb with the mask of a borrow.\<close>

lemma select_limb:
  "a XOR (choice.mask (choice_not (from_bit 1)) AND (a XOR c)) = a"
  "a XOR (choice.mask (choice_not (from_bit 0)) AND (a XOR c)) = c"
  "c XOR (choice.mask (from_bit 0) AND (c XOR a)) = c"
  "c XOR (choice.mask (from_bit 1) AND (c XOR a)) = a"
  by (simp_all add: choice_not_def choice_TRUE_def choice_FALSE_def bit_eq_iff bit_simps fun_eq_iff)

lemma map_nth_5: "length xs = 5 \<Longrightarrow> map ((!) xs) [0..<5] = xs"
  by (metis map_nth)

lemma sub_l_5_val:
  assumes "length v = 5" and "sub_l_5 v = (c, w)"
  shows "length c = 5" and "w = (if lval v < ORDER_L then 1 else 0)"
    and "ORDER_L \<le> lval v \<Longrightarrow> lval c = lval v - ORDER_L"
proof -
  note s = sub_loop [OF assms(2) [unfolded sub_l_5_def], unfolded L5]
  have len: "length c = 5" and w: "w = 0 \<or> w = 1" using s by simp_all
  then have "take 5 c = c" "fval ((!) v) 5 = lval v" using assms(1) fval_nth_all [of v] by simp_all
  then have eq: "int (lval c) = int (lval v) - int ORDER_L + int (unat w) * int (B64 ^ 5)"
    using s by (simp only: length_replicate order_refl simp_thms)
  show "length c = 5" by (rule len)
  have b: "lval v < B64 ^ 5" "lval c < B64 ^ 5" using lval_bound [of v] lval_bound [of c] assms(1) len by simp_all
  show "w = (if lval v < ORDER_L then 1 else 0)" using w eq b by auto
  then show "ORDER_L \<le> lval v \<Longrightarrow> lval c = lval v - ORDER_L" using eq by simp
qed

lemma reduce_once_val:
  assumes "length v = 5"
  shows "length (reduce_once v) = 5"
    and "lval (reduce_once v) = (if lval v < ORDER_L then lval v else lval v - ORDER_L)"
proof -
  obtain c w where s: "sub_l_5 v = (c, w)" by fastforce
  note c = sub_l_5_val [OF assms s]
  show "length (reduce_once v) = 5" by (simp add: reduce_once_def s Let_def)
  have "reduce_once v = (if lval v < ORDER_L then v else c)"
    unfolding reduce_once_def s prod.case Let_def c(2)
    using map_nth_5 [OF assms] map_nth_5 [OF c(1)] by (simp only: select_limb if_True if_False split: if_split) simp
  then show "lval (reduce_once v) = (if lval v < ORDER_L then lval v else lval v - ORDER_L)"
    using c(3) by simp
qed

text \<open>Barrett reduction computes the remainder.\<close>

lemma barrett_quotient:
  assumes len: "length x = 8"
  defines "q2 \<equiv> foldl (q2_row [x ! 3, x ! 4, x ! 5, x ! 6, x ! 7]) (replicate 10 0) [0..<5]"
  shows "lval [q2 ! 5, q2 ! 6, q2 ! 7, q2 ! 8, q2 ! 9] =
    (lval x div B64 ^ 3 * (B64 ^ 8 div ORDER_L)) div B64 ^ 5"
proof -
  let ?q1 = "[x ! 3, x ! 4, x ! 5, x ! 6, x ! 7]"
  have q1: "?q1 = drop 3 x"
    by (rule nth_equalityI) (use len in \<open>auto simp: less_Suc_eq numeral_eq_Suc\<close>)
  have row: "q2_row ?q1 out i = (case foldl (mac_step (?q1 ! i) ((!) SC_MU) i) (out, 0) [0..<5] of
      (o1, c) \<Rightarrow> o1[i + 5 := low64 c])" if "i < 5" "length out = 10" "out ! (i + 5) = 0" for out i
  proof -
    obtain o1 c where f: "foldl (mac_step (?q1 ! i) ((!) SC_MU) i) (out, 0) [0..<5] = (o1, c)" by fastforce
    have "o1 ! (i + 5) = 0" using mac_store(2) [OF f] that by simp
    then show ?thesis unfolding q2_row_def f by simp
  qed
  have "length q2 = 10 \<and> lval q2 = fval ((!) ?q1) 5 * fval ((!) SC_MU) 5 \<and>
      (\<forall>j. 5 + 5 \<le> j \<and> j < 10 \<longrightarrow> q2 ! j = 0)"
    unfolding q2_def by (rule mul_rows [where n = 5, OF row]) simp_all
  moreover have "fval ((!) ?q1) 5 = lval x div B64 ^ 3"
    using fval_nth_all [of ?q1] lval_drop [of 3 x] len unfolding q1 by (simp only: length_drop) simp
  moreover have "fval ((!) SC_MU) 5 = B64 ^ 8 div ORDER_L"
    using fval_nth_all [of SC_MU] SC_MU_val by (simp only:)
  ultimately have q2: "length q2 = 10" "lval q2 = lval x div B64 ^ 3 * (B64 ^ 8 div ORDER_L)" by (simp_all only:)
  have dq: "[q2 ! 5, q2 ! 6, q2 ! 7, q2 ! 8, q2 ! 9] = drop 5 q2"
    by (rule nth_equalityI) (use q2(1) in \<open>auto simp: less_Suc_eq numeral_eq_Suc\<close>)
  have "5 \<le> length q2" using q2(1) by simp
  then show ?thesis unfolding dq by (simp only: lval_drop q2(2))
qed

lemma reduce_twice:
  assumes "length r = 5" "lval r < 3 * ORDER_L"
  shows "length (foldl (\<lambda>result _. reduce_once result) r [0..<2]) = 5 \<and>
    lval (foldl (\<lambda>result _. reduce_once result) r [0..<2]) = lval r mod ORDER_L"
proof -
  have "foldl (\<lambda>result _. reduce_once result) r [0..<2] = reduce_once (reduce_once r)"
    by (simp add: numeral_2_eq_2)
  moreover have "lval r mod ORDER_L = (if lval r < ORDER_L then lval r else if lval r - ORDER_L < ORDER_L
      then lval r - ORDER_L else lval r - ORDER_L - ORDER_L)"
    using assms(2) by (auto simp: le_mod_geq)
  ultimately show ?thesis
    using reduce_once_val [OF assms(1)] reduce_once_val [OF reduce_once_val(1) [OF assms(1)]] by auto
qed

lemma lval_prefix4:
  assumes "length r = 5" "lval r < ORDER_L"
  shows "lval [r ! 0, r ! 1, r ! 2, r ! 3] = lval r"
proof -
  have "[r ! 0, r ! 1, r ! 2, r ! 3] = take 4 r"
    by (rule nth_equalityI) (use assms(1) in \<open>auto simp: less_Suc_eq numeral_eq_Suc\<close>)
  then show ?thesis using lval_take [of 4 r] assms by simp
qed

lemma barrett_remainder:
  fixes x l q m r :: nat and k :: int
  assumes l: "0 < l" and q: "q \<le> x div l" "x div l \<le> q + 2" and m: "3 * l \<le> m" and r: "r < m"
    and eq: "int r = int (x mod m) - int (q * l mod m) + k * int m"
  shows "r < 3 * l" "r mod l = x mod l"
proof -
  have le: "q * l \<le> x"
    using mult_le_mono1 [OF q(1), of l] div_times_less_eq_dividend [of x l] by linarith
  have "int r mod int m = (int (x mod m) - int (q * l mod m)) mod int m"
    unfolding eq by (simp only: mod_mult_self1)
  also have "\<dots> = (int x - int (q * l)) mod int m" unfolding zmod_int by (rule mod_diff_eq)
  also have "\<dots> = int (x - q * l) mod int m" using le by (simp only: of_nat_diff)
  finally have "r mod m = (x - q * l) mod m" by (simp only: zmod_int [symmetric] of_nat_eq_iff)
  moreover have small: "x - q * l < 3 * l"
  proof -
    have "x < (x div l + 1) * l" using dividend_less_div_times [OF l, of x] by simp
    also have "\<dots> \<le> (q + 3) * l" using q(2) by (intro mult_le_mono1) simp
    finally have "x < q * l + 3 * l" by (simp only: add_mult_distrib)
    with le show ?thesis by linarith
  qed
  ultimately have rv: "r = x - q * l" using r m by simp
  with small show "r < 3 * l" by simp
  show "r mod l = x mod l" unfolding rv by (metis mod_mult_self1 le le_add_diff_inverse2)
qed

lemma barrett_reduce_val:
  assumes len: "length x = 8"
  shows "lval (barrett_reduce x) = lval x mod ORDER_L" "length (barrett_reduce x) = 4"
proof -
  define q2 where "q2 = foldl (q2_row [x ! 3, x ! 4, x ! 5, x ! 6, x ! 7]) (replicate 10 0) [0..<5]"
  define q3 where "q3 = [q2 ! 5, q2 ! 6, q2 ! 7, q2 ! 8, q2 ! 9]"
  define q where "q = lval q3"
  define r2 where "r2 = foldl (r2_row q3) (replicate 5 0) [0..<5]"
  let ?r1 = "[x ! 0, x ! 1, x ! 2, x ! 3, x ! 4]"
  obtain r w where r: "foldl (sub_step ((!) ?r1) ((!) r2)) (replicate 5 0, 0) [0..<5] = (r, w)" by fastforce
  have x: "lval x < B64 ^ 8" using lval_bound [of x] unfolding len .
  have m: "B64 ^ 3 \<le> ORDER_L" and B0: "0 < B64" by simp_all
  have qv: "q = lval x div B64 ^ 3 * (B64 ^ 8 div ORDER_L) div B64 ^ 5"
    unfolding q_def q3_def q2_def by (rule barrett_quotient [OF len])
  have q: "q \<le> lval x div ORDER_L" "lval x div ORDER_L \<le> q + 2"
    unfolding qv by (rule barrett_estimate [OF B0 x m refl refl])+
  have l3: "length q3 = 5" by (simp add: q3_def)
  have "fval ((!) q3) 5 = q" using fval_nth_all [of q3] unfolding l3 q_def .
  then have r2: "length r2 = 5" "lval r2 = q * ORDER_L mod B64 ^ 5"
    using r2_rows [OF order_refl, of q3] unfolding r2_def by (simp_all only:)
  have t5: "?r1 = take 5 x"
    by (rule nth_equalityI) (use len in \<open>auto simp: less_Suc_eq numeral_eq_Suc\<close>)
  have r1: "length ?r1 = 5" "lval ?r1 = lval x mod B64 ^ 5"
    unfolding t5 using lval_take [of 5 x] len by simp_all
  note s = sub_loop [OF r]
  have rl: "length r = 5" using s by simp
  have rb: "lval r < B64 ^ 5" using lval_bound [of r] unfolding rl .
  have "take 5 r = r" "fval ((!) ?r1) 5 = lval ?r1" "fval ((!) r2) 5 = lval r2"
    using rl r2(1) fval_nth_all [of ?r1, unfolded r1(1)] fval_nth_all [of r2] by (simp_all only: take_all order_refl)
  then have "int (lval r) = int (lval ?r1) - int (lval r2) + int (unat w) * int (B64 ^ 5)"
    using s by (simp only: length_replicate order_refl simp_thms)
  then have "int (lval r) = int (lval x mod B64 ^ 5) - int (q * ORDER_L mod B64 ^ 5) + int (unat w) * int (B64 ^ 5)"
    unfolding r1 r2 .
  note eq = this
  have l0: "0 < ORDER_L" and l5: "3 * ORDER_L \<le> B64 ^ 5" by simp_all
  have rr: "lval r < 3 * ORDER_L" "lval r mod ORDER_L = lval x mod ORDER_L"
    by (rule barrett_remainder [OF l0 q l5 rb eq])+
  define f where "f = foldl (\<lambda>result _. reduce_once result) r [0..<2]"
  have f: "length f = 5" "lval f = lval x mod ORDER_L"
    using reduce_twice [OF rl rr(1)] unfolding rr(2) f_def by blast+
  have b: "barrett_reduce x = [f ! 0, f ! 1, f ! 2, f ! 3]"
    unfolding barrett_reduce_def Let_def q2_def [symmetric] q3_def [symmetric] r2_def [symmetric] r prod.case f_def ..
  have "lval f < ORDER_L" unfolding f(2) by (rule mod_less_divisor [OF l0])
  then show "lval (barrett_reduce x) = lval x mod ORDER_L"
    unfolding b lval_prefix4 [OF f(1) \<open>lval f < ORDER_L\<close>] by (simp only: f(2))
  show "length (barrett_reduce x) = 4" unfolding b by simp
qed

section \<open>Scalars\<close>

text \<open>A scalar of the code is four limbs below the group order.\<close>

definition sc_val :: "scalar \<Rightarrow> nat" where
  "sc_val s = lval (sc_limbs s)"

definition sc_wf :: "scalar \<Rightarrow> bool" where
  "sc_wf s \<longleftrightarrow> length (sc_limbs s) = 4 \<and> sc_val s < ORDER_L"

lemma add_mod_l_val:
  assumes "length a = 4" "length b = 4" "lval a < ORDER_L" "lval b < ORDER_L"
  shows "lval (add_mod_l a b) = (lval a + lval b) mod ORDER_L" "length (add_mod_l a b) = 4"
proof -
  obtain s carry where s: "foldl (add_step ((!) a) ((!) b)) (replicate 5 0, 0) [0..<4] = (s, carry)" by fastforce
  obtain c w where c: "sub_l_5 (s[4 := carry]) = (c, w)" by fastforce
  note l = add_loop [OF s]
  have len: "length s = 5" using l by simp
  have four: "fval ((!) a) 4 = lval a" "fval ((!) b) 4 = lval b" using assms(1,2) by (simp_all add: fval_nth)
  have "s[4 := carry] = take 4 s @ [carry]"
    by (rule nth_equalityI) (use len in \<open>auto simp: nth_append nth_list_update\<close>)
  then have sv: "lval (s[4 := carry]) = lval a + lval b"
    using l len by (simp add: lval_append four)
  have sl: "length (s[4 := carry]) = 5" using len by simp
  note d = sub_l_5_val [OF sl c]
  let ?s = "s[4 := carry]"
  have r: "add_mod_l a b = (if lval ?s < ORDER_L then map ((!) ?s) [0..<4] else map ((!) c) [0..<4])"
    unfolding add_mod_l_def Let_def s prod.case c d(2)
    by (cases "lval ?s < ORDER_L") (simp_all only: select_limb if_True if_False)
  have take4: "map ((!) xs) [0..<4] = take 4 xs" if "length xs = 5" for xs :: "u64 list"
    by (rule nth_equalityI) (use that in auto)
  have small: "lval (take 4 xs) = lval xs" if "length xs = 5" "lval xs < ORDER_L" for xs
    using lval_take [of 4 xs] that by simp
  have "lval c < ORDER_L" if "\<not> lval ?s < ORDER_L" using d(3) that assms(3,4) unfolding sv by linarith
  then show "lval (add_mod_l a b) = (lval a + lval b) mod ORDER_L"
    using small [OF sl] small [OF d(1)] take4 [OF sl] take4 [OF d(1)] d(3) unfolding r sv
    by (simp add: le_mod_geq)
  show "length (add_mod_l a b) = 4" by (simp add: add_mod_l_def s c Let_def)
qed

lemma is_less_than_iff:
  assumes "length a = 4" "length b = 4"
  shows "is_less_than a b = (if lval a < lval b then choice_TRUE else choice_FALSE)"
proof -
  let ?g = "\<lambda>borrow i. case overflowing_sub (a ! i) (b ! i) of (d, b1) \<Rightarrow>
      case overflowing_sub d borrow of (_, b2) \<Rightarrow> (of_bool b1 OR of_bool b2 :: u64)"
  have step: "snd (foldl (sub_step ((!) a) ((!) b)) (xs, w) is) = foldl ?g w is" for xs w "is"
    by (induction "is" arbitrary: xs w) (auto simp: sub_step_def split: prod.splits)
  obtain r w where r: "foldl (sub_step ((!) a) ((!) b)) (replicate 4 0, 0) [0..<4] = (r, w)" by fastforce
  have w: "is_less_than a b = from_bit w"
    unfolding is_less_than_def using step [of "replicate 4 0" 0 "[0..<4]"] by (simp only: r snd_conv)
  note s = sub_loop [OF r]
  have "length r = 4" "w = 0 \<or> w = 1" using s by simp_all
  then have t4: "take 4 r = r" by simp
  have "fval ((!) a) 4 = lval a" "fval ((!) b) 4 = lval b" using assms by (simp_all add: fval_nth)
  then have "int (lval r) = int (lval a) - int (lval b) + int (unat w) * int (B64 ^ 4)" "w = 0 \<or> w = 1"
    using s unfolding t4 by simp_all
  moreover have "lval r < B64 ^ 4" "lval a < B64 ^ 4" "lval b < B64 ^ 4"
    using lval_bound [of r] lval_bound [of a] lval_bound [of b] assms \<open>length r = 4\<close> by simp_all
  ultimately show ?thesis unfolding w by auto
qed

section \<open>Bytes\<close>

lemma limbs_of_bytes: "length bs = 8 * n \<Longrightarrow> lval (map (limb_at bs) [0..<n]) = from_le bs"
proof (induction n arbitrary: bs)
  case (Suc n)
  let ?r = "drop 8 bs"
  have "[0..<Suc n] = 0 # map Suc [0..<n]" by (metis map_Suc_upt upt_conv_Cons zero_less_Suc)
  then have "map (limb_at bs) [0..<Suc n] = limb_at bs 0 # map (\<lambda>i. limb_at bs (Suc i)) [0..<n]"
    by (simp only: list.map map_map comp_def)
  also have "map (\<lambda>i. limb_at bs (Suc i)) [0..<n] = map (limb_at ?r) [0..<n]"
    by (simp add: limb_at_def add.commute)
  finally have m: "map (limb_at bs) [0..<Suc n] = limb_at bs 0 # map (limb_at ?r) [0..<n]" .
  have "from_le (take 8 bs) < 256 ^ 8" using from_le_bound [of "take 8 bs"] Suc.prems by simp
  then have "unat (limb_at bs 0) = from_le (take 8 bs)"
    by (simp add: limb_at_def u64_from_le_def unat_of_nat)
  moreover have "from_le bs = from_le (take 8 bs) + B64 * from_le ?r"
    using from_le_append [of "take 8 bs" ?r] Suc.prems by simp
  ultimately show ?case using Suc.IH [of ?r] Suc.prems unfolding m by simp
qed simp

lemma lval_bytes: "from_le (concat (map u64_to_le xs)) = lval xs"
proof (induction xs)
  case (Cons x xs)
  have "from_le (u64_to_le x) = unat x" using unat_bounds(4) [of x] by (simp add: u64_to_le_def from_le_to_le)
  with Cons show ?case by (simp add: from_le_append)
qed simp

lemma length_limb_bytes [simp]: "length (concat (map u64_to_le xs)) = 8 * length xs"
  by (induction xs) simp_all

lemma sc_to_bytes_val: "from_le (sc_to_bytes s) = sc_val s"
  by (simp add: sc_to_bytes_def sc_val_def lval_bytes)

lemma sc_to_bytes_length: "length (sc_limbs s) = 4 \<Longrightarrow> length (sc_to_bytes s) = 32"
  by (simp add: sc_to_bytes_def)

lemma from_wide_bytes_val:
  assumes "length bs = 64"
  shows "sc_wf (from_wide_bytes bs)" "sc_val (from_wide_bytes bs) = from_le bs mod ORDER_L"
proof -
  have "length (map (limb_at bs) [0..<8]) = 8" by simp
  note b = barrett_reduce_val [OF this]
  have v: "lval (map (limb_at bs) [0..<8]) = from_le bs" using limbs_of_bytes [of bs 8] assms by simp
  show val: "sc_val (from_wide_bytes bs) = from_le bs mod ORDER_L"
    by (simp only: from_wide_bytes_def sc_val_def scalar.sel b v)
  have "from_le bs mod ORDER_L < ORDER_L" by (rule mod_less_divisor) simp
  then show "sc_wf (from_wide_bytes bs)" unfolding sc_wf_def val using b(2) by (simp add: from_wide_bytes_def)
qed

lemma from_bytes_mod_order_val:
  assumes "length bs = 32"
  shows "sc_wf (from_bytes_mod_order bs)" "sc_val (from_bytes_mod_order bs) = from_le bs mod ORDER_L"
proof -
  let ?x = "map (limb_at bs) [0..<4] @ replicate 4 0"
  have "length ?x = 8" by simp
  note b = barrett_reduce_val [OF this]
  have v: "lval ?x = from_le bs" using limbs_of_bytes [of bs 4] assms by (simp add: lval_append)
  show val: "sc_val (from_bytes_mod_order bs) = from_le bs mod ORDER_L"
    by (simp only: from_bytes_mod_order_def sc_val_def scalar.sel b v)
  have "from_le bs mod ORDER_L < ORDER_L" by (rule mod_less_divisor) simp
  then show "sc_wf (from_bytes_mod_order bs)" unfolding sc_wf_def val using b(2) by (simp add: from_bytes_mod_order_def)
qed

lemma from_canonical_bytes_iff:
  assumes "length bs = 32"
  shows "from_canonical_bytes bs = Some s \<longleftrightarrow> sc_wf s \<and> sc_to_bytes s = bs"
proof -
  let ?l = "map (limb_at bs) [0..<4]"
  have v: "lval ?l = from_le bs" using limbs_of_bytes [of bs 4] assms by simp
  have lt: "is_set (is_less_than ?l SC_L) \<longleftrightarrow> lval ?l < ORDER_L"
    using is_less_than_iff [of ?l SC_L] SC_L_val by simp
  have inv: "sc_to_bytes (Scalar ?l) = bs"
  proof -
    have "to_le 32 (from_le (sc_to_bytes (Scalar ?l))) = to_le 32 (from_le bs)"
      unfolding sc_to_bytes_val by (simp add: sc_val_def v)
    moreover have "length (sc_to_bytes (Scalar ?l)) = 32" by (simp add: sc_to_bytes_length)
    ultimately show ?thesis using to_le_from_le [of "sc_to_bytes (Scalar ?l)"] to_le_from_le [of bs] assms by simp
  qed
  have only: "s = Scalar ?l \<and> lval ?l < ORDER_L" if "sc_wf s" "sc_to_bytes s = bs"
  proof -
    have eq: "lval (sc_limbs s) = lval ?l" using sc_to_bytes_val [of s] that v by (simp add: sc_val_def)
    moreover have "length (sc_limbs s) = length ?l" using that by (simp add: sc_wf_def)
    ultimately have "sc_limbs s = ?l" by (rule lval_inject)
    moreover have "lval ?l < ORDER_L" using that(1) eq by (simp add: sc_wf_def sc_val_def)
    ultimately show ?thesis by (cases s) simp
  qed
  have "sc_wf (Scalar ?l)" if "lval ?l < ORDER_L" using that by (simp add: sc_wf_def sc_val_def)
  then show ?thesis
    unfolding from_canonical_bytes_def Let_def lt using inv only by (cases "lval ?l < ORDER_L") auto
qed

lemma mul_add_val:
  assumes "sc_wf a" "sc_wf b" "sc_wf c"
  shows "sc_wf (mul_add a b c)" "sc_val (mul_add a b c) = (sc_val a * sc_val b + sc_val c) mod ORDER_L"
proof -
  note w = assms [unfolded sc_wf_def sc_val_def]
  have "length (sc_limbs a) = 4" "length (sc_limbs b) = 4" using w by simp_all
  note m = mul_wide_val [OF this]
  note r = barrett_reduce_val [OF m(2)]
  have l0: "0 < ORDER_L" by simp
  have rl: "lval (barrett_reduce (mul_wide (sc_limbs a) (sc_limbs b))) < ORDER_L"
    unfolding r(1) by (rule mod_less_divisor [OF l0])
  have "length (sc_limbs c) = 4" "lval (sc_limbs c) < ORDER_L" using w by simp_all
  note s = add_mod_l_val [OF r(2) this(1) rl this(2)]
  show v: "sc_val (mul_add a b c) = (sc_val a * sc_val b + sc_val c) mod ORDER_L"
    by (simp only: mul_add_def Let_def sc_val_def scalar.sel s(1) r(1) m(1) mod_add_left_eq)
  have "(sc_val a * sc_val b + sc_val c) mod ORDER_L < ORDER_L" by (rule mod_less_divisor [OF l0])
  then show "sc_wf (mul_add a b c)" unfolding sc_wf_def v using s(2) by (simp add: mul_add_def Let_def)
qed

end
