(* ===== verification/Edwards.thy ===== *)
theory Edwards
  imports FieldBytes Scalar
begin

text \<open>
  The Edwards form of Curve25519 (crates/blindplane-crypto/src/edwards: point.rs, niels.rs,
  tables.rs, scalar_mul.rs, vartime.rs): the four point representations and the conversions between
  them, the unified addition and the doubling, the tables of multiples, the constant-time and the
  variable-time scalar multiplications, and the point encoding. Theories that import this one
  relate every routine to the group of the curve.
\<close>

section \<open>niels.rs\<close>

record projective_point =
  pp_x :: fe
  pp_y :: fe
  pp_z :: fe

record completed_point =
  cp_e :: fe
  cp_h :: fe
  cp_f :: fe
  cp_g :: fe

record projective_niels =
  pn_y_plus_x :: fe
  pn_y_minus_x :: fe
  pn_z :: fe
  pn_t2d :: fe

record affine_niels =
  an_y_plus_x :: fe
  an_y_minus_x :: fe
  an_xy2d :: fe

record edwards_point =
  ep_x :: fe
  ep_y :: fe
  ep_z :: fe
  ep_t :: fe

definition pp_IDENTITY :: projective_point where
  "pp_IDENTITY = \<lparr>pp_x = fe_ZERO, pp_y = fe_ONE, pp_z = fe_ONE\<rparr>"

definition pp_double :: "projective_point \<Rightarrow> completed_point" where
  "pp_double s =
    (let a = fe_square (pp_x s);
         b = fe_square (pp_y s);
         c = fe_square (pp_z s);
         c = fe_add c c;
         h = fe_add a b;
         e = fe_sub h (fe_square (fe_add (pp_x s) (pp_y s)));
         g = fe_sub a b;
         f = fe_add c g
     in \<lparr>cp_e = e, cp_h = h, cp_f = f, cp_g = g\<rparr>)"

definition to_projective :: "completed_point \<Rightarrow> projective_point" where
  "to_projective s =
    \<lparr>pp_x = fe_mul (cp_e s) (cp_f s), pp_y = fe_mul (cp_g s) (cp_h s), pp_z = fe_mul (cp_f s) (cp_g s)\<rparr>"

definition to_extended :: "completed_point \<Rightarrow> edwards_point" where
  "to_extended s =
    \<lparr>ep_x = fe_mul (cp_e s) (cp_f s), ep_y = fe_mul (cp_g s) (cp_h s),
     ep_z = fe_mul (cp_f s) (cp_g s), ep_t = fe_mul (cp_e s) (cp_h s)\<rparr>"

definition pn_IDENTITY :: projective_niels where
  "pn_IDENTITY = \<lparr>pn_y_plus_x = fe_ONE, pn_y_minus_x = fe_ONE, pn_z = fe_ONE, pn_t2d = fe_ZERO\<rparr>"

definition pn_negate :: "projective_niels \<Rightarrow> projective_niels" where
  "pn_negate s =
    \<lparr>pn_y_plus_x = pn_y_minus_x s, pn_y_minus_x = pn_y_plus_x s, pn_z = pn_z s, pn_t2d = fe_neg (pn_t2d s)\<rparr>"

definition an_negate :: "affine_niels \<Rightarrow> affine_niels" where
  "an_negate s =
    \<lparr>an_y_plus_x = an_y_minus_x s, an_y_minus_x = an_y_plus_x s, an_xy2d = fe_neg (an_xy2d s)\<rparr>"

section \<open>point.rs\<close>

definition ED_D :: fe where
  "ED_D = Fe 0x00034dca135978a3 0x0001a8283b156ebd 0x0005e7a26001c029 0x000739c663a03cbb 0x00052036cee2b6ff"

definition ED_D2 :: fe where
  "ED_D2 = Fe 0x00069b9426b2f159 0x00035050762add7a 0x0003cf44c0038052 0x0006738cc7407977 0x0002406d9dc56dff"

definition ED_BASEPOINT :: edwards_point where
  "ED_BASEPOINT =
    \<lparr>ep_x = Fe 0x00062d608f25d51a 0x000412a4b4f6592a 0x00075b7171a4b31d 0x0001ff60527118fe 0x000216936d3cd6e5,
     ep_y = Fe 0x0006666666666658 0x0004cccccccccccc 0x0001999999999999 0x0003333333333333 0x0006666666666666,
     ep_z = fe_ONE,
     ep_t = Fe 0x00068ab3a5b7dda3 0x00000eea2a5eadbb 0x0002af8df483c27e 0x000332b375274732 0x00067875f0fd78b7\<rparr>"

definition ep_IDENTITY :: edwards_point where
  "ep_IDENTITY = \<lparr>ep_x = fe_ZERO, ep_y = fe_ONE, ep_z = fe_ONE, ep_t = fe_ZERO\<rparr>"

definition ep_add :: "edwards_point \<Rightarrow> edwards_point \<Rightarrow> edwards_point" where
  "ep_add s rhs =
    (let a = fe_mul (fe_sub (ep_y s) (ep_x s)) (fe_sub (ep_y rhs) (ep_x rhs));
         b = fe_mul (fe_add (ep_y s) (ep_x s)) (fe_add (ep_y rhs) (ep_x rhs));
         c = fe_mul (fe_mul (ep_t s) ED_D2) (ep_t rhs);
         d = fe_mul (ep_z s) (ep_z rhs);
         d = fe_add d d;
         e = fe_sub b a;
         f = fe_sub d c;
         g = fe_add d c;
         h = fe_add b a
     in \<lparr>ep_x = fe_mul e f, ep_y = fe_mul g h, ep_z = fe_mul f g, ep_t = fe_mul e h\<rparr>)"

definition ep_negate :: "edwards_point \<Rightarrow> edwards_point" where
  "ep_negate s = \<lparr>ep_x = fe_neg (ep_x s), ep_y = ep_y s, ep_z = ep_z s, ep_t = fe_neg (ep_t s)\<rparr>"

definition ep_sub :: "edwards_point \<Rightarrow> edwards_point \<Rightarrow> edwards_point" where
  "ep_sub s rhs = ep_add s (ep_negate rhs)"

definition to_projective_niels :: "edwards_point \<Rightarrow> projective_niels" where
  "to_projective_niels s =
    \<lparr>pn_y_plus_x = fe_add (ep_y s) (ep_x s), pn_y_minus_x = fe_sub (ep_y s) (ep_x s),
     pn_z = ep_z s, pn_t2d = fe_mul (ep_t s) ED_D2\<rparr>"

definition add_projective_niels :: "edwards_point \<Rightarrow> projective_niels \<Rightarrow> completed_point" where
  "add_projective_niels s rhs =
    (let pp = fe_mul (fe_add (ep_y s) (ep_x s)) (pn_y_plus_x rhs);
         mm = fe_mul (fe_sub (ep_y s) (ep_x s)) (pn_y_minus_x rhs);
         tt2d = fe_mul (ep_t s) (pn_t2d rhs);
         zz = fe_mul (ep_z s) (pn_z rhs);
         zz2 = fe_add zz zz
     in \<lparr>cp_e = fe_sub pp mm, cp_h = fe_add pp mm, cp_f = fe_sub zz2 tt2d, cp_g = fe_add zz2 tt2d\<rparr>)"

definition add_affine_niels :: "edwards_point \<Rightarrow> affine_niels \<Rightarrow> completed_point" where
  "add_affine_niels s rhs =
    (let pp = fe_mul (fe_add (ep_y s) (ep_x s)) (an_y_plus_x rhs);
         mm = fe_mul (fe_sub (ep_y s) (ep_x s)) (an_y_minus_x rhs);
         txy2d = fe_mul (ep_t s) (an_xy2d rhs);
         z2 = fe_add (ep_z s) (ep_z s)
     in \<lparr>cp_e = fe_sub pp mm, cp_h = fe_add pp mm, cp_f = fe_sub z2 txy2d, cp_g = fe_add z2 txy2d\<rparr>)"

definition ep_double :: "edwards_point \<Rightarrow> edwards_point" where
  "ep_double s =
    (let a = fe_square (ep_x s);
         b = fe_square (ep_y s);
         c = fe_square (ep_z s);
         c = fe_add c c;
         h = fe_add a b;
         xy = fe_add (ep_x s) (ep_y s);
         e = fe_sub h (fe_square xy);
         g = fe_sub a b;
         f = fe_add c g
     in \<lparr>ep_x = fe_mul e f, ep_y = fe_mul g h, ep_z = fe_mul f g, ep_t = fe_mul e h\<rparr>)"

definition mul_by_cofactor :: "edwards_point \<Rightarrow> edwards_point" where
  "mul_by_cofactor s = ep_double (ep_double (ep_double s))"

definition ep_is_identity :: "edwards_point \<Rightarrow> choice" where
  "ep_is_identity s = choice_and (fe_is_zero (ep_x s)) (fe_ct_eq (ep_y s) (ep_z s))"

definition is_small_order :: "edwards_point \<Rightarrow> choice" where
  "is_small_order s = ep_is_identity (mul_by_cofactor s)"

definition ep_compress :: "edwards_point \<Rightarrow> bytes" where
  "ep_compress s =
    (let z_inv = fe_invert (ep_z s);
         x = fe_mul (ep_x s) z_inv;
         y = fe_mul (ep_y s) z_inv;
         out = fe_to_bytes y
     in out[31 := out ! 31 XOR (ucast (choice.mask (fe_is_negative x)) AND 0x80)])"

definition ep_decompress :: "bytes \<Rightarrow> edwards_point option" where
  "ep_decompress bs =
    (let y_bytes = bs;
         sign = from_bit (ucast (drop_bit 7 (y_bytes ! 31)));
         y_bytes = y_bytes[31 := y_bytes ! 31 AND 0x7f];
         y = fe_from_bytes y_bytes
     in if \<not> is_set (ct_eq_bytes (fe_to_bytes y) y_bytes) then None
        else
          let y2 = fe_square y;
              u = fe_sub y2 fe_ONE;
              v = fe_add (fe_mul y2 ED_D) fe_ONE;
              (x, is_square) = fe_sqrt_ratio u v
          in if \<not> is_set is_square then None
             else if is_set (fe_is_zero x) \<and> is_set sign then None
             else
               let x = fe_conditional_negate x (choice_xor (fe_is_negative x) sign)
               in Some \<lparr>ep_x = x, ep_y = y, ep_z = fe_ONE, ep_t = fe_mul x y\<rparr>)"

section \<open>tables.rs\<close>

text \<open>
  The loop \<open>table[0] = first; for i in 1..n { table[i] = table[i - 1].add(step) }\<close>, which fills the
  rows of the base-point table, the odd multiples and the table of \<open>mul\<close>.
\<close>

definition add_table :: "nat \<Rightarrow> edwards_point \<Rightarrow> edwards_point \<Rightarrow> edwards_point list" where
  "add_table n first step =
    foldl (\<lambda>table i. table[i := ep_add (table ! (i - 1)) step]) ((replicate n ep_IDENTITY)[0 := first]) [1..<n]"

definition basepoint_table :: "edwards_point list list" where
  "basepoint_table =
    fst (foldl (\<lambda>(table, base) i.
        (table[i := add_table 8 base base], ep_double (ep_double (ep_double (ep_double base)))))
      (replicate 64 (replicate 8 ep_IDENTITY), ED_BASEPOINT) [0..<64])"

definition prefix_products :: "edwards_point list \<Rightarrow> fe list \<times> fe" where
  "prefix_products odds =
    foldl (\<lambda>(prefixes, running) point. (prefixes @ [running], fe_mul running (ep_z point))) ([], fe_ONE) odds"

definition unwind_step :: "fe list \<Rightarrow> edwards_point list \<Rightarrow> fe list \<times> fe \<Rightarrow> nat \<Rightarrow> fe list \<times> fe" where
  "unwind_step prefixes odds st i =
    (case st of (z_inverse, suffix_inverse) \<Rightarrow>
     (z_inverse[i := fe_mul suffix_inverse (prefixes ! i)], fe_mul suffix_inverse (ep_z (odds ! i))))"

definition affine_odd_multiples :: "edwards_point \<Rightarrow> affine_niels list" where
  "affine_odd_multiples point =
    (let double_p = ep_double point;
         odds = add_table 64 point double_p;
         (prefixes, running) = prefix_products odds;
         suffix_inverse = fe_invert running;
         (z_inverse, suffix_inverse) =
           foldl (unwind_step prefixes odds) (replicate 64 fe_ONE, suffix_inverse) (rev [0..<64])
     in map (\<lambda>i.
          let x = fe_mul (ep_x (odds ! i)) (z_inverse ! i);
              y = fe_mul (ep_y (odds ! i)) (z_inverse ! i)
          in \<lparr>an_y_plus_x = fe_add y x, an_y_minus_x = fe_sub y x, an_xy2d = fe_mul (fe_mul x y) ED_D2\<rparr>)
        [0..<64])"

definition basepoint_affine_odd_multiples :: "affine_niels list" where
  "basepoint_affine_odd_multiples = affine_odd_multiples ED_BASEPOINT"

section \<open>scalar_mul.rs\<close>

definition ct_eq_u64 :: "u64 \<Rightarrow> u64 \<Rightarrow> choice" where
  "ct_eq_u64 a b = (let diff = a XOR b in from_bit (drop_bit 63 (diff OR (- diff)) XOR 1))"

definition select_point :: "edwards_point \<Rightarrow> edwards_point \<Rightarrow> choice \<Rightarrow> edwards_point" where
  "select_point selected point hit =
    \<lparr>ep_x = fe_select (ep_x selected) (ep_x point) hit, ep_y = fe_select (ep_y selected) (ep_y point) hit,
     ep_z = fe_select (ep_z selected) (ep_z point) hit, ep_t = fe_select (ep_t selected) (ep_t point) hit\<rparr>"

text \<open>\<open>magnitude\<close> is computed at 16 bits, where the absolute value of every \<open>i8\<close> fits.\<close>

definition digit_magnitude :: "i8 \<Rightarrow> choice \<Rightarrow> u64" where
  "digit_magnitude digit negative =
    (let neg = of_bool (is_set negative) :: 16 word
     in scast ((scast digit XOR (- neg)) + neg))"

definition select_signed :: "edwards_point list \<Rightarrow> i8 \<Rightarrow> edwards_point" where
  "select_signed table digit =
    (let negative = from_bit (ucast (drop_bit 7 digit));
         magnitude = digit_magnitude digit negative;
         selected = foldl (\<lambda>selected (i, point). select_point selected point (ct_eq_u64 magnitude (of_nat (i + 1))))
           ep_IDENTITY (enumerate 0 table);
         negated = ep_negate selected
     in \<lparr>ep_x = fe_select (ep_x selected) (ep_x negated) negative, ep_y = ep_y selected,
         ep_z = ep_z selected, ep_t = fe_select (ep_t selected) (ep_t negated) negative\<rparr>)"

definition ep_mul :: "edwards_point \<Rightarrow> scalar \<Rightarrow> edwards_point" where
  "ep_mul s scalar =
    (let table = add_table 8 s s;
         digits = radix16 scalar
     in foldl (\<lambda>acc i.
          let acc = ep_double (ep_double (ep_double (ep_double acc)))
          in ep_add acc (select_signed table (digits ! i)))
        ep_IDENTITY (rev [0..<64]))"

definition ep_mul_base :: "scalar \<Rightarrow> edwards_point" where
  "ep_mul_base scalar =
    (let table = basepoint_table;
         digits = radix16 scalar
     in foldl (\<lambda>acc (i, digit). ep_add acc (select_signed (table ! i) digit)) ep_IDENTITY (enumerate 0 digits))"

text \<open>Without the standard library there is no place to cache the table.\<close>

definition ep_mul_base_no_std :: "scalar \<Rightarrow> edwards_point" where
  "ep_mul_base_no_std scalar = ep_mul ED_BASEPOINT scalar"

section \<open>vartime.rs\<close>

text \<open>The trait \<open>OddMultiples\<close> as the dictionary of its items, and its two implementations.\<close>

record odd_multiples =
  om_width :: nat
  om_add_signed :: "edwards_point \<Rightarrow> i8 \<Rightarrow> completed_point"

definition projective_odd :: "projective_niels list \<Rightarrow> odd_multiples" where
  "projective_odd table = \<lparr>om_width = 5, om_add_signed = (\<lambda>point digit.
     if 0 <s digit then add_projective_niels point (table ! (unat digit div 2))
     else add_projective_niels point (pn_negate (table ! (unat (- digit) div 2))))\<rparr>"

definition affine_odd :: "affine_niels list \<Rightarrow> odd_multiples" where
  "affine_odd table = \<lparr>om_width = 8, om_add_signed = (\<lambda>point digit.
     if 0 <s digit then add_affine_niels point (table ! (unat digit div 2))
     else add_affine_niels point (an_negate (table ! (unat (- digit) div 2))))\<rparr>"

text \<open>\<open>while i > 0 && a_naf[i] == 0 && b_naf[i] == 0 { i -= 1 }\<close>.\<close>

fun naf_start :: "i8 list \<Rightarrow> i8 list \<Rightarrow> nat \<Rightarrow> nat" where
  "naf_start a_naf b_naf 0 = 0"
| "naf_start a_naf b_naf (Suc i) =
    (if a_naf ! Suc i = 0 \<and> b_naf ! Suc i = 0 then naf_start a_naf b_naf i else Suc i)"

definition dsm_step :: "odd_multiples \<Rightarrow> odd_multiples \<Rightarrow> i8 list \<Rightarrow> i8 list \<Rightarrow> projective_point \<Rightarrow> nat \<Rightarrow> completed_point" where
  "dsm_step odd_a odd_b a_naf b_naf acc i =
    (let completed = pp_double acc
     in if a_naf ! i \<noteq> 0 \<or> b_naf ! i \<noteq> 0 then
          let extended = to_extended completed;
              completed = (if a_naf ! i \<noteq> 0 then om_add_signed odd_a extended (a_naf ! i) else completed)
          in if b_naf ! i \<noteq> 0 then
               let extended = (if a_naf ! i \<noteq> 0 then to_extended completed else extended)
               in om_add_signed odd_b extended (b_naf ! i)
             else completed
        else completed)"

fun dsm_loop :: "odd_multiples \<Rightarrow> odd_multiples \<Rightarrow> i8 list \<Rightarrow> i8 list \<Rightarrow> projective_point \<Rightarrow> nat \<Rightarrow> edwards_point" where
  "dsm_loop odd_a odd_b a_naf b_naf acc 0 = to_extended (dsm_step odd_a odd_b a_naf b_naf acc 0)"
| "dsm_loop odd_a odd_b a_naf b_naf acc (Suc i) =
    dsm_loop odd_a odd_b a_naf b_naf (to_projective (dsm_step odd_a odd_b a_naf b_naf acc (Suc i))) i"

definition double_scalar_mul :: "scalar \<Rightarrow> odd_multiples \<Rightarrow> scalar \<Rightarrow> edwards_point" where
  "double_scalar_mul a odd_a b =
    (let odd_b = affine_odd basepoint_affine_odd_multiples;
         a_naf = non_adjacent_form a (om_width odd_a);
         b_naf = non_adjacent_form b (om_width odd_b);
         i = naf_start a_naf b_naf 255
     in dsm_loop odd_a odd_b a_naf b_naf pp_IDENTITY i)"

definition vartime_double_scalar_mul_basepoint :: "scalar \<Rightarrow> edwards_point \<Rightarrow> scalar \<Rightarrow> edwards_point" where
  "vartime_double_scalar_mul_basepoint a big_a b =
    (let double_a = ep_double big_a;
         odd_a = (replicate 8 pn_IDENTITY)[0 := to_projective_niels big_a];
         (odd_a, multiple) = foldl (\<lambda>(odd_a, multiple) i.
             let multiple = ep_add multiple double_a
             in (odd_a[i := to_projective_niels multiple], multiple))
           (odd_a, big_a) [1..<8]
     in double_scalar_mul a (projective_odd odd_a) b)"

definition vartime_double_scalar_mul_prepared :: "scalar \<Rightarrow> affine_niels list \<Rightarrow> scalar \<Rightarrow> edwards_point" where
  "vartime_double_scalar_mul_prepared a odd_a b = double_scalar_mul a (affine_odd odd_a) b"

end
