(* ===== verification/EdwardsGroup.thy ===== *)
theory EdwardsGroup
  imports GF EdwardsCurve Multiples Edwards
begin

text \<open>
  The group of the curve as a type, an instance of the library's commutative groups, and the
  relation between its elements and the four representations of edwards/point.rs and niels.rs.
  Every formula of the code is shown to compute the group operation it is named after.
\<close>

section \<open>The curve\<close>

definition ed_d :: gf where "ed_d = gfv ED_D"
definition ed_i :: gf where "ed_i = gfv SQRT_M1"

lemma ed_i_square: "ed_i * ed_i = - 1"
proof -
  have "of_int (int (fe_value SQRT_M1) * int (fe_value SQRT_M1)) = (of_int (- 1) :: gf)"
    unfolding of_int_gf_eq by (rule SQRT_M1_square)
  then show ?thesis by (simp add: ed_i_def gfv_def)
qed

lemma ed_constants_ok: "fe_ok ED_D" "fe_ok ED_D2" "fe_ok SQRT_M1"
  by (simp_all add: ED_D_def ED_D2_def SQRT_M1_def)

lemma ed_d_value: "ed_d = of_nat 37095705934669439343138083508754565189542113879843219016388785533085940283555"
  by (simp add: ed_d_def gfv_def ED_D_def val5_def)

lemma gfv_D2: "gfv ED_D2 = 2 * ed_d"
proof -
  have "(of_nat (fe_value ED_D2) :: gf) = of_nat (2 * fe_value ED_D)"
    unfolding of_nat_gf_eq P25519_eq by (simp add: ED_D_def ED_D2_def val5_def)
  then show ?thesis by (simp add: ed_d_def gfv_def)
qed

text \<open>Two has no root, because its power to half the group order is minus one.\<close>

lemma two_nonsquare: "(w :: gf) * w \<noteq> 2"
proof
  assume w: "w * w = 2"
  have "P25519 - 1 = 2 * (14474011154664524427946373126085988481658748083205070504932198000989141204987 * 2)"
    by (simp add: P25519_eq)
  moreover have nz: "w \<noteq> 0" using w of_nat_gf_eq [of 2 0] by (auto simp: P25519_eq)
  ultimately have "(w ^ 2) ^ (14474011154664524427946373126085988481658748083205070504932198000989141204987 * 2) = 1"
    using gf_fermat [OF nz] by (simp only: power_mult)
  then have "(of_nat (2 ^ (14474011154664524427946373126085988481658748083205070504932198000989141204987 * 2)) :: gf) = of_nat 1"
    unfolding power2_eq_square w of_nat_power of_nat_numeral of_nat_1 .
  then show False
    unfolding of_nat_gf_eq P25519_eq two_half by simp
qed

lemma gf_two: "(2 :: gf) \<noteq> 0"
  using of_nat_gf_eq [of 2 0] by (simp add: P25519_eq)

lemma ed_d_half:
  "ed_d = 2 * (of_nat 30152228160694284937144285544751646460505239448795619900082871953631125353365 *
    of_nat 30152228160694284937144285544751646460505239448795619900082871953631125353365)"
proof -
  have "(of_nat 37095705934669439343138083508754565189542113879843219016388785533085940283555 :: gf) =
    of_nat (2 * (30152228160694284937144285544751646460505239448795619900082871953631125353365 *
      30152228160694284937144285544751646460505239448795619900082871953631125353365))"
    unfolding of_nat_gf_eq P25519_eq by simp
  then show ?thesis unfolding ed_d_value by (simp only: of_nat_mult of_nat_numeral)
qed

lemma ed_d_nonsquare: "(w :: gf) * w \<noteq> ed_d"
proof
  define r :: gf where "r = of_nat 30152228160694284937144285544751646460505239448795619900082871953631125353365"
  assume "w * w = ed_d"
  then have w: "w * w = 2 * (r * r)" unfolding ed_d_half r_def .
  have "r \<noteq> 0"
    using of_nat_gf_eq [of 30152228160694284937144285544751646460505239448795619900082871953631125353365 0]
    by (simp add: r_def P25519_eq)
  then have "(w / r) * (w / r) = 2" using w by (simp add: times_divide_times_eq)
  then show False using two_nonsquare by blast
qed

interpretation curve: edwards_curve ed_d ed_i
  by unfold_locales (rule ed_i_square ed_d_nonsquare gf_two)+

section \<open>The group\<close>

typedef point = "{P. ed_on ed_d P}"
  using curve.neutral(1) by blast

setup_lifting type_definition_point

instantiation point :: ab_group_add
begin

lift_definition zero_point :: point is "(0, 1)" by (rule curve.neutral)
lift_definition plus_point :: "point \<Rightarrow> point \<Rightarrow> point" is "ed_plus ed_d" by (rule curve.closed)
lift_definition uminus_point :: "point \<Rightarrow> point" is ed_minus by (rule curve.inverse)
definition minus_point :: "point \<Rightarrow> point \<Rightarrow> point" where "minus_point P Q = P + - Q"

instance
proof
  fix P Q R :: point
  show "P + Q + R = P + (Q + R)" by transfer (rule curve.assoc)
  show "P + Q = Q + P" by transfer (rule curve.commute)
  show "0 + P = P" by transfer (rule curve.neutral)
  show "- P + P = 0" by transfer (rule curve.inverse)
  show "P - Q = P + - Q" by (rule minus_point_def)
qed

end

definition px :: "point \<Rightarrow> gf" where "px P = fst (Rep_point P)"
definition py :: "point \<Rightarrow> gf" where "py P = snd (Rep_point P)"

lemma point_eqI: "px P = px Q \<Longrightarrow> py P = py Q \<Longrightarrow> P = Q"
  by (simp add: px_def py_def prod_eq_iff flip: Rep_point_inject)

lemma point_on: "py P * py P - px P * px P = 1 + ed_d * (px P * py P) * (px P * py P)"
  using Rep_point [of P] by (simp add: ed_on_def px_def py_def split_beta)

lemma point_obtain:
  assumes "y * y - x * x = 1 + ed_d * (x * y) * (x * y)"
  obtains P where "px P = x" "py P = y"
proof -
  have "ed_on ed_d (x, y)" using assms by (simp add: ed_on_def)
  then have "px (Abs_point (x, y)) = x" "py (Abs_point (x, y)) = y"
    by (simp_all add: px_def py_def Abs_point_inverse)
  then show ?thesis by (rule that)
qed

lemma point_denominators:
  "1 + ed_d * (px P * py P) * (px Q * py Q) \<noteq> 0" "1 - ed_d * (px P * py P) * (px Q * py Q) \<noteq> 0"
  using curve.denominators [of "px P" "py P" "px Q" "py Q"] point_on [of P] point_on [of Q]
  by (simp_all add: ed_on_def)

lemma point_plus:
  "px (P + Q) = (px P * py Q + py P * px Q) / (1 + ed_d * (px P * py P) * (px Q * py Q))"
  "py (P + Q) = (py P * py Q + px P * px Q) / (1 - ed_d * (px P * py P) * (px Q * py Q))"
  by (simp_all add: px_def py_def plus_point.rep_eq ed_plus_def split_beta)

lemma point_zero_minus: "px 0 = 0" "py 0 = 1" "px (- P) = - px P" "py (- P) = py P"
  by (simp_all add: px_def py_def zero_point.rep_eq uminus_point.rep_eq ed_minus_def split_beta)

section \<open>Representations\<close>

named_theorems point_intro

definition ep_is :: "edwards_point \<Rightarrow> point \<Rightarrow> bool" where
  "ep_is e P \<longleftrightarrow> fe_ok (ep_x e) \<and> fe_ok (ep_y e) \<and> fe_ok (ep_z e) \<and> fe_ok (ep_t e) \<and> gfv (ep_z e) \<noteq> 0 \<and>
    gfv (ep_x e) = px P * gfv (ep_z e) \<and> gfv (ep_y e) = py P * gfv (ep_z e) \<and>
    gfv (ep_t e) = px P * py P * gfv (ep_z e)"

definition pp_is :: "projective_point \<Rightarrow> point \<Rightarrow> bool" where
  "pp_is e P \<longleftrightarrow> fe_ok (pp_x e) \<and> fe_ok (pp_y e) \<and> fe_ok (pp_z e) \<and> gfv (pp_z e) \<noteq> 0 \<and>
    gfv (pp_x e) = px P * gfv (pp_z e) \<and> gfv (pp_y e) = py P * gfv (pp_z e)"

definition cp_is :: "completed_point \<Rightarrow> point \<Rightarrow> bool" where
  "cp_is c P \<longleftrightarrow> fe_ok (cp_e c) \<and> fe_ok (cp_h c) \<and> fe_ok (cp_f c) \<and> fe_ok (cp_g c) \<and>
    gfv (cp_f c) \<noteq> 0 \<and> gfv (cp_g c) \<noteq> 0 \<and>
    gfv (cp_e c) = px P * gfv (cp_g c) \<and> gfv (cp_h c) = py P * gfv (cp_f c)"

definition pn_is :: "projective_niels \<Rightarrow> point \<Rightarrow> bool" where
  "pn_is n P \<longleftrightarrow> fe_ok (pn_y_plus_x n) \<and> fe_ok (pn_y_minus_x n) \<and> fe_ok (pn_z n) \<and> fe_ok (pn_t2d n) \<and>
    gfv (pn_z n) \<noteq> 0 \<and> gfv (pn_y_plus_x n) = (py P + px P) * gfv (pn_z n) \<and>
    gfv (pn_y_minus_x n) = (py P - px P) * gfv (pn_z n) \<and>
    gfv (pn_t2d n) = 2 * ed_d * (px P * py P) * gfv (pn_z n)"

definition an_is :: "affine_niels \<Rightarrow> point \<Rightarrow> bool" where
  "an_is n P \<longleftrightarrow> fe_ok (an_y_plus_x n) \<and> fe_ok (an_y_minus_x n) \<and> fe_ok (an_xy2d n) \<and>
    gfv (an_y_plus_x n) = py P + px P \<and> gfv (an_y_minus_x n) = py P - px P \<and>
    gfv (an_xy2d n) = 2 * ed_d * (px P * py P)"

lemmas fe_simps = fe_ok_gfv fe_ok_gfv1 gfv_constants ed_constants_ok

lemma completed_conversions [point_intro]:
  assumes "cp_is c P"
  shows "ep_is (to_extended c) P" "pp_is (to_projective c) P"
  using assms
  by (simp_all add: cp_is_def ep_is_def pp_is_def to_extended_def to_projective_def fe_simps algebra_simps)

lemma ep_is_IDENTITY [point_intro]: "ep_is ep_IDENTITY 0"
  and pp_is_IDENTITY [point_intro]: "pp_is pp_IDENTITY 0"
  and pn_is_IDENTITY [point_intro]: "pn_is pn_IDENTITY 0"
  by (simp_all add: ep_is_def pp_is_def pn_is_def ep_IDENTITY_def pp_IDENTITY_def pn_IDENTITY_def fe_simps
      point_zero_minus)

lemma ep_is_negate [point_intro]: "ep_is e P \<Longrightarrow> ep_is (ep_negate e) (- P)"
  and pn_is_negate [point_intro]: "pn_is n P \<Longrightarrow> pn_is (pn_negate n) (- P)"
  and an_is_negate [point_intro]: "an_is a P \<Longrightarrow> an_is (an_negate a) (- P)"
  by (simp_all add: ep_is_def pn_is_def an_is_def ep_negate_def pn_negate_def an_negate_def fe_simps
      point_zero_minus)

lemma to_projective_niels_is [point_intro]: "ep_is e P \<Longrightarrow> pn_is (to_projective_niels e) P"
  by (simp add: ep_is_def pn_is_def to_projective_niels_def fe_simps gfv_D2 algebra_simps)

text \<open>The completed coordinates of every addition formula, up to their common factor \<open>z\<close>.\<close>

lemma completed_plus:
  assumes "fe_ok (cp_e c)" "fe_ok (cp_h c)" "fe_ok (cp_f c)" "fe_ok (cp_g c)" and "z \<noteq> 0"
    and "gfv (cp_e c) = 2 * z * (px P * py Q + py P * px Q)" and "gfv (cp_h c) = 2 * z * (py P * py Q + px P * px Q)"
    and "gfv (cp_g c) = 2 * z * (1 + ed_d * (px P * py P) * (px Q * py Q))"
    and "gfv (cp_f c) = 2 * z * (1 - ed_d * (px P * py P) * (px Q * py Q))"
  shows "cp_is c (P + Q)"
  using assms point_denominators [of P Q] gf_two by (simp add: cp_is_def point_plus)

lemma add_projective_niels_is [point_intro]:
  assumes e: "ep_is e P" and n: "pn_is n Q"
  shows "cp_is (add_projective_niels e n) (P + Q)"
proof (rule completed_plus [where z = "gfv (ep_z e) * gfv (pn_z n)"])
  note d = e [unfolded ep_is_def] n [unfolded pn_is_def]
  show "fe_ok (cp_e (add_projective_niels e n))" "fe_ok (cp_h (add_projective_niels e n))"
    "fe_ok (cp_f (add_projective_niels e n))" "fe_ok (cp_g (add_projective_niels e n))"
    "gfv (ep_z e) * gfv (pn_z n) \<noteq> 0"
    using d by (simp_all add: add_projective_niels_def Let_def fe_simps)
  have v: "gfv (cp_e (add_projective_niels e n)) = (py P * gfv (ep_z e) + px P * gfv (ep_z e)) * ((py Q + px Q) * gfv (pn_z n)) - (py P * gfv (ep_z e) - px P * gfv (ep_z e)) * ((py Q - px Q) * gfv (pn_z n))"
    "gfv (cp_h (add_projective_niels e n)) = (py P * gfv (ep_z e) + px P * gfv (ep_z e)) * ((py Q + px Q) * gfv (pn_z n)) + (py P * gfv (ep_z e) - px P * gfv (ep_z e)) * ((py Q - px Q) * gfv (pn_z n))"
    "gfv (cp_g (add_projective_niels e n)) = (gfv (ep_z e) * gfv (pn_z n) + gfv (ep_z e) * gfv (pn_z n)) + px P * py P * gfv (ep_z e) * (2 * ed_d * (px Q * py Q) * gfv (pn_z n))"
    "gfv (cp_f (add_projective_niels e n)) = (gfv (ep_z e) * gfv (pn_z n) + gfv (ep_z e) * gfv (pn_z n)) - px P * py P * gfv (ep_z e) * (2 * ed_d * (px Q * py Q) * gfv (pn_z n))"
    using d by (simp_all add: add_projective_niels_def Let_def fe_simps gfv_D2)
  show "gfv (cp_e (add_projective_niels e n)) = 2 * (gfv (ep_z e) * gfv (pn_z n)) * (px P * py Q + py P * px Q)"
    "gfv (cp_h (add_projective_niels e n)) = 2 * (gfv (ep_z e) * gfv (pn_z n)) * (py P * py Q + px P * px Q)"
    "gfv (cp_g (add_projective_niels e n)) =
      2 * (gfv (ep_z e) * gfv (pn_z n)) * (1 + ed_d * (px P * py P) * (px Q * py Q))"
    "gfv (cp_f (add_projective_niels e n)) =
      2 * (gfv (ep_z e) * gfv (pn_z n)) * (1 - ed_d * (px P * py P) * (px Q * py Q))"
    unfolding v by algebra+
qed

lemma add_affine_niels_is [point_intro]:
  assumes e: "ep_is e P" and n: "an_is n Q"
  shows "cp_is (add_affine_niels e n) (P + Q)"
proof (rule completed_plus [where z = "gfv (ep_z e)"])
  note d = e [unfolded ep_is_def] n [unfolded an_is_def]
  show "fe_ok (cp_e (add_affine_niels e n))" "fe_ok (cp_h (add_affine_niels e n))"
    "fe_ok (cp_f (add_affine_niels e n))" "fe_ok (cp_g (add_affine_niels e n))" "gfv (ep_z e) \<noteq> 0"
    using d by (simp_all add: add_affine_niels_def Let_def fe_simps)
  have v: "gfv (cp_e (add_affine_niels e n)) = (py P * gfv (ep_z e) + px P * gfv (ep_z e)) * (py Q + px Q) - (py P * gfv (ep_z e) - px P * gfv (ep_z e)) * (py Q - px Q)"
    "gfv (cp_h (add_affine_niels e n)) = (py P * gfv (ep_z e) + px P * gfv (ep_z e)) * (py Q + px Q) + (py P * gfv (ep_z e) - px P * gfv (ep_z e)) * (py Q - px Q)"
    "gfv (cp_g (add_affine_niels e n)) = (gfv (ep_z e) + gfv (ep_z e)) + px P * py P * gfv (ep_z e) * (2 * ed_d * (px Q * py Q))"
    "gfv (cp_f (add_affine_niels e n)) = (gfv (ep_z e) + gfv (ep_z e)) - px P * py P * gfv (ep_z e) * (2 * ed_d * (px Q * py Q))"
    using d by (simp_all add: add_affine_niels_def Let_def fe_simps gfv_D2)
  show "gfv (cp_e (add_affine_niels e n)) = 2 * gfv (ep_z e) * (px P * py Q + py P * px Q)"
    "gfv (cp_h (add_affine_niels e n)) = 2 * gfv (ep_z e) * (py P * py Q + px P * px Q)"
    "gfv (cp_g (add_affine_niels e n)) = 2 * gfv (ep_z e) * (1 + ed_d * (px P * py P) * (px Q * py Q))"
    "gfv (cp_f (add_affine_niels e n)) = 2 * gfv (ep_z e) * (1 - ed_d * (px P * py P) * (px Q * py Q))"
    unfolding v by algebra+
qed

text \<open>The generic addition is the cached one on the cached form of its argument.\<close>

definition ep_completed :: "edwards_point \<Rightarrow> edwards_point \<Rightarrow> completed_point" where
  "ep_completed s rhs =
    (let a = fe_mul (fe_sub (ep_y s) (ep_x s)) (fe_sub (ep_y rhs) (ep_x rhs));
         b = fe_mul (fe_add (ep_y s) (ep_x s)) (fe_add (ep_y rhs) (ep_x rhs));
         c = fe_mul (fe_mul (ep_t s) ED_D2) (ep_t rhs);
         d = fe_mul (ep_z s) (ep_z rhs);
         d = fe_add d d
     in \<lparr>cp_e = fe_sub b a, cp_h = fe_add b a, cp_f = fe_sub d c, cp_g = fe_add d c\<rparr>)"

lemma ep_add_completed: "ep_add s rhs = to_extended (ep_completed s rhs)"
  by (simp add: ep_add_def ep_completed_def to_extended_def Let_def)

lemma ep_is_add [point_intro]:
  assumes e: "ep_is e P" and r: "ep_is r Q"
  shows "ep_is (ep_add e r) (P + Q)"
  unfolding ep_add_completed
proof (rule completed_conversions, rule completed_plus [where z = "gfv (ep_z e) * gfv (ep_z r)"])
  note d = e [unfolded ep_is_def] r [unfolded ep_is_def]
  show "fe_ok (cp_e (ep_completed e r))" "fe_ok (cp_h (ep_completed e r))" "fe_ok (cp_f (ep_completed e r))"
    "fe_ok (cp_g (ep_completed e r))" "gfv (ep_z e) * gfv (ep_z r) \<noteq> 0"
    using d by (simp_all add: ep_completed_def Let_def fe_simps)
  have v: "gfv (cp_e (ep_completed e r)) = (py P * gfv (ep_z e) + px P * gfv (ep_z e)) * (py Q * gfv (ep_z r) + px Q * gfv (ep_z r)) - (py P * gfv (ep_z e) - px P * gfv (ep_z e)) * (py Q * gfv (ep_z r) - px Q * gfv (ep_z r))"
    "gfv (cp_h (ep_completed e r)) = (py P * gfv (ep_z e) + px P * gfv (ep_z e)) * (py Q * gfv (ep_z r) + px Q * gfv (ep_z r)) + (py P * gfv (ep_z e) - px P * gfv (ep_z e)) * (py Q * gfv (ep_z r) - px Q * gfv (ep_z r))"
    "gfv (cp_g (ep_completed e r)) = (gfv (ep_z e) * gfv (ep_z r) + gfv (ep_z e) * gfv (ep_z r)) + px P * py P * gfv (ep_z e) * (2 * ed_d) * (px Q * py Q * gfv (ep_z r))"
    "gfv (cp_f (ep_completed e r)) = (gfv (ep_z e) * gfv (ep_z r) + gfv (ep_z e) * gfv (ep_z r)) - px P * py P * gfv (ep_z e) * (2 * ed_d) * (px Q * py Q * gfv (ep_z r))"
    using d by (simp_all add: ep_completed_def Let_def fe_simps gfv_D2)
  show "gfv (cp_e (ep_completed e r)) = 2 * (gfv (ep_z e) * gfv (ep_z r)) * (px P * py Q + py P * px Q)"
    "gfv (cp_h (ep_completed e r)) = 2 * (gfv (ep_z e) * gfv (ep_z r)) * (py P * py Q + px P * px Q)"
    "gfv (cp_g (ep_completed e r)) =
      2 * (gfv (ep_z e) * gfv (ep_z r)) * (1 + ed_d * (px P * py P) * (px Q * py Q))"
    "gfv (cp_f (ep_completed e r)) =
      2 * (gfv (ep_z e) * gfv (ep_z r)) * (1 - ed_d * (px P * py P) * (px Q * py Q))"
    unfolding v by algebra+
qed

text \<open>Doubling does not use \<open>d\<close>: on the curve its denominators are \<open>y^2 - x^2\<close> and \<open>2 - (y^2 - x^2)\<close>.\<close>

lemma pp_double_is [point_intro]:
  assumes "pp_is e P"
  shows "cp_is (pp_double e) (P + P)"
proof -
  define x y z where c: "x = px P" "y = py P" "z = gfv (pp_z e)"
  have d: "fe_ok (pp_x e)" "fe_ok (pp_y e)" "fe_ok (pp_z e)" "z \<noteq> 0" "gfv (pp_x e) = x * z" "gfv (pp_y e) = y * z"
    using assms by (simp_all add: pp_is_def c)
  have on: "1 + ed_d * (x * y) * (x * y) = y * y - x * x" using point_on [of P] by (simp add: c)
  then have off: "1 - ed_d * (x * y) * (x * y) = 2 - (y * y - x * x)" by algebra
  have nz: "y * y - x * x \<noteq> 0" "2 - (y * y - x * x) \<noteq> 0"
    using point_denominators [of P P] unfolding c [symmetric] on off by blast+
  have "gfv (cp_e (pp_double e)) = x * z * (x * z) + y * z * (y * z) - (x * z + y * z) * (x * z + y * z)"
    "gfv (cp_h (pp_double e)) = x * z * (x * z) + y * z * (y * z)"
    "gfv (cp_g (pp_double e)) = x * z * (x * z) - y * z * (y * z)"
    "gfv (cp_f (pp_double e)) = (z * z + z * z) + (x * z * (x * z) - y * z * (y * z))"
    using d by (simp_all add: pp_double_def Let_def fe_simps c(3) [symmetric])
  moreover have "x * z * (x * z) + y * z * (y * z) - (x * z + y * z) * (x * z + y * z) = - (z * z) * (2 * x * y)"
    "x * z * (x * z) + y * z * (y * z) = z * z * (x * x + y * y)"
    "x * z * (x * z) - y * z * (y * z) = - (z * z) * (y * y - x * x)"
    "(z * z + z * z) + - (z * z) * (y * y - x * x) = z * z * (2 - (y * y - x * x))"
    by algebra+
  ultimately have v: "gfv (cp_e (pp_double e)) = - (z * z) * (2 * x * y)" "gfv (cp_h (pp_double e)) = z * z * (x * x + y * y)"
    "gfv (cp_g (pp_double e)) = - (z * z) * (y * y - x * x)" "gfv (cp_f (pp_double e)) = z * z * (2 - (y * y - x * x))"
    by (simp_all only:)
  have "px (P + P) * (y * y - x * x) = x * y + y * x" "py (P + P) * (2 - (y * y - x * x)) = y * y + x * x"
    unfolding point_plus c [symmetric] on off using nz by simp_all
  then have "px (P + P) * (y * y - x * x) = 2 * x * y" "py (P + P) * (2 - (y * y - x * x)) = x * x + y * y"
    by algebra+
  moreover have "fe_ok (cp_e (pp_double e))" "fe_ok (cp_h (pp_double e))" "fe_ok (cp_f (pp_double e))"
    "fe_ok (cp_g (pp_double e))"
    using d by (simp_all add: pp_double_def Let_def fe_simps)
  ultimately show ?thesis
    using nz d(4) unfolding cp_is_def v by (simp add: mult.assoc mult.left_commute [of "px (P + P)"] mult.left_commute [of "py (P + P)"])
qed

lemma ep_double_projective:
  "ep_double s = to_extended (pp_double \<lparr>pp_x = ep_x s, pp_y = ep_y s, pp_z = ep_z s\<rparr>)"
  by (simp add: ep_double_def pp_double_def to_extended_def Let_def)

lemma ep_is_double [point_intro]: "ep_is e P \<Longrightarrow> ep_is (ep_double e) (P + P)"
  unfolding ep_double_projective
  by (rule completed_conversions, rule pp_double_is) (simp add: ep_is_def pp_is_def)

lemma ep_is_sub [point_intro]: "ep_is e P \<Longrightarrow> ep_is r Q \<Longrightarrow> ep_is (ep_sub e r) (P - Q)"
  unfolding ep_sub_def diff_conv_add_uminus by (intro point_intro)

lemma ep_is_cofactor [point_intro]: "ep_is e P \<Longrightarrow> ep_is (mul_by_cofactor e) (smul 8 P)"
proof -
  have "smul 8 P = P + P + (P + P) + (P + P + (P + P))"
    using smul_add [of 4 4 P] smul_add [of 2 2 P] by (simp add: smul_2)
  then show "ep_is e P \<Longrightarrow> ep_is (mul_by_cofactor e) (smul 8 P)"
    unfolding mul_by_cofactor_def by (simp only:) (intro point_intro)
qed

lemma ep_is_identity:
  assumes "ep_is e P"
  shows "is_set (ep_is_identity e) \<longleftrightarrow> P = 0"
proof -
  note d = assms [unfolded ep_is_def]
  have "is_set (ep_is_identity e) \<longleftrightarrow> gfv (ep_x e) = 0 \<and> gfv (ep_y e) = gfv (ep_z e)"
    using d by (simp add: ep_is_identity_def choice_ops gfv_tests gfv_ct_eq)
  also have "\<dots> \<longleftrightarrow> px P = 0 \<and> py P = 1" using d by auto
  finally show ?thesis using point_eqI [of P 0] point_zero_minus by auto
qed

lemma is_small_order_is: "ep_is e P \<Longrightarrow> is_set (is_small_order e) \<longleftrightarrow> smul 8 P = 0"
  unfolding is_small_order_def by (rule ep_is_identity, rule ep_is_cofactor)

end
