(* ===== verification/ScalarDigits.thy ===== *)
theory ScalarDigits
  imports Scalar
begin

text \<open>
  The bits and the two signed-digit expansions of a scalar: 64 digits of radix 16 for the
  fixed-base table, and the width-w non-adjacent form for verification. Both sum to the scalar.
\<close>

section \<open>Bits of a limb array\<close>

lemma bit_add_high: "bit (unat (x :: u64) + B64 * v) n \<longleftrightarrow> (if n < 64 then bit x n else bit v (n - 64))"
proof -
  have "unat x + B64 * v = push_bit 64 v OR unat x"
  proof -
    have "push_bit 64 v + unat x = push_bit 64 v OR unat x"
      by (rule disjunctive_add_eq_or) (auto simp: bit_eq_iff bit_simps dest: bit_imp_le_length)
    then show ?thesis by (simp add: push_bit_eq_mult)
  qed
  moreover have "bit (unat x) n \<longleftrightarrow> bit x n" by (simp add: bit_unsigned_iff)
  ultimately show ?thesis by (auto simp: bit_or_iff bit_push_bit_iff dest: bit_imp_le_length)
qed

lemma bit_lval: "bit (lval xs) n \<longleftrightarrow> n div 64 < length xs \<and> bit (xs ! (n div 64)) (n mod 64)"
proof (induction xs arbitrary: n)
  case (Cons x xs)
  show ?case
  proof (cases "n < 64")
    case False
    then have "n div 64 = Suc ((n - 64) div 64)" "n mod 64 = (n - 64) mod 64"
      by (simp_all add: le_div_geq le_mod_geq)
    with Cons False show ?thesis by (simp add: bit_add_high)
  qed (simp add: bit_add_high)
qed simp

lemma sc_bit_val:
  assumes "length (sc_limbs s) = 4" "i < 256"
  shows "sc_bit s i = of_bool (bit (sc_val s) i)"
proof -
  have "i div 64 < 4" using assms(2) by (simp add: div_less_iff_less_mult)
  then have "bit (sc_val s) i \<longleftrightarrow> bit (sc_limbs s ! (i div 64)) (i mod 64)"
    using assms by (simp add: sc_val_def bit_lval)
  then show ?thesis
    by (simp add: sc_bit_def and_one_eq mod_2_eq_odd bit_iff_odd_drop_bit)
qed

lemma sc_is_zero_val:
  assumes "sc_wf s"
  shows "sc_is_zero s = (if sc_val s = 0 then choice_TRUE else choice_FALSE)"
proof -
  have "length (sc_limbs s) = 4" using assms by (simp only: sc_wf_def)
  then obtain a b c d where l: "sc_limbs s = [a, b, c, d]"
    by (auto simp: length_Suc_conv numeral_eq_Suc)
  have "a OR b OR c OR d = 0 \<longleftrightarrow> sc_val s = 0"
    by (simp add: sc_val_def l unsigned_eq_0_iff or_eq_0_iff)
  moreover have "drop_bit 63 (v OR - v) XOR 1 = (of_bool (v = 0) :: u64)" for v
    using is_zero_u64_eq [of v] by (simp add: is_zero_u64_def Let_def)
  ultimately show ?thesis by (simp add: sc_is_zero_def l or.assoc Let_def)
qed

section \<open>Sums of signed digits\<close>

definition digit_sum :: "int \<Rightarrow> i8 list \<Rightarrow> nat \<Rightarrow> int" where
  "digit_sum b ds n = (\<Sum>i<n. sint (ds ! i) * b ^ i)"

lemma digit_sum_Suc [simp]: "digit_sum b ds (Suc n) = digit_sum b ds n + sint (ds ! n) * b ^ n"
  by (simp add: digit_sum_def)

lemma digit_sum_0 [simp]: "digit_sum b ds 0 = 0"
  by (simp add: digit_sum_def)

lemma digit_sum_cong: "(\<And>i. i < n \<Longrightarrow> ds ! i = es ! i) \<Longrightarrow> digit_sum b ds n = digit_sum b es n"
  by (simp add: digit_sum_def)

lemma digit_sum_update:
  assumes "k < n" "n \<le> length ds"
  shows "digit_sum b (ds[k := d]) n = digit_sum b ds n + (sint d - sint (ds ! k)) * b ^ k"
proof -
  have split: "digit_sum b es n = sint (es ! k) * b ^ k + (\<Sum>i\<in>{..<n} - {k}. sint (es ! i) * b ^ i)" for es
    unfolding digit_sum_def using assms(1) by (subst sum.remove [of _ k]) simp_all
  have "(\<Sum>i\<in>{..<n} - {k}. sint (ds[k := d] ! i) * b ^ i) = (\<Sum>i\<in>{..<n} - {k}. sint (ds ! i) * b ^ i)"
    by (rule sum.cong) auto
  then show ?thesis using assms unfolding split [of "ds[k := d]"] split [of ds] by (simp add: algebra_simps)
qed

section \<open>Radix 16\<close>

definition nibbles :: "bytes \<Rightarrow> i8 list" where
  "nibbles bs = concat (map (\<lambda>b. [b AND 0x0f, drop_bit 4 b AND 0x0f]) bs)"

lemma nibbles_length [simp]: "length (nibbles bs) = 2 * length bs"
  by (induction bs) (simp_all add: nibbles_def)

lemma nibble_val:
  "unat (b AND 15 :: u8) = unat b mod 16" "unat (drop_bit 4 b AND 15 :: u8) = unat b div 16"
proof -
  have m: "(15 :: u8) = semiring_bit_operations_class.mask 4" by (simp add: mask_eq_exp_minus_1)
  have a: "unat (w AND 15 :: u8) = unat w mod 16" for w
    unfolding m by (simp add: take_bit_eq_mask [symmetric] unsigned_take_bit_eq) (simp add: take_bit_eq_mod)
  show "unat (b AND 15 :: u8) = unat b mod 16" by (rule a)
  have "unat (drop_bit 4 b) = unat b div 16" using unat_drop_bit_eq [of 4 b] by (simp add: drop_bit_eq_div)
  then show "unat (drop_bit 4 b AND 15 :: u8) = unat b div 16"
    unfolding a using unat_bounds(1) [of b] by simp
qed

lemma nibble_digits_small: "d \<in> set (nibbles bs) \<Longrightarrow> unat d < 16"
  using unat_bounds(1) by (auto simp: nibbles_def nibble_val less_mult_imp_div_less)

lemma sint_of_int8: "- 128 \<le> k \<Longrightarrow> k < 128 \<Longrightarrow> sint (of_int k :: i8) = k"
  by (simp add: signed_of_int signed_take_bit_int_eq_self)

lemma small_sint:
  assumes "unat (d :: i8) < 128"
  shows "sint d = int (unat d)"
proof -
  have "int (unat d) < 128" using assms by linarith
  then have "sint (of_int (int (unat d)) :: i8) = int (unat d)" by (intro sint_of_int8) linarith+
  then show ?thesis by simp
qed

lemma nibble_int:
  "uint (b AND 15 :: u8) = int (unat b mod 16)" "unat (drop_bit 4 b :: u8) mod 16 = unat b div 16"
  using nibble_val(2) [of b] by (simp_all only: uint_nat nibble_val)

lemma nibbles_sum:
  "(\<Sum>i<2 * length bs. int (unat (nibbles bs ! i)) * 16 ^ i) = int (from_le bs)"
proof (induction bs rule: rev_induct)
  case (snoc b bs)
  have n: "nibbles (bs @ [b]) = nibbles bs @ [b AND 0x0f, drop_bit 4 b AND 0x0f]" by (simp add: nibbles_def)
  have gen: "a + int x * p + int y * (16 * p) = a + int (x + 16 * y) * p" for a p :: int and x y
    by (simp add: algebra_simps)
  have e: "2 * length (bs @ [b]) = Suc (Suc (2 * length bs))" by simp
  have "(\<Sum>i<2 * length bs. int (unat (nibbles (bs @ [b]) ! i)) * 16 ^ i) = int (from_le bs)"
    unfolding n snoc.IH [symmetric] by (rule sum.cong) (simp_all add: nth_append)
  then have "(\<Sum>i<2 * length (bs @ [b]). int (unat (nibbles (bs @ [b]) ! i)) * 16 ^ i) =
      int (from_le bs) + int (unat b mod 16) * 16 ^ (2 * length bs) + int (unat b div 16) * 16 ^ Suc (2 * length bs)"
    unfolding e lessThan_Suc by (simp add: n nth_append nibble_int)
  also have "\<dots> = int (from_le bs) + int (unat b mod 16 + 16 * (unat b div 16)) * 16 ^ (2 * length bs)"
    unfolding power_Suc gen ..
  also have "unat b mod 16 + 16 * (unat b div 16) = unat b" by simp
  also have "(16 :: int) ^ (2 * length bs) = 256 ^ length bs" by (simp add: power_mult)
  finally show ?case by (simp add: from_le_append)
qed simp

text \<open>One digit: sixteen values and two carries.\<close>

lemma radix16_digit:
  fixes d c :: i8
  assumes d: "unat d < 16" and c: "c = 0 \<or> c = 1"
  defines "c' \<equiv> signed_drop_bit 4 (d + c + 8)"
  shows "(c' = 0 \<or> c' = 1) \<and> sint (d + c - push_bit 4 c') + 16 * sint c' = int (unat d) + sint c \<and>
    - 8 \<le> sint (d + c - push_bit 4 c') \<and> sint (d + c - push_bit 4 c') < 8"
proof -
  let ?P = "\<lambda>(d :: i8, c). signed_drop_bit 4 (d + c + 8) \<in> {0, 1} \<and>
    sint (d + c - push_bit 4 (signed_drop_bit 4 (d + c + 8))) + 16 * sint (signed_drop_bit 4 (d + c + 8)) = int (unat d) + sint c \<and>
    - 8 \<le> sint (d + c - push_bit 4 (signed_drop_bit 4 (d + c + 8))) \<and>
    sint (d + c - push_bit 4 (signed_drop_bit 4 (d + c + 8))) < 8"
  have all: "\<forall>x\<in>set (List.product (map of_nat [0..<16]) [0, 1]). ?P x"
    by code_simp
  have "d \<in> set (map of_nat [0..<16])"
    unfolding set_map using d by (intro image_eqI [of _ _ "unat d"]) simp_all
  then have "(d, c) \<in> set (List.product (map of_nat [0..<16]) [0, 1])"
    using c by auto
  from bspec [OF all this] show ?thesis unfolding c'_def by simp
qed

lemma radix16_digits:
  assumes "length (sc_limbs s) = 4"
  shows "concat (map (\<lambda>i. [sc_to_bytes s ! i AND 0x0f, drop_bit 4 (sc_to_bytes s ! i) AND 0x0f]) [0..<32]) =
    nibbles (sc_to_bytes s)"
proof -
  have "map ((!) (sc_to_bytes s)) [0..<32] = sc_to_bytes s"
    using map_nth [of "sc_to_bytes s"] sc_to_bytes_length [OF assms] by simp
  then have "map (\<lambda>i. [sc_to_bytes s ! i AND 0x0f, drop_bit 4 (sc_to_bytes s ! i) AND 0x0f]) [0..<32] =
      map (\<lambda>b. [b AND 0x0f, drop_bit 4 b AND 0x0f]) (sc_to_bytes s)"
    by (metis (no_types, lifting) map_map comp_def map_eq_conv)
  then show ?thesis by (simp only: nibbles_def)
qed

lemma radix16_loop:
  assumes len: "length ds = 64" and small: "\<forall>i<64. unat (ds ! i) < 16"
  shows "k \<le> 63 \<Longrightarrow> foldl radix16_step (ds, 0) [0..<k] = (es, c) \<Longrightarrow>
    length es = 64 \<and> (c = 0 \<or> c = 1) \<and> (\<forall>i. k \<le> i \<longrightarrow> es ! i = ds ! i) \<and>
    (\<forall>i<k. - 8 \<le> sint (es ! i) \<and> sint (es ! i) < 8) \<and>
    digit_sum 16 es k + sint c * 16 ^ k = (\<Sum>i<k. int (unat (ds ! i)) * 16 ^ i)"
proof (induction k arbitrary: es c)
  case (Suc k)
  obtain o1 c1 where f: "foldl radix16_step (ds, 0) [0..<k] = (o1, c1)" by fastforce
  have IH: "length o1 = 64" "c1 = 0 \<or> c1 = 1" "\<forall>i. k \<le> i \<longrightarrow> o1 ! i = ds ! i"
    "\<forall>i<k. - 8 \<le> sint (o1 ! i) \<and> sint (o1 ! i) < 8"
    "digit_sum 16 o1 k + sint c1 * 16 ^ k = (\<Sum>i<k. int (unat (ds ! i)) * 16 ^ i)"
    using Suc.IH [OF _ f] Suc.prems(1) by simp_all
  let ?d = "ds ! k + c1 - push_bit 4 (signed_drop_bit 4 (ds ! k + c1 + 8))"
  have st: "es = o1[k := ?d]" "c = signed_drop_bit 4 (ds ! k + c1 + 8)"
    using Suc.prems(2) IH(3) unfolding foldl_upt_Suc f by (auto simp: radix16_step_def Let_def)
  have dk: "unat (ds ! k) < 16" using small Suc.prems(1) by simp
  note r = radix16_digit [OF dk IH(2), folded st(2)]
  have dq: "es ! k = ds ! k + c1 - push_bit 4 c" using st Suc.prems(1) IH(1) by simp
  have "digit_sum 16 es k = digit_sum 16 o1 k" by (rule digit_sum_cong) (simp add: st(1))
  then have "digit_sum 16 es (Suc k) + sint c * 16 ^ Suc k =
      digit_sum 16 o1 k + (sint (es ! k) + 16 * sint c) * 16 ^ k"
    by (simp add: algebra_simps)
  also have "sint (es ! k) + 16 * sint c = int (unat (ds ! k)) + sint c1" using r unfolding dq by blast
  also have "digit_sum 16 o1 k + (int (unat (ds ! k)) + sint c1) * 16 ^ k = (\<Sum>i<Suc k. int (unat (ds ! i)) * 16 ^ i)"
    using IH(5) by (simp add: algebra_simps)
  finally have sum: "digit_sum 16 es (Suc k) + sint c * 16 ^ Suc k = (\<Sum>i<Suc k. int (unat (ds ! i)) * 16 ^ i)" .
  have "\<forall>i<Suc k. - 8 \<le> sint (es ! i) \<and> sint (es ! i) < 8"
    using IH(4) r unfolding less_Suc_eq dq [symmetric] by (auto simp: st(1) dq [unfolded st(1)])
  moreover have "\<forall>i. Suc k \<le> i \<longrightarrow> es ! i = ds ! i" using IH(3) by (simp add: st(1))
  ultimately show ?case using IH(1) r sum by (simp only: st(1) length_list_update)
qed (use len in simp)

text \<open>The 64 digits sum to the scalar, and all but the last lie in \<open>[-8, 8)\<close>; the last is at most 2.\<close>

lemma radix16_val:
  assumes wf: "sc_wf s"
  shows "length (radix16 s) = 64" "digit_sum 16 (radix16 s) 64 = int (sc_val s)"
    "\<forall>i<64. - 8 \<le> sint (radix16 s ! i) \<and> sint (radix16 s ! i) \<le> 8"
proof -
  have l4: "length (sc_limbs s) = 4" and lt: "sc_val s < ORDER_L" using wf by (simp_all only: sc_wf_def)
  let ?ds = "nibbles (sc_to_bytes s)"
  have len: "length ?ds = 64" using sc_to_bytes_length [OF l4] by simp
  have small: "\<forall>i<64. unat (?ds ! i) < 16" 
    by (intro allI impI, rule nibble_digits_small [where bs = "sc_to_bytes s"], rule nth_mem) (use len in simp)
  obtain es c where f: "foldl radix16_step (?ds, 0) [0..<63] = (es, c)" by fastforce
  have r: "radix16 s = es[63 := es ! 63 + c]"
    unfolding radix16_def Let_def radix16_digits [OF l4] f by simp
  note l = radix16_loop [OF len small order_refl f]
  have e63: "es ! 63 = ?ds ! 63" using l by simp
  have total: "(\<Sum>i<64. int (unat (?ds ! i)) * 16 ^ i) = int (sc_val s)"
    using nibbles_sum [of "sc_to_bytes s"] sc_to_bytes_length [OF l4] by (simp add: sc_to_bytes_val)
  have split: "(\<Sum>i<64. int (unat (?ds ! i)) * 16 ^ i) =
      (\<Sum>i<63. int (unat (?ds ! i)) * 16 ^ i) + int (unat (?ds ! 63)) * 16 ^ 63"
    using sum.lessThan_Suc [of "\<lambda>i. int (unat (?ds ! i)) * 16 ^ i" 63] by simp
  have top: "unat (?ds ! 63) < 2"
  proof (rule ccontr)
    assume "\<not> ?thesis"
    then have "2 \<le> int (unat (?ds ! 63))" by linarith
    then have "2 * 16 ^ 63 \<le> int (unat (?ds ! 63)) * 16 ^ 63" by (rule mult_right_mono) simp
    also have "\<dots> \<le> int (sc_val s)" unfolding total [symmetric] split by (simp add: sum_nonneg)
    finally show False using lt by simp
  qed
  have c: "c = 0 \<or> c = 1" using l by blast
  have ub: "unat (?ds ! 63 + c) = unat (?ds ! 63) + unat c"
    using top c by (auto simp: unat_word_ariths)
  have u3: "unat (?ds ! 63 + c) \<le> 2" unfolding ub using top c by auto
  then have s63: "sint (?ds ! 63 + c) = int (unat (?ds ! 63)) + sint c"
    using small_sint [of "?ds ! 63 + c"] small_sint [of c] c unfolding ub by auto
  show "length (radix16 s) = 64" using l by (simp add: r)
  have "digit_sum 16 (radix16 s) 64 = digit_sum 16 (radix16 s) 63 + sint (radix16 s ! 63) * 16 ^ 63"
    using digit_sum_Suc [of 16 "radix16 s" 63] by simp
  also have "digit_sum 16 (radix16 s) 63 = digit_sum 16 es 63" by (rule digit_sum_cong) (simp add: r)
  also have r63: "sint (radix16 s ! 63) = int (unat (?ds ! 63)) + sint c" using l by (simp add: r e63 s63)
  finally show "digit_sum 16 (radix16 s) 64 = int (sc_val s)"
    using l unfolding total [symmetric] split by (simp add: algebra_simps)
  show "\<forall>i<64. - 8 \<le> sint (radix16 s ! i) \<and> sint (radix16 s ! i) \<le> 8"
  proof (intro allI impI)
    fix i :: nat assume "i < 64"
    then consider "i < 63" | "i = 63" by linarith
    then show "- 8 \<le> sint (radix16 s ! i) \<and> sint (radix16 s ! i) \<le> 8"
    proof cases
      case 1
      then show ?thesis using l by (auto simp: r)
    next
      case 2
      have "int (unat (?ds ! 63)) \<le> 1" using top by linarith
      moreover have "sint c = 0 \<or> sint c = 1" using c by auto
      ultimately show ?thesis unfolding 2 r63 by linarith
    qed
  qed
qed

section \<open>The non-adjacent form\<close>

lemma push_one_mask: "push_bit w 1 - 1 = (semiring_bit_operations_class.mask w :: u64)"
  by (simp add: mask_eq_exp_minus_1 push_bit_eq_mult)

text \<open>The window at \<open>pos\<close> is the next \<open>w\<close> bits of the scalar, plus the carry.\<close>

lemma naf_bits:
  assumes len: "length x = 5" and pos: "pos < 256" and w: "1 \<le> w" "w \<le> 8"
  defines "l \<equiv> pos div 64" and "b \<equiv> pos mod 64"
  shows "unat ((if b < 64 - w then drop_bit b (x ! l)
      else drop_bit b (x ! l) OR push_bit (64 - b) (x ! (l + 1))) AND (push_bit w 1 - 1)) =
    take_bit w (drop_bit pos (lval x))"
    (is "unat (?v AND _) = _")
proof (rule bit_eqI)
  fix k
  have b: "b < 64" and l: "l < 4" and pb: "pos = 64 * l + b"
    using pos by (simp_all add: l_def b_def)
  have in1: "(pos + k) div 64 = l" "(pos + k) mod 64 = b + k" if "b + k < 64"
    using that unfolding pb by (simp_all add: add.assoc)
  have in2: "(pos + k) div 64 = l + 1" "(pos + k) mod 64 = b + k - 64" if "64 \<le> b + k" "k < 8"
  proof -
    have split: "(64 * q + r) div 64 = q" "(64 * q + r) mod 64 = r" if "r < 64" for q r :: nat
      using that by simp_all
    have "pos + k = 64 * (l + 1) + (b + k - 64)" "b + k - 64 < 64" using that b pb by simp_all
    with split [of "b + k - 64" "l + 1"]
    show "(pos + k) div 64 = l + 1" "(pos + k) mod 64 = b + k - 64" by simp_all
  qed
  have xbit: "bit (lval x) (pos + k) \<longleftrightarrow> bit (x ! ((pos + k) div 64)) ((pos + k) mod 64)" if "k < 8"
  proof -
    have "(pos + k) div 64 < 5" using pos that by simp
    then show ?thesis by (simp add: bit_lval len)
  qed
  have v: "bit ?v k \<longleftrightarrow> bit (lval x) (pos + k)" if "k < w"
  proof (cases "b + k < 64")
    case True
    have "k < 8" using that w by simp
    with True in1 [OF True] xbit show ?thesis
      by (auto simp: bit_or_iff bit_drop_bit_eq bit_push_bit_iff)
  next
    case False
    then have f: "64 \<le> b + k" "k < 8" "\<not> b < 64 - w" using that w by simp_all
    have hi: "\<not> bit (x ! l) (b + k)" using f bit_imp_le_length [of "x ! l" "b + k"] by auto
    have "k - (64 - b) = b + k - 64" "64 - b \<le> k" "k < 64" using f b by simp_all
    with f hi in2 [OF f(1,2)] xbit show ?thesis
      by (simp add: bit_or_iff bit_drop_bit_eq bit_push_bit_iff)
  qed
  have "bit (unat (?v AND (push_bit w 1 - 1))) k \<longleftrightarrow> k < w \<and> bit ?v k"
    unfolding push_one_mask using w by (auto simp: bit_unsigned_iff bit_and_iff bit_mask_iff)
  also have "\<dots> \<longleftrightarrow> bit (take_bit w (drop_bit pos (lval x))) k"
    using v by (auto simp: bit_take_bit_iff bit_drop_bit_eq)
  finally show "bit (unat (?v AND (push_bit w 1 - 1))) k \<longleftrightarrow> bit (take_bit w (drop_bit pos (lval x))) k" .
qed

lemma naf_window_val:
  assumes "length x = 5" "pos < 256" "1 \<le> w" "w \<le> 8" "c = 0 \<or> c = 1"
  shows "unat (naf_window w x pos c) = unat c + (lval x div 2 ^ pos) mod 2 ^ w"
proof -
  have n: "take_bit w (drop_bit pos (lval x)) = (lval x div 2 ^ pos) mod 2 ^ w"
    by (simp add: take_bit_eq_mod drop_bit_eq_div)
  have "(2 :: nat) ^ w \<le> 2 ^ 8" using assms(4) by (intro power_increasing) simp_all
  then have small: "(lval x div 2 ^ pos) mod 2 ^ w < 256"
    by (intro order_less_le_trans [OF mod_less_divisor]) simp_all
  show ?thesis
    unfolding naf_window_def Let_def
    by (subst unat_add64) (use naf_bits [OF assms(1-4)] n small assms(5) in auto)
qed

text \<open>
  What holds before each round at position \<open>pos\<close>: the digits emitted so far, plus the carry and
  the unread bits, make up the scalar; the rest of the array is still zero.
\<close>

definition naf_digit :: "nat \<Rightarrow> i8 \<Rightarrow> bool" where
  "naf_digit w d \<longleftrightarrow> d = 0 \<or> (odd (sint d) \<and> - (2 ^ (w - 1)) < sint d \<and> sint d < 2 ^ (w - 1))"

definition naf_inv :: "nat \<Rightarrow> nat \<Rightarrow> nat \<Rightarrow> u64 \<Rightarrow> i8 list \<Rightarrow> bool" where
  "naf_inv w v pos c naf \<longleftrightarrow> length naf = 256 \<and> (c = 0 \<or> c = 1) \<and> (256 \<le> pos \<longrightarrow> c = 0) \<and>
     (\<forall>i<256. pos \<le> i \<longrightarrow> naf ! i = 0) \<and> (\<forall>i<256. naf_digit w (naf ! i)) \<and>
     digit_sum 2 naf 256 + (int (v div 2 ^ pos) + int (unat c)) * 2 ^ pos = int v"

lemma naf_emit:
  assumes inv: "naf_inv w v pos c naf" and pos: "pos < 256"
    and d: "int (v div 2 ^ pos) + int (unat c) = sint d + 2 ^ w * (int (v div 2 ^ (pos + w)) + int (unat c'))"
    and dig: "naf_digit w d" and w: "1 \<le> w" and c': "c' = 0 \<or> c' = 1" "256 \<le> pos + w \<longrightarrow> c' = 0"
  shows "naf_inv w v (pos + w) c' (naf[pos := d])"
proof -
  note i = inv [unfolded naf_inv_def]
  have z: "naf ! pos = 0" and len: "length naf = 256" using i pos by simp_all
  have gen: "a + b * p + e * (p * q) = a + (b + q * e) * p" for a b e p q :: int
    by (simp add: algebra_simps)
  have "digit_sum 2 (naf[pos := d]) 256 = digit_sum 2 naf 256 + sint d * 2 ^ pos"
    using digit_sum_update [of pos 256 naf 2 d] pos len z by simp
  then have "digit_sum 2 (naf[pos := d]) 256 + (int (v div 2 ^ (pos + w)) + int (unat c')) * 2 ^ (pos + w) =
      digit_sum 2 naf 256 + (sint d + 2 ^ w * (int (v div 2 ^ (pos + w)) + int (unat c'))) * 2 ^ pos"
    unfolding power_add gen [symmetric] by (simp only:)
  also have "\<dots> = int v" unfolding d [symmetric] using i by blast
  finally have "digit_sum 2 (naf[pos := d]) 256 + (int (v div 2 ^ (pos + w)) + int (unat c')) * 2 ^ (pos + w) = int v" .
  moreover have "\<forall>i<256. naf_digit w (naf[pos := d] ! i)" using i dig len pos by (auto simp: nth_list_update)
  moreover have "\<forall>i<256. pos + w \<le> i \<longrightarrow> naf[pos := d] ! i = 0"
  proof (intro allI impI)
    fix k :: nat assume "k < 256" "pos + w \<le> k"
    then show "naf[pos := d] ! k = 0"
      using i dig len pos d c' w by (cases "k = pos") (auto simp: naf_digit_def)
  qed
  ultimately show ?thesis unfolding naf_inv_def using len c' by simp
qed

lemma div_pow_split: "(v :: nat) div 2 ^ pos = v div 2 ^ pos mod 2 ^ w + 2 ^ w * (v div 2 ^ (pos + w))"
  by (simp add: power_add div_mult2_eq)

lemma naf_skip:
  assumes inv: "naf_inv w v pos c naf" and pos: "pos < 256" and w: "1 \<le> w" and v: "v < 2 ^ 253"
    and even: "even (v div 2 ^ pos mod 2 ^ w + unat c)"
  shows "naf_inv w v (pos + 1) c naf"
proof -
  note i = inv [unfolded naf_inv_def]
  let ?u = "v div 2 ^ pos"
  have "even (?u mod 2 ^ w) \<longleftrightarrow> even ?u" using w by (simp add: dvd_mod_iff)
  with even have ev: "even (?u + unat c)" by simp
  have half: "int ?u + int (unat c) = 2 * (int (v div 2 ^ (pos + 1)) + int (unat c))"
  proof -
    have "v div 2 ^ (pos + 1) = ?u div 2" by (simp add: div_mult2_eq [symmetric] mult.commute)
    moreover have "?u + unat c = 2 * (?u div 2 + unat c)" using ev i by (auto elim!: evenE oddE)
    ultimately have "int (?u + unat c) = int (2 * (v div 2 ^ (pos + 1) + unat c))" by (simp only:)
    then show ?thesis by (simp only: of_nat_add of_nat_mult of_nat_numeral)
  qed
  have "digit_sum 2 naf 256 + (int (v div 2 ^ (pos + 1)) + int (unat c)) * 2 ^ (pos + 1) =
      digit_sum 2 naf 256 + (2 * (int (v div 2 ^ (pos + 1)) + int (unat c))) * 2 ^ pos"
    by simp
  also have "\<dots> = int v" unfolding half [symmetric] using i by blast
  finally have s: "digit_sum 2 naf 256 + (int (v div 2 ^ (pos + 1)) + int (unat c)) * 2 ^ (pos + 1) = int v" .
  have "c = 0" if "256 \<le> pos + 1"
  proof -
    have "pos = 255" using pos that by simp
    have "?u = 0" unfolding \<open>pos = 255\<close> by (rule div_less) (use v in simp)
    then show ?thesis using ev i by auto
  qed
  then show ?thesis unfolding naf_inv_def using i s by auto
qed

lemma naf_last_window:
  fixes v :: nat
  assumes w: "2 \<le> w" "w \<le> 8" and v: "v < 2 ^ 253" and pos: "256 \<le> pos + w"
    and c: "c \<le> 1" and big: "2 ^ (w - 1) \<le> v div 2 ^ pos mod 2 ^ w + c"
  shows False
proof -
  have two: "(2 :: nat) ^ (w - 1) = 2 * 2 ^ (w - 2)" using w(1) by (simp flip: power_Suc add: Suc_diff_Suc numeral_2_eq_2)
  have one: "(1 :: nat) \<le> 2 ^ (w - 2)" by simp
  have "v div 2 ^ pos mod 2 ^ w \<le> v div 2 ^ pos" by simp
  with big c two one have "2 ^ (w - 2) \<le> v div 2 ^ pos" by linarith
  also have "\<dots> \<le> v div 2 ^ (256 - w)" using pos by (intro div_le_mono2 power_increasing) simp_all
  finally have "2 ^ (w - 2) * 2 ^ (256 - w) \<le> v" by (simp add: less_eq_div_iff_mult_less_eq)
  moreover have "(2 :: nat) ^ (w - 2) * 2 ^ (256 - w) = 2 ^ 254"
  proof -
    have "w - 2 + (256 - w) = 254" using w by simp
    then show ?thesis by (simp only: power_add [symmetric])
  qed
  ultimately show False using v by simp
qed

text \<open>The two digits a round can emit.\<close>

lemma ucast_of_int8: "(ucast (of_int k :: 16 word) :: i8) = of_int k"
  by (rule bit_word_eqI) (simp add: bit_simps)

lemma naf_pos_digit:
  assumes "2 \<le> w" "w \<le> 8" "odd (unat window)" "unat window < 2 ^ (w - 1)"
  shows "sint (ucast (window :: u64) :: i8) = int (unat window)" "naf_digit w (ucast window)"
proof -
  have "(2 :: nat) ^ (w - 1) \<le> 2 ^ 7" using assms(2) by (intro power_increasing) simp_all
  then have lt: "unat window < 128" using assms(4) by simp
  have u: "(ucast window :: i8) = of_int (int (unat window))" by simp
  show s: "sint (ucast window :: i8) = int (unat window)"
    unfolding u by (rule sint_of_int8) (use lt in linarith)+
  have p: "int (unat window) < 2 ^ (w - 1)" using assms(4) by (metis of_nat_less_iff of_nat_numeral of_nat_power)
  have "- (2 ^ (w - 1)) < (0 :: int)" by simp
  then have "- (2 ^ (w - 1)) < int (unat window)" by linarith
  moreover have "odd (int (unat window))" using assms(3) by presburger
  ultimately show "naf_digit w (ucast window)" unfolding naf_digit_def s using p by blast
qed

lemma naf_neg_digit:
  assumes "2 \<le> w" "w \<le> 8" "odd (unat window)" "2 ^ (w - 1) \<le> unat window" "unat window \<le> 2 ^ w"
  defines "d \<equiv> ucast ((ucast (window :: u64) :: 16 word) - ucast (push_bit w 1 :: u64)) :: i8"
  shows "sint d = int (unat window) - 2 ^ w" "naf_digit w d"
proof -
  have pow: "(2 :: int) ^ w = 2 * 2 ^ (w - 1)" using assms(1) by (simp flip: power_Suc)
  have "(2 :: int) ^ (w - 1) \<le> 2 ^ 7" using assms(2) by (intro power_increasing) simp_all
  then have le: "(2 :: int) ^ (w - 1) \<le> 128" by simp
  have lo: "2 ^ (w - 1) \<le> int (unat window)" "int (unat window) \<le> 2 ^ w"
    using assms(4,5) by (metis of_nat_le_iff of_nat_numeral of_nat_power)+
  have "even ((2 :: nat) ^ w)" using assms(1) by simp
  then have "unat window \<noteq> 2 ^ w" using assms(3) by metis
  then have lt: "int (unat window) < 2 ^ w" using lo(2) by (metis of_nat_eq_iff of_nat_numeral of_nat_power order_le_less)
  have "(ucast (push_bit w 1 :: u64) :: 16 word) = push_bit w 1"
    by (rule bit_word_eqI) (auto simp: bit_simps)
  then have "(ucast (push_bit w 1 :: u64) :: 16 word) = of_int (2 ^ w)"
    by (simp add: push_bit_eq_mult)
  moreover have "(ucast window :: 16 word) = of_int (int (unat window))" by simp
  ultimately have "d = ucast (of_int (int (unat window) - 2 ^ w) :: 16 word)"
    unfolding d_def by (simp only: of_int_diff)
  also have "\<dots> = of_int (int (unat window) - 2 ^ w)" by (rule ucast_of_int8)
  finally show s: "sint d = int (unat window) - 2 ^ w"
    using sint_of_int8 [of "int (unat window) - 2 ^ w"] lo lt le pow by simp
  have odd: "odd (int (unat window) - 2 ^ w)"
  proof
    assume "even (int (unat window) - 2 ^ w)"
    then have "even (int (unat window) - 2 ^ w + 2 ^ w)" using assms(1) by (intro dvd_add) simp_all
    then have "even (int (unat window))" by (simp only: diff_add_cancel)
    then show False using assms(3) by presburger
  qed
  have "int (unat window) - 2 ^ w \<noteq> - (2 ^ (w - 1))"
  proof
    assume "int (unat window) - 2 ^ w = - (2 ^ (w - 1))"
    moreover have "even ((2 :: int) ^ (w - 1))" using assms(1) by simp
    ultimately show False using odd by simp
  qed
  with lo lt pow have "- (2 ^ (w - 1)) < int (unat window) - 2 ^ w" "int (unat window) - 2 ^ w < 2 ^ (w - 1)"
    by linarith+
  with odd show "naf_digit w d" unfolding naf_digit_def s by blast
qed

lemma naf_loop_inv:
  assumes w: "2 \<le> w" "w \<le> 8" and v: "lval x < 2 ^ 253" and len: "length x = 5"
  shows "naf_inv w (lval x) pos c naf \<Longrightarrow> \<exists>pos'\<ge>256. naf_inv w (lval x) pos' 0 (naf_loop w x pos c naf)"
proof (induction "256 - pos" arbitrary: pos c naf rule: less_induct)
  case less
  note inv = less.prems
  show ?case
  proof (cases "256 \<le> pos")
    case True
    then have "c = 0" using inv by (simp add: naf_inv_def)
    then show ?thesis using True inv w by (subst naf_loop.simps) auto
  next
    case False
    then have pos: "pos < 256" by simp
    let ?W = "naf_window w x pos c" and ?u = "lval x div 2 ^ pos mod 2 ^ w"
    have c: "c = 0 \<or> c = 1" using inv by (simp add: naf_inv_def)
    have W: "unat ?W = ?u + unat c"
      using naf_window_val [OF len pos _ w(2) c] w(1) by simp
    have rad: "unat (push_bit w 1 div 2 :: u64) = 2 ^ (w - 1)"
    proof -
      have "(2 :: nat) ^ w \<le> 2 ^ 8" using w by (intro power_increasing) simp_all
      then have "unat (push_bit w 1 :: u64) = 2 ^ w"
        by (simp only: unsigned_push_bit_eq) (use w in \<open>simp add: take_bit_nat_eq_self push_bit_eq_mult\<close>)
      then have "unat (push_bit w 1 div 2 :: u64) = 2 ^ w div 2" by (simp add: unat_div)
      also have "(2 :: nat) ^ w div 2 = 2 ^ (w - 1)" using w by (cases w) simp_all
      finally show ?thesis .
    qed
    have even: "?W AND 1 = 0 \<longleftrightarrow> even (unat ?W)"
    proof -
      have "bit (unat ?W) 0 \<longleftrightarrow> bit ?W 0" by (simp only: bit_unsigned_iff) simp
      then show ?thesis by (simp add: and_one_eq mod_2_eq_odd bit_0)
    qed
    have u: "int (lval x div 2 ^ pos) + int (unat c) = int (unat ?W) + 2 ^ w * int (lval x div 2 ^ (pos + w))"
    proof -
      have "int (lval x div 2 ^ pos) = int ?u + 2 ^ w * int (lval x div 2 ^ (pos + w))"
        using arg_cong [OF div_pow_split [of "lval x" pos w], of int]
        by (simp only: of_nat_add of_nat_mult of_nat_power of_nat_numeral)
      then show ?thesis unfolding W by (simp only: of_nat_add add_ac)
    qed
    show ?thesis
    proof (cases "even (unat ?W)")
      case True
      have "naf_inv w (lval x) (pos + 1) c naf"
        using naf_skip [OF inv pos _ v] True w(1) by (simp add: W)
      from less.hyps [OF _ this] show ?thesis
        using pos w even True by (subst naf_loop.simps) (auto simp: Let_def)
    next
      case odd: False
      have w1: "1 \<le> w" using w by simp
      show ?thesis
      proof (cases "unat ?W < 2 ^ (w - 1)")
        case True
        note d = naf_pos_digit [OF w odd True]
        have "naf_inv w (lval x) (pos + w) 0 (naf[pos := ucast ?W])"
          by (rule naf_emit [OF inv pos _ d(2) w1]) (use u d(1) in simp_all)
        from less.hyps [OF _ this] show ?thesis
          using pos w even odd True rad by (subst naf_loop.simps) (auto simp: Let_def word_less_nat_alt)
      next
        case False
        have ub: "unat ?W \<le> 2 ^ w"
        proof -
          have "?u < 2 ^ w" by (rule mod_less_divisor) simp
          moreover have "unat c \<le> 1" using c by auto
          ultimately show ?thesis unfolding W by linarith
        qed
        note d = naf_neg_digit [OF w odd _ ub]
        have big: "2 ^ (w - 1) \<le> unat ?W" using False by simp
        have "\<not> 256 \<le> pos + w"
          using naf_last_window [OF w v, of pos "unat c"] c big unfolding W by auto
        then have "naf_inv w (lval x) (pos + w) 1 (naf[pos := ucast ((ucast ?W :: 16 word) - ucast (push_bit w 1 :: u64))])"
          by (intro naf_emit [OF inv pos _ d(2) [OF big] w1]) (use u d(1) [OF big] in \<open>simp_all add: algebra_simps\<close>)
        from less.hyps [OF _ this] show ?thesis
          using pos w even odd False rad by (subst naf_loop.simps) (auto simp: Let_def word_less_nat_alt)
      qed
    qed
  qed
qed

text \<open>The non-adjacent form sums to the scalar and has only zero and odd digits of its width.\<close>

lemma non_adjacent_form_val:
  assumes w: "2 \<le> w" "w \<le> 8" and wf: "sc_wf s"
  shows "length (non_adjacent_form s w) = 256" "digit_sum 2 (non_adjacent_form s w) 256 = int (sc_val s)"
    "\<forall>i<256. naf_digit w (non_adjacent_form s w ! i)"
proof -
  let ?x = "sc_limbs s @ [0]"
  have x: "lval ?x = sc_val s" "length ?x = 5" using wf by (simp_all add: sc_val_def sc_wf_def lval_append)
  have "sc_val s < ORDER_L" using wf by (simp only: sc_wf_def)
  then have v: "lval ?x < 2 ^ 253" unfolding x by simp
  have "naf_inv w (lval ?x) 0 0 (replicate 256 0)"
  proof -
    have "digit_sum 2 (replicate 256 0) n = 0" if "n \<le> 256" for n
      using that by (induction n) simp_all
    then show ?thesis by (simp add: naf_inv_def naf_digit_def)
  qed
  from naf_loop_inv [OF w v x(2) this] obtain pos where
    pos: "256 \<le> pos" and inv: "naf_inv w (sc_val s) pos 0 (non_adjacent_form s w)"
    unfolding non_adjacent_form_def x(1) by blast
  have "sc_val s < 2 ^ pos"
    using v power_increasing [of 253 pos "2 :: nat"] pos unfolding x by simp
  then have "sc_val s div 2 ^ pos = 0" by simp
  with inv show "length (non_adjacent_form s w) = 256" "digit_sum 2 (non_adjacent_form s w) 256 = int (sc_val s)"
    "\<forall>i<256. naf_digit w (non_adjacent_form s w ! i)"
    unfolding naf_inv_def by simp_all
qed

section \<open>Properties\<close>

text \<open>
  C38. The scalar code is arithmetic modulo the group order: Barrett reduction of 64 and 32 bytes and
  of a double-width product gives the remainder, the result is always reduced, and
  \<open>from_canonical_bytes\<close> accepts exactly the encodings of reduced scalars.
\<close>

theorem scalar_arithmetic:
  assumes "sc_wf a" and "sc_wf b" and "sc_wf c" and "length wide64 = 64" and "length bs = 32"
  shows "sc_wf (mul_add a b c) \<and> sc_val (mul_add a b c) = (sc_val a * sc_val b + sc_val c) mod ORDER_L \<and>
    sc_wf (from_wide_bytes wide64) \<and> sc_val (from_wide_bytes wide64) = from_le wide64 mod ORDER_L \<and>
    sc_wf (from_bytes_mod_order bs) \<and> sc_val (from_bytes_mod_order bs) = from_le bs mod ORDER_L \<and>
    (from_canonical_bytes bs = Some s \<longleftrightarrow> sc_wf s \<and> sc_to_bytes s = bs) \<and>
    from_le (sc_to_bytes a) = sc_val a \<and> is_set (sc_is_zero a) = (sc_val a = 0)"
  using mul_add_val [OF assms(1-3)] from_wide_bytes_val [OF assms(4)] from_bytes_mod_order_val [OF assms(5)]
    from_canonical_bytes_iff [OF assms(5)] sc_to_bytes_val [of a] sc_is_zero_val [OF assms(1)]
  by (cases "sc_val a = 0") (simp_all only: choice_sel if_True if_False simp_thms)

theorem scalar_arithmetic_witness:
  "sc_val (mul_add (Scalar [5, 0, 0, 0]) (Scalar [0, 1, 0, 0]) (Scalar [7, 0, 0, 0])) = (5 * B64 + 7) mod ORDER_L"
proof -
  have "sc_wf (Scalar [5, 0, 0, 0])" "sc_wf (Scalar [0, 1, 0, 0])" "sc_wf (Scalar [7, 0, 0, 0])"
    by (simp_all add: sc_wf_def sc_val_def)
  from scalar_arithmetic [OF this, of "replicate 64 0" "replicate 32 0"] show ?thesis
    by (simp add: sc_val_def)
qed

text \<open>
  Both signed-digit expansions represent the scalar: 64 digits in \<open>[-8, 8]\<close> to base 16, and 256
  digits to base 2 that are zero or odd and below \<open>2^(w-1)\<close> in absolute value, for every width the
  code admits.
\<close>

theorem scalar_expansions:
  assumes "sc_wf s" and "2 \<le> w" and "w \<le> 8"
  shows "length (radix16 s) = 64 \<and> (\<Sum>i<64. sint (radix16 s ! i) * 16 ^ i) = int (sc_val s) \<and>
    list_all (\<lambda>d. - 8 \<le> sint d \<and> sint d \<le> 8) (radix16 s) \<and>
    length (non_adjacent_form s w) = 256 \<and> (\<Sum>i<256. sint (non_adjacent_form s w ! i) * 2 ^ i) = int (sc_val s) \<and>
    list_all (\<lambda>d. d = 0 \<or> (odd (sint d) \<and> - (2 ^ (w - 1)) < sint d \<and> sint d < 2 ^ (w - 1))) (non_adjacent_form s w)"
  using radix16_val [OF assms(1)] non_adjacent_form_val [OF assms(2,3,1)]
  by (simp add: digit_sum_def naf_digit_def list_all_length)

theorem scalar_expansions_witness:
  "(\<Sum>i<256. sint (non_adjacent_form (Scalar [0xdeadbeef, 77, 0, 1]) 5 ! i) * 2 ^ i) =
    int (sc_val (Scalar [0xdeadbeef, 77, 0, 1]))"
proof -
  have "sc_wf (Scalar [0xdeadbeef, 77, 0, 1])" by (simp add: sc_wf_def sc_val_def)
  from scalar_expansions [OF this, of 5] show ?thesis by simp
qed

end
