(* ===== verification/EdwardsMul.thy ===== *)
theory EdwardsMul
  imports EdwardsGroup ScalarDigits
begin

text \<open>
  The scalar multiplications of edwards/: the tables of tables.rs, the constant-time digit selection
  and the two fixed-window routines of scalar_mul.rs, and the interleaved variable-time routines of
  vartime.rs. Each is shown to compute the multiple of the point in the group of the curve.
\<close>

section \<open>The base point\<close>

lemma base_coordinates:
  "fe_value (ep_x ED_BASEPOINT) = 15112221349535400772501151409588531511454012693041857206046113283949847762202"
  "fe_value (ep_y ED_BASEPOINT) = 46316835694926478169428394003475163141307993866256225615783033603165251855960"
  "fe_value (ep_t ED_BASEPOINT) = 46827403850823179245072216630277197565144205554125654976674165829533817101731"
  by (simp_all add: ED_BASEPOINT_def val5_def)

lemma base_products:
  "(15112221349535400772501151409588531511454012693041857206046113283949847762202 * 46316835694926478169428394003475163141307993866256225615783033603165251855960 :: nat) mod P25519 = 46827403850823179245072216630277197565144205554125654976674165829533817101731 mod P25519"
  "(37095705934669439343138083508754565189542113879843219016388785533085940283555 * 46827403850823179245072216630277197565144205554125654976674165829533817101731 :: nat) mod P25519 = 25118807164114332256265917848056083839023238678420704602006751320993253119284 mod P25519"
  "(46316835694926478169428394003475163141307993866256225615783033603165251855960 * 46316835694926478169428394003475163141307993866256225615783033603165251855960 :: nat) mod P25519 =
    (15112221349535400772501151409588531511454012693041857206046113283949847762202 * 15112221349535400772501151409588531511454012693041857206046113283949847762202 + 1 + 25118807164114332256265917848056083839023238678420704602006751320993253119284 * 46827403850823179245072216630277197565144205554125654976674165829533817101731) mod P25519"
proof -
  have mod: "a = b + P25519 * q \<Longrightarrow> a mod P25519 = b mod P25519" for a b q by simp
  have e: "oct_mult 15112221349535400772501151409588531511454012693041857206046113283949847762202 46316835694926478169428394003475163141307993866256225615783033603165251855960 = 46827403850823179245072216630277197565144205554125654976674165829533817101731 + oct_mult 57896044618658097711785492504343953926634992332820282019728792003956564819949 12089777079628320618000921127670825209163210154433485764836890627159878209761"
    "oct_mult 37095705934669439343138083508754565189542113879843219016388785533085940283555 46827403850823179245072216630277197565144205554125654976674165829533817101731 = 25118807164114332256265917848056083839023238678420704602006751320993253119284 + oct_mult 57896044618658097711785492504343953926634992332820282019728792003956564819949 30003700846505358424289486359486289811375540775334649234022936541361668109129"
    "oct_mult 46316835694926478169428394003475163141307993866256225615783033603165251855960 46316835694926478169428394003475163141307993866256225615783033603165251855960 = oct_mult 15112221349535400772501151409588531511454012693041857206046113283949847762202 15112221349535400772501151409588531511454012693041857206046113283949847762202 + 1 + oct_mult 25118807164114332256265917848056083839023238678420704602006751320993253119284 46827403850823179245072216630277197565144205554125654976674165829533817101731 + oct_mult 57896044618658097711785492504343953926634992332820282019728792003956564819949 12792264345980041323645621918455654963646965613193308165563326289630249384859"
    by (simp_all only: oct_rules)
  show "(15112221349535400772501151409588531511454012693041857206046113283949847762202 * 46316835694926478169428394003475163141307993866256225615783033603165251855960 :: nat) mod P25519 = 46827403850823179245072216630277197565144205554125654976674165829533817101731 mod P25519"
    "(37095705934669439343138083508754565189542113879843219016388785533085940283555 * 46827403850823179245072216630277197565144205554125654976674165829533817101731 :: nat) mod P25519 = 25118807164114332256265917848056083839023238678420704602006751320993253119284 mod P25519"
    "(46316835694926478169428394003475163141307993866256225615783033603165251855960 * 46316835694926478169428394003475163141307993866256225615783033603165251855960 :: nat) mod P25519 =
      (15112221349535400772501151409588531511454012693041857206046113283949847762202 * 15112221349535400772501151409588531511454012693041857206046113283949847762202 + 1 + 25118807164114332256265917848056083839023238678420704602006751320993253119284 * 46827403850823179245072216630277197565144205554125654976674165829533817101731) mod P25519"
    using mod [OF e(1) [unfolded oct_mult_val, folded P25519_eq]] mod [OF e(2) [unfolded oct_mult_val, folded P25519_eq]]
      mod [OF e(3) [unfolded oct_mult_val, folded P25519_eq]] .
qed

lemma base_on_curve:
  "gfv (ep_t ED_BASEPOINT) = gfv (ep_x ED_BASEPOINT) * gfv (ep_y ED_BASEPOINT)"
  "\<exists>P. px P = gfv (ep_x ED_BASEPOINT) \<and> py P = gfv (ep_y ED_BASEPOINT)"
proof -
  let ?x = "gfv (ep_x ED_BASEPOINT)" and ?y = "gfv (ep_y ED_BASEPOINT)" and ?t = "gfv (ep_t ED_BASEPOINT)"
  note eqs = base_products [folded of_nat_gf_eq, unfolded of_nat_mult of_nat_add of_nat_1,
    folded base_coordinates, folded gfv_def ed_d_value]
  show t: "?t = ?x * ?y" by (rule eqs(1) [symmetric])
  have "?y * ?y = ?x * ?x + 1 + ed_d * ?t * ?t" unfolding eqs(2) by (rule eqs(3))
  then have "?y * ?y - ?x * ?x = 1 + ed_d * ?t * ?t" by (simp only: diff_eq_eq add_ac)
  then show "\<exists>P. px P = ?x \<and> py P = ?y" unfolding t by (rule point_obtain) blast
qed

definition base_point :: point where
  "base_point = Abs_point (gfv (ep_x ED_BASEPOINT), gfv (ep_y ED_BASEPOINT))"

lemma base_point_xy: "px base_point = gfv (ep_x ED_BASEPOINT)" "py base_point = gfv (ep_y ED_BASEPOINT)"
proof -
  obtain P where P: "px P = gfv (ep_x ED_BASEPOINT)" "py P = gfv (ep_y ED_BASEPOINT)" using base_on_curve(2) by blast
  then have "base_point = P" by (simp add: base_point_def px_def py_def Rep_point_inverse flip: P)
  then show "px base_point = gfv (ep_x ED_BASEPOINT)" "py base_point = gfv (ep_y ED_BASEPOINT)" using P by simp_all
qed

lemma ep_is_BASEPOINT [point_intro]: "ep_is ED_BASEPOINT base_point"
proof -
  have "fe_ok (ep_x ED_BASEPOINT)" "fe_ok (ep_y ED_BASEPOINT)" "fe_ok (ep_t ED_BASEPOINT)"
    "ep_z ED_BASEPOINT = fe_ONE" by (simp_all add: ED_BASEPOINT_def)
  then show ?thesis unfolding ep_is_def base_point_xy base_on_curve(1) by (simp add: fe_simps)
qed

section \<open>Tables of multiples\<close>

lemma ep_is_subst: "ep_is e P \<Longrightarrow> P = Q \<Longrightarrow> ep_is e Q"
  by simp

lemma smul_Suc: "smul (int (Suc n)) P = smul (int n) P + P"
  using smul_add [of "int n" 1 P] by (simp add: add.commute)

lemma add_table_is:
  assumes "ep_is e P" and "ep_is s Q" and "0 < n"
  shows "length (add_table n e s) = n" "\<forall>i<n. ep_is (add_table n e s ! i) (P + smul (int i) Q)"
proof -
  let ?f = "\<lambda>table i. table[i := ep_add (table ! (i - 1)) s]"
  have "k < n \<Longrightarrow> length (foldl ?f ((replicate n ep_IDENTITY)[0 := e]) [1..<Suc k]) = n \<and>
      (\<forall>i\<le>k. ep_is (foldl ?f ((replicate n ep_IDENTITY)[0 := e]) [1..<Suc k] ! i) (P + smul (int i) Q))" for k
  proof (induction k)
    case 0
    then show ?case using assms(1) by simp
  next
    case (Suc k)
    then have ih: "length (foldl ?f ((replicate n ep_IDENTITY)[0 := e]) [1..<Suc k]) = n"
      "\<forall>i\<le>k. ep_is (foldl ?f ((replicate n ep_IDENTITY)[0 := e]) [1..<Suc k] ! i) (P + smul (int i) Q)"
      by simp_all
    define t where "t = foldl ?f ((replicate n ep_IDENTITY)[0 := e]) [1..<Suc k]"
    have "ep_is (ep_add (t ! k) s) (P + smul (int (Suc k)) Q)"
      using ep_is_add [OF _ assms(2)] ih(2) by (simp only: smul_Suc add.assoc [symmetric] t_def)
    moreover have "foldl ?f ((replicate n ep_IDENTITY)[0 := e]) [1..<Suc (Suc k)] = t[Suc k := ep_add (t ! k) s]"
      by (simp add: t_def)
    ultimately show ?case
      using ih Suc.prems unfolding t_def [symmetric] by (auto simp: le_Suc_eq nth_list_update simp del: of_nat_Suc)
  qed
  from this [of "n - 1"] assms(3)
  show "length (add_table n e s) = n" "\<forall>i<n. ep_is (add_table n e s ! i) (P + smul (int i) Q)"
    by (auto simp: add_table_def)
qed

lemma add_table_multiples:
  assumes "ep_is e P" and "0 < n"
  shows "length (add_table n e e) = n" "\<forall>i<n. ep_is (add_table n e e ! i) (smul (int (i + 1)) P)"
  using add_table_is [OF assms(1) assms(1) assms(2)] by (simp_all add: smul_add add.commute)

lemma quadruple_double:
  assumes "ep_is e P"
  shows "ep_is (ep_double (ep_double (ep_double (ep_double e)))) (smul 16 P)"
proof -
  have "smul 16 P = (P + P + (P + P) + (P + P + (P + P))) + (P + P + (P + P) + (P + P + (P + P)))"
    using smul_add [of 8 8 P] smul_add [of 4 4 P] smul_add [of 2 2 P] by (simp only: smul_2) simp
  then show ?thesis using assms by (simp only:) (intro point_intro)
qed

lemma basepoint_table_is:
  "length basepoint_table = 64 \<and>
   (\<forall>i<64. length (basepoint_table ! i) = 8 \<and>
      (\<forall>j<8. ep_is (basepoint_table ! i ! j) (smul (int (j + 1)) (smul (16 ^ i) base_point))))"
proof -
  let ?f = "\<lambda>(table, base) i. (table[i := add_table 8 base base], ep_double (ep_double (ep_double (ep_double base))))"
  let ?r = "\<lambda>k. foldl ?f (replicate 64 (replicate 8 ep_IDENTITY), ED_BASEPOINT) [0..<k]"
  have "k \<le> 64 \<Longrightarrow> length (fst (?r k)) = 64 \<and> ep_is (snd (?r k)) (smul (16 ^ k) base_point) \<and>
      (\<forall>i<k. length (fst (?r k) ! i) = 8 \<and>
        (\<forall>j<8. ep_is (fst (?r k) ! i ! j) (smul (int (j + 1)) (smul (16 ^ i) base_point))))" for k
  proof (induction k)
    case 0
    then show ?case using ep_is_BASEPOINT by simp
  next
    case (Suc k)
    obtain t b where tb: "?r k = (t, b)" by fastforce
    have ih: "length t = 64" "ep_is b (smul (16 ^ k) base_point)"
      "\<forall>i<k. length (t ! i) = 8 \<and> (\<forall>j<8. ep_is (t ! i ! j) (smul (int (j + 1)) (smul (16 ^ i) base_point)))"
      using Suc by (simp_all add: tb)
    have step: "?r (Suc k) = (t[k := add_table 8 b b], ep_double (ep_double (ep_double (ep_double b))))"
      by (simp add: tb)
    have "ep_is (ep_double (ep_double (ep_double (ep_double b)))) (smul (16 ^ Suc k) base_point)"
      using quadruple_double [OF ih(2)] by (simp add: smul_smul)
    then show ?case
      using add_table_multiples [OF ih(2), of 8] ih Suc.prems
      unfolding step fst_conv snd_conv by (auto simp: less_Suc_eq nth_list_update)
  qed
  from this [of 64] show ?thesis by (simp add: basepoint_table_def)
qed

section \<open>Selecting a digit\<close>

lemma ct_eq_u64_is: "ct_eq_u64 a b = (if a = b then choice_TRUE else choice_FALSE)"
proof -
  have "drop_bit 63 (v OR - v) XOR 1 = (of_bool (v = 0) :: u64)" for v
    using is_zero_u64_eq [of v] by (simp add: is_zero_u64_def Let_def)
  then show ?thesis by (simp add: ct_eq_u64_def Let_def xor_eq_0)
qed

lemma select_point_is: "select_point a b (if h then choice_TRUE else choice_FALSE) = (if h then b else a)"
  by (simp add: select_point_def fe_select_eq choice_wf_def)

lemma select_table:
  assumes "\<forall>i<length table. ep_is (table ! i) (smul (int (k + i + 1)) P)"
    and "k + length table < 2 ^ 63" and m: "unat m = n" and "n \<le> k + length table"
    and "n \<le> k \<Longrightarrow> ep_is e (smul (int n) P)"
  shows "ep_is (foldl (\<lambda>selected (i, point). select_point selected point (ct_eq_u64 m (of_nat (i + 1)))) e
    (enumerate k table)) (smul (int n) P)"
  using assms(1,2,4,5)
proof (induction table arbitrary: k e)
  case (Cons p table)
  have "m = of_nat (k + 1) \<longleftrightarrow> n = k + 1"
    using Cons.prems(2) unfolding m [symmetric]
    by (simp add: word_unat_eq_iff unat_of_nat take_bit_nat_eq_self del: of_nat_Suc of_nat_add)
  then have e: "select_point e p (ct_eq_u64 m (of_nat (k + 1))) = (if n = k + 1 then p else e)"
    by (simp only: ct_eq_u64_is select_point_is)
  have p: "ep_is p (smul (int (k + 1)) P)" using Cons.prems(1) [rule_format, of 0] by simp
  have "n \<le> Suc k \<Longrightarrow> ep_is (if n = k + 1 then p else e) (smul (int n) P)"
    using p Cons.prems(4) by (cases "n = k + 1") simp_all
  moreover have "ep_is (table ! i) (smul (int (Suc k + i + 1)) P)" if "i < length table" for i
    using Cons.prems(1) [rule_format, of "Suc i"] that by simp
  ultimately have "ep_is (foldl (\<lambda>selected (i, point). select_point selected point (ct_eq_u64 m (of_nat (i + 1))))
    (if n = k + 1 then p else e) (enumerate (Suc k) table)) (smul (int n) P)"
    using Cons.prems(2,3) by (intro Cons.IH) (simp_all del: of_nat_Suc of_nat_add)
  then show ?case unfolding enumerate_simps foldl_Cons prod.case e .
qed simp

lemma small_digit:
  assumes "- 8 \<le> sint (d :: i8)" and "sint d \<le> 8"
  shows "is_set (from_bit (ucast (drop_bit 7 d))) \<longleftrightarrow> sint d < 0"
    "choice_wf (from_bit (ucast (drop_bit 7 d)))"
    "int (unat (digit_magnitude d (from_bit (ucast (drop_bit 7 d))))) = \<bar>sint d\<bar>"
proof -
  have "sint d \<in> set [-8..8]" using assms by (simp only: set_upto atLeastAtMost_iff)
  moreover have "\<forall>k\<in>set [-8..8]. (is_set (from_bit (ucast (drop_bit 7 (of_int k :: i8)))) \<longleftrightarrow> k < 0) \<and>
      choice_wf (from_bit (ucast (drop_bit 7 (of_int k :: i8)))) \<and>
      int (unat (digit_magnitude (of_int k) (from_bit (ucast (drop_bit 7 (of_int k :: i8)))))) = \<bar>k\<bar>"
    by code_simp
  ultimately have "(is_set (from_bit (ucast (drop_bit 7 (of_int (sint d) :: i8)))) \<longleftrightarrow> sint d < 0) \<and>
      choice_wf (from_bit (ucast (drop_bit 7 (of_int (sint d) :: i8)))) \<and>
      int (unat (digit_magnitude (of_int (sint d)) (from_bit (ucast (drop_bit 7 (of_int (sint d) :: i8)))))) = \<bar>sint d\<bar>"
    by (rule bspec [rotated])
  then show "is_set (from_bit (ucast (drop_bit 7 d))) \<longleftrightarrow> sint d < 0"
    "choice_wf (from_bit (ucast (drop_bit 7 d)))"
    "int (unat (digit_magnitude d (from_bit (ucast (drop_bit 7 d))))) = \<bar>sint d\<bar>"
    unfolding of_int_sint scast_id by blast+
qed

lemma ep_is_if_negate:
  assumes "ep_is e P" and "choice_wf c"
  shows "ep_is \<lparr>ep_x = fe_select (ep_x e) (ep_x (ep_negate e)) c, ep_y = ep_y e, ep_z = ep_z e,
    ep_t = fe_select (ep_t e) (ep_t (ep_negate e)) c\<rparr> (if is_set c then - P else P)"
proof -
  have "\<lparr>ep_x = fe_select (ep_x e) (ep_x (ep_negate e)) c, ep_y = ep_y e, ep_z = ep_z e,
      ep_t = fe_select (ep_t e) (ep_t (ep_negate e)) c\<rparr> = (if is_set c then ep_negate e else e)"
    using assms(2) by (simp add: fe_select_eq ep_negate_def)
  then show ?thesis using assms(1) ep_is_negate by simp
qed

lemma select_signed_is:
  assumes "length table = 8" and "\<forall>j<8. ep_is (table ! j) (smul (int (j + 1)) P)"
    and d: "- 8 \<le> sint d" "sint d \<le> 8"
  shows "ep_is (select_signed table d) (smul (sint d) P)"
proof -
  note s = small_digit [OF d]
  let ?c = "from_bit (ucast (drop_bit 7 d))"
  have n: "unat (digit_magnitude d ?c) = nat \<bar>sint d\<bar>" using s(3) by linarith
  have "ep_is (foldl (\<lambda>selected (i, point). select_point selected point (ct_eq_u64 (digit_magnitude d ?c) (of_nat (i + 1))))
      ep_IDENTITY (enumerate 0 table)) (smul (int (nat \<bar>sint d\<bar>)) P)"
    by (rule select_table) (use assms n d in \<open>auto intro: point_intro\<close>)
  from ep_is_if_negate [OF this s(2)] show ?thesis
    unfolding select_signed_def Let_def
    by (rule ep_is_subst) (use s(1) in \<open>simp add: smul_minus [symmetric]\<close>)
qed

section \<open>Fixed windows\<close>

lemma digit_sum_horner: "b * c * b ^ k + sint (ds ! k) * b ^ k = (b * c + sint (ds ! k)) * b ^ k"
  by (simp add: algebra_simps)

lemma window_loop:
  assumes table: "length table = 8" "\<forall>j<8. ep_is (table ! j) (smul (int (j + 1)) P)"
    and ds: "\<forall>i<k. - 8 \<le> sint (ds ! i) \<and> sint (ds ! i) \<le> 8"
  shows "ep_is acc (smul c P) \<Longrightarrow>
    ep_is (foldl (\<lambda>acc i. ep_add (ep_double (ep_double (ep_double (ep_double acc)))) (select_signed table (ds ! i)))
      acc (rev [0..<k])) (smul (c * 16 ^ k + digit_sum 16 ds k) P)"
  using ds
proof (induction k arbitrary: acc c)
  case (Suc k)
  have "ep_is (ep_add (ep_double (ep_double (ep_double (ep_double acc)))) (select_signed table (ds ! k)))
      (smul (16 * c + sint (ds ! k)) P)"
    using ep_is_add [OF quadruple_double [OF Suc.prems(1)] select_signed_is [OF table]] Suc.prems(2)
    by (simp add: smul_smul smul_add)
  from Suc.IH [OF this] Suc.prems(2) show ?case by (simp add: algebra_simps)
qed simp

lemma ep_mul_is:
  assumes "ep_is e P" and "sc_wf s"
  shows "ep_is (ep_mul e s) (smul (int (sc_val s)) P)"
proof -
  note r = radix16_val [OF assms(2)]
  have z: "ep_is ep_IDENTITY (smul 0 P)" using ep_is_IDENTITY by simp
  from window_loop [OF add_table_multiples [OF assms(1)] r(3) z] show ?thesis
    by (simp add: ep_mul_def Let_def r(2))
qed

lemma base_loop:
  assumes ds: "\<forall>i<length ds. - 8 \<le> sint (ds ! i) \<and> sint (ds ! i) \<le> 8" and len: "length ds = 64"
  shows "k \<le> 64 \<Longrightarrow> ep_is (foldl (\<lambda>acc (i, digit). ep_add acc (select_signed (basepoint_table ! i) digit)) ep_IDENTITY
    (map (\<lambda>i. (i, ds ! i)) [0..<k])) (smul (digit_sum 16 ds k) base_point)"
proof (induction k)
  case 0
  then show ?case using ep_is_IDENTITY by simp
next
  case (Suc k)
  have "ep_is (select_signed (basepoint_table ! k) (ds ! k)) (smul (sint (ds ! k)) (smul (16 ^ k) base_point))"
    using basepoint_table_is ds len Suc.prems by (intro select_signed_is) simp_all
  from ep_is_add [OF Suc.IH this] Suc.prems show ?case by (simp add: smul_add smul_smul)
qed

lemma ep_mul_base_is:
  assumes "sc_wf s"
  shows "ep_is (ep_mul_base s) (smul (int (sc_val s)) base_point)"
proof -
  note r = radix16_val [OF assms]
  have "enumerate 0 (radix16 s) = map (\<lambda>i. (i, radix16 s ! i)) [0..<64]"
    using r(1) by (auto intro: nth_equalityI simp: nth_enumerate_eq)
  then show ?thesis
    using base_loop [of "radix16 s" 64] r by (simp add: ep_mul_base_def Let_def)
qed

section \<open>Odd multiples\<close>

text \<open>One inversion serves the whole table: prefix products forwards, then the unwinding backwards.\<close>

definition z_product :: "edwards_point list \<Rightarrow> nat \<Rightarrow> gf" where
  "z_product odds k = prod_list (map (\<lambda>e. gfv (ep_z e)) (take k odds))"

lemma z_product_Suc: "k < length odds \<Longrightarrow> z_product odds (Suc k) = z_product odds k * gfv (ep_z (odds ! k))"
  by (simp add: z_product_def take_Suc_conv_app_nth)

lemma z_product_nonzero: "list_all (\<lambda>e. gfv (ep_z e) \<noteq> 0) odds \<Longrightarrow> z_product odds k \<noteq> 0"
proof (induction k)
  case (Suc k)
  then show ?case
    by (cases "k < length odds") (auto simp: z_product_Suc list_all_length, simp add: z_product_def)
qed (simp add: z_product_def)

lemma prefix_products_is:
  assumes "list_all (\<lambda>e. fe_ok (ep_z e)) odds" and "prefix_products odds = (prefixes, running)"
  shows "length prefixes = length odds" "\<forall>i<length odds. fe_ok (prefixes ! i) \<and> gfv (prefixes ! i) = z_product odds i"
    "fe_ok running" "gfv running = z_product odds (length odds)"
proof -
  have "length (fst (prefix_products odds)) = length odds \<and>
      (\<forall>i<length odds. fe_ok (fst (prefix_products odds) ! i) \<and> gfv (fst (prefix_products odds) ! i) = z_product odds i) \<and>
      fe_ok (snd (prefix_products odds)) \<and> gfv (snd (prefix_products odds)) = z_product odds (length odds)"
    using assms(1)
  proof (induction odds rule: rev_induct)
    case Nil
    then show ?case by (simp add: prefix_products_def z_product_def fe_simps)
  next
    case (snoc e odds)
    obtain ps r where pr: "prefix_products odds = (ps, r)" by fastforce
    have step: "prefix_products (odds @ [e]) = (ps @ [r], fe_mul r (ep_z e))"
      using pr by (simp add: prefix_products_def)
    show ?case
      using snoc by (auto simp: step pr z_product_def fe_simps nth_append less_Suc_eq)
  qed
  then show "length prefixes = length odds" "\<forall>i<length odds. fe_ok (prefixes ! i) \<and> gfv (prefixes ! i) = z_product odds i"
    "fe_ok running" "gfv running = z_product odds (length odds)"
    unfolding assms(2) by simp_all
qed

lemma unwinding:
  assumes ok: "list_all (\<lambda>e. fe_ok (ep_z e) \<and> gfv (ep_z e) \<noteq> 0) odds"
    and pre: "\<forall>i<length odds. fe_ok (prefixes ! i) \<and> gfv (prefixes ! i) = z_product odds i"
  shows "k \<le> length odds \<Longrightarrow> length zs = length odds \<Longrightarrow> fe_ok s \<Longrightarrow> gfv s = inverse (z_product odds k) \<Longrightarrow>
    \<forall>i<length odds. k \<le> i \<longrightarrow> fe_ok (zs ! i) \<and> gfv (zs ! i) = inverse (gfv (ep_z (odds ! i))) \<Longrightarrow>
    foldl (unwind_step prefixes odds) (zs, s) (rev [0..<k]) = (zs', s') \<Longrightarrow>
    \<forall>i<length odds. fe_ok (zs' ! i) \<and> gfv (zs' ! i) = inverse (gfv (ep_z (odds ! i)))"
proof (induction k arbitrary: zs s)
  case (Suc k)
  have k: "k < length odds" using Suc.prems(1) by simp
  have z: "fe_ok (ep_z (odds ! k))" "gfv (ep_z (odds ! k)) \<noteq> 0" using ok k by (auto simp: list_all_length)
  have p: "fe_ok (prefixes ! k)" "gfv (prefixes ! k) = z_product odds k" using pre k by simp_all
  have nz: "z_product odds k \<noteq> 0" using ok by (intro z_product_nonzero) (auto simp: list_all_length)
  let ?zs = "zs[k := fe_mul s (prefixes ! k)]" and ?s = "fe_mul s (ep_z (odds ! k))"
  have v: "fe_ok (fe_mul s (prefixes ! k))" "gfv (fe_mul s (prefixes ! k)) = inverse (gfv (ep_z (odds ! k)))"
    "fe_ok ?s" "gfv ?s = inverse (z_product odds k)"
    using Suc.prems(3,4) z p nz by (simp_all add: fe_simps z_product_Suc [OF k] field_simps)
  have "foldl (unwind_step prefixes odds) (?zs, ?s) (rev [0..<k]) = (zs', s')"
    using Suc.prems(6) by (simp add: unwind_step_def [of _ _ "(zs, s)"])
  moreover have "\<forall>i<length odds. k \<le> i \<longrightarrow> fe_ok (?zs ! i) \<and> gfv (?zs ! i) = inverse (gfv (ep_z (odds ! i)))"
    using Suc.prems(2,5) v(1,2) by (auto simp: nth_list_update le_eq_less_or_eq Suc_le_eq)
  ultimately show ?case using Suc.IH [of ?zs ?s] k Suc.prems(2) v(3,4) by simp
qed simp

lemma affine_odd_multiples_is:
  assumes "ep_is e P"
  shows "length (affine_odd_multiples e) = 64" "\<forall>i<64. an_is (affine_odd_multiples e ! i) (smul (int (2 * i + 1)) P)"
proof -
  define odds where "odds = add_table 64 e (ep_double e)"
  obtain prefixes running where pr: "prefix_products odds = (prefixes, running)" by fastforce
  obtain zs s' where un: "foldl (unwind_step prefixes odds) (replicate 64 fe_ONE, fe_invert running) (rev [0..<64]) = (zs, s')"
    by fastforce
  have len: "length odds = 64" and odd: "\<forall>i<64. ep_is (odds ! i) (smul (int (2 * i + 1)) P)"
    using add_table_is [OF assms ep_is_double [OF assms], of 64]
    by (simp_all add: odds_def smul_add smul_smul mult.commute add.commute flip: smul_2)
  have z: "list_all (\<lambda>e. fe_ok (ep_z e) \<and> gfv (ep_z e) \<noteq> 0) odds" using odd by (auto simp: list_all_length len ep_is_def)
  then have z1: "list_all (\<lambda>e. fe_ok (ep_z e)) odds" and z2: "list_all (\<lambda>e. gfv (ep_z e) \<noteq> 0) odds" by (simp_all add: list_all_iff)
  note pp = prefix_products_is [OF z1 pr]
  have inv: "fe_ok (zs ! i) \<and> gfv (zs ! i) = inverse (gfv (ep_z (odds ! i)))" if "i < 64" for i
    using unwinding [OF z pp(2) _ _ _ _ _ un] that by (simp add: len pp fe_simps)
  have body: "affine_odd_multiples e = map (\<lambda>i.
      let x = fe_mul (ep_x (odds ! i)) (zs ! i); y = fe_mul (ep_y (odds ! i)) (zs ! i)
      in \<lparr>an_y_plus_x = fe_add y x, an_y_minus_x = fe_sub y x, an_xy2d = fe_mul (fe_mul x y) ED_D2\<rparr>) [0..<64]"
    unfolding affine_odd_multiples_def Let_def odds_def [symmetric] pr prod.case un ..
  show "length (affine_odd_multiples e) = 64" by (simp add: body)
  show "\<forall>i<64. an_is (affine_odd_multiples e ! i) (smul (int (2 * i + 1)) P)"
  proof (intro allI impI)
    fix i :: nat assume i: "i < 64"
    define Q where "Q = smul (int (2 * i + 1)) P"
    have e: "ep_is (odds ! i) Q" using odd i by (simp add: Q_def)
    have "fe_ok (fe_mul (ep_x (odds ! i)) (zs ! i))" "gfv (fe_mul (ep_x (odds ! i)) (zs ! i)) = px Q"
      "fe_ok (fe_mul (ep_y (odds ! i)) (zs ! i))" "gfv (fe_mul (ep_y (odds ! i)) (zs ! i)) = py Q"
      using e inv [OF i] by (simp_all add: ep_is_def fe_simps)
    then have "an_is (affine_odd_multiples e ! i) Q"
      using i by (simp add: body an_is_def Let_def fe_simps gfv_D2 mult.commute)
    then show "an_is (affine_odd_multiples e ! i) (smul (int (2 * i + 1)) P)" by (simp only: Q_def)
  qed
qed

lemma projective_odd_multiples_is:
  assumes "ep_is e P"
  defines "t \<equiv> fst (foldl (\<lambda>(odd_a, multiple) i. let multiple = ep_add multiple (ep_double e)
             in (odd_a[i := to_projective_niels multiple], multiple))
           ((replicate 8 pn_IDENTITY)[0 := to_projective_niels e], e) [1..<8])"
  shows "length t = 8 \<and> (\<forall>i<8. pn_is (t ! i) (smul (int (2 * i + 1)) P))"
proof -
  define f where "f = (\<lambda>(odd_a, multiple) i. let multiple = ep_add multiple (ep_double e)
             in (odd_a[i := to_projective_niels multiple], multiple))"
  define r where "r k = foldl f ((replicate 8 pn_IDENTITY)[0 := to_projective_niels e], e) [1..<Suc k]" for k
  have t: "t = fst (r 7)" unfolding t_def r_def f_def by simp
  have r0: "r 0 = ((replicate 8 pn_IDENTITY)[0 := to_projective_niels e], e)" by (simp add: r_def)
  have rS: "r (Suc k) = f (r k) (Suc k)" for k by (simp add: r_def)
  have "k < 8 \<Longrightarrow> length (fst (r k)) = 8 \<and> ep_is (snd (r k)) (smul (int (2 * k + 1)) P) \<and>
      (\<forall>i\<le>k. pn_is (fst (r k) ! i) (smul (int (2 * i + 1)) P))" for k
  proof (induction k)
    case 0
    then show ?case using assms(1) to_projective_niels_is by (simp add: r0)
  next
    case (Suc k)
    obtain t m where tm: "r k = (t, m)" by fastforce
    have ih: "length t = 8" "ep_is m (smul (int (2 * k + 1)) P)" "\<forall>i\<le>k. pn_is (t ! i) (smul (int (2 * i + 1)) P)"
      using Suc unfolding tm by simp_all
    have step: "r (Suc k) = (t[Suc k := to_projective_niels (ep_add m (ep_double e))], ep_add m (ep_double e))"
      by (simp add: rS tm f_def Let_def)
    have "int (2 * Suc k + 1) = int (2 * k + 1) + 2" by simp
    then have "smul (int (2 * Suc k + 1)) P = smul (int (2 * k + 1)) P + (P + P)" by (simp only: smul_add smul_2)
    then have new: "ep_is (ep_add m (ep_double e)) (smul (int (2 * Suc k + 1)) P)"
      using ep_is_add [OF ih(2) ep_is_double [OF assms(1)]] by (simp only:)
    have "pn_is (t[Suc k := to_projective_niels (ep_add m (ep_double e))] ! i) (smul (int (2 * i + 1)) P)"
      if "i \<le> Suc k" for i
      using that ih(1,3) to_projective_niels_is [OF new] Suc.prems by (cases "i = Suc k") (simp_all del: of_nat_Suc of_nat_add)
    then show ?case unfolding step using ih(1) new by simp
  qed
  from this [of 7] show ?thesis by (simp add: t less_Suc_eq_le [of _ 7, simplified])
qed

section \<open>Interleaved multiplication\<close>

text \<open>What the loop needs of a table: a signed odd digit adds that multiple of the point.\<close>

definition om_is :: "odd_multiples \<Rightarrow> point \<Rightarrow> bool" where
  "om_is om A \<longleftrightarrow> 2 \<le> om_width om \<and> om_width om \<le> 8 \<and>
    (\<forall>e P d. ep_is e P \<longrightarrow> naf_digit (om_width om) d \<longrightarrow> d \<noteq> 0 \<longrightarrow> cp_is (om_add_signed om e d) (P + smul (sint d) A))"

lemma naf_digit_index:
  assumes "naf_digit w d" and "d \<noteq> 0" and "w = 5 \<or> w = 8"
  shows "0 <s d \<Longrightarrow> unat d div 2 < 2 ^ (w - 2) \<and> int (2 * (unat d div 2) + 1) = sint d"
    and "\<not> 0 <s d \<Longrightarrow> unat (- d) div 2 < 2 ^ (w - 2) \<and> int (2 * (unat (- d) div 2) + 1) = - sint d"
proof -
  have d: "odd (sint d)" "- (2 ^ (w - 1)) < sint d" "sint d < 2 ^ (w - 1)" using assms(1,2) by (auto simp: naf_digit_def)
  have p: "(2 :: int) ^ (w - 1) = 2 * 2 ^ (w - 2)" "(2 :: int) ^ (w - 1) \<le> 128" using assms(3) by auto
  have idx: "n div 2 < 2 ^ (w - 2) \<and> int (2 * (n div 2) + 1) = k"
    if "int n = k" "odd k" "k < 2 ^ (w - 1)" for n k
  proof -
    have "odd n" using that(1,2) by auto
    then have "int (2 * (n div 2) + 1) = k" using that(1) by (simp add: odd_two_times_div_two_succ [simplified])
    moreover from this have "int (n div 2) < 2 ^ (w - 2)" using that(3) p(1) by linarith
    then have "n div 2 < 2 ^ (w - 2)" by (metis of_nat_less_iff of_nat_numeral of_nat_power)
    ultimately show ?thesis by blast
  qed
  have u: "int (unat (of_int k :: i8)) = k" if "0 \<le> k" "k < 128" for k
    using that by (simp add: unsigned_of_int take_bit_int_eq_self)
  { assume "0 <s d"
    then have "0 < sint d" by (simp add: word_sless_alt)
    moreover have "int (unat d) = sint d" using u [of "sint d"] \<open>0 < sint d\<close> d(3) p(2) by (simp add: scast_id)
    ultimately show "unat d div 2 < 2 ^ (w - 2) \<and> int (2 * (unat d div 2) + 1) = sint d" using idx d by blast }
  { assume "\<not> 0 <s d"
    then have "sint d \<le> 0" by (simp add: word_sless_alt)
    have "int (unat (- d)) = - sint d"
      using u [of "- sint d"] \<open>sint d \<le> 0\<close> d(2) p(2) by (simp add: scast_id)
    then show "unat (- d) div 2 < 2 ^ (w - 2) \<and> int (2 * (unat (- d) div 2) + 1) = - sint d" by (intro idx) (use d in simp_all) }
qed

lemma projective_odd_is:
  assumes "length table = 8" and "\<forall>i<8. pn_is (table ! i) (smul (int (2 * i + 1)) A)"
  shows "om_is (projective_odd table) A"
proof -
  have "cp_is (om_add_signed (projective_odd table) e d) (P + smul (sint d) A)"
    if e: "ep_is e P" and d: "naf_digit 5 d" "d \<noteq> 0" for e P d
  proof (cases "0 <s d")
    case True
    note i = naf_digit_index(1) [OF d disjI1 [OF refl] True]
    have "pn_is (table ! (unat d div 2)) (smul (int (2 * (unat d div 2) + 1)) A)"
      by (rule assms(2) [rule_format]) (use i in simp)
    then have "pn_is (table ! (unat d div 2)) (smul (sint d) A)" using i by (simp only:)
    then show ?thesis using add_projective_niels_is [OF e] i True by (simp add: projective_odd_def)
  next
    case False
    note i = naf_digit_index(2) [OF d disjI1 [OF refl] False]
    have "pn_is (table ! (unat (- d) div 2)) (smul (int (2 * (unat (- d) div 2) + 1)) A)"
      by (rule assms(2) [rule_format]) (use i in simp)
    from pn_is_negate [OF this] have "pn_is (pn_negate (table ! (unat (- d) div 2))) (smul (sint d) A)"
      unfolding i [THEN conjunct2] smul_minus minus_minus .
    then show ?thesis using add_projective_niels_is [OF e] False by (simp add: projective_odd_def)
  qed
  then show ?thesis by (simp add: om_is_def projective_odd_def)
qed

lemma affine_odd_is:
  assumes "length table = 64" and "\<forall>i<64. an_is (table ! i) (smul (int (2 * i + 1)) A)"
  shows "om_is (affine_odd table) A"
proof -
  have "cp_is (om_add_signed (affine_odd table) e d) (P + smul (sint d) A)"
    if e: "ep_is e P" and d: "naf_digit 8 d" "d \<noteq> 0" for e P d
  proof (cases "0 <s d")
    case True
    note i = naf_digit_index(1) [OF d disjI2 [OF refl] True]
    have "an_is (table ! (unat d div 2)) (smul (int (2 * (unat d div 2) + 1)) A)"
      by (rule assms(2) [rule_format]) (use i in simp)
    then have "an_is (table ! (unat d div 2)) (smul (sint d) A)" using i by (simp only:)
    then show ?thesis using add_affine_niels_is [OF e] i True by (simp add: affine_odd_def)
  next
    case False
    note i = naf_digit_index(2) [OF d disjI2 [OF refl] False]
    have "an_is (table ! (unat (- d) div 2)) (smul (int (2 * (unat (- d) div 2) + 1)) A)"
      by (rule assms(2) [rule_format]) (use i in simp)
    from an_is_negate [OF this] have "an_is (an_negate (table ! (unat (- d) div 2))) (smul (sint d) A)"
      unfolding i [THEN conjunct2] smul_minus minus_minus .
    then show ?thesis using add_affine_niels_is [OF e] False by (simp add: affine_odd_def)
  qed
  then show ?thesis by (simp add: om_is_def affine_odd_def)
qed

lemma om_add_is:
  "om_is om A \<Longrightarrow> ep_is e P \<Longrightarrow> naf_digit (om_width om) d \<Longrightarrow> d \<noteq> 0 \<Longrightarrow>
    cp_is (om_add_signed om e d) (P + smul (sint d) A)"
  by (simp add: om_is_def)

lemma dsm_step_is:
  assumes a: "om_is oa A" "naf_digit (om_width oa) (an ! i)" and b: "om_is ob B" "naf_digit (om_width ob) (bn ! i)"
    and acc: "pp_is acc X"
  shows "cp_is (dsm_step oa ob an bn acc i) (X + X + smul (sint (an ! i)) A + smul (sint (bn ! i)) B)"
proof -
  have e: "ep_is (to_extended (pp_double acc)) (X + X)" by (intro point_intro acc)
  have fin: "cp_is (pp_double acc) (X + X)" by (intro point_intro acc)
  show ?thesis
  proof (cases "an ! i = 0")
    case True
    then show ?thesis using fin om_add_is [OF b(1) e b(2)] by (auto simp: dsm_step_def Let_def)
  next
    case False
    note ca = om_add_is [OF a(1) e a(2) False]
    show ?thesis using ca om_add_is [OF b(1) completed_conversions(1) [OF ca] b(2)] False
      by (auto simp: dsm_step_def Let_def)
  qed
qed

lemma dsm_loop_is:
  assumes a: "om_is oa A" and b: "om_is ob B"
  shows "pp_is acc X \<Longrightarrow> \<forall>j\<le>i. naf_digit (om_width oa) (an ! j) \<and> naf_digit (om_width ob) (bn ! j) \<Longrightarrow>
    ep_is (dsm_loop oa ob an bn acc i)
      (smul (2 ^ Suc i) X + smul (digit_sum 2 an (Suc i)) A + smul (digit_sum 2 bn (Suc i)) B)"
proof (induction i arbitrary: acc X)
  case 0
  then show ?case using completed_conversions(1) [OF dsm_step_is [OF a _ b _ 0(1), of an 0 bn]] by (simp add: smul_2)
next
  case (Suc i)
  define Y where "Y = X + X + smul (sint (an ! Suc i)) A + smul (sint (bn ! Suc i)) B"
  have "pp_is (to_projective (dsm_step oa ob an bn acc (Suc i))) Y"
    unfolding Y_def using Suc.prems by (intro completed_conversions(2) dsm_step_is a b) simp_all
  from Suc.IH [OF this] have ih: "ep_is (dsm_loop oa ob an bn acc (Suc i))
      (smul (2 ^ Suc i) Y + smul (digit_sum 2 an (Suc i)) A + smul (digit_sum 2 bn (Suc i)) B)"
    using Suc.prems(2) by simp
  have "smul (2 ^ Suc (Suc i)) X = smul (2 ^ Suc i) (X + X)"
    using smul_smul [of "2 ^ Suc i" 2 X] by (simp add: smul_2 mult.commute)
  moreover have "smul (2 ^ Suc i) Y = smul (2 ^ Suc i) (X + X) + smul (sint (an ! Suc i) * 2 ^ Suc i) A +
      smul (sint (bn ! Suc i) * 2 ^ Suc i) B"
    by (simp only: Y_def smul_plus smul_smul mult.commute)
  ultimately show ?case
    using ih by (elim ep_is_subst) (simp only: digit_sum_Suc smul_add add_ac)
qed

lemma naf_start_is:
  shows "naf_start an bn n \<le> n"
    and "\<forall>i\<le>n. naf_start an bn n < i \<longrightarrow> an ! i = 0 \<and> bn ! i = 0"
  by (induction n) (auto simp: le_Suc_eq)

lemma digit_sum_zeros:
  "m \<le> n \<Longrightarrow> \<forall>i<n. m \<le> i \<longrightarrow> ds ! i = 0 \<Longrightarrow> digit_sum b ds n = digit_sum b ds m"
proof (induction n)
  case (Suc n)
  then show ?case by (cases "m = Suc n") auto
qed simp

lemma double_scalar_mul_is:
  assumes a: "om_is oa A" "sc_wf s" and b: "sc_wf t"
  shows "ep_is (double_scalar_mul s oa t) (smul (int (sc_val s)) A + smul (int (sc_val t)) base_point)"
proof -
  let ?ob = "affine_odd basepoint_affine_odd_multiples"
  have ob: "om_is ?ob base_point"
    unfolding basepoint_affine_odd_multiples_def
    using affine_odd_multiples_is [OF ep_is_BASEPOINT] by (rule affine_odd_is)
  define an where "an = non_adjacent_form s (om_width oa)"
  define bn where "bn = non_adjacent_form t (om_width ?ob)"
  have w: "2 \<le> om_width oa" "om_width oa \<le> 8" "2 \<le> om_width ?ob" "om_width ?ob \<le> 8" using a(1) ob by (simp_all add: om_is_def)
  note na = non_adjacent_form_val [OF w(1,2) a(2), folded an_def] and nb = non_adjacent_form_val [OF w(3,4) b, folded bn_def]
  define n where "n = naf_start an bn 255"
  note st = naf_start_is [where an = an and bn = bn and n = 255, folded n_def]
  have z: "\<forall>i<256. Suc n \<le> i \<longrightarrow> an ! i = 0" "\<forall>i<256. Suc n \<le> i \<longrightarrow> bn ! i = 0" using st(2) by auto
  have "ep_is (dsm_loop oa ?ob an bn pp_IDENTITY n)
      (smul (2 ^ Suc n) 0 + smul (digit_sum 2 an (Suc n)) A + smul (digit_sum 2 bn (Suc n)) base_point)"
    using st(1) na(3) nb(3) by (intro dsm_loop_is a ob point_intro) auto
  moreover have "digit_sum 2 an (Suc n) = int (sc_val s)" "digit_sum 2 bn (Suc n) = int (sc_val t)"
    using digit_sum_zeros [of "Suc n" 256] z na(2) nb(2) st(1) by (simp_all del: digit_sum_Suc)
  ultimately show ?thesis
    unfolding double_scalar_mul_def Let_def an_def [symmetric] bn_def [symmetric] n_def [symmetric]
    by (simp del: digit_sum_Suc)
qed

lemma vartime_basepoint_is:
  assumes "ep_is e A" and "sc_wf s" and "sc_wf t"
  shows "ep_is (vartime_double_scalar_mul_basepoint s e t)
    (smul (int (sc_val s)) A + smul (int (sc_val t)) base_point)"
proof -
  note p = projective_odd_multiples_is [OF assms(1)]
  have "om_is (projective_odd (fst (foldl (\<lambda>(odd_a, multiple) i. let multiple = ep_add multiple (ep_double e)
             in (odd_a[i := to_projective_niels multiple], multiple))
           ((replicate 8 pn_IDENTITY)[0 := to_projective_niels e], e) [1..<8]))) A"
    by (rule projective_odd_is) (use p in blast)+
  from double_scalar_mul_is [OF this assms(2,3)] show ?thesis
    unfolding vartime_double_scalar_mul_basepoint_def Let_def case_prod_beta .
qed

lemma vartime_prepared_is:
  assumes "ep_is e A" and "sc_wf s" and "sc_wf t"
  shows "ep_is (vartime_double_scalar_mul_prepared s (affine_odd_multiples e) t)
    (smul (int (sc_val s)) A + smul (int (sc_val t)) base_point)"
  unfolding vartime_double_scalar_mul_prepared_def
  using double_scalar_mul_is [OF affine_odd_is [OF affine_odd_multiples_is [OF assms(1)]] assms(2,3)] .

section \<open>Properties\<close>

text \<open>
  C26. The point formulas refine the group of the curve: addition, subtraction, negation, doubling,
  multiplication by the cofactor and the mixed additions of niels.rs compute the group operation on
  whatever points their arguments represent, with no exceptional case, and the two tests decide
  whether a point is neutral and whether its order divides eight.
\<close>

theorem point_operations:
  assumes "ep_is e P" and "ep_is f Q" and "pn_is n Q" and "an_is a Q" and "pp_is p P"
  shows "ep_is (ep_add e f) (P + Q) \<and> ep_is (ep_sub e f) (P - Q) \<and> ep_is (ep_negate e) (- P) \<and>
    ep_is (ep_double e) (P + P) \<and> ep_is (mul_by_cofactor e) (smul 8 P) \<and>
    ep_is (to_extended (add_projective_niels e n)) (P + Q) \<and> ep_is (to_extended (add_affine_niels e a)) (P + Q) \<and>
    pp_is (to_projective (pp_double p)) (P + P) \<and>
    is_set (ep_is_identity e) = (P = 0) \<and> is_set (is_small_order e) = (smul 8 P = 0)"
  using ep_is_identity [OF assms(1)] is_small_order_is [OF assms(1)]
  by (intro conjI point_intro assms) simp_all

theorem point_operations_witness:
  "ep_is (ep_add ED_BASEPOINT ED_BASEPOINT) (base_point + base_point) \<and> is_set (ep_is_identity ep_IDENTITY)"
proof -
  have a: "an_is (affine_odd_multiples ED_BASEPOINT ! 0) base_point"
    using affine_odd_multiples_is(2) [OF ep_is_BASEPOINT, rule_format, of 0] by simp
  have p: "pp_is \<lparr>pp_x = ep_x ED_BASEPOINT, pp_y = ep_y ED_BASEPOINT, pp_z = ep_z ED_BASEPOINT\<rparr> base_point"
    using ep_is_BASEPOINT by (simp add: ep_is_def pp_is_def)
  note n = to_projective_niels_is [OF ep_is_BASEPOINT]
  show ?thesis
    using point_operations [OF ep_is_BASEPOINT ep_is_BASEPOINT n a p] ep_is_identity [OF ep_is_IDENTITY] by blast
qed

text \<open>
  C22. Scalar multiplication: the constant-time fixed-window routine on any point, the table-driven one
  on the base point and both interleaved variable-time routines, with the projective table and with
  the prepared affine table, compute the multiples of the group their arguments stand for.
\<close>

theorem scalar_multiplication:
  assumes "ep_is e P" and "sc_wf s" and "sc_wf t"
  shows "ep_is (ep_mul e s) (smul (int (sc_val s)) P) \<and> ep_is (ep_mul_base s) (smul (int (sc_val s)) base_point) \<and>
    ep_is (ep_mul_base_no_std s) (smul (int (sc_val s)) base_point) \<and>
    ep_is (vartime_double_scalar_mul_basepoint s e t) (smul (int (sc_val s)) P + smul (int (sc_val t)) base_point) \<and>
    ep_is (vartime_double_scalar_mul_prepared s (affine_odd_multiples e) t)
      (smul (int (sc_val s)) P + smul (int (sc_val t)) base_point)"
  using ep_mul_is [OF assms(1,2)] ep_mul_base_is [OF assms(2)] ep_mul_is [OF ep_is_BASEPOINT assms(2)]
    vartime_basepoint_is [OF assms] vartime_prepared_is [OF assms]
  by (simp add: ep_mul_base_no_std_def)

theorem scalar_multiplication_witness:
  "ep_is (ep_mul ED_BASEPOINT (Scalar [5, 0, 0, 0])) (smul 5 base_point)"
proof -
  have "sc_wf (Scalar [5, 0, 0, 0])" "sc_val (Scalar [5, 0, 0, 0]) = 5" by (simp_all add: sc_wf_def sc_val_def)
  with scalar_multiplication [OF ep_is_BASEPOINT this(1) this(1)] show ?thesis by simp
qed

end
