(* ===== verification/EdwardsEncoding.thy ===== *)
theory EdwardsEncoding
  imports EdwardsGroup
begin

text \<open>
  The 32-byte point encoding of edwards/point.rs: \<open>compress\<close> writes one encoding per point, and
  \<open>decompress\<close> accepts exactly the encodings of points and returns the point encoded. The existence
  half needs that \<open>sqrt_ratio\<close> finds every root there is.
\<close>

section \<open>Square roots\<close>

lemma gfv_pow_p58:
  assumes "fe_ok x"
  shows "fe_ok (fe_pow_p58 x)" "gfv (fe_pow_p58 x) = gfv x ^ (2 ^ 252 - 3)"
  using fe_pow_p58_is [OF fe_is_value [OF assms]] unfolding fe_is_gfv by (simp_all add: gfv_def)

text \<open>A power to half the group order is a sign.\<close>

lemma gf_half_power: "(a :: gf) ^ ((2 ^ 252 - 3 + 2 ^ 252 - 2) * 2) \<in> {0, 1, - 1}"
proof (cases "a = 0")
  case False
  define h where "h = a ^ ((2 ^ 252 - 3 + 2 ^ 252 - 2) * 2)"
  have "(2 ^ 252 - 3 + 2 ^ 252 - 2) * 2 * 2 = P25519 - 1" by (simp add: P25519_eq)
  then have "h ^ 2 = 1" unfolding h_def power_mult [symmetric] using gf_fermat [OF False] by (simp only:)
  then have "(h - 1) * (h + 1) = 0" by (simp add: power2_eq_square algebra_simps)
  then show ?thesis unfolding h_def [symmetric] by (auto simp: eq_neg_iff_add_eq_0)
next
  case True
  have "0 < (2 ^ 252 - 3 + 2 ^ 252 - 2 :: nat) * 2" by simp
  then have "a ^ ((2 ^ 252 - 3 + 2 ^ 252 - 2) * 2) = 0" unfolding True by (rule zero_power)
  then show ?thesis by (simp only: insertI1)
qed

text \<open>The candidate of \<open>sqrt_ratio\<close> for \<open>u/v\<close>.\<close>

definition root_of :: "gf \<Rightarrow> gf \<Rightarrow> gf" where
  "root_of u v = u * (v * v * v) * (u * (v * v * v * (v * v * v) * v)) ^ (2 ^ 252 - 3)"

lemma root_of_identities:
  fixes v w p :: gf
  shows "v * (w * w) * (v * v * v * (v * v * v) * v) = (v * v * v * v * w) * (v * v * v * v * w)"
    and "v * ((u * (v * v * v) * p) * (u * (v * v * v) * p)) = u * (p * p * (u * (v * v * v * (v * v * v) * v)))"
  by (simp_all only: ac_simps)

lemma root_of_check:
  assumes "u = v * (w * w)" and "v \<noteq> 0"
  shows "v * (root_of u v * root_of u v) \<in> {u, - u}"
proof (cases "w = 0")
  case False
  define b where "b = u * (v * v * v * (v * v * v) * v)"
  define c where "c = v * v * v * v * w"
  define k :: nat where "k = 2 ^ 252 - 3"
  have b: "b = c ^ 2" unfolding b_def assms(1) c_def power2_eq_square by (rule root_of_identities(1))
  have k: "k + k + 1 = 2 ^ 252 - 3 + 2 ^ 252 - 2" by (simp add: k_def)
  have "v * (root_of u v * root_of u v) = u * (b ^ k * b ^ k * b)"
    unfolding root_of_def k_def [symmetric] b_def by (rule root_of_identities(2))
  also have "b ^ k * b ^ k * b = b ^ (k + k + 1)" by (simp only: power_add power_one_right)
  also have "\<dots> = c ^ ((2 ^ 252 - 3 + 2 ^ 252 - 2) * 2)"
    unfolding b k power_mult [symmetric] by (simp only: mult.commute)
  finally have eq: "v * (root_of u v * root_of u v) = u * c ^ ((2 ^ 252 - 3 + 2 ^ 252 - 2) * 2)" .
  have "c \<noteq> 0" using False assms(2) by (simp add: c_def)
  then have "c ^ ((2 ^ 252 - 3 + 2 ^ 252 - 2) * 2) \<noteq> 0" by (rule power_not_zero)
  then have "c ^ ((2 ^ 252 - 3 + 2 ^ 252 - 2) * 2) = 1 \<or> c ^ ((2 ^ 252 - 3 + 2 ^ 252 - 2) * 2) = - 1"
    using gf_half_power [of c] by blast
  then show ?thesis unfolding eq by (elim disjE) (simp_all only: mult_1_right mult_minus_right insert_iff simp_thms)
next
  case True
  then have "root_of u v = 0" unfolding root_of_def assms(1) True by (simp only: mult_zero_left mult_zero_right)
  then show ?thesis unfolding assms(1) True by (simp only: mult_zero_right insertI1)
qed

lemma sqrt_ratio_complete:
  assumes ok: "fe_ok x" "fe_ok y" and w: "gfv x = gfv y * (w * w)" "gfv y \<noteq> 0"
  shows "is_set (snd (fe_sqrt_ratio x y))"
proof -
  define root where "root = fe_mul (fe_mul x (fe_mul (fe_square y) y)) (fe_pow_p58 (fe_mul x
    (fe_mul (fe_square (fe_mul (fe_square y) y)) y)))"
  have r: "fe_ok root" "gfv root = root_of (gfv x) (gfv y)"
    using ok by (simp_all only: root_def root_of_def fe_simps gfv_pow_p58)
  let ?ch = "fe_mul y (fe_square root)"
  have ch: "fe_ok ?ch" "gfv ?ch = gfv y * (root_of (gfv x) (gfv y) * root_of (gfv x) (gfv y))"
    using ok r by (simp_all only: fe_simps)
  note neg = fe_ok_gfv1(3,4) [OF ok(1)]
  have "gfv ?ch = gfv x \<or> gfv ?ch = gfv (fe_neg x)"
    using root_of_check [OF w] unfolding ch(2) neg(2) by blast
  then have "is_set (fe_ct_eq ?ch x) \<or> is_set (fe_ct_eq ?ch (fe_neg x))"
    unfolding gfv_ct_eq(1) [OF ch(1) ok(1)] gfv_ct_eq(1) [OF ch(1) neg(1)] .
  moreover note gfv_ct_eq(2) [OF ch(1) ok(1)] gfv_ct_eq(2) [OF ch(1) neg(1)]
  moreover have "snd (fe_sqrt_ratio x y) = choice_or (fe_ct_eq ?ch x) (fe_ct_eq ?ch (fe_neg x))"
    unfolding fe_sqrt_ratio_def Let_def root_def by simp
  ultimately show ?thesis by (simp only: choice_ops)
qed

lemma sqrt_ratio_flag: "choice_wf (snd (fe_sqrt_ratio x y))" if "fe_ok x" "fe_ok y"
proof -
  have "choice_wf (fe_ct_eq a b)" for a b by (simp add: fe_ct_eq_def ct_eq_bytes_eq choice_wf_def)
  then show ?thesis by (simp add: fe_sqrt_ratio_def Let_def choice_ops)
qed

lemma sqrt_ratio_gfv:
  assumes "fe_ok x" and "fe_ok y"
  shows "fe_ok (fst (fe_sqrt_ratio x y))" "\<not> gf_odd (gfv (fst (fe_sqrt_ratio x y)))"
    "is_set (snd (fe_sqrt_ratio x y)) \<Longrightarrow>
      gfv y * (gfv (fst (fe_sqrt_ratio x y)) * gfv (fst (fe_sqrt_ratio x y))) = gfv x"
proof -
  note v = fe_is_value [OF assms(1)] fe_is_value [OF assms(2)]
  obtain r where r: "fe_is (fst (fe_sqrt_ratio x y)) r" "even (r mod p25519)"
    "is_set (snd (fe_sqrt_ratio x y)) \<longrightarrow>
      (int (fe_value y) * (r * r)) mod p25519 = int (fe_value x) mod p25519"
    using sqrt_ratio_is [OF v] by blast
  then have g: "fe_ok (fst (fe_sqrt_ratio x y))" "gfv (fst (fe_sqrt_ratio x y)) = of_int r"
    by (simp_all add: fe_is_gfv)
  show "fe_ok (fst (fe_sqrt_ratio x y))" by (rule g)
  show "\<not> gf_odd (gfv (fst (fe_sqrt_ratio x y)))" using r(2) by (simp add: g gf_odd_def Rep_gf_of_int)
  assume "is_set (snd (fe_sqrt_ratio x y))"
  with r(3) have "(of_int (int (fe_value y) * (r * r)) :: gf) = of_int (int (fe_value x))"
    by (simp only: of_int_gf_eq)
  then show "gfv y * (gfv (fst (fe_sqrt_ratio x y)) * gfv (fst (fe_sqrt_ratio x y))) = gfv x"
    unfolding g(2) by (simp only: gfv_def of_int_mult of_int_of_nat_eq)
qed

section \<open>The encoding of a point\<close>

definition pt_bytes :: "point \<Rightarrow> bytes" where
  "pt_bytes P = (gf_bytes (py P))[31 := gf_bytes (py P) ! 31 XOR (if gf_odd (px P) then 0x80 else 0)]"

lemma ep_compress_is:
  assumes "ep_is e P"
  shows "ep_compress e = pt_bytes P"
proof -
  note d = assms [unfolded ep_is_def]
  let ?zi = "fe_invert (ep_z e)"
  have x: "fe_ok (fe_mul (ep_x e) ?zi)" "gfv (fe_mul (ep_x e) ?zi) = px P"
    and y: "fe_ok (fe_mul (ep_y e) ?zi)" "gfv (fe_mul (ep_y e) ?zi) = py P"
    using d by (simp_all add: fe_simps)
  have n: "fe_is_negative (fe_mul (ep_x e) ?zi) = (if gf_odd (px P) then choice_TRUE else choice_FALSE)"
    using gfv_tests [OF x(1)] by (auto simp: x(2) choice_wf_def split: if_splits)
  have m: "(ucast (choice.mask choice_TRUE) AND 0x80 :: u8) = 0x80" "(ucast (choice.mask choice_FALSE) AND 0x80 :: u8) = 0"
    by (simp_all add: choice_TRUE_def choice_FALSE_def bit_eq_iff bit_simps)
  show ?thesis
    unfolding ep_compress_def Let_def n fe_to_bytes_gfv [OF y(1)] y(2) pt_bytes_def by (simp add: m)
qed

lemma length_gf_bytes [simp]: "length (gf_bytes a) = 32"
  by (simp add: gf_bytes_def)

lemma length_pt_bytes [simp]: "length (pt_bytes P) = 32"
  by (simp add: pt_bytes_def)

lemma Rep_gf_bound: "nat (Rep_gf a) < P25519" "0 \<le> Rep_gf a"
  using Rep_gf [of a] by (simp_all add: nat_less_iff)

text \<open>The top bit of a canonical field encoding is free; the sign goes there.\<close>

lemma gf_bytes_top: "\<not> bit (gf_bytes a ! 31) 7"
proof -
  define n where "n = nat (Rep_gf a)"
  have n: "n < 2 ^ 255" using Rep_gf_bound(1) [of a] by (simp add: n_def P25519_eq)
  have "gf_bytes a ! 31 = of_nat (n div 256 ^ 31)" by (simp add: gf_bytes_def to_le_map n_def)
  moreover have "n div 256 ^ 31 < 2 ^ 7" using n by (simp add: less_mult_imp_div_less)
  then have "\<not> bit (n div 256 ^ 31) 7" by (simp add: bit_iff_odd)
  ultimately show ?thesis by (simp add: bit_simps)
qed

lemma bit_sign_byte: "bit (0x80 :: u8) n \<longleftrightarrow> n = 7" "bit (0x7f :: u8) n \<longleftrightarrow> n < 7"
proof -
  have "n < 8 \<Longrightarrow> n \<in> {0, 1, 2, 3, 4, 5, 6, 7}" by auto
  then show "bit (0x80 :: u8) n \<longleftrightarrow> n = 7" "bit (0x7f :: u8) n \<longleftrightarrow> n < 7"
    by (cases "n < 8"; force dest: bit_imp_le_length)+
qed

lemma sign_byte:
  fixes b :: u8
  shows "\<not> bit b 7 \<Longrightarrow> (b XOR (if s then 0x80 else 0)) AND 0x7f = b"
    and "\<not> bit b 7 \<Longrightarrow> bit (b XOR (if s then 0x80 else 0)) 7 = s"
    and "(b AND 0x7f) XOR (if bit b 7 then 0x80 else 0) = b"
proof -
  have x: "bit (b XOR (if s then 0x80 else 0)) n \<longleftrightarrow> bit b n \<noteq> (s \<and> n = 7)" for b :: u8 and s n
    by (cases s) (simp_all only: bit_xor_iff bit_sign_byte if_True if_False bit_0_eq bot_apply simp_thms bot_bool_def)
  have h: "n < 8 \<Longrightarrow> n < 7 \<or> n = 7" for n :: nat by arith
  show "(b XOR (if s then 0x80 else 0)) AND 0x7f = b" if "\<not> bit b 7"
    by (rule bit_word_eqI, simp only: bit_and_iff x bit_sign_byte) (use that h in fastforce)
  show "bit (b XOR (if s then 0x80 else 0)) 7 = s" if "\<not> bit b 7"
    using that by (simp only: x) simp
  show "(b AND 0x7f) XOR (if bit b 7 then 0x80 else 0) = b"
    by (rule bit_word_eqI, simp only: bit_and_iff x bit_sign_byte) (use h in fastforce)
qed

lemma pt_bytes_parts:
  "bit (pt_bytes P ! 31) 7 = gf_odd (px P)" "(pt_bytes P)[31 := pt_bytes P ! 31 AND 0x7f] = gf_bytes (py P)"
proof -
  note t = gf_bytes_top [of "py P"]
  have n: "pt_bytes P ! 31 = gf_bytes (py P) ! 31 XOR (if gf_odd (px P) then 0x80 else 0)"
    by (simp add: pt_bytes_def)
  show "bit (pt_bytes P ! 31) 7 = gf_odd (px P)" unfolding n by (rule sign_byte(2) [OF t])
  show "(pt_bytes P)[31 := pt_bytes P ! 31 AND 0x7f] = gf_bytes (py P)"
    unfolding n sign_byte(1) [OF t] by (simp add: pt_bytes_def)
qed

text \<open>A point is determined by its ordinate and the parity of its abscissa.\<close>

lemma same_abscissa:
  fixes a b :: gf
  assumes "a * a = b * b" and "gf_odd a = gf_odd b"
  shows "a = b"
proof -
  have "(a - b) * (a + b) = 0" using assms(1) by (simp add: algebra_simps)
  then have "a = b \<or> a = - b" by (auto simp: eq_neg_iff_add_eq_0)
  moreover have "a = b" if "a = - b" using that assms(2) gf_odd_minus [of b] by (cases "b = 0") auto
  ultimately show ?thesis by blast
qed

lemma abscissa_denominator: "1 + ed_d * (y * y) \<noteq> 0"
proof
  assume "1 + ed_d * (y * y) = 0"
  then have "ed_d * (y * y) = ed_i * ed_i" unfolding ed_i_square by (simp add: eq_neg_iff_add_eq_0 add.commute)
  moreover from this have "y \<noteq> 0" using ed_i_square by auto
  ultimately have "(ed_i / y) * (ed_i / y) = ed_d" by (simp add: times_divide_times_eq divide_eq_eq mult.assoc)
  then show False using ed_d_nonsquare by blast
qed

lemma point_equation:
  "(1 + ed_d * (y * y)) * (x * x) = y * y - 1 \<longleftrightarrow> y * y - x * x = 1 + ed_d * (x * y) * (x * y)"
proof -
  have "(1 + ed_d * (y * y)) * (x * x) - (y * y - 1) = 1 + ed_d * (x * y) * (x * y) - (y * y - x * x)" by algebra
  then show ?thesis by (metis eq_iff_diff_eq_0)
qed

lemma pt_bytes_inject: "pt_bytes P = pt_bytes Q \<longleftrightarrow> P = Q"
proof
  assume eq: "pt_bytes P = pt_bytes Q"
  then have y: "py P = py Q" using pt_bytes_parts(2) [of P] pt_bytes_parts(2) [of Q] by (simp add: gf_bytes_inj)
  moreover have "gf_odd (px P) = gf_odd (px Q)" using eq pt_bytes_parts(1) [of P] pt_bytes_parts(1) [of Q] by simp
  moreover have "px P * px P = px Q * px Q"
    using point_on [of P] point_on [of Q] abscissa_denominator [of "py P"] unfolding point_equation [symmetric] y
    by (metis mult_cancel_left y)
  ultimately show "P = Q" using point_eqI same_abscissa by blast
qed simp

section \<open>Decoding\<close>

lemma gf_odd_0 [simp]: "\<not> gf_odd 0"
  by (simp add: gf_odd_def zero_gf.rep_eq)

lemma fe_from_bytes_gf:
  shows "length bs = 32 \<Longrightarrow> fe_ok (fe_from_bytes bs)" and "gfv (fe_from_bytes (gf_bytes a)) = a"
proof -
  show "length bs = 32 \<Longrightarrow> fe_ok (fe_from_bytes bs)" using fe_from_bytes_raw by blast
  define n where "n = nat (Rep_gf a)"
  have n: "n < P25519" "Rep_gf a = int n" using Rep_gf_bound [of a] by (simp_all add: n_def)
  have "n < 2 ^ 255" using n(1) by (simp add: P25519_eq)
  then have "n < 256 ^ 32" by simp
  then have "fe_value (fe_from_bytes (gf_bytes a)) = n"
    using fe_from_bytes_raw [of "gf_bytes a"] \<open>n < 2 ^ 255\<close> by (simp add: gf_bytes_def from_le_to_le flip: n_def)
  then have "Rep_gf (gfv (fe_from_bytes (gf_bytes a))) = Rep_gf a"
    using n(1) by (simp add: gfv_def Rep_gf_of_nat n(2))
  then show "gfv (fe_from_bytes (gf_bytes a)) = a" by (simp only: Rep_gf_inject)
qed

lemma sign_choice: "is_set (from_bit (ucast (drop_bit 7 (b :: u8)))) \<longleftrightarrow> bit b 7"
  "choice_wf (from_bit (ucast (drop_bit 7 (b :: u8))))"
  by (simp_all add: from_bit_cases bit_simps choice_wf_def)

lemma ep_decompress_eq:
  assumes "yb = bs[31 := bs ! 31 AND 0x7f]" and "y = fe_from_bytes yb"
    and "r = fe_sqrt_ratio (fe_sub (fe_square y) fe_ONE) (fe_add (fe_mul (fe_square y) ED_D) fe_ONE)"
    and "x = fe_conditional_negate (fst r)
      (choice_xor (fe_is_negative (fst r)) (from_bit (ucast (drop_bit 7 (bs ! 31)))))"
  shows "ep_decompress bs =
    (if fe_to_bytes y = yb \<and> is_set (snd r) \<and> \<not> (is_set (fe_is_zero (fst r)) \<and> bit (bs ! 31) 7)
     then Some \<lparr>ep_x = x, ep_y = y, ep_z = fe_ONE, ep_t = fe_mul x y\<rparr> else None)"
  unfolding ep_decompress_def Let_def assms by (simp add: ct_eq_bytes_eq case_prod_beta sign_choice)

lemma decompress_parts:
  assumes "y = fe_from_bytes (bs[31 := bs ! 31 AND 0x7f])" and "length bs = 32"
    and "r = fe_sqrt_ratio (fe_sub (fe_square y) fe_ONE) (fe_add (fe_mul (fe_square y) ED_D) fe_ONE)"
    and "x = fe_conditional_negate (fst r)
      (choice_xor (fe_is_negative (fst r)) (from_bit (ucast (drop_bit 7 (bs ! 31)))))"
  shows "fe_ok y" "fe_ok x" "gfv x = (if bit (bs ! 31) 7 then - gfv (fst r) else gfv (fst r))"
    "is_set (fe_is_zero (fst r)) \<longleftrightarrow> gfv (fst r) = 0" "\<not> gf_odd (gfv (fst r))"
    "is_set (snd r) \<longleftrightarrow> (\<exists>w. (1 + ed_d * (gfv y * gfv y)) * (w * w) = gfv y * gfv y - 1)"
    "is_set (snd r) \<Longrightarrow> (1 + ed_d * (gfv y * gfv y)) * (gfv (fst r) * gfv (fst r)) = gfv y * gfv y - 1"
proof -
  let ?u = "fe_sub (fe_square y) fe_ONE" and ?v = "fe_add (fe_mul (fe_square y) ED_D) fe_ONE"
  show y: "fe_ok y" using assms(1,2) fe_from_bytes_gf(1) by simp
  then have uv: "fe_ok ?u" "gfv ?u = gfv y * gfv y - 1" "fe_ok ?v" "gfv ?v = 1 + ed_d * (gfv y * gfv y)"
    by (simp_all add: fe_simps ed_d_def [symmetric] algebra_simps)
  note s = sqrt_ratio_gfv [OF uv(1,3), folded assms(3), unfolded uv]
  note t = gfv_tests [OF s(1)]
  show "is_set (fe_is_zero (fst r)) \<longleftrightarrow> gfv (fst r) = 0" by (rule t)
  show "\<not> gf_odd (gfv (fst r))" by (rule s)
  show root: "is_set (snd r) \<Longrightarrow> (1 + ed_d * (gfv y * gfv y)) * (gfv (fst r) * gfv (fst r)) = gfv y * gfv y - 1"
    by (rule s(3))
  have "is_set (snd r)" if "(1 + ed_d * (gfv y * gfv y)) * (w * w) = gfv y * gfv y - 1" for w
    unfolding assms(3) by (rule sqrt_ratio_complete [OF uv(1,3), of w, unfolded uv])
      (use that abscissa_denominator in auto)
  then show "is_set (snd r) \<longleftrightarrow> (\<exists>w. (1 + ed_d * (gfv y * gfv y)) * (w * w) = gfv y * gfv y - 1)"
    using root by blast
  let ?c = "choice_xor (fe_is_negative (fst r)) (from_bit (ucast (drop_bit 7 (bs ! 31))))"
  have c: "choice_wf ?c" "is_set ?c \<longleftrightarrow> bit (bs ! 31) 7"
    using choice_ops [OF t(4) sign_choice(2)] s(2) by (simp_all add: t(2) sign_choice(1))
  note sel = gfv_select [OF s(1) fe_ok_gfv1(3) [OF s(1)] c(1)]
  show "fe_ok x" "gfv x = (if bit (bs ! 31) 7 then - gfv (fst r) else gfv (fst r))"
    using sel fe_ok_gfv1(4) [OF s(1)] by (simp_all add: assms(4) fe_conditional_negate_def c(2))
qed

lemma ep_decompress_sound:
  assumes "ep_decompress bs = Some e" and "length bs = 32"
  shows "\<exists>P. ep_is e P \<and> pt_bytes P = bs"
proof -
  define y where "y = fe_from_bytes (bs[31 := bs ! 31 AND 0x7f])"
  define r where "r = fe_sqrt_ratio (fe_sub (fe_square y) fe_ONE) (fe_add (fe_mul (fe_square y) ED_D) fe_ONE)"
  define x where "x = fe_conditional_negate (fst r)
    (choice_xor (fe_is_negative (fst r)) (from_bit (ucast (drop_bit 7 (bs ! 31)))))"
  note p = decompress_parts [OF y_def assms(2) r_def x_def]
  have d: "fe_to_bytes y = bs[31 := bs ! 31 AND 0x7f]" "is_set (snd r)" "\<not> (gfv (fst r) = 0 \<and> bit (bs ! 31) 7)"
    "e = \<lparr>ep_x = x, ep_y = y, ep_z = fe_ONE, ep_t = fe_mul x y\<rparr>"
    using assms(1) unfolding ep_decompress_eq [OF refl y_def r_def x_def] p(4) by (auto split: if_splits)
  have "gfv x * gfv x = gfv (fst r) * gfv (fst r)" using p(3) by simp
  with p(7) [OF d(2)] have "(1 + ed_d * (gfv y * gfv y)) * (gfv x * gfv x) = gfv y * gfv y - 1" by simp
  then obtain P where P: "px P = gfv x" "py P = gfv y"
    using point_obtain unfolding point_equation by metis
  have "gf_odd (gfv x) \<longleftrightarrow> bit (bs ! 31) 7"
    using p(3,5) d(3) gf_odd_minus [of "gfv (fst r)"] by auto
  moreover have "gf_bytes (gfv y) = bs[31 := bs ! 31 AND 0x7f]"
    using d(1) fe_to_bytes_gfv [OF p(1)] by simp
  ultimately have "pt_bytes P = bs"
    using assms(2) sign_byte(3) [of "bs ! 31"] by (simp add: pt_bytes_def P)
  moreover have "ep_is e P"
    unfolding ep_is_def d(4) using p(1,2) by (simp add: P fe_simps)
  ultimately show ?thesis by blast
qed

lemma ep_decompress_pt_bytes: "\<exists>e. ep_decompress (pt_bytes P) = Some e \<and> ep_is e P"
proof -
  let ?bs = "pt_bytes P"
  define y where "y = fe_from_bytes (?bs[31 := ?bs ! 31 AND 0x7f])"
  define r where "r = fe_sqrt_ratio (fe_sub (fe_square y) fe_ONE) (fe_add (fe_mul (fe_square y) ED_D) fe_ONE)"
  define x where "x = fe_conditional_negate (fst r)
    (choice_xor (fe_is_negative (fst r)) (from_bit (ucast (drop_bit 7 (?bs ! 31)))))"
  note p = decompress_parts [OF y_def length_pt_bytes r_def x_def]
  have y: "gfv y = py P" by (simp only: y_def pt_bytes_parts fe_from_bytes_gf)
  have eq: "(1 + ed_d * (gfv y * gfv y)) * (px P * px P) = gfv y * gfv y - 1"
    unfolding y point_equation by (rule point_on)
  then have set: "is_set (snd r)" using p(6) by blast
  have "\<not> gf_odd (px P)" if "gfv (fst r) = 0"
  proof -
    have "(1 + ed_d * (gfv y * gfv y)) * (px P * px P) = 0" using p(7) [OF set] eq that by simp
    then have "px P = 0" using abscissa_denominator by auto
    then show ?thesis by simp
  qed
  then have "ep_decompress ?bs \<noteq> None"
    using set fe_to_bytes_gfv [OF p(1)]
    by (simp add: ep_decompress_eq [OF refl y_def r_def x_def] p(4) pt_bytes_parts y)
  then obtain e where e: "ep_decompress ?bs = Some e" by blast
  then obtain Q where "ep_is e Q" "pt_bytes Q = ?bs" using ep_decompress_sound length_pt_bytes by blast
  then show ?thesis using e by (simp add: pt_bytes_inject)
qed

lemma ep_decompress_iff:
  assumes "length bs = 32"
  shows "ep_decompress bs = None \<longleftrightarrow> bs \<notin> range pt_bytes"
proof -
  have "ep_decompress bs \<noteq> None \<Longrightarrow> bs \<in> range pt_bytes"
    using ep_decompress_sound [OF _ assms] by blast
  moreover have "ep_decompress (pt_bytes P) \<noteq> None" for P using ep_decompress_pt_bytes [of P] by auto
  ultimately show ?thesis by blast
qed

lemma pt_bytes_0: "pt_bytes 0 = 1 # replicate 31 0"
proof -
  have "gf_bytes 1 = to_le 32 1" by (simp add: gf_bytes_def one_gf.rep_eq)
  also have "\<dots> = 1 # replicate 31 0" by code_simp
  finally show ?thesis by (simp add: pt_bytes_def point_zero_minus list_update_same_conv)
qed

section \<open>Properties\<close>

text \<open>
  C23. The point encoding: compressing any representation of a point and decompressing gives a
  representation of the same point, equal points and only equal points have equal encodings, and a
  string that decompresses is the encoding of the point returned, so no point has a second accepted
  encoding.
\<close>

theorem point_codec:
  assumes "ep_is e P" and "ep_is f Q" and "length bs = 32"
  shows "(\<exists>e'. ep_decompress (ep_compress e) = Some e' \<and> ep_is e' P) \<and>
    (ep_compress e = ep_compress f \<longleftrightarrow> P = Q) \<and>
    (case ep_decompress bs of None \<Rightarrow> \<forall>R g. ep_is g R \<longrightarrow> ep_compress g \<noteq> bs
      | Some g \<Rightarrow> (\<exists>R. ep_is g R) \<and> ep_compress g = bs)"
proof (intro conjI)
  show "\<exists>e'. ep_decompress (ep_compress e) = Some e' \<and> ep_is e' P"
    unfolding ep_compress_is [OF assms(1)] by (rule ep_decompress_pt_bytes)
  show "ep_compress e = ep_compress f \<longleftrightarrow> P = Q"
    unfolding ep_compress_is [OF assms(1)] ep_compress_is [OF assms(2)] by (rule pt_bytes_inject)
  show "case ep_decompress bs of None \<Rightarrow> \<forall>R g. ep_is g R \<longrightarrow> ep_compress g \<noteq> bs
      | Some g \<Rightarrow> (\<exists>R. ep_is g R) \<and> ep_compress g = bs"
  proof (cases "ep_decompress bs")
    case None
    then have "bs \<notin> range pt_bytes" using ep_decompress_iff [OF assms(3)] by blast
    then show ?thesis using ep_compress_is by (auto simp: None)
  next
    case (Some g)
    then obtain R where "ep_is g R" "pt_bytes R = bs" using ep_decompress_sound assms(3) by blast
    then show ?thesis using ep_compress_is by (auto simp: Some)
  qed
qed

theorem point_codec_witness:
  "\<exists>e. ep_decompress (1 # replicate 31 0) = Some e \<and> ep_is e 0"
proof -
  have "ep_compress ep_IDENTITY = 1 # replicate 31 0"
    unfolding ep_compress_is [OF ep_is_IDENTITY] by (rule pt_bytes_0)
  with point_codec [OF ep_is_IDENTITY ep_is_IDENTITY, of "replicate 32 0"] show ?thesis by simp
qed

end
