(* ===== verification/BasePointOrder.thy ===== *)
theory BasePointOrder
  imports EdwardsMul EdwardsEncoding
begin

text \<open>
  The order of the base point: the multiple by the group order is computed by rewriting, with the
  formulas of niels.rs on residues in octal digits, and is the identity. As the order is prime, no
  smaller multiple is.
\<close>

section \<open>The formulas on residues\<close>

definition jsub2 :: "nat \<Rightarrow> nat \<Rightarrow> nat \<Rightarrow> nat" where
  "jsub2 x y c =
    (if y + c = 463168356949264781694283940034751631413079938662562256157830336031652518559743
     then x + c + 57896044618658097711785492504343953926634992332820282019728792003956564819798
     else x + 57896044618658097711785492504343953926634992332820282019728792003956564819948 * y)"

definition jsub :: "nat \<Rightarrow> nat \<Rightarrow> nat" where
  "jsub x y = jsub2 x y (oct_com 463168356949264781694283940034751631413079938662562256157830336031652518559743 y)"

datatype jac = JP nat nat nat | JE nat nat nat nat | JC nat nat nat nat

datatype naf = N0 | NP | NM

definition jdouble2 :: "nat \<Rightarrow> nat \<Rightarrow> nat \<Rightarrow> nat \<Rightarrow> jac" where
  "jdouble2 h g c s = JC (jsub h s) h (c + g) g"

definition jdouble1 :: "nat \<Rightarrow> nat \<Rightarrow> nat \<Rightarrow> nat \<Rightarrow> jac" where
  "jdouble1 a b c s = jdouble2 (a + b) (jsub a b) (c + c) s"

fun jdouble :: "jac \<Rightarrow> jac" where
  "jdouble (JP x y z) = jdouble1 (red25519 (oct_sq x)) (red25519 (oct_sq y)) (red25519 (oct_sq z)) (red25519 (oct_sq (x + y)))"
| "jdouble q = q"

fun jproj :: "jac \<Rightarrow> jac" where
  "jproj (JC e h f g) = JP (red25519 (oct_mult e f)) (red25519 (oct_mult g h)) (red25519 (oct_mult f g))"
| "jproj q = q"

fun jext :: "jac \<Rightarrow> jac" where
  "jext (JC e h f g) =
    JE (red25519 (oct_mult e f)) (red25519 (oct_mult g h)) (red25519 (oct_mult f g)) (red25519 (oct_mult e h))"
| "jext q = q"

definition jadd1 :: "nat \<Rightarrow> nat \<Rightarrow> nat \<Rightarrow> nat \<Rightarrow> jac" where
  "jadd1 pp mm tt z2 = JC (jsub pp mm) (pp + mm) (jsub z2 tt) (z2 + tt)"

fun jadd :: "nat \<Rightarrow> nat \<Rightarrow> nat \<Rightarrow> jac \<Rightarrow> jac" where
  "jadd yp ym t2 (JE x y z t) =
    jadd1 (red25519 (oct_mult (y + x) yp)) (red25519 (oct_mult (jsub y x) ym)) (red25519 (oct_mult t t2)) (z + z)"
| "jadd yp ym t2 q = q"

fun jstep :: "naf \<Rightarrow> jac \<Rightarrow> jac" where
  "jstep N0 q = q"
| "jstep NP q = jadd
    3533012425803781230144052908719740726127014226477800802100354883158534798213
    31204614345391077396927242593886631629853981173214368409736920319215404093758
    50237614328228664512531835696112167678046477356841409204013502641986506238568 (jext q)"
| "jstep NM q = jadd
    31204614345391077396927242593886631629853981173214368409736920319215404093758
    3533012425803781230144052908719740726127014226477800802100354883158534798213
    7658430290429433199253656808231786248588514975978872815715289361970058581381 (jext q)"

fun jrun :: "jac \<Rightarrow> naf list \<Rightarrow> jac" where
  "jrun q [] = q"
| "jrun q (d # ds) = jrun (jproj (jstep d (jdouble q))) ds"

lemmas jrun_eval = jrun.simps jstep.simps jproj.simps jext.simps jdouble.simps jdouble1_def jdouble2_def
  jadd.simps jadd1_def jsub_def jsub2_def

section \<open>Their meaning\<close>

lemma gf_red25519: "(of_nat (red25519 x) :: gf) = of_nat x"
  unfolding of_nat_gf_eq P25519_def by (rule red25519_val)

lemma gf_jsub: "(of_nat (jsub x y) :: gf) = of_nat x - of_nat y"
proof -
  have c: "(of_nat 463168356949264781694283940034751631413079938662562256157830336031652518559743 :: gf) + of_nat 57896044618658097711785492504343953926634992332820282019728792003956564819798 = 0"
    using of_nat_gf_eq [of "463168356949264781694283940034751631413079938662562256157830336031652518559743 + 57896044618658097711785492504343953926634992332820282019728792003956564819798" 0]
    by (simp only: of_nat_add of_nat_0) (simp add: P25519_eq)
  have m: "(of_nat 57896044618658097711785492504343953926634992332820282019728792003956564819948 :: gf) = - 1"
    using of_nat_gf_eq [of "57896044618658097711785492504343953926634992332820282019728792003956564819948 + 1" 0]
    by (simp only: of_nat_add of_nat_0 of_nat_1) (simp add: P25519_eq eq_neg_iff_add_eq_0)
  show ?thesis
  proof (cases "y + oct_com 463168356949264781694283940034751631413079938662562256157830336031652518559743 y = 463168356949264781694283940034751631413079938662562256157830336031652518559743")
    case True
    then have "(of_nat y :: gf) + of_nat (oct_com 463168356949264781694283940034751631413079938662562256157830336031652518559743 y) = of_nat 463168356949264781694283940034751631413079938662562256157830336031652518559743"
      by (simp only: of_nat_add [symmetric])
    then have "(of_nat y :: gf) + (of_nat (oct_com 463168356949264781694283940034751631413079938662562256157830336031652518559743 y) + of_nat 57896044618658097711785492504343953926634992332820282019728792003956564819798) = 0"
      using c by (simp only: add.assoc [symmetric])
    then have "- (of_nat y :: gf) = of_nat (oct_com 463168356949264781694283940034751631413079938662562256157830336031652518559743 y) + of_nat 57896044618658097711785492504343953926634992332820282019728792003956564819798"
      by (rule minus_unique)
    then show ?thesis by (simp only: jsub_def jsub2_def True if_True simp_thms of_nat_add add.assoc diff_conv_add_uminus)
  next
    case False
    then show ?thesis by (simp only: jsub_def jsub2_def if_False of_nat_add of_nat_mult m) simp
  qed
qed

text \<open>Every field element has a limb representation; the lemmas on the code carry over to residues.\<close>

definition fe_of :: "nat \<Rightarrow> fe" where "fe_of n = fe_from_bytes (gf_bytes (of_nat n))"

lemma fe_of_is: "fe_ok (fe_of n)" "gfv (fe_of n) = of_nat n"
  by (simp_all add: fe_of_def fe_from_bytes_gf)

fun jac_is :: "jac \<Rightarrow> point \<Rightarrow> bool" where
  "jac_is (JP x y z) P \<longleftrightarrow> pp_is \<lparr>pp_x = fe_of x, pp_y = fe_of y, pp_z = fe_of z\<rparr> P"
| "jac_is (JE x y z t) P \<longleftrightarrow> ep_is \<lparr>ep_x = fe_of x, ep_y = fe_of y, ep_z = fe_of z, ep_t = fe_of t\<rparr> P"
| "jac_is (JC e h f g) P \<longleftrightarrow> cp_is \<lparr>cp_e = fe_of e, cp_h = fe_of h, cp_f = fe_of f, cp_g = fe_of g\<rparr> P"

lemmas gf_residue = gf_red25519 gf_jsub oct_mult_val oct_sq_def of_nat_add of_nat_mult

lemma jac_shapes:
  "\<exists>e h f g. jdouble (JP x y z) = JC e h f g" "\<exists>x y z t. jext (JC e h f g) = JE x y z t"
  "\<exists>e h f g. jadd yp ym t2 (JE x y z t) = JC e h f g" "\<exists>x y z. jproj (JC e h f g) = JP x y z"
  by (simp_all add: jdouble1_def jdouble2_def jadd1_def)

lemma jdouble_is:
  assumes "jac_is (JP x y z) P"
  shows "jac_is (jdouble (JP x y z)) (P + P)"
proof -
  let ?c = "pp_double \<lparr>pp_x = fe_of x, pp_y = fe_of y, pp_z = fe_of z\<rparr>"
  obtain e h f g where q: "jdouble (JP x y z) = JC e h f g" using jac_shapes(1) by blast
  then have "gfv (cp_e ?c) = of_nat e" "gfv (cp_h ?c) = of_nat h" "gfv (cp_f ?c) = of_nat f" "gfv (cp_g ?c) = of_nat g"
    by (auto simp: jdouble1_def jdouble2_def pp_double_def Let_def fe_of_is fe_simps gf_residue)
  then show ?thesis
    using pp_double_is [OF assms [unfolded jac_is.simps]] unfolding q by (simp add: cp_is_def fe_of_is)
qed

lemma jproj_is:
  assumes "jac_is (JC e h f g) P"
  shows "jac_is (jproj (JC e h f g)) P" "jac_is (jext (JC e h f g)) P"
  using completed_conversions [OF assms [unfolded jac_is.simps]]
  by (simp_all add: pp_is_def ep_is_def to_projective_def to_extended_def fe_of_is fe_simps gf_residue)

lemma jadd_is:
  assumes "jac_is (JE x y z t) P" and "of_nat yp = py Q + px Q" and "of_nat ym = py Q - px Q"
    and "of_nat t2 = 2 * ed_d * (px Q * py Q)"
  shows "jac_is (jadd yp ym t2 (JE x y z t)) (P + Q)"
proof -
  have "an_is \<lparr>an_y_plus_x = fe_of yp, an_y_minus_x = fe_of ym, an_xy2d = fe_of t2\<rparr> Q"
    using assms(2-4) by (simp add: an_is_def fe_of_is)
  from add_affine_niels_is [OF assms(1) [unfolded jac_is.simps] this] show ?thesis
    by (simp add: jadd1_def cp_is_def add_affine_niels_def Let_def fe_of_is fe_simps gf_residue)
qed

fun naf_digit_int :: "naf \<Rightarrow> int" where
  "naf_digit_int N0 = 0"
| "naf_digit_int NP = 1"
| "naf_digit_int NM = - 1"

fun naf_int :: "int \<Rightarrow> naf list \<Rightarrow> int" where
  "naf_int c [] = c"
| "naf_int c (d # ds) = naf_int (2 * c + naf_digit_int d) ds"

lemma base_niels:
  "of_nat 3533012425803781230144052908719740726127014226477800802100354883158534798213 = py base_point + px base_point"
  "of_nat 31204614345391077396927242593886631629853981173214368409736920319215404093758 = py base_point - px base_point"
  "of_nat 50237614328228664512531835696112167678046477356841409204013502641986506238568 = 2 * ed_d * (px base_point * py base_point)"
  "of_nat 7658430290429433199253656808231786248588514975978872815715289361970058581381 = 2 * ed_d * (px (- base_point) * py (- base_point))"
proof -
  note xy = base_point_xy [unfolded gfv_def base_coordinates]
  note eqs = base_products [folded of_nat_gf_eq, unfolded of_nat_mult of_nat_add of_nat_1]
  show a: "of_nat 3533012425803781230144052908719740726127014226477800802100354883158534798213 = py base_point + px base_point"
    unfolding xy of_nat_add [symmetric] of_nat_gf_eq P25519_eq by simp
  show "of_nat 31204614345391077396927242593886631629853981173214368409736920319215404093758 = py base_point - px base_point"
    unfolding eq_diff_eq xy of_nat_add [symmetric] of_nat_gf_eq P25519_eq by simp
  have e: "ed_d * (px base_point * py base_point) = of_nat 25118807164114332256265917848056083839023238678420704602006751320993253119284"
    unfolding xy ed_d_value eqs(1) by (rule eqs(2))
  show t: "of_nat 50237614328228664512531835696112167678046477356841409204013502641986506238568 = 2 * ed_d * (px base_point * py base_point)"
    unfolding mult.assoc e unfolding mult_2 of_nat_add [symmetric] of_nat_gf_eq P25519_eq by simp
  have "(of_nat (7658430290429433199253656808231786248588514975978872815715289361970058581381 + 50237614328228664512531835696112167678046477356841409204013502641986506238568) :: gf) = of_nat 0"
    unfolding of_nat_gf_eq P25519_eq by simp
  then have "(of_nat 7658430290429433199253656808231786248588514975978872815715289361970058581381 :: gf) = - of_nat 50237614328228664512531835696112167678046477356841409204013502641986506238568"
    by (simp only: of_nat_add of_nat_0 eq_neg_iff_add_eq_0) simp
  then show "of_nat 7658430290429433199253656808231786248588514975978872815715289361970058581381 = 2 * ed_d * (px (- base_point) * py (- base_point))"
    unfolding t by (simp add: point_zero_minus)
qed

lemma jstep_is:
  assumes "jac_is (JC e h f g) P"
  shows "\<exists>x y z. jproj (jstep d (JC e h f g)) = JP x y z \<and>
    jac_is (jproj (jstep d (JC e h f g))) (P + smul (naf_digit_int d) base_point)"
proof -
  obtain x y z t where x: "jext (JC e h f g) = JE x y z t" by simp
  note e = jproj_is(2) [OF assms, unfolded x]
  note b = base_niels
  have "\<exists>e h f g. jstep d (JC e h f g) = JC e h f g" if "d = N0" for e h f g using that by simp
  have m: "of_nat 31204614345391077396927242593886631629853981173214368409736920319215404093758 = py (- base_point) + px (- base_point)" "of_nat 3533012425803781230144052908719740726127014226477800802100354883158534798213 = py (- base_point) - px (- base_point)"
    unfolding b by (simp_all add: point_zero_minus)
  have "\<exists>e' h' f' g'. jstep d (JC e h f g) = JC e' h' f' g' \<and> jac_is (JC e' h' f' g') (P + smul (naf_digit_int d) base_point)"
  proof (cases d)
    case N0
    then show ?thesis using assms by simp
  next
    case NP
    show ?thesis unfolding NP jstep.simps x naf_digit_int.simps smul_1
      using jadd_is [OF e b(1,2,3)] jac_shapes(3) by metis
  next
    case NM
    have s: "smul (- 1) base_point = - base_point" using smul_minus [of 1 base_point] by simp
    show ?thesis unfolding NM jstep.simps x naf_digit_int.simps s
      using jadd_is [OF e m(1,2) b(4)] jac_shapes(3) by metis
  qed
  then show ?thesis using jproj_is(1) jac_shapes(4) by metis
qed

lemma jrun_is:
  "jac_is (JP x y z) (smul c base_point) \<Longrightarrow>
    \<exists>x' y' z'. jrun (JP x y z) ds = JP x' y' z' \<and> jac_is (JP x' y' z') (smul (naf_int c ds) base_point)"
proof (induction ds arbitrary: x y z c)
  case (Cons d ds)
  obtain e h f g where c: "jdouble (JP x y z) = JC e h f g" using jac_shapes(1) by blast
  obtain x1 y1 z1 where s: "jproj (jstep d (JC e h f g)) = JP x1 y1 z1"
    and i: "jac_is (JP x1 y1 z1) (smul c base_point + smul c base_point + smul (naf_digit_int d) base_point)"
    using jstep_is [OF jdouble_is [OF Cons.prems, unfolded c], of d] by metis
  have "smul c base_point + smul c base_point = smul (2 * c) base_point"
    by (simp only: mult_2 smul_add)
  then have "jac_is (JP x1 y1 z1) (smul (2 * c + naf_digit_int d) base_point)" using i by (simp only: smul_add)
  from Cons.IH [OF this] show ?case by (simp only: jrun.simps c s naf_int.simps)
qed simp

lemma jrun_append: "jrun q (ds @ es) = jrun (jrun q ds) es"
  by (induction ds arbitrary: q) simp_all

section \<open>The computation\<close>

definition order_digits_1 :: "naf list" where
  "order_digits_1 = [N0, N0, N0, N0, N0, N0, N0, N0, N0, N0, N0, N0, N0, N0, N0, N0, N0, N0, N0, N0, N0, N0, N0, N0, N0, N0,
    N0, N0, N0, N0, N0, N0, N0]"

definition order_digits_2 :: "naf list" where
  "order_digits_2 = [N0, N0, N0, N0, N0, N0, N0, N0, N0, N0, N0, N0, N0, N0, N0, N0, N0, N0, N0, N0, N0, N0, N0, N0, N0, N0,
    N0, N0, N0, N0, N0, N0, N0]"

definition order_digits_3 :: "naf list" where
  "order_digits_3 = [N0, N0, N0, N0, N0, N0, N0, N0, N0, N0, N0, N0, N0, N0, N0, N0, N0, N0, N0, N0, N0, N0, N0, N0, N0, N0,
    N0, N0, N0, N0, N0, N0, N0]"

definition order_digits_4 :: "naf list" where
  "order_digits_4 = [N0, N0, N0, N0, N0, N0, N0, N0, N0, N0, N0, N0, N0, N0, N0, N0, N0, N0, N0, N0, N0, N0, N0, N0, N0, N0,
    N0, N0, NP, N0, NP]"

definition order_digits_5 :: "naf list" where
  "order_digits_5 = [N0, NP, N0, N0, NM, N0, N0, N0, N0, NM, N0, N0, N0, N0, NM, N0, NP, N0, N0, N0, NM, N0, N0, N0, NM, N0]"

definition order_digits_6 :: "naf list" where
  "order_digits_6 = [NP, N0, NP, N0, N0, NP, N0, NM, N0, N0, N0, N0, NM, N0, N0, N0, NM, N0, NP, N0, N0, NM, N0, NP]"

definition order_digits_7 :: "naf list" where
  "order_digits_7 = [N0, N0, NM, N0, NM, N0, NM, N0, NP, N0, NM, N0, NM, N0, N0, N0, N0, N0, N0, NP, N0, N0, NP, N0, NP]"

definition order_digits_8 :: "naf list" where
  "order_digits_8 = [N0, NM, N0, N0, NP, N0, NM, N0, N0, NP, N0, NM, N0, NP, N0, NP, N0, NM, N0, N0, NM, N0, NP]"

definition order_digits_9 :: "naf list" where
  "order_digits_9 = [N0, N0, N0, N0, NM, N0, NM, N0, N0, NM, N0, NP, N0, NP, N0, N0, N0, N0, N0, NM, N0, NM, N0, NP]"

text \<open>Each of the following evaluates about 230 products of residues.\<close>

lemma order_run_1:
  "jrun (JP 15112221349535400772501151409588531511454012693041857206046113283949847762202
      46316835694926478169428394003475163141307993866256225615783033603165251855960
      1) order_digits_1 =
    JP 38835296616275462209062142409544549590476802441933347791139749983678373557458
      35527715368133333718261760581642538486526213875217723556706992491975482635667
      42851501817888499936815541123089312646117769744111871669718088196928243986922"
  by (simp only: oct_rules order_digits_1_def jrun_eval)

lemma order_run_2:
  "jrun (JP 38835296616275462209062142409544549590476802441933347791139749983678373557458
      35527715368133333718261760581642538486526213875217723556706992491975482635667
      42851501817888499936815541123089312646117769744111871669718088196928243986922) order_digits_2 =
    JP 44095696837855896643394722488180609989389979565511866879356437070085431506151
      48886647789858369484664260507894952738500005834626508180636834041415462177405
      46427796213767749800633206326459344332588672580059743366674392338636913226733"
  by (simp only: oct_rules order_digits_2_def jrun_eval)

lemma order_run_3:
  "jrun (JP 44095696837855896643394722488180609989389979565511866879356437070085431506151
      48886647789858369484664260507894952738500005834626508180636834041415462177405
      46427796213767749800633206326459344332588672580059743366674392338636913226733) order_digits_3 =
    JP 22647393780737409387997515601439795183815363291405287098858861727421326810771
      50754842224030160897095221649479975008020435120565926584664580231447719396191
      39205379554560932581430766145995258658033233753322440579620241917322770279577"
  by (simp only: oct_rules order_digits_3_def jrun_eval)

lemma order_run_4:
  "jrun (JP 22647393780737409387997515601439795183815363291405287098858861727421326810771
      50754842224030160897095221649479975008020435120565926584664580231447719396191
      39205379554560932581430766145995258658033233753322440579620241917322770279577) order_digits_4 =
    JP 23288240234303522257884862379135625478926357269365467825283224725532377860384
      918409739228773603486751523939884836693739281344538725733257403748193075297
      45255703130835280489411374029970652144880070973975960241900958237543202247022"
  by (simp only: oct_rules order_digits_4_def jrun_eval)

lemma order_run_5:
  "jrun (JP 23288240234303522257884862379135625478926357269365467825283224725532377860384
      918409739228773603486751523939884836693739281344538725733257403748193075297
      45255703130835280489411374029970652144880070973975960241900958237543202247022) order_digits_5 =
    JP 51523722185740347997955114349006752181779517032631102256221755704150639389505
      55638911129705443437995918786705343181147292852209156400638991790778322594057
      48299821985145362159305196511411708235820237398292845374398008024675600869503"
  by (simp only: oct_rules order_digits_5_def jrun_eval)

lemma order_run_6:
  "jrun (JP 51523722185740347997955114349006752181779517032631102256221755704150639389505
      55638911129705443437995918786705343181147292852209156400638991790778322594057
      48299821985145362159305196511411708235820237398292845374398008024675600869503) order_digits_6 =
    JP 26360303665458509580766794516573674952804993754171656045417053515492175111240
      4110547892351638963481408326139670583055810344818100344078282726152708101931
      29054182522270953167103226903251149711583129016437379150178954224932076008958"
  by (simp only: oct_rules order_digits_6_def jrun_eval)

lemma order_run_7:
  "jrun (JP 26360303665458509580766794516573674952804993754171656045417053515492175111240
      4110547892351638963481408326139670583055810344818100344078282726152708101931
      29054182522270953167103226903251149711583129016437379150178954224932076008958) order_digits_7 =
    JP 11502353171861891189802165802967059259298402465537886511160357112757436629432
      29060389773476957278965492465433851834699631893872389803657901043004848395485
      23472908665076278272197773782935184567926335263149138579951798579031000423960"
  by (simp only: oct_rules order_digits_7_def jrun_eval)

lemma order_run_8:
  "jrun (JP 11502353171861891189802165802967059259298402465537886511160357112757436629432
      29060389773476957278965492465433851834699631893872389803657901043004848395485
      23472908665076278272197773782935184567926335263149138579951798579031000423960) order_digits_8 =
    JP 3466722912020568167233211948822606196871136016546966664189319749155289933864
      5624315589129112795922342644484369642341938914410343115520436647301945235594
      1106469817297576092787977598720452039784860506328417008190422922380285732877"
  by (simp only: oct_rules order_digits_8_def jrun_eval)

lemma order_run_9:
  "jrun (JP 3466722912020568167233211948822606196871136016546966664189319749155289933864
      5624315589129112795922342644484369642341938914410343115520436647301945235594
      1106469817297576092787977598720452039784860506328417008190422922380285732877) order_digits_9 =
    JP 57896044618658097711785492504343953926634992332820282019728792003956564819949
      35572680458569273950971443853692195680016431895162231818714090265505661923769
      35572680458569273950971443853692195680016431895162231818714090265505661923769"
  by (simp only: oct_rules order_digits_9_def jrun_eval)

lemma order_digits: "naf_int 1 (order_digits_1 @ order_digits_2 @ order_digits_3 @ order_digits_4 @ order_digits_5 @ order_digits_6 @ order_digits_7 @ order_digits_8 @ order_digits_9) = int ORDER_L"
  by (simp add: order_digits_1_def order_digits_2_def order_digits_3_def order_digits_4_def order_digits_5_def order_digits_6_def order_digits_7_def order_digits_8_def order_digits_9_def)

lemma order_multiple: "smul (int ORDER_L) base_point = 0"
proof -
  have "jac_is (JP 15112221349535400772501151409588531511454012693041857206046113283949847762202
    46316835694926478169428394003475163141307993866256225615783033603165251855960 1) (smul 1 base_point)"
    by (simp add: pp_is_def fe_of_is base_point_xy [unfolded gfv_def base_coordinates] del: of_nat_numeral)
  from jrun_is [OF this, of "order_digits_1 @ order_digits_2 @ order_digits_3 @ order_digits_4 @ order_digits_5 @ order_digits_6 @ order_digits_7 @ order_digits_8 @ order_digits_9"]
  have "jac_is (JP 57896044618658097711785492504343953926634992332820282019728792003956564819949
      35572680458569273950971443853692195680016431895162231818714090265505661923769
      35572680458569273950971443853692195680016431895162231818714090265505661923769) (smul (int ORDER_L) base_point)"
    unfolding order_digits jrun_append order_run_1 order_run_2 order_run_3 order_run_4 order_run_5 order_run_6 order_run_7 order_run_8 order_run_9 by simp
  moreover have "(of_nat 57896044618658097711785492504343953926634992332820282019728792003956564819949 :: gf) = 0"
    using of_nat_gf_eq [of 57896044618658097711785492504343953926634992332820282019728792003956564819949 0] by (simp only: P25519_eq of_nat_0) simp
  ultimately have "px (smul (int ORDER_L) base_point) = px 0" "py (smul (int ORDER_L) base_point) = py 0"
    by (auto simp: pp_is_def fe_of_is point_zero_minus simp del: of_nat_numeral)
  then show ?thesis by (rule point_eqI)
qed

section \<open>The order\<close>

lemma base_point_nonzero: "base_point \<noteq> 0"
proof
  assume "base_point = 0"
  then have "(of_nat 15112221349535400772501151409588531511454012693041857206046113283949847762202 :: gf) = of_nat 0"
    using base_point_xy(1) by (simp add: point_zero_minus gfv_def base_coordinates del: of_nat_numeral)
  then show False unfolding of_nat_gf_eq P25519_eq by simp
qed

lemma smul_coprime_zero:
  assumes "smul a P = 0" and "smul b P = 0" and "coprime a b"
  shows "P = 0"
proof -
  obtain u v where "u * a + v * b = 1" using assms(3) bezout_int [of a b] by (auto simp: coprime_iff_gcd_eq_1)
  then have "P = smul (u * a) P + smul (v * b) P" by (simp only: smul_1 flip: smul_add)
  also have "\<dots> = 0" using assms(1,2) by (simp flip: smul_smul)
  finally show ?thesis .
qed

lemma base_point_order: "smul k base_point = 0 \<longleftrightarrow> int ORDER_L dvd k"
proof
  assume k: "smul k base_point = 0"
  show "int ORDER_L dvd k"
  proof (rule ccontr)
    assume "\<not> int ORDER_L dvd k"
    then have "\<not> ORDER_L dvd nat \<bar>k\<bar>" by (metis dvd_nat_abs_iff)
    then have "coprime (int ORDER_L) (int (nat \<bar>k\<bar>))"
      using is_prime_coprime [OF prime_L] unfolding coprime_int_iff by blast
    then have "coprime (int ORDER_L) k" by (simp only: int_nat_eq abs_ge_zero if_True coprime_abs_right_iff)
    then have "coprime k (int ORDER_L)" by (simp only: coprime_commute)
    from smul_coprime_zero [OF k order_multiple this] base_point_nonzero show False by blast
  qed
next
  assume "int ORDER_L dvd k"
  then obtain q where "k = q * int ORDER_L" by (auto simp: mult.commute)
  then show "smul k base_point = 0" using order_multiple by (simp flip: smul_smul)
qed

end
