(* ===== verification/Ladder.thy ===== *)
theory Ladder
  imports BasePointOrder Montgomery
begin

text \<open>
  The Montgomery ladder of x25519/ against the group of the curve: on multiples of the base point
  \<open>x25519\<close> is multiplication by the clamped scalar, read through \<open>u = (1 + y)/(1 - y)\<close>. So any two
  key pairs agree on their shared secret, which is never zero.
\<close>

section \<open>Ladder coordinates\<close>

text \<open>\<open>X/Z\<close> is the Montgomery coordinate of the point; the neutral point is at infinity.\<close>

definition mrep :: "gf \<Rightarrow> gf \<Rightarrow> point \<Rightarrow> bool" where
  "mrep X Z P \<longleftrightarrow> (X \<noteq> 0 \<or> Z \<noteq> 0) \<and> X * (1 - py P) = Z * (1 + py P)"

definition mu :: "point \<Rightarrow> gf" where
  "mu P = (1 + py P) / (1 - py P)"

lemma mrep_sum:
  assumes "mrep X Z P"
  shows "X + Z \<noteq> 0" "X - Z = py P * (X + Z)"
proof -
  have nz: "X \<noteq> 0 \<or> Z \<noteq> 0" and eq: "X * (1 - py P) = Z * (1 + py P)" using assms by (simp_all add: mrep_def)
  show "X - Z = py P * (X + Z)" using eq by (simp add: algebra_simps)
  show "X + Z \<noteq> 0"
  proof
    assume "X + Z = 0"
    then have Z: "Z = - X" by (simp add: eq_neg_iff_add_eq_0 add.commute)
    have "2 * X = 0" using eq unfolding Z by (simp add: algebra_simps)
    then show False using nz gf_two by (simp add: Z)
  qed
qed

lemma mrepI: "X - Z = y * (X + Z) \<Longrightarrow> X * (1 - y) = Z * (1 + (y :: gf))"
  by (simp add: algebra_simps)

lemma mrep_value:
  assumes "mrep X Z P"
  shows "X * inverse Z = mu P"
proof (cases "Z = 0")
  case True
  then have "py P = 1" using assms by (auto simp: mrep_def)
  then show ?thesis using True by (simp add: mu_def)
next
  case False
  have "1 - py P \<noteq> 0"
  proof
    assume "1 - py P = 0"
    then have "py P = 1" by simp
    then have "Z * 2 = 0" using assms by (simp add: mrep_def)
    then show False using False gf_two by simp
  qed
  then show ?thesis using False assms by (simp add: mrep_def mu_def divide_eq_eq eq_divide_eq field_simps)
qed

section \<open>Doubling\<close>

lemma d_a24: "121666 * ed_d = - 121665"
proof -
  have "(of_nat (121666 * 37095705934669439343138083508754565189542113879843219016388785533085940283555 + 121665) :: gf) = of_nat 0"
    unfolding of_nat_gf_eq P25519_eq by simp
  then show ?thesis unfolding ed_d_value of_nat_add of_nat_mult by (simp only: eq_neg_iff_add_eq_0) simp
qed

lemma abscissa_square: "(1 + ed_d * (py P * py P)) * (px P * px P) = py P * py P - 1"
  unfolding point_equation by (rule point_on)

lemma double_abscissa:
  "(1 + px P * px P) * (1 + 121665 * (1 - py P * py P)) = py P * py P"
proof -
  define w where "w = py P * py P"
  define v where "v = px P * px P"
  have nz: "1 + ed_d * w \<noteq> 0" unfolding w_def by (rule abscissa_denominator)
  have v: "(1 + ed_d * w) * v = w - 1" unfolding w_def v_def by (rule abscissa_square)
  have "(1 + ed_d * w) * ((1 + v) * (1 + 121665 * (1 - w))) =
      (1 + ed_d * w + (1 + ed_d * w) * v) * (1 + 121665 * (1 - w))"
    by (simp add: algebra_simps)
  also have "\<dots> = w * ((1 + ed_d) * (121666 - 121665 * w))" unfolding v by (simp add: algebra_simps)
  also have "(1 + ed_d) * (121666 - 121665 * w) = 121666 + 121666 * ed_d - 121665 * w - 121666 * ed_d * w + ed_d * w"
    by (simp add: algebra_simps)
  also have "\<dots> = 1 + ed_d * w" unfolding d_a24 by simp
  finally have "(1 + ed_d * w) * ((1 + v) * (1 + 121665 * (1 - w))) = (1 + ed_d * w) * w" by (simp only: mult.commute)
  then have "(1 + v) * (1 + 121665 * (1 - w)) = w" using nz by (simp only: mult_cancel_left) simp
  then show ?thesis by (simp only: w_def v_def)
qed

lemma double_ordinate:
  "2 - (py P * py P - px P * px P) \<noteq> 0" "py (P + P) * (2 - (py P * py P - px P * px P)) = py P * py P + px P * px P"
proof -
  have on: "1 + ed_d * (px P * py P) * (px P * py P) = py P * py P - px P * px P" using point_on [of P] by simp
  have "1 - ed_d * (px P * py P) * (px P * py P) = 2 - (1 + ed_d * (px P * py P) * (px P * py P))" by simp
  then have off: "1 - ed_d * (px P * py P) * (px P * py P) = 2 - (py P * py P - px P * px P)" unfolding on .
  show nz: "2 - (py P * py P - px P * px P) \<noteq> 0" using point_denominators(2) [of P P] unfolding off .
  show "py (P + P) * (2 - (py P * py P - px P * px P)) = py P * py P + px P * px P"
    unfolding point_plus off using nz by simp
qed

lemma mrep_double:
  assumes "mrep X Z P"
  defines "AA \<equiv> (X + Z) * (X + Z)" and "BB \<equiv> (X - Z) * (X - Z)"
  shows "mrep (AA * BB) ((AA - BB) * (AA + 121665 * (AA - BB))) (P + P)"
proof -
  note m = mrep_sum [OF assms(1)]
  define w where "w = py P * py P"
  define v where "v = px P * px P"
  define y where "y = py (P + P)"
  define f where "f = 1 + 121665 * (1 - w)"
  have AA: "AA \<noteq> 0" using m(1) by (simp add: AA_def)
  have BB: "BB = w * AA" unfolding BB_def AA_def m(2) w_def by (simp only: ac_simps)
  have X': "AA * BB = AA * AA * w" and Z': "(AA - BB) * (AA + 121665 * (AA - BB)) = AA * AA * ((1 - w) * f)"
    unfolding BB f_def by (simp_all add: algebra_simps)
  have k: "(1 + v) * f = w" using double_abscissa [of P] by (simp only: f_def w_def v_def)
  have n: "2 - (w - v) \<noteq> 0" "y * (2 - (w - v)) = w + v" unfolding w_def v_def y_def by (rule double_ordinate)+
  have "(2 - (w - v)) * (w * (1 - y)) = w * ((2 - (w - v)) - y * (2 - (w - v)))" by (simp add: algebra_simps)
  also have "\<dots> = 2 * (1 - w) * w" unfolding n(2) by (simp add: algebra_simps)
  also have "\<dots> = 2 * (1 - w) * ((1 + v) * f)" unfolding k ..
  also have "\<dots> = (1 - w) * f * ((2 - (w - v)) + (w + v))" by (simp add: algebra_simps)
  also have "\<dots> = (1 - w) * f * ((2 - (w - v)) + y * (2 - (w - v)))" unfolding n(2) ..
  also have "\<dots> = (2 - (w - v)) * ((1 - w) * f * (1 + y))" by (simp add: algebra_simps)
  finally have "w * (1 - y) = (1 - w) * f * (1 + y)" using n(1) by (simp only: mult_cancel_left) simp
  then have "AA * AA * w * (1 - y) = AA * AA * ((1 - w) * f) * (1 + y)" by (simp only: mult.assoc)
  moreover have "AA * AA * w \<noteq> 0 \<or> AA * AA * ((1 - w) * f) \<noteq> 0"
  proof (cases "w = 0")
    case True
    have "(121666 :: gf) \<noteq> 0" using of_nat_gf_eq [of 121666 0] by (simp add: P25519_eq)
    then show ?thesis using AA True by (simp add: f_def)
  qed (use AA in simp)
  ultimately show ?thesis unfolding mrep_def X' Z' y_def by blast
qed

section \<open>Differential addition\<close>

lemma difference_polynomial:
  fixes a b d :: gf
  shows "(a - b) * (a - b) * ((1 + d * (a * a)) * (1 + d * (b * b)) * ((1 + a * b) * (1 + a * b)) -
      (a * a - 1) * (b * b - 1) * ((1 - d * (a * b)) * (1 - d * (a * b)))) =
    (a + b) * (a + b) * ((1 + d * (a * a)) * (1 + d * (b * b)) * ((1 - a * b) * (1 - a * b)) -
      (a * a - 1) * (b * b - 1) * ((1 + d * (a * b)) * (1 + d * (a * b))))"
  by algebra

lemma difference_identity:
  "(py P - py Q) * (py P - py Q) * ((1 + py (P + Q)) * (1 + py (P - Q))) =
    (py P + py Q) * (py P + py Q) * ((1 - py (P + Q)) * (1 - py (P - Q)))"
proof -
  define a b where "a = py P" and "b = py Q"
  define t where "t = px P * px Q"
  define e where "e = ed_d * t * (a * b)"
  define K where "K = (1 + ed_d * (a * a)) * (1 + ed_d * (b * b))"
  define N where "N = (a * a - 1) * (b * b - 1)"
  have K: "K \<noteq> 0" using abscissa_denominator by (simp add: K_def)
  have T: "K * (t * t) = N"
  proof -
    have "K * (t * t) = ((1 + ed_d * (a * a)) * (px P * px P)) * ((1 + ed_d * (b * b)) * (px Q * px Q))"
      by (simp only: K_def t_def ac_simps)
    then show ?thesis unfolding a_def b_def abscissa_square by (simp only: N_def a_def b_def)
  qed
  have d1: "ed_d * (px P * py P) * (px Q * py Q) = e" by (simp add: e_def t_def a_def b_def)
  have d2: "ed_d * (px P * py P) * (px (- Q) * py (- Q)) = - e"
    by (simp add: point_zero_minus e_def t_def a_def b_def)
  have nz: "1 - e \<noteq> 0" "1 + e \<noteq> 0"
    using point_denominators [of P Q] unfolding d1 by blast+
  have p: "py (P + Q) * (1 - e) = a * b + t"
    unfolding point_plus d1 using nz(1) by (simp add: a_def b_def t_def)
  have "py (P - Q) = py (P + - Q)" by simp
  then have m: "py (P - Q) * (1 + e) = a * b - t"
    unfolding point_plus d2 using nz(2) by (simp add: point_zero_minus a_def b_def t_def)
  have plus: "(1 - e) * (1 + e) * ((1 + py (P + Q)) * (1 + py (P - Q))) =
      (1 + a * b) * (1 + a * b) - t * t * ((1 - ed_d * (a * b)) * (1 - ed_d * (a * b)))"
  proof -
    have "(1 - e) * (1 + e) * ((1 + py (P + Q)) * (1 + py (P - Q))) =
        ((1 - e) + py (P + Q) * (1 - e)) * ((1 + e) + py (P - Q) * (1 + e))" by algebra
    also have "\<dots> = (1 - e + (a * b + t)) * (1 + e + (a * b - t))" unfolding p m ..
    also have "\<dots> = (1 + a * b) * (1 + a * b) - t * t * ((1 - ed_d * (a * b)) * (1 - ed_d * (a * b)))"
      unfolding e_def by algebra
    finally show ?thesis .
  qed
  have minus: "(1 - e) * (1 + e) * ((1 - py (P + Q)) * (1 - py (P - Q))) =
      (1 - a * b) * (1 - a * b) - t * t * ((1 + ed_d * (a * b)) * (1 + ed_d * (a * b)))"
  proof -
    have "(1 - e) * (1 + e) * ((1 - py (P + Q)) * (1 - py (P - Q))) =
        ((1 - e) - py (P + Q) * (1 - e)) * ((1 + e) - py (P - Q) * (1 + e))" by algebra
    also have "\<dots> = (1 - e - (a * b + t)) * (1 + e - (a * b - t))" unfolding p m ..
    also have "\<dots> = (1 - a * b) * (1 - a * b) - t * t * ((1 + ed_d * (a * b)) * (1 + ed_d * (a * b)))"
      unfolding e_def by algebra
    finally show ?thesis .
  qed
  have l: "K * (r * (u - t * t * z)) = r * (K * u - N * z)" for r u z
    unfolding T [symmetric] by (simp add: algebra_simps)
  have "K * ((a - b) * (a - b) * ((1 - e) * (1 + e) * ((1 + py (P + Q)) * (1 + py (P - Q))))) =
      K * ((a + b) * (a + b) * ((1 - e) * (1 + e) * ((1 - py (P + Q)) * (1 - py (P - Q)))))"
    unfolding plus minus l unfolding K_def N_def by (rule difference_polynomial)
  then have "(1 - e) * (1 + e) * ((a - b) * (a - b) * ((1 + py (P + Q)) * (1 + py (P - Q)))) =
      (1 - e) * (1 + e) * ((a + b) * (a + b) * ((1 - py (P + Q)) * (1 - py (P - Q))))"
    using K by (simp only: mult_cancel_left mult.left_commute [of "(1 - e) * (1 + e)"]) simp
  then show ?thesis using nz by (simp add: a_def b_def)
qed

lemma mrep_differential:
  assumes P: "mrep X2 Z2 P" and Q: "mrep X3 Z3 Q" and D: "D = Q - P \<or> D = P - Q"
    and u: "u * (1 - py D) = 1 + py D" "u \<noteq> 0" "py D \<noteq> 1" and nz: "py P \<noteq> 0 \<or> py Q \<noteq> 0"
  defines "DA \<equiv> (X3 - Z3) * (X2 + Z2)" and "CB \<equiv> (X3 + Z3) * (X2 - Z2)"
  shows "mrep ((DA + CB) * (DA + CB)) (u * ((DA - CB) * (DA - CB))) (P + Q)"
proof -
  note m2 = mrep_sum [OF P] and m3 = mrep_sum [OF Q]
  define h where "h = (X2 + Z2) * (X3 + Z3)"
  have h: "h \<noteq> 0" using m2(1) m3(1) by (simp add: h_def)
  have s: "DA + CB = h * (py P + py Q)" "DA - CB = - h * (py P - py Q)"
    unfolding DA_def CB_def m2(2) m3(2) h_def by (simp_all add: algebra_simps)
  have yD: "py (P - Q) = py D" using D point_zero_minus(4) [of "P - Q"] by auto
  let ?p = "(py P + py Q) * (py P + py Q)" and ?m = "(py P - py Q) * (py P - py Q)" and ?y = "py (P + Q)"
  have "?m * ((1 + ?y) * (u * (1 - py D))) = ?p * ((1 - ?y) * (1 - py D))"
    using difference_identity [of P Q] unfolding yD u(1) .
  then have "(1 - py D) * (u * ?m * (1 + ?y)) = (1 - py D) * (?p * (1 - ?y))" by (simp only: ac_simps)
  then have "u * ?m * (1 + ?y) = ?p * (1 - ?y)" using u(3) by simp
  then have "h * h * (?p * (1 - ?y)) = h * h * (u * ?m * (1 + ?y))" by simp
  then have eq: "(DA + CB) * (DA + CB) * (1 - ?y) = u * ((DA - CB) * (DA - CB)) * (1 + ?y)"
    unfolding s by (simp add: ac_simps)
  have "DA + CB \<noteq> 0 \<or> DA - CB \<noteq> 0"
  proof (rule ccontr)
    assume "\<not> ?thesis"
    then have "h * (py P + py Q) = 0" "- h * (py P - py Q) = 0" unfolding s by blast+
    then have z: "py P + py Q = 0" and "py P - py Q = 0" using h by (simp_all only: mult_eq_0_iff neg_equal_0_iff_equal simp_thms)
    then have e: "py P = py Q" by simp
    have "2 * py Q = 0" using z unfolding e mult_2 .
    then have "py Q = 0" using gf_two by (simp only: mult_eq_0_iff simp_thms)
    then show False using nz e by simp
  qed
  then show ?thesis unfolding mrep_def using eq u(2) by auto
qed

section \<open>Multiples of the base point\<close>

lemma ordinate_one: "py P = 1 \<Longrightarrow> P = 0"
proof -
  assume y: "py P = 1"
  have "(1 + ed_d * (1 * 1)) * (px P * px P) = 1 * 1 - 1" using abscissa_square [of P] unfolding y .
  then have "px P = 0" using abscissa_denominator [of 1] by simp
  then show ?thesis using y by (intro point_eqI) (simp_all add: point_zero_minus)
qed

lemma ordinate_minus_one: "py P = - 1 \<Longrightarrow> P + P = 0"
proof -
  assume y: "py P = - 1"
  have "(1 + ed_d * (- 1 * - 1)) * (px P * px P) = - 1 * - 1 - 1" using abscissa_square [of P] unfolding y .
  then have x: "px P = 0" using abscissa_denominator [of 1] by simp
  show ?thesis by (intro point_eqI) (simp_all add: point_plus point_zero_minus x y)
qed

lemma ordinate_zero: "py P = 0 \<Longrightarrow> smul 4 P = 0"
proof -
  assume y: "py P = 0"
  have x: "px P * px P = - 1" using abscissa_square [of P] by (simp add: y)
  have "py (P + P) = - 1" by (simp add: point_plus y x)
  then have "P + P + (P + P) = 0" by (rule ordinate_minus_one)
  moreover have "smul 4 P = P + P + (P + P)" using smul_add [of 2 2 P] by (simp add: smul_2)
  ultimately show ?thesis by simp
qed

text \<open>The order of the base point is odd, so no multiple has order two or four.\<close>

lemma base_multiple_order:
  assumes "smul (2 ^ j) (smul n base_point) = 0"
  shows "smul n base_point = 0"
proof -
  have "int ORDER_L dvd 2 ^ j * n" using assms by (simp add: smul_smul base_point_order)
  moreover have "odd (int ORDER_L)" by simp
  then have "coprime (int ORDER_L) (2 ^ j)" by (simp only: coprime_right_2_iff_odd coprime_power_right_iff simp_thms)
  ultimately have "int ORDER_L dvd n" using coprime_dvd_mult_right_iff by blast
  then show ?thesis by (simp add: base_point_order)
qed

lemma base_multiple_ordinates:
  "py (smul n base_point) \<noteq> 0" "smul n base_point \<noteq> 0 \<Longrightarrow> py (smul n base_point) \<noteq> 1"
  "py (smul n base_point) \<noteq> - 1"
proof -
  show "py (smul n base_point) \<noteq> 0"
    using ordinate_zero [of "smul n base_point"] base_multiple_order [of 2 n] by (auto simp: point_zero_minus)
  show "smul n base_point \<noteq> 0 \<Longrightarrow> py (smul n base_point) \<noteq> 1" using ordinate_one by blast
  have "(1 :: gf) \<noteq> - 1" using gf_two by (simp add: eq_neg_iff_add_eq_0)
  then show "py (smul n base_point) \<noteq> - 1"
    using ordinate_minus_one [of "smul n base_point"] base_multiple_order [of 1 n]
    by (auto simp: point_zero_minus smul_2)
qed

section \<open>The loop\<close>

definition ladder_at :: "point \<Rightarrow> int \<Rightarrow> int \<times> int \<times> int \<times> int \<times> bool \<Rightarrow> bool" where
  "ladder_at D k st = (case st of (x2, z2, x3, z3, swap) \<Rightarrow>
    mrep (of_int x2) (of_int z2) (if swap then smul (k + 1) D else smul k D) \<and>
    mrep (of_int x3) (of_int z3) (if swap then smul k D else smul (k + 1) D))"

lemma of_int_mod_p: "(of_int (z mod p25519) :: gf) = of_int z"
  by (simp only: of_int_gf_eq mod_mod_trivial)

lemma rfc_step_at:
  assumes D: "D = smul n base_point" "D \<noteq> 0" and u: "of_int u = mu D" and st: "ladder_at D k st"
  shows "ladder_at D (2 * k + of_bool (bit c t)) (rfc_step c u st t)"
proof -
  obtain x2 z2 x3 z3 s where st5: "st = (x2, z2, x3, z3, s)" by (cases st)
  define b where "b = bit c t"
  obtain y2 y3 where y: "rfc_cswap (s \<noteq> b) x2 x3 = (y2, y3)" by fastforce
  obtain w2 w3 where w: "rfc_cswap (s \<noteq> b) z2 z3 = (w2, w3)" by fastforce
  have m: "mrep (of_int y2) (of_int w2) (smul (k + of_bool b) D)"
    "mrep (of_int y3) (of_int w3) (smul (k + of_bool (\<not> b)) D)"
    using st y w by (auto simp: st5 ladder_at_def rfc_cswap_def split: if_splits)
  have py: "py (smul j D) \<noteq> 0" for j
    unfolding D(1) smul_smul by (rule base_multiple_ordinates)
  have pD: "py D \<noteq> 1" "py D \<noteq> - 1" using base_multiple_ordinates(2,3) [of n] D by simp_all
  have un: "mu D * (1 - py D) = 1 + py D" "mu D \<noteq> 0"
    using pD by (simp_all add: mu_def add_eq_0_iff)
  have diff: "D = smul (k + of_bool (\<not> b)) D - smul (k + of_bool b) D \<or> D = smul (k + of_bool b) D - smul (k + of_bool (\<not> b)) D"
    by (cases b) (simp_all add: smul_add)
  have dbl: "smul (k + of_bool b) D + smul (k + of_bool b) D = smul (2 * k + of_bool b + of_bool b) D"
    by (simp flip: smul_add add: ac_simps)
  have sum: "smul (k + of_bool b) D + smul (k + of_bool (\<not> b)) D = smul (2 * k + 1) D"
    by (cases b) (simp_all flip: smul_add add: ac_simps)
  note r2 = mrep_double [OF m(1), unfolded dbl]
  note r3 = mrep_differential [OF m diff un pD(1) disjI1 [OF py], unfolded sum]
  have "rfc_step c u st t =
     (((y2 + w2) * (y2 + w2) * ((y2 - w2) * (y2 - w2))) mod p25519,
      (((y2 + w2) * (y2 + w2) - (y2 - w2) * (y2 - w2)) *
        ((y2 + w2) * (y2 + w2) + 121665 * ((y2 + w2) * (y2 + w2) - (y2 - w2) * (y2 - w2)))) mod p25519,
      (((y3 - w3) * (y2 + w2) + (y3 + w3) * (y2 - w2)) * ((y3 - w3) * (y2 + w2) + (y3 + w3) * (y2 - w2))) mod p25519,
      (u * (((y3 - w3) * (y2 + w2) - (y3 + w3) * (y2 - w2)) * ((y3 - w3) * (y2 + w2) - (y3 + w3) * (y2 - w2)))) mod p25519, b)"
    unfolding rfc_step_def st5 prod.case Let_def b_def [symmetric] y w ..
  then show ?thesis
    using r2 r3 by (cases b) (simp_all add: ladder_at_def of_int_mod_p u b_def [symmetric] add.commute)
qed

lemma rfc_loop_at:
  assumes D: "D = smul n base_point" "D \<noteq> 0" and u: "of_int u = mu D"
  shows "ladder_at D k st \<Longrightarrow>
    ladder_at D (k * 2 ^ j + int (take_bit j c)) (foldl (rfc_step c u) st (rev [0..<j]))"
proof (induction j arbitrary: k st)
  case (Suc j)
  have "int (take_bit (Suc j) c) = int (take_bit j c) + of_bool (bit c j) * 2 ^ j"
    by (simp add: take_bit_Suc_from_most)
  then have "(2 * k + of_bool (bit c j)) * 2 ^ j + int (take_bit j c) = k * 2 ^ Suc j + int (take_bit (Suc j) c)"
    by (simp add: algebra_simps)
  then show ?case using Suc.IH [OF rfc_step_at [OF D u Suc.prems, of c j]] by simp
qed simp

lemma rfc7748_multiple:
  assumes D: "D = smul n base_point" "D \<noteq> 0" and u: "of_nat u = mu D" and c: "c < 2 ^ 255"
  shows "to_le 32 (rfc7748 c u) = gf_bytes (mu (smul (int c) D))"
proof -
  have u': "of_int (int u) = mu D" using u by simp
  have pD: "py D \<noteq> 1" using base_multiple_ordinates(2) [of n] D by simp
  have init: "ladder_at D 0 (1, 0, int u, 1, False)"
    using u pD by (simp add: ladder_at_def mrep_def point_zero_minus mu_def)
  obtain x2 z2 x3 z3 s where st: "foldl (rfc_step c (int u)) (1, 0, int u, 1, False) (rev [0..<255]) = (x2, z2, x3, z3, s)"
    by (metis prod_cases5)
  have "take_bit 255 c = c" using c by (simp only: take_bit_nat_eq_self)
  then have fin: "ladder_at D (int c) (x2, z2, x3, z3, s)"
    using rfc_loop_at [OF D u' init, of 255 c] unfolding st by simp
  obtain y y' where y: "rfc_cswap s x2 x3 = (y, y')" by fastforce
  obtain w w' where w: "rfc_cswap s z2 z3 = (w, w')" by fastforce
  have "mrep (of_int y) (of_int w) (smul (int c) D)"
    using fin y w by (auto simp: ladder_at_def rfc_cswap_def split: if_splits)
  from mrep_value [OF this] have "of_int (y * w ^ (P25519 - 2)) = mu (smul (int c) D)"
    by (simp only: inverse_gf_def of_int_mult of_int_power)
  then have "gf_bytes (mu (smul (int c) D)) = to_le 32 (nat ((y * w ^ (P25519 - 2)) mod p25519))"
    by (simp only: gf_bytes_def flip: Rep_gf_of_int)
  then show ?thesis unfolding rfc7748_def st prod.case y w by simp
qed

section \<open>The clamped scalar\<close>

lemma mask_bits_u8: "bit (0xf8 :: u8) n \<longleftrightarrow> 3 \<le> n \<and> n < 8" "bit (127 :: u8) n \<longleftrightarrow> n < 7" "bit (64 :: u8) n \<longleftrightarrow> n = 6"
proof -
  have "n < 8 \<Longrightarrow> n \<in> {0, 1, 2, 3, 4, 5, 6, 7}" by auto
  then show "bit (0xf8 :: u8) n \<longleftrightarrow> 3 \<le> n \<and> n < 8" "bit (127 :: u8) n \<longleftrightarrow> n < 7" "bit (64 :: u8) n \<longleftrightarrow> n = 6"
    by (cases "n < 8"; force dest: bit_imp_le_length)+
qed

lemma clamp_low: "unat (b AND 0xf8 :: u8) mod 8 = 0"
proof -
  have "take_bit 3 (b AND 0xf8 :: u8) = 0"
    by (rule bit_word_eqI) (auto simp: bit_take_bit_iff bit_and_iff mask_bits_u8)
  then have "take_bit 3 (unat (b AND 0xf8 :: u8)) = 0" by (simp only: unsigned_take_bit_eq [symmetric] unsigned_0)
  then show ?thesis by (simp add: take_bit_eq_mod)
qed

lemma clamp_high: "64 \<le> unat (b AND 127 OR 64 :: u8)" "unat (b AND 127 OR 64 :: u8) < 128"
proof -
  have "b AND 127 OR 64 = 64 + (b AND 63)"
  proof -
    have "bit (63 :: u8) n \<longleftrightarrow> n < 6" for n
    proof -
      have "n < 8 \<Longrightarrow> n \<in> {0, 1, 2, 3, 4, 5, 6, 7}" by auto
      then show ?thesis by (cases "n < 8"; force dest: bit_imp_le_length)
    qed
    note m = mask_bits_u8 this
    have "64 + (b AND 63) = 64 OR (b AND 63)"
      by (rule disjunctive_add_eq_or, rule bit_word_eqI, simp only: bit_and_iff m) auto
    also have "64 OR (b AND 63) = b AND 127 OR 64"
      by (rule bit_word_eqI, simp only: bit_and_iff bit_or_iff m) fastforce
    finally show ?thesis ..
  qed
  moreover have "unat (b AND 63) \<le> 63" 
  proof -
    have "b AND 63 \<le> 63" by (rule word_and_le1)
    then have "unat (b AND 63) \<le> unat (63 :: u8)" by (simp only: word_le_nat_alt)
    then show ?thesis by simp
  qed
  ultimately show "64 \<le> unat (b AND 127 OR 64 :: u8)" "unat (b AND 127 OR 64 :: u8) < 128"
    by (simp_all add: unat_word_ariths)
qed

lemma clamp_value:
  assumes "length bs = 32"
  shows "8 dvd from_le (clamp bs)" "2 ^ 254 \<le> from_le (clamp bs)" "from_le (clamp bs) < 2 ^ 255"
proof -
  obtain b0 r where b0: "bs = b0 # r" "length r = 31" using assms(1) by (cases bs) auto
  obtain m b31 where m: "r = m @ [b31]" "length m = 30" using b0(2) by (cases r rule: rev_cases) auto
  have c: "clamp bs = (b0 AND 0xf8) # m @ [b31 AND 127 OR 64]"
    using m(2) by (simp add: clamp_def b0(1) m(1) list_update_append nth_append Let_def)
  have v: "from_le (clamp bs) = unat (b0 AND 0xf8) + 256 * (from_le m + 256 ^ 30 * unat (b31 AND 127 OR 64))"
    by (simp add: c from_le_append m(2))
  have "8 dvd unat (b0 AND 0xf8)" using clamp_low by (simp only: mod_0_imp_dvd)
  moreover have "8 dvd 256 * (x :: nat)" for x by (rule dvd_mult2) simp
  ultimately show "8 dvd from_le (clamp bs)" unfolding v by (rule dvd_add)
  have "from_le m < 256 ^ 30" using from_le_bound [of m] by (simp only: m(2))
  then show "2 ^ 254 \<le> from_le (clamp bs)" "from_le (clamp bs) < 2 ^ 255"
    using clamp_high [of b31] unat_bounds(1) [of "b0 AND 0xf8"] unfolding v by simp_all
qed

lemma clamp_unit:
  assumes "length bs = 32"
  shows "\<not> ORDER_L dvd from_le (clamp bs)"
proof
  note c = clamp_value [OF assms]
  obtain n where n: "from_le (clamp bs) = 8 * n" using c(1) by blast
  have "0 < n" "n < ORDER_L" using c(2,3) unfolding n by simp_all
  assume "ORDER_L dvd from_le (clamp bs)"
  then have "ORDER_L dvd 8 \<or> ORDER_L dvd n" unfolding n by (rule is_prime_dvd_mult [OF prime_L])
  then show False using \<open>0 < n\<close> \<open>n < ORDER_L\<close> by (auto dest: dvd_imp_le)
qed

section \<open>Key agreement\<close>

lemma mu_bytes: "from_le (gf_bytes a) mod 2 ^ 255 = nat (Rep_gf a)" "(of_nat (nat (Rep_gf a)) :: gf) = a"
proof -
  have r: "nat (Rep_gf a) < 2 ^ 255" using Rep_gf_bound(1) [of a] by (simp add: P25519_eq)
  then have "nat (Rep_gf a) < 256 ^ 32" by simp
  then show "from_le (gf_bytes a) mod 2 ^ 255 = nat (Rep_gf a)"
    using r by (simp add: gf_bytes_def from_le_to_le)
  have "Rep_gf (of_nat (nat (Rep_gf a))) = Rep_gf a"
    using Rep_gf [of a] by (simp add: Rep_gf_of_int)
  then show "(of_nat (nat (Rep_gf a)) :: gf) = a" by (simp only: Rep_gf_inject)
qed

lemma x25519_multiple:
  assumes "length scalar = 32" and "D = smul n base_point" and "D \<noteq> 0"
  shows "x25519 scalar (gf_bytes (mu D)) = gf_bytes (mu (smul (int (from_le (clamp scalar))) D))"
proof -
  have "x25519 scalar (gf_bytes (mu D)) =
      to_le 32 (rfc7748 (from_le (clamp scalar)) (nat (Rep_gf (mu D))))"
    unfolding x25519_rfc7748 [OF assms(1) length_gf_bytes] mu_bytes(1) ..
  also have "\<dots> = gf_bytes (mu (smul (int (from_le (clamp scalar))) D))"
    by (rule rfc7748_multiple [OF assms(2,3) mu_bytes(2) clamp_value(3) [OF assms(1)]])
  finally show ?thesis .
qed

lemma BASEPOINT_mu: "BASEPOINT = gf_bytes (mu base_point)"
proof -
  have "(of_nat (1 + 46316835694926478169428394003475163141307993866256225615783033603165251855960 +
      9 * 46316835694926478169428394003475163141307993866256225615783033603165251855960) :: gf) = of_nat 9"
    unfolding of_nat_gf_eq P25519_eq by simp
  then have "1 + py base_point + 9 * py base_point = 9"
    unfolding base_point_xy(2) [unfolded gfv_def base_coordinates] of_nat_add of_nat_mult by simp
  then have eq: "1 + py base_point = 9 * (1 - py base_point)" by (simp add: algebra_simps)
  have nz: "1 - py base_point \<noteq> 0" using ordinate_one [of base_point] base_point_nonzero by auto
  have mu: "mu base_point = of_nat 9"
    unfolding mu_def eq of_nat_numeral by (rule nonzero_mult_div_cancel_right [OF nz])
  have "Rep_gf (of_nat 9) = 9" unfolding Rep_gf_of_nat by (simp add: P25519_eq)
  then have "gf_bytes (mu base_point) = to_le 32 9" unfolding mu gf_bytes_def by (simp only:) simp
  also have "\<dots> = BASEPOINT" by code_simp
  finally show ?thesis ..
qed

lemma base_clamped:
  assumes "length bs = 32"
  shows "smul (int (from_le (clamp bs))) base_point \<noteq> 0"
  using clamp_unit [OF assms] unfolding base_point_order by (simp only: int_dvd_int_iff) simp

lemma public_key_mu:
  assumes "length secret = 32"
  shows "public_key secret = gf_bytes (mu (smul (int (from_le (clamp secret))) base_point))"
  unfolding public_key_def BASEPOINT_mu
  by (rule x25519_multiple [OF assms _ base_point_nonzero, of 1]) simp

lemma shared_secret_mu:
  assumes "length a = 32" and "length b = 32"
  shows "x25519 a (public_key b) =
    gf_bytes (mu (smul (int (from_le (clamp a)) * int (from_le (clamp b))) base_point))"
  unfolding public_key_mu [OF assms(2)] x25519_multiple [OF assms(1) refl base_clamped [OF assms(2)]] smul_smul ..

lemma from_le_zeros: "from_le (replicate k 0) = 0"
  by (induction k) simp_all

lemma shared_secret_nonzero:
  assumes "length a = 32" and "length b = 32"
  shows "x25519 a (public_key b) \<noteq> replicate 32 0"
proof
  let ?P = "smul (int (from_le (clamp a)) * int (from_le (clamp b))) base_point"
  assume "x25519 a (public_key b) = replicate 32 0"
  then have "from_le (gf_bytes (mu ?P)) mod 2 ^ 255 = 0"
    unfolding shared_secret_mu [OF assms] by (simp only: from_le_zeros mod_0)
  then have "mu ?P = 0" unfolding mu_bytes(1) using mu_bytes(2) [of "mu ?P"] by simp
  moreover have "?P \<noteq> 0"
  proof
    assume "?P = 0"
    then have "ORDER_L dvd from_le (clamp a) * from_le (clamp b)"
      unfolding base_point_order by (simp only: of_nat_mult [symmetric] int_dvd_int_iff)
    then show False using is_prime_dvd_mult [OF prime_L] clamp_unit assms by blast
  qed
  then have "py ?P \<noteq> 1" by (rule base_multiple_ordinates)
  moreover have "py ?P \<noteq> - 1" by (rule base_multiple_ordinates)
  ultimately show False by (simp add: mu_def add_eq_0_iff)
qed

section \<open>Properties\<close>

text \<open>
  C21. X25519 multiplies: the public key of a 32-byte secret is the Montgomery coordinate of the
  clamped secret times the base point, and the function applied to a public key is the coordinate of
  the product of both secrets with the base point. So two parties obtain the same secret from each
  other's public keys, and it is never the all-zero string the key exchange refuses.
\<close>

theorem x25519_agreement:
  assumes "length a = 32" and "length b = 32"
  shows "public_key a = gf_bytes (mu (smul (int (from_le (clamp a))) base_point)) \<and>
    x25519 a (public_key b) = gf_bytes (mu (smul (int (from_le (clamp a)) * int (from_le (clamp b))) base_point)) \<and>
    x25519 a (public_key b) = x25519 b (public_key a) \<and> x25519 a (public_key b) \<noteq> replicate 32 0"
  using public_key_mu [OF assms(1)] shared_secret_mu [OF assms] shared_secret_mu [OF assms(2,1)]
    shared_secret_nonzero [OF assms] by (simp only: mult.commute simp_thms)

theorem x25519_agreement_witness:
  "x25519 (replicate 32 1) (public_key (replicate 32 2)) = x25519 (replicate 32 2) (public_key (replicate 32 1))"
  by (rule x25519_agreement [THEN conjunct2, THEN conjunct2, THEN conjunct1]) simp_all

end
