(* ===== verification/Hpke.thy ===== *)
theory Hpke
  imports Ladder Kdf Aead
begin

text \<open>
  HPKE, RFC 9180, modes base and auth (crates/blindplane-crypto/src/hpke: primitives.rs, seal.rs,
  open.rs). The sender and the receiver run the same key schedule, on Diffie-Hellman secrets that
  the group of the curve makes equal.
\<close>

section \<open>primitives.rs\<close>

definition VERSION_LABEL :: bytes where "VERSION_LABEL = ascii ''HPKE-v1''"
definition KEM_ID :: u16 where "KEM_ID = 0x0020"
definition KDF_ID :: u16 where "KDF_ID = 0x0001"
definition MODE_BASE :: u8 where "MODE_BASE = 0x00"
definition MODE_AUTH :: u8 where "MODE_AUTH = 0x02"
definition ENCAPSULATED_KEY_LEN :: nat where "ENCAPSULATED_KEY_LEN = 32"
definition NONCE_LEN :: nat where "NONCE_LEN = 12"

datatype hpke_error = InvalidPeerKey | HpkeKeyDerivation | HpkeAead aead_error

fun aead_id :: "suite \<Rightarrow> u16" where
  "aead_id Aes256Gcm = 0x0002"
| "aead_id ChaCha20Poly1305 = 0x0003"
| "aead_id XChaCha20Poly1305 = 0x0003"

definition kem_suite_id :: bytes where
  "kem_suite_id =
    (let i = replicate 5 0;
         i = copy_into i 0 (ascii ''KEM'');
         i = copy_into i 3 (u16_to_be KEM_ID)
     in i)"

definition hpke_suite_id :: "suite \<Rightarrow> bytes" where
  "hpke_suite_id suite =
    (let i = replicate 10 0;
         i = copy_into i 0 (ascii ''HPKE'');
         i = copy_into i 4 (u16_to_be KEM_ID);
         i = copy_into i 6 (u16_to_be KDF_ID);
         i = copy_into i 8 (u16_to_be (aead_id suite))
     in i)"

definition labeled_extract :: "bytes \<Rightarrow> bytes \<Rightarrow> bytes \<Rightarrow> bytes \<Rightarrow> bytes" where
  "labeled_extract salt suite_id label ikm =
    (let labeled = [];
         labeled = labeled @ VERSION_LABEL;
         labeled = labeled @ suite_id;
         labeled = labeled @ label;
         labeled = labeled @ ikm
     in hkdf_extract salt labeled)"

text \<open>The result is what the call leaves in \<open>out\<close>.\<close>

definition labeled_expand :: "bytes \<Rightarrow> bytes \<Rightarrow> bytes \<Rightarrow> bytes \<Rightarrow> bytes \<Rightarrow> hpke_error + bytes" where
  "labeled_expand prk suite_id label info out =
    (let labeled_info = [];
         labeled_info = labeled_info @ u16_to_be (of_nat (length out));
         labeled_info = labeled_info @ VERSION_LABEL;
         labeled_info = labeled_info @ suite_id;
         labeled_info = labeled_info @ label;
         labeled_info = labeled_info @ info;
         (ok, out) = hkdf_expand prk labeled_info out
     in if ok then Inr out else Inl HpkeKeyDerivation)"

definition extract_and_expand :: "bytes \<Rightarrow> bytes \<Rightarrow> hpke_error + bytes" where
  "extract_and_expand dh kem_context =
    (let suite_id = kem_suite_id;
         eae_prk = labeled_extract [] suite_id (ascii ''eae_prk'') dh
     in labeled_expand eae_prk suite_id (ascii ''shared_secret'') kem_context (replicate 32 0))"

record key_schedule_out =
  ks_key :: bytes
  ks_base_nonce :: bytes

definition key_schedule :: "suite \<Rightarrow> u8 \<Rightarrow> bytes \<Rightarrow> bytes \<Rightarrow> hpke_error + key_schedule_out" where
  "key_schedule suite mode shared_secret info =
    (let suite_id = hpke_suite_id suite;
         psk_id_hash = labeled_extract [] suite_id (ascii ''psk_id_hash'') [];
         info_hash = labeled_extract [] suite_id (ascii ''info_hash'') info;
         context = [];
         context = context @ [mode];
         context = context @ psk_id_hash;
         context = context @ info_hash;
         secret = labeled_extract shared_secret suite_id (ascii ''secret'') []
     in rbind (labeled_expand secret suite_id (ascii ''key'') context (replicate 32 0)) (\<lambda>key.
        rbind (labeled_expand secret suite_id (ascii ''base_nonce'') context (replicate NONCE_LEN 0)) (\<lambda>base_nonce.
        Inr \<lparr>ks_key = key, ks_base_nonce = base_nonce\<rparr>)))"

text \<open>The result of the expansion is discarded: on a failure the secret would stay zero.\<close>

definition derive_key_pair :: "bytes \<Rightarrow> static_secret" where
  "derive_key_pair ikm =
    (let suite_id = kem_suite_id;
         dkp_prk = labeled_extract [] suite_id (ascii ''dkp_prk'') ikm;
         secret = (case labeled_expand dkp_prk suite_id (ascii ''sk'') [] (replicate 32 0) of
                     Inl _ \<Rightarrow> replicate 32 0 | Inr out \<Rightarrow> out)
     in static_from_bytes secret)"

definition raw_diffie_hellman :: "bytes \<Rightarrow> bytes \<Rightarrow> bytes" where
  "raw_diffie_hellman secret peer = x25519 secret peer"

section \<open>seal.rs\<close>

definition seal_with_ephemeral ::
  "suite \<Rightarrow> static_secret \<Rightarrow> bytes \<Rightarrow> static_secret option \<Rightarrow> bytes \<Rightarrow> bytes \<Rightarrow> bytes \<Rightarrow> hpke_error + bytes \<times> bytes" where
  "seal_with_ephemeral suite ephemeral recipient_public_key sender_secret info associated_data plaintext =
    (let enc = ss_public ephemeral in
     rbind (ok_or (diffie_hellman ephemeral recipient_public_key) InvalidPeerKey) (\<lambda>ephemeral_dh.
     let dh = [] @ ephemeral_dh;
         kem_context = [] @ enc;
         kem_context = kem_context @ recipient_public_key in
     rbind (case sender_secret of
         Some sender \<Rightarrow>
           rbind (ok_or (diffie_hellman sender recipient_public_key) InvalidPeerKey) (\<lambda>static_dh.
           Inr (dh @ static_dh, kem_context @ ss_public sender, MODE_AUTH))
       | None \<Rightarrow> Inr (dh, kem_context, MODE_BASE)) (\<lambda>(dh, kem_context, mode).
     rbind (extract_and_expand dh kem_context) (\<lambda>shared.
     rbind (key_schedule suite mode shared info) (\<lambda>schedule.
     rbind (map_err HpkeAead (suite_seal suite (ks_key schedule) (ks_base_nonce schedule)
         associated_data plaintext)) (\<lambda>ciphertext.
     Inr (enc, ciphertext)))))))"

definition hpke_seal ::
  "'w os \<Rightarrow> suite \<Rightarrow> bytes \<Rightarrow> bytes \<Rightarrow> bytes \<Rightarrow> bytes \<Rightarrow> ('w, hpke_error, bytes \<times> bytes) eff" where
  "hpke_seal os suite recipient_public_key info associated_data plaintext =
    ebind (emap_err (\<lambda>_. HpkeKeyDerivation) (static_generate os)) (\<lambda>ephemeral.
    pure_eff (seal_with_ephemeral suite ephemeral recipient_public_key None info associated_data plaintext))"

definition hpke_auth_seal ::
  "'w os \<Rightarrow> suite \<Rightarrow> static_secret \<Rightarrow> bytes \<Rightarrow> bytes \<Rightarrow> bytes \<Rightarrow> bytes \<Rightarrow> ('w, hpke_error, bytes \<times> bytes) eff" where
  "hpke_auth_seal os suite sender_secret recipient_public_key info associated_data plaintext =
    ebind (emap_err (\<lambda>_. HpkeKeyDerivation) (static_generate os)) (\<lambda>ephemeral.
    pure_eff (seal_with_ephemeral suite ephemeral recipient_public_key (Some sender_secret) info
      associated_data plaintext))"

section \<open>open.rs\<close>

definition open_inner ::
  "suite \<Rightarrow> static_secret \<Rightarrow> bytes \<Rightarrow> bytes option \<Rightarrow> bytes \<Rightarrow> bytes \<Rightarrow> bytes \<Rightarrow> hpke_error + bytes" where
  "open_inner suite recipient_secret encapsulated_key sender_public_key info associated_data ciphertext =
    rbind (reject (length encapsulated_key \<noteq> ENCAPSULATED_KEY_LEN) InvalidPeerKey) (\<lambda>_.
    let enc = copy_into (replicate 32 0) 0 encapsulated_key in
    rbind (ok_or (diffie_hellman recipient_secret enc) InvalidPeerKey) (\<lambda>ephemeral_dh.
    let dh = [] @ ephemeral_dh;
        kem_context = [] @ enc;
        kem_context = kem_context @ ss_public recipient_secret in
    rbind (case sender_public_key of
        Some sender \<Rightarrow>
          rbind (ok_or (diffie_hellman recipient_secret sender) InvalidPeerKey) (\<lambda>static_dh.
          Inr (dh @ static_dh, kem_context @ sender, MODE_AUTH))
      | None \<Rightarrow> Inr (dh, kem_context, MODE_BASE)) (\<lambda>(dh, kem_context, mode).
    rbind (extract_and_expand dh kem_context) (\<lambda>shared.
    rbind (key_schedule suite mode shared info) (\<lambda>schedule.
    map_err HpkeAead (suite_open suite (ks_key schedule) (ks_base_nonce schedule)
      associated_data ciphertext))))))"

definition hpke_open :: "suite \<Rightarrow> static_secret \<Rightarrow> bytes \<Rightarrow> bytes \<Rightarrow> bytes \<Rightarrow> bytes \<Rightarrow> hpke_error + bytes" where
  "hpke_open suite recipient_secret encapsulated_key info associated_data ciphertext =
    open_inner suite recipient_secret encapsulated_key None info associated_data ciphertext"

definition hpke_auth_open ::
  "suite \<Rightarrow> static_secret \<Rightarrow> bytes \<Rightarrow> bytes \<Rightarrow> bytes \<Rightarrow> bytes \<Rightarrow> bytes \<Rightarrow> hpke_error + bytes" where
  "hpke_auth_open suite recipient_secret sender_public_key encapsulated_key info associated_data ciphertext =
    open_inner suite recipient_secret encapsulated_key (Some sender_public_key) info associated_data ciphertext"

section \<open>The key schedule always succeeds\<close>

lemma labeled_expand_total:
  "length out \<le> 8160 \<Longrightarrow> \<exists>okm. labeled_expand prk i l info out = Inr okm \<and> length okm = length out"
  by (simp add: labeled_expand_def Let_def hkdf_expand_spec)

lemma extract_and_expand_total: "\<exists>shared. extract_and_expand dh kem_context = Inr shared"
  unfolding extract_and_expand_def Let_def
  using labeled_expand_total [of "replicate 32 0"] by fastforce

lemma key_schedule_total:
  "\<exists>ks. key_schedule suite mode shared info = Inr ks \<and> length (ks_key ks) = 32 \<and>
    length (ks_base_nonce ks) = 12"
proof -
  have e32: "\<exists>okm. labeled_expand prk i l info (replicate 32 0) = Inr okm \<and> length okm = 32" for prk i l info
    using labeled_expand_total [of "replicate 32 0"] by simp
  have e12: "\<exists>okm. labeled_expand prk i l info (replicate 12 0) = Inr okm \<and> length okm = 12" for prk i l info
    using labeled_expand_total [of "replicate 12 0"] by simp
  let ?prk = "labeled_extract shared (hpke_suite_id suite) (ascii ''secret'') []"
  let ?cx = "(([] @ [mode]) @ labeled_extract [] (hpke_suite_id suite) (ascii ''psk_id_hash'') []) @
    labeled_extract [] (hpke_suite_id suite) (ascii ''info_hash'') info"
  obtain k where k: "labeled_expand ?prk (hpke_suite_id suite) (ascii ''key'') ?cx (replicate 32 0) = Inr k" "length k = 32"
    using e32 by blast
  obtain n where n: "labeled_expand ?prk (hpke_suite_id suite) (ascii ''base_nonce'') ?cx (replicate 12 0) = Inr n" "length n = 12"
    using e12 by blast
  show ?thesis
    unfolding key_schedule_def Let_def NONCE_LEN_def k(1) rbind_simps n(1) using k(2) n(2) by simp
qed

text \<open>Both sides end in one AEAD call under these keys.\<close>

definition hpke_keys :: "suite \<Rightarrow> bytes \<Rightarrow> bytes \<Rightarrow> u8 \<Rightarrow> bytes \<Rightarrow> hpke_error + key_schedule_out" where
  "hpke_keys suite dh kem_context mode info =
    rbind (extract_and_expand dh kem_context) (\<lambda>shared. key_schedule suite mode shared info)"

lemma hpke_keys_total:
  obtains ks where "hpke_keys suite dh kem_context mode info = Inr ks"
    "length (ks_key ks) = 32" "length (ks_base_nonce ks) = 12"
proof -
  obtain shared where s: "extract_and_expand dh kem_context = Inr shared"
    using extract_and_expand_total by blast
  from key_schedule_total [of suite mode shared info] show thesis
    by (auto simp: hpke_keys_def s intro: that)
qed

lemma hpke_keys_bind:
  "rbind (extract_and_expand dh kc) (\<lambda>shared. rbind (key_schedule suite mode shared info) f) =
    rbind (hpke_keys suite dh kc mode info) f"
  by (cases "extract_and_expand dh kc") (simp_all add: hpke_keys_def)

text \<open>HPKE derives 12-byte nonces, which only ChaCha20-Poly1305 takes on this build.\<close>

lemma suite_seal_12:
  "length key = 32 \<Longrightarrow> length nonce = 12 \<Longrightarrow> suite_seal s key nonce aad pt =
    (if s = ChaCha20Poly1305 then Inr (rfc_seal s key nonce aad pt) else Inl Unsupported)"
proof (cases s)
  case ChaCha20Poly1305
  assume "length key = 32" "length nonce = 12"
  then have "suite_good s key nonce" by (simp add: suite_good_def ChaCha20Poly1305)
  then show ?thesis by (simp add: suite_seal_eq ChaCha20Poly1305)
qed (simp_all add: suite_seal_def seal_in_place_def aes_seal_in_place_def)

section \<open>Sender and receiver\<close>

text \<open>A key pair as the constructors make it.\<close>

definition static_wf :: "static_secret \<Rightarrow> bool" where
  "static_wf s \<longleftrightarrow> length (ss_secret s) = 32 \<and> ss_public s = public_key (ss_secret s)"

lemma static_from_bytes_wf: "length bs = 32 \<Longrightarrow> static_wf (static_from_bytes bs)"
  by (simp add: static_wf_def)

lemma static_wf_public: "static_wf s \<Longrightarrow> length (ss_public s) = 32"
  by (simp add: static_wf_def)

text \<open>Two key pairs agree on their Diffie-Hellman secret, and there is one.\<close>

lemma static_agree:
  assumes "static_wf a" and "static_wf b"
  shows "diffie_hellman b (ss_public a) = diffie_hellman a (ss_public b)"
    "\<exists>d. diffie_hellman a (ss_public b) = Some d"
proof -
  have l: "length (ss_secret a) = 32" "length (ss_secret b) = 32" using assms by (simp_all add: static_wf_def)
  have "x25519 (ss_secret a) (ss_public b) = x25519 (ss_secret b) (ss_public a)"
    "x25519 (ss_secret a) (ss_public b) \<noteq> replicate 32 0"
    using shared_secret_mu [OF l] shared_secret_mu [OF l(2,1)] shared_secret_nonzero [OF l] assms
    by (simp_all add: static_wf_def mult.commute)
  then show "diffie_hellman b (ss_public a) = diffie_hellman a (ss_public b)"
    "\<exists>d. diffie_hellman a (ss_public b) = Some d" by (simp_all add: diffie_hellman_eq)
qed

lemma copy_whole: "length bs = 32 \<Longrightarrow> copy_into (replicate 32 0) 0 bs = bs"
  by (simp add: copy_into_def)

text \<open>The two sides as functions of the Diffie-Hellman secrets.\<close>

definition dh_pair :: "bytes option \<Rightarrow> bytes option option \<Rightarrow> bytes option" where
  "dh_pair a b = (case a of None \<Rightarrow> None | Some x \<Rightarrow>
     (case b of None \<Rightarrow> Some x | Some None \<Rightarrow> None | Some (Some y) \<Rightarrow> Some (x @ y)))"

lemma seal_with_ephemeral_eq:
  "seal_with_ephemeral suite e rpub sender info aad pt =
    (case dh_pair (diffie_hellman e rpub) (map_option (\<lambda>s. diffie_hellman s rpub) sender) of
       None \<Rightarrow> Inl InvalidPeerKey
     | Some dh \<Rightarrow> rbind (hpke_keys suite dh
           (ss_public e @ rpub @ (case sender of None \<Rightarrow> [] | Some s \<Rightarrow> ss_public s))
           (if sender = None then MODE_BASE else MODE_AUTH) info) (\<lambda>ks.
         rbind (map_err HpkeAead (suite_seal suite (ks_key ks) (ks_base_nonce ks) aad pt)) (\<lambda>ct.
         Inr (ss_public e, ct))))"
  by (cases "diffie_hellman e rpub"; cases sender; cases "diffie_hellman (the sender) rpub")
     (auto simp: seal_with_ephemeral_def dh_pair_def hpke_keys_bind Let_def)

lemma open_inner_eq:
  assumes "length enc = 32"
  shows "open_inner suite r enc sender info aad ct =
    (case dh_pair (diffie_hellman r enc) (map_option (diffie_hellman r) sender) of
       None \<Rightarrow> Inl InvalidPeerKey
     | Some dh \<Rightarrow> rbind (hpke_keys suite dh
           (enc @ ss_public r @ (case sender of None \<Rightarrow> [] | Some s \<Rightarrow> s))
           (if sender = None then MODE_BASE else MODE_AUTH) info) (\<lambda>ks.
         map_err HpkeAead (suite_open suite (ks_key ks) (ks_base_nonce ks) aad ct)))"
  by (cases "diffie_hellman r enc"; cases sender; cases "diffie_hellman r (the sender)")
     (auto simp: open_inner_def dh_pair_def hpke_keys_bind Let_def copy_whole assms ENCAPSULATED_KEY_LEN_def)

lemma hpke_open_seal:
  assumes wf: "static_wf e" "static_wf r" "\<forall>s. sender = Some s \<longrightarrow> static_wf s"
    and sealed: "seal_with_ephemeral suite e (ss_public r) sender info aad pt = Inr (enc, ct)"
  shows "open_inner suite r enc (map_option ss_public sender) info aad ct = Inr pt \<and>
    length enc = 32 \<and> length ct = length pt + 16 \<and> suite = ChaCha20Poly1305"
proof -
  obtain dh where dh: "dh_pair (diffie_hellman e (ss_public r))
      (map_option (\<lambda>s. diffie_hellman s (ss_public r)) sender) = Some dh"
    using sealed by (auto simp: seal_with_ephemeral_eq split: option.splits)
  let ?kc = "ss_public e @ ss_public r @ (case sender of None \<Rightarrow> [] | Some s \<Rightarrow> ss_public s)"
  let ?mode = "if sender = None then MODE_BASE else MODE_AUTH"
  obtain ks where ks: "hpke_keys suite dh ?kc ?mode info = Inr ks"
      and len: "length (ks_key ks) = 32" "length (ks_base_nonce ks) = 12"
    by (rule hpke_keys_total)
  have ch: "suite = ChaCha20Poly1305"
    and ct: "ct = rfc_seal suite (ks_key ks) (ks_base_nonce ks) aad pt" and enc: "enc = ss_public e"
    using sealed suite_seal_12 [OF len] by (auto simp: seal_with_ephemeral_eq dh ks split: if_splits)
  have elen: "length enc = 32" using static_wf_public [OF wf(1)] enc by simp
  have dh': "dh_pair (diffie_hellman r enc) (map_option (diffie_hellman r) (map_option ss_public sender)) = Some dh"
    using dh wf static_agree(1) [OF _ wf(2)] by (cases sender) (simp_all add: enc)
  have kc: "enc @ ss_public r @ (case map_option ss_public sender of None \<Rightarrow> [] | Some s \<Rightarrow> s) = ?kc"
    by (cases sender) (simp_all add: enc)
  have "suite_good suite (ks_key ks) (ks_base_nonce ks)" using len by (simp add: ch suite_good_def)
  then have "suite_open suite (ks_key ks) (ks_base_nonce ks) aad ct = Inr pt"
    by (simp add: suite_open_iff ct)
  moreover have "hpke_keys suite dh ?kc (if map_option ss_public sender = None then MODE_BASE else MODE_AUTH) info = Inr ks"
    using ks by (cases sender) simp_all
  ultimately have "open_inner suite r enc (map_option ss_public sender) info aad ct = Inr pt"
    unfolding open_inner_eq [OF elen] dh' kc by simp
  then show ?thesis using elen ch by (simp add: ct)
qed

lemma hpke_seal_total:
  "seal_with_ephemeral ChaCha20Poly1305 e rpub None info aad pt = Inl InvalidPeerKey \<and> diffie_hellman e rpub = None \<or>
    (\<exists>enc ct. seal_with_ephemeral ChaCha20Poly1305 e rpub None info aad pt = Inr (enc, ct))"
proof (cases "diffie_hellman e rpub")
  case (Some dh)
  obtain ks where "hpke_keys ChaCha20Poly1305 dh (ss_public e @ rpub) MODE_BASE info = Inr ks"
      and "length (ks_key ks) = 32" "length (ks_base_nonce ks) = 12"
    by (rule hpke_keys_total)
  then show ?thesis using Some by (simp add: seal_with_ephemeral_eq dh_pair_def suite_seal_12)
qed (simp add: seal_with_ephemeral_eq dh_pair_def)

section \<open>The interface to the clients\<close>

text \<open>
  Encryption to a public key as an envelope format uses it: what was sealed with an ephemeral key
  pair for a receiver's opens to the same plaintext under the same info and associated data, and
  the lengths are fixed.
\<close>

locale envelope_scheme =
  fixes seal :: "'k \<Rightarrow> bytes \<Rightarrow> bytes \<Rightarrow> bytes \<Rightarrow> bytes \<Rightarrow> 'e + bytes \<times> bytes"
    and unseal :: "'k \<Rightarrow> bytes \<Rightarrow> bytes \<Rightarrow> bytes \<Rightarrow> bytes \<Rightarrow> 'e + bytes"
    and public :: "'k \<Rightarrow> bytes"
    and wf :: "'k \<Rightarrow> bool"
  assumes unseal_seal: "wf e \<Longrightarrow> wf r \<Longrightarrow> seal e (public r) i a m = Inr (enc, c) \<Longrightarrow> unseal r enc i a c = Inr m"
    and seal_shape: "wf e \<Longrightarrow> seal e p i a m = Inr (enc, c) \<Longrightarrow> length enc = 32 \<and> length c = length m + 16"
begin

lemma unseal_inj:
  assumes "wf e" "wf r" "seal e (public r) i a m = Inr (enc, c)" "seal e (public r) i a m' = Inr (enc, c)"
  shows "m = m'"
  using unseal_seal [OF assms(1-3)] unseal_seal [OF assms(1,2,4)] by simp

end

lemma seal_with_ephemeral_shape:
  assumes "static_wf e" "seal_with_ephemeral suite e rpub sender info aad pt = Inr (enc, ct)"
  shows "length enc = 32 \<and> length ct = length pt + 16"
proof -
  obtain dh where dh: "dh_pair (diffie_hellman e rpub) (map_option (\<lambda>s. diffie_hellman s rpub) sender) = Some dh"
    using assms(2) by (auto simp: seal_with_ephemeral_eq split: option.splits)
  let ?kc = "ss_public e @ rpub @ (case sender of None \<Rightarrow> [] | Some s \<Rightarrow> ss_public s)"
  obtain ks where ks: "hpke_keys suite dh ?kc (if sender = None then MODE_BASE else MODE_AUTH) info = Inr ks"
      and len: "length (ks_key ks) = 32" "length (ks_base_nonce ks) = 12"
    by (rule hpke_keys_total)
  show ?thesis
    using assms(2) suite_seal_12 [OF len] static_wf_public [OF assms(1)]
    by (auto simp: seal_with_ephemeral_eq dh ks split: if_splits)
qed

interpretation hpke_base: envelope_scheme
    "\<lambda>e p. seal_with_ephemeral ChaCha20Poly1305 e p None" "hpke_open ChaCha20Poly1305"
    ss_public static_wf
proof
  fix e r :: static_secret and i a m enc c
  assume "static_wf e" "static_wf r"
    "seal_with_ephemeral ChaCha20Poly1305 e (ss_public r) None i a m = Inr (enc, c)"
  from hpke_open_seal [OF this(1,2) _ this(3)]
  show "hpke_open ChaCha20Poly1305 r enc i a c = Inr m" by (simp add: hpke_open_def)
next
  fix e :: static_secret and p i a m enc c
  assume "static_wf e" "seal_with_ephemeral ChaCha20Poly1305 e p None i a m = Inr (enc, c)"
  from seal_with_ephemeral_shape [OF this] show "length enc = 32 \<and> length c = length m + 16" .
qed

section \<open>Properties\<close>

text \<open>
  C16. HPKE round trip, both modes: for any ephemeral key pair, receiver and optional authenticated
  sender, sealing with ChaCha20-Poly1305 succeeds with the 32-byte encapsulated key and 16 bytes more
  than the plaintext, and the receiver opens it to the plaintext.
\<close>

theorem hpke_roundtrip:
  assumes "static_wf e" and "static_wf r" and "\<forall>s. sender = Some s \<longrightarrow> static_wf s"
  shows "\<exists>enc ct. seal_with_ephemeral ChaCha20Poly1305 e (ss_public r) sender info aad pt = Inr (enc, ct) \<and>
    open_inner ChaCha20Poly1305 r enc (map_option ss_public sender) info aad ct = Inr pt \<and>
    length enc = 32 \<and> length ct = length pt + 16"
proof -
  obtain d where d: "diffie_hellman e (ss_public r) = Some d" using static_agree(2) [OF assms(1,2)] by blast
  have "\<exists>d'. diffie_hellman s (ss_public r) = Some d'" if "sender = Some s" for s
    using static_agree(2) [OF _ assms(2)] assms(3) that by blast
  then obtain dh where dh: "dh_pair (diffie_hellman e (ss_public r))
      (map_option (\<lambda>s. diffie_hellman s (ss_public r)) sender) = Some dh"
    by (cases sender) (auto simp: dh_pair_def d)
  let ?kc = "ss_public e @ ss_public r @ (case sender of None \<Rightarrow> [] | Some s \<Rightarrow> ss_public s)"
  obtain ks where "hpke_keys ChaCha20Poly1305 dh ?kc (if sender = None then MODE_BASE else MODE_AUTH) info = Inr ks"
      and "length (ks_key ks) = 32" "length (ks_base_nonce ks) = 12"
    by (rule hpke_keys_total)
  then obtain enc ct where "seal_with_ephemeral ChaCha20Poly1305 e (ss_public r) sender info aad pt = Inr (enc, ct)"
    by (auto simp: seal_with_ephemeral_eq dh suite_seal_12)
  with hpke_open_seal [OF assms this] show ?thesis by blast
qed

theorem hpke_roundtrip_witness:
  "\<exists>enc ct. seal_with_ephemeral ChaCha20Poly1305 (static_from_bytes (replicate 32 7)) (public_key (replicate 32 8))
      (Some (static_from_bytes (replicate 32 9))) [1] [2] [3] = Inr (enc, ct) \<and>
    open_inner ChaCha20Poly1305 (static_from_bytes (replicate 32 8)) enc (Some (public_key (replicate 32 9))) [1] [2] ct = Inr [3]"
proof -
  let ?k = "\<lambda>b. static_from_bytes (replicate 32 b)"
  have wf: "static_wf (?k b)" for b by (rule static_from_bytes_wf) simp
  show ?thesis using hpke_roundtrip [OF wf [of 7] wf [of 8], of "Some (?k 9)" "[1]" "[2]" "[3]"] wf [of 9] by auto
qed

end
