(* ===== verification/Ed25519.thy ===== *)
theory Ed25519
  imports Edwards Sha2 CryptoTypes Entropy
begin

text \<open>
  Ed25519 (crates/blindplane-crypto/src/edwards/keys.rs): signing keys, strict verification and the
  prepared verifier.
\<close>

section \<open>Signing keys\<close>

record signing_key =
  sk_seed :: bytes
  sk_scalar :: scalar
  sk_prefix :: bytes
  sk_public :: bytes

definition sk_from_seed :: "bytes \<Rightarrow> signing_key" where
  "sk_from_seed seed =
    (let expanded = sha512_digest seed;
         scalar_bytes = take 32 expanded;
         scalar_bytes = scalar_bytes[0 := scalar_bytes ! 0 AND 0xf8];
         scalar_bytes = scalar_bytes[31 := scalar_bytes ! 31 AND 127];
         scalar_bytes = scalar_bytes[31 := scalar_bytes ! 31 OR 64];
         prefixes = drop 32 expanded;
         s = from_bytes_mod_order scalar_bytes;
         public = ep_compress (ep_mul_base s)
     in \<lparr>sk_seed = seed, sk_scalar = s, sk_prefix = prefixes, sk_public = public\<rparr>)"

definition sk_generate :: "'w os \<Rightarrow> ('w, random_error, signing_key) eff" where
  "sk_generate os =
    ebind (rand_fill os (replicate 32 0)) (\<lambda>seed. pure_eff (Inr (sk_from_seed seed)))"

definition sk_to_seed :: "signing_key \<Rightarrow> bytes" where
  "sk_to_seed k = sk_seed k"

definition sk_verifying_key :: "signing_key \<Rightarrow> bytes" where
  "sk_verifying_key k = sk_public k"

definition sk_sign :: "signing_key \<Rightarrow> bytes \<Rightarrow> bytes" where
  "sk_sign key message =
    (let hasher = sha512_new;
         hasher = sha512_update hasher (sk_prefix key);
         hasher = sha512_update hasher message;
         r = from_wide_bytes (sha512_finalize hasher);
         big_r = ep_compress (ep_mul_base r);
         hasher = sha512_new;
         hasher = sha512_update hasher big_r;
         hasher = sha512_update hasher (sk_public key);
         hasher = sha512_update hasher message;
         k = from_wide_bytes (sha512_finalize hasher);
         s = mul_add k (sk_scalar key) r
     in big_r @ sc_to_bytes s)"

section \<open>Verification\<close>

definition verify_tail ::
  "bytes \<Rightarrow> bytes \<Rightarrow> bytes \<Rightarrow> (scalar \<Rightarrow> scalar \<Rightarrow> edwards_point) \<Rightarrow> signature_error + unit" where
  "verify_tail public_key message signature recompute =
    (let r_bytes = take 32 signature;
         s_bytes = drop 32 signature
     in rbind (ok_or (from_canonical_bytes s_bytes) NonCanonicalSignatureS) (\<lambda>s.
     let hasher = sha512_new;
         hasher = sha512_update hasher r_bytes;
         hasher = sha512_update hasher public_key;
         hasher = sha512_update hasher message;
         k = from_wide_bytes (sha512_finalize hasher);
         recomputed = recompute k s
     in if is_set (ct_eq_bytes (ep_compress recomputed) r_bytes) then Inr ()
        else if ep_decompress r_bytes = None then Inl InvalidSignatureR
        else Inl VerificationFailed))"

definition verify_strict :: "bytes \<Rightarrow> bytes \<Rightarrow> bytes \<Rightarrow> signature_error + unit" where
  "verify_strict public_key message signature =
    rbind (ok_or (ep_decompress public_key) InvalidPublicKey) (\<lambda>big_a.
    if is_set (is_small_order big_a) then Inl SmallOrderPublicKey
    else verify_tail public_key message signature
      (\<lambda>k s. vartime_double_scalar_mul_basepoint k (ep_negate big_a) s))"

record prepared =
  pr_public :: bytes
  pr_negated_odd :: "affine_niels list"

definition prepared_new :: "bytes \<Rightarrow> signature_error + prepared" where
  "prepared_new public_key =
    rbind (ok_or (ep_decompress public_key) InvalidPublicKey) (\<lambda>big_a.
    if is_set (is_small_order big_a) then Inl SmallOrderPublicKey
    else Inr \<lparr>pr_public = public_key, pr_negated_odd = affine_odd_multiples (ep_negate big_a)\<rparr>)"

definition prepared_verify_strict :: "prepared \<Rightarrow> bytes \<Rightarrow> bytes \<Rightarrow> signature_error + unit" where
  "prepared_verify_strict v message signature =
    verify_tail (pr_public v) message signature
      (\<lambda>k s. vartime_double_scalar_mul_prepared k (pr_negated_odd v) s)"

text \<open>The verifier a caller keeps: the key and the check of a message and a signature.\<close>

definition prepare_verifier :: "bytes \<Rightarrow> signature_error + prepared_verifier" where
  "prepare_verifier public_key =
    rbind (prepared_new public_key) (\<lambda>v.
    Inr \<lparr>pv_public_key = pr_public v, pv_verify_strict = prepared_verify_strict v\<rparr>)"

end
