(* ===== verification/Ed25519Correct.thy ===== *)
theory Ed25519Correct
  imports Ed25519 Ladder
begin

text \<open>
  Ed25519 against the group of the curve: what strict verification accepts, that every signature of
  the code verifies under the key of its seed, that the prepared verifier answers as the plain one,
  and that no signature has a second accepted scalar. The client's record of Ed25519 operations is
  instantiated with the code.
\<close>

section \<open>Multiples of the base point\<close>

lemma smul_base_eq: "smul a base_point = smul b base_point \<longleftrightarrow> a mod int ORDER_L = b mod int ORDER_L"
proof -
  have "smul a base_point = smul b base_point \<longleftrightarrow> smul (a - b) base_point = 0"
    by (simp add: smul_diff)
  also have "\<dots> \<longleftrightarrow> a mod int ORDER_L = b mod int ORDER_L"
    unfolding base_point_order by (simp add: mod_eq_dvd_iff)
  finally show ?thesis .
qed

lemma sc_val_of: "sc_wf s \<Longrightarrow> sc_val s < ORDER_L"
  by (simp only: sc_wf_def)

section \<open>What verification accepts\<close>

text \<open>The hash of RFC 8032, of the encoded commitment, the key and the message, as a scalar.\<close>

definition challenge :: "bytes \<Rightarrow> bytes \<Rightarrow> bytes \<Rightarrow> scalar" where
  "challenge r_bytes pk message = from_wide_bytes (sha512_spec (r_bytes @ pk @ message))"

lemma hash3: "sha512_finalize (sha512_update (sha512_update (sha512_update sha512_new a) b) c) = sha512_spec (a @ b @ c)"
  using sha512_finalize_spec [OF sha512_holds_updates [OF sha512_holds_new], of "[a, b, c]"] by simp

lemma hash2: "sha512_finalize (sha512_update (sha512_update sha512_new a) b) = sha512_spec (a @ b)"
  using sha512_finalize_spec [OF sha512_holds_updates [OF sha512_holds_new], of "[a, b]"] by simp

lemma challenge_wf: "sc_wf (challenge r p m)"
  unfolding challenge_def by (rule from_wide_bytes_val) simp

text \<open>
  The commitment that the equation of the signature determines: \<open>S B - k A\<close>. The tail accepts when
  its encoding is the first half of the signature.
\<close>

definition commitment :: "point \<Rightarrow> scalar \<Rightarrow> bytes \<Rightarrow> bytes \<Rightarrow> bytes \<Rightarrow> point" where
  "commitment A s r_bytes pk message =
    smul (int (sc_val s)) base_point - smul (int (sc_val (challenge r_bytes pk message))) A"

definition verdict :: "point \<Rightarrow> bytes \<Rightarrow> bytes \<Rightarrow> bytes \<Rightarrow> signature_error + unit" where
  "verdict A pk message signature =
    (case from_canonical_bytes (drop 32 signature) of
       None \<Rightarrow> Inl NonCanonicalSignatureS
     | Some s \<Rightarrow>
         if pt_bytes (commitment A s (take 32 signature) pk message) = take 32 signature then Inr ()
         else if take 32 signature \<notin> range pt_bytes then Inl InvalidSignatureR
         else Inl VerificationFailed)"

lemma verify_tail_verdict:
  assumes "length signature = 64"
    and rec: "\<And>k s. sc_wf k \<Longrightarrow> sc_wf s \<Longrightarrow>
      ep_is (recompute k s) (smul (int (sc_val k)) (- A) + smul (int (sc_val s)) base_point)"
  shows "verify_tail pk message signature recompute = verdict A pk message signature"
proof (cases "from_canonical_bytes (drop 32 signature)")
  case None
  then show ?thesis by (simp add: verify_tail_def verdict_def Let_def)
next
  case (Some s)
  have "sc_wf s" using Some from_canonical_bytes_iff [of "drop 32 signature" s] assms(1) by simp
  from rec [OF challenge_wf this]
  have "ep_is (recompute (challenge (take 32 signature) pk message) s)
      (commitment A s (take 32 signature) pk message)"
    by (rule ep_is_subst) (simp add: commitment_def smul_neg)
  note c = ep_compress_is [OF this]
  have "length (take 32 signature) = 32" using assms(1) by simp
  note d = ep_decompress_iff [OF this]
  show ?thesis
    using Some by (simp add: verify_tail_def verdict_def Let_def hash3 challenge_def [symmetric] c d ct_eq_bytes_eq)
qed

lemma decompress_checked:
  assumes "length pk = 32"
  obtains (none) "ep_decompress pk = None" "pk \<notin> range pt_bytes"
    | (some) A e where "ep_decompress pk = Some e" "ep_is e A" "pk = pt_bytes A"
        "is_set (is_small_order e) \<longleftrightarrow> smul 8 A = 0"
proof (cases "ep_decompress pk")
  case None
  then show ?thesis using none ep_decompress_iff [OF assms] by blast
next
  case (Some e)
  then obtain A where "ep_is e A" "pt_bytes A = pk" using ep_decompress_sound assms by blast
  then show ?thesis using some Some is_small_order_is by blast
qed

lemma verify_strict_point:
  assumes "length signature = 64"
  shows "verify_strict (pt_bytes A) message signature =
    (if smul 8 A = 0 then Inl SmallOrderPublicKey else verdict A (pt_bytes A) message signature)"
proof -
  obtain e where e: "ep_decompress (pt_bytes A) = Some e" "ep_is e A" using ep_decompress_pt_bytes by blast
  have "verify_tail (pt_bytes A) message signature
      (\<lambda>k s. vartime_double_scalar_mul_basepoint k (ep_negate e) s) = verdict A (pt_bytes A) message signature"
    by (rule verify_tail_verdict [OF assms]) (intro vartime_basepoint_is ep_is_negate e)
  then show ?thesis using e(1) is_small_order_is [OF e(2)] by (simp add: verify_strict_def)
qed

lemma verify_strict_invalid:
  assumes "length pk = 32" and "pk \<notin> range pt_bytes"
  shows "verify_strict pk message signature = Inl InvalidPublicKey"
  using ep_decompress_iff [OF assms(1)] assms(2) by (simp add: verify_strict_def)

lemma verify_strict_eq:
  assumes "length pk = 32" and "length signature = 64"
  shows "verify_strict pk message signature = Inr () \<longleftrightarrow>
    (\<exists>A s. pk = pt_bytes A \<and> smul 8 A \<noteq> 0 \<and> sc_wf s \<and> drop 32 signature = sc_to_bytes s \<and>
      pt_bytes (commitment A s (take 32 signature) pk message) = take 32 signature)"
proof (cases "pk \<in> range pt_bytes")
  case True
  then obtain A where A: "pk = pt_bytes A" by blast
  have l: "length (drop 32 signature) = 32" using assms(2) by simp
  have can: "from_canonical_bytes (drop 32 signature) = Some s \<longleftrightarrow> sc_wf s \<and> drop 32 signature = sc_to_bytes s" for s
    unfolding from_canonical_bytes_iff [OF l] eq_commute [of "sc_to_bytes s"] ..
  have e: "pk = pt_bytes B \<longleftrightarrow> B = A" for B unfolding A pt_bytes_inject by blast
  have v: "verdict A pk message signature = Inr () \<longleftrightarrow>
      (\<exists>s. from_canonical_bytes (drop 32 signature) = Some s \<and>
        pt_bytes (commitment A s (take 32 signature) pk message) = take 32 signature)"
    by (cases "from_canonical_bytes (drop 32 signature)") (simp_all add: verdict_def)
  have "verify_strict pk message signature =
      (if smul 8 A = 0 then Inl SmallOrderPublicKey else verdict A pk message signature)"
    unfolding A by (rule verify_strict_point [OF assms(2)])
  then have "verify_strict pk message signature = Inr () \<longleftrightarrow> smul 8 A \<noteq> 0 \<and> verdict A pk message signature = Inr ()"
    by (simp only: split: if_split) simp
  then show ?thesis unfolding v can e by blast
next
  case False
  then show ?thesis using verify_strict_invalid [OF assms(1)] by auto
qed

section \<open>The prepared verifier\<close>

lemma prepared_new_cases:
  "length pk = 32 \<Longrightarrow> pk \<notin> range pt_bytes \<Longrightarrow> prepared_new pk = Inl InvalidPublicKey"
  "smul 8 A = 0 \<Longrightarrow> prepared_new (pt_bytes A) = Inl SmallOrderPublicKey"
  "smul 8 A \<noteq> 0 \<Longrightarrow> \<exists>e. ep_is e (- A) \<and>
    prepared_new (pt_bytes A) = Inr \<lparr>pr_public = pt_bytes A, pr_negated_odd = affine_odd_multiples e\<rparr>"
proof -
  show "length pk = 32 \<Longrightarrow> pk \<notin> range pt_bytes \<Longrightarrow> prepared_new pk = Inl InvalidPublicKey"
    using ep_decompress_iff [of pk] by (simp add: prepared_new_def)
  obtain e where e: "ep_decompress (pt_bytes A) = Some e" "ep_is e A" using ep_decompress_pt_bytes by blast
  show "smul 8 A = 0 \<Longrightarrow> prepared_new (pt_bytes A) = Inl SmallOrderPublicKey"
    "smul 8 A \<noteq> 0 \<Longrightarrow> \<exists>e. ep_is e (- A) \<and>
      prepared_new (pt_bytes A) = Inr \<lparr>pr_public = pt_bytes A, pr_negated_odd = affine_odd_multiples e\<rparr>"
    using e is_small_order_is [OF e(2)] ep_is_negate [OF e(2)] by (auto simp: prepared_new_def)
qed

lemma prepared_verdict:
  assumes "ep_is e (- A)" and "length signature = 64"
  shows "prepared_verify_strict \<lparr>pr_public = pk, pr_negated_odd = affine_odd_multiples e\<rparr> message signature =
    verdict A pk message signature"
  unfolding prepared_verify_strict_def prepared.simps
  by (rule verify_tail_verdict [OF assms(2)]) (intro vartime_prepared_is assms)

lemma prepared_agrees:
  assumes "length pk = 32" and "length signature = 64"
  shows "rbind (prepared_new pk) (\<lambda>v. prepared_verify_strict v message signature) =
    verify_strict pk message signature"
proof (cases "pk \<in> range pt_bytes")
  case True
  then obtain A where A: "pk = pt_bytes A" by blast
  show ?thesis
    using prepared_new_cases(2,3) [of A] prepared_verdict [OF _ assms(2)] verify_strict_point [OF assms(2), of A]
    by (cases "smul 8 A = 0") (auto simp: A)
next
  case False
  then show ?thesis using prepared_new_cases(1) verify_strict_invalid assms(1) by simp
qed

section \<open>Signatures of the code\<close>

lemma signing_key_parts:
  "sc_wf (sk_scalar (sk_from_seed seed))"
  "sk_public (sk_from_seed seed) = pt_bytes (smul (int (sc_val (sk_scalar (sk_from_seed seed)))) base_point)"
  "smul (8 * int (sc_val (sk_scalar (sk_from_seed seed)))) base_point \<noteq> 0"
proof -
  let ?bs = "take 32 (sha512_digest seed)"
  let ?c = "clamp ?bs"
  have len: "length ?bs = 32" by simp
  have k: "sk_scalar (sk_from_seed seed) = from_bytes_mod_order ?c"
    by (simp add: sk_from_seed_def clamp_def Let_def)
  have "length ?c = 32" by (simp add: clamp_def)
  note v = from_bytes_mod_order_val [OF this]
  show wf: "sc_wf (sk_scalar (sk_from_seed seed))" unfolding k by (rule v)
  have "sk_public (sk_from_seed seed) = ep_compress (ep_mul_base (sk_scalar (sk_from_seed seed)))"
    by (simp add: sk_from_seed_def Let_def)
  also have "\<dots> = pt_bytes (smul (int (sc_val (sk_scalar (sk_from_seed seed)))) base_point)"
    by (rule ep_compress_is [OF ep_mul_base_is [OF wf]])
  finally show "sk_public (sk_from_seed seed) = pt_bytes (smul (int (sc_val (sk_scalar (sk_from_seed seed)))) base_point)" .
  have val: "sc_val (sk_scalar (sk_from_seed seed)) = from_le ?c mod ORDER_L"
    unfolding k by (rule v)
  note unit = clamp_unit [OF len]
  show "smul (8 * int (sc_val (sk_scalar (sk_from_seed seed)))) base_point \<noteq> 0"
  proof
    assume "smul (8 * int (sc_val (sk_scalar (sk_from_seed seed)))) base_point = 0"
    then have "int ORDER_L dvd int (8 * sc_val (sk_scalar (sk_from_seed seed)))"
      unfolding base_point_order by simp
    then have "ORDER_L dvd 8 * (from_le ?c mod ORDER_L)" unfolding val int_dvd_int_iff .
    then have "ORDER_L dvd 8 * from_le ?c" by (simp only: dvd_eq_mod_eq_0 mod_mult_right_eq)
    then show False using is_prime_dvd_mult [OF prime_L, of 8 "from_le ?c"] unit by (auto dest: dvd_imp_le)
  qed
qed

lemma sk_sign_eq:
  fixes key message
  defines "r \<equiv> from_wide_bytes (sha512_spec (sk_prefix key @ message))"
  defines "big_r \<equiv> pt_bytes (smul (int (sc_val r)) base_point)"
  shows "sk_sign key message = big_r @ sc_to_bytes (mul_add (challenge big_r (sk_public key) message) (sk_scalar key) r)"
    and "sc_wf r"
proof -
  show wf: "sc_wf r" unfolding r_def by (rule from_wide_bytes_val) simp
  have "ep_compress (ep_mul_base r) = big_r"
    unfolding big_r_def by (rule ep_compress_is [OF ep_mul_base_is [OF wf]])
  then show "sk_sign key message = big_r @ sc_to_bytes (mul_add (challenge big_r (sk_public key) message) (sk_scalar key) r)"
    by (simp add: sk_sign_def Let_def hash2 hash3 r_def challenge_def)
qed

lemma sk_sign_length:
  assumes "sc_wf (sk_scalar key)"
  shows "length (sk_sign key message) = 64"
proof -
  have "length (sc_limbs s) = 4" if "sc_wf s" for s using that by (simp only: sc_wf_def)
  then show ?thesis
    using mul_add_val(1) [OF challenge_wf assms sk_sign_eq(2)] by (simp add: sk_sign_eq(1) sc_to_bytes_length)
qed

lemma sign_accepted:
  fixes seed message
  defines "key \<equiv> sk_from_seed seed"
  shows "verify_strict (sk_public key) message (sk_sign key message) = Inr ()"
proof -
  note k = signing_key_parts [of seed, folded key_def]
  define a where "a = sc_val (sk_scalar key)"
  define A where "A = smul (int a) base_point"
  define r where "r = from_wide_bytes (sha512_spec (sk_prefix key @ message))"
  define R where "R = smul (int (sc_val r)) base_point"
  define c where "c = challenge (pt_bytes R) (sk_public key) message"
  define s where "s = mul_add c (sk_scalar key) r"
  have sig: "sk_sign key message = pt_bytes R @ sc_to_bytes s" and r: "sc_wf r"
    using sk_sign_eq [of key message] by (simp_all only: R_def r_def c_def s_def)
  have pub: "sk_public key = pt_bytes A" using k(2) by (simp only: A_def a_def)
  have s: "sc_wf s" "sc_val s = (sc_val c * a + sc_val r) mod ORDER_L"
    unfolding s_def a_def by (rule mul_add_val; (rule challenge_wf [of "pt_bytes R" "sk_public key" message, folded c_def] k(1) r)?)+
  have len: "length (sc_to_bytes s) = 32" using s(1) by (intro sc_to_bytes_length) (simp only: sc_wf_def)
  have can: "from_canonical_bytes (sc_to_bytes s) = Some s"
    using from_canonical_bytes_iff [OF len] s(1) by blast
  have "int (sc_val s) mod int ORDER_L = (int (sc_val c) * int a + int (sc_val r)) mod int ORDER_L"
    unfolding s(2) by (simp only: of_nat_mod of_nat_add of_nat_mult mod_mod_trivial)
  then have "smul (int (sc_val s)) base_point = smul (int (sc_val c)) A + R"
    unfolding A_def R_def smul_smul smul_add [symmetric] smul_base_eq .
  then have com: "commitment A s (pt_bytes R) (sk_public key) message = R"
    by (simp add: commitment_def c_def [symmetric])
  have "smul 8 A \<noteq> 0" using k(3) by (simp add: A_def a_def smul_smul)
  then have "verify_strict (sk_public key) message (sk_sign key message) = verdict A (sk_public key) message (sk_sign key message)"
    using verify_strict_point [of "sk_sign key message" A message] sk_sign_length [OF k(1)] unfolding pub by simp
  also have "\<dots> = Inr ()" by (simp add: verdict_def sig can com)
  finally show ?thesis .
qed

lemma sk_public_length [simp]: "length (sk_public (sk_from_seed seed)) = 32"
  by (simp add: signing_key_parts(2))

section \<open>Prepared keys\<close>

lemma from_canonical_bytes_wf: "from_canonical_bytes bs = Some s \<Longrightarrow> sc_wf s"
  by (auto simp: from_canonical_bytes_def Let_def is_less_than_iff sc_wf_def sc_val_def SC_L_val split: if_splits)

lemma verify_tail_cong:
  assumes "\<And>k s. sc_wf k \<Longrightarrow> sc_wf s \<Longrightarrow> ep_compress (f k s) = ep_compress (g k s)"
  shows "verify_tail pk message signature f = verify_tail pk message signature g"
  using assms [OF challenge_wf from_canonical_bytes_wf]
  by (cases "from_canonical_bytes (drop 32 signature)") (simp_all add: verify_tail_def Let_def hash3 challenge_def)

text \<open>A prepared key checks any message and signature as strict verification does.\<close>

lemma prepare_verifier_is:
  assumes "length pk = 32" and "prepare_verifier pk = Inr v"
  shows "pv_public_key v = pk" "pv_verify_strict v message signature = verify_strict pk message signature"
proof -
  obtain e A where e: "ep_decompress pk = Some e" "ep_is e A" "\<not> is_set (is_small_order e)"
    using assms by (cases rule: decompress_checked) (auto simp: prepare_verifier_def prepared_new_def split: if_splits)
  then have v: "v = \<lparr>pv_public_key = pk, pv_verify_strict =
      prepared_verify_strict \<lparr>pr_public = pk, pr_negated_odd = affine_odd_multiples (ep_negate e)\<rparr>\<rparr>"
    using assms(2) by (simp add: prepare_verifier_def prepared_new_def)
  show "pv_public_key v = pk" by (simp add: v)
  have "ep_compress (vartime_double_scalar_mul_prepared k (affine_odd_multiples (ep_negate e)) s) =
      ep_compress (vartime_double_scalar_mul_basepoint k (ep_negate e) s)" if "sc_wf k" "sc_wf s" for k s
    using ep_compress_is [OF vartime_prepared_is [OF ep_is_negate [OF e(2)] that]]
      ep_compress_is [OF vartime_basepoint_is [OF ep_is_negate [OF e(2)] that]] by simp
  from verify_tail_cong [OF this] show "pv_verify_strict v message signature = verify_strict pk message signature"
    using e by (simp add: v prepared_verify_strict_def verify_strict_def)
qed

section \<open>Properties\<close>

text \<open>
  C3. Strict verification, exactly: a key and a signature are accepted iff the key is the encoding of
  a point outside the small subgroup, the second half of the signature is a scalar below the order of
  the group, and the first half is the encoding of \<open>S B - k A\<close>, with \<open>k\<close> the SHA-512 challenge of
  RFC 8032. Nothing else passes: no other encoding of the key or of the commitment, no scalar that
  was not reduced, no key of order eight.
\<close>

theorem verify_strict_iff:
  assumes "length pk = 32" and "length signature = 64"
  shows "verify_strict pk message signature = Inr () \<longleftrightarrow>
    (\<exists>A s. pk = pt_bytes A \<and> smul 8 A \<noteq> 0 \<and> sc_wf s \<and> drop 32 signature = sc_to_bytes s \<and>
      pt_bytes (smul (int (sc_val s)) base_point -
        smul (int (sc_val (challenge (take 32 signature) pk message))) A) = take 32 signature)"
  using verify_strict_eq [OF assms] by (simp only: commitment_def)

theorem verify_strict_iff_witness:
  "\<exists>A s. sk_verifying_key (sk_from_seed (replicate 32 0)) = pt_bytes A \<and> smul 8 A \<noteq> 0 \<and> sc_wf s \<and>
    drop 32 (sk_sign (sk_from_seed (replicate 32 0)) [1, 2]) = sc_to_bytes s"
proof -
  let ?k = "sk_from_seed (replicate 32 0)"
  have "length (sk_verifying_key ?k) = 32" by (simp add: sk_verifying_key_def signing_key_parts(2))
  note iff = verify_strict_iff [OF this sk_sign_length [OF signing_key_parts(1)], of "[1, 2]" "replicate 32 0" "[1, 2]"]
  have "verify_strict (sk_verifying_key ?k) [1, 2] (sk_sign ?k [1, 2]) = Inr ()"
    unfolding sk_verifying_key_def by (rule sign_accepted)
  then show ?thesis unfolding iff by blast
qed

text \<open>
  C2. Signing and verifying: for every seed and every message the signature has 64 bytes, the key 32,
  and strict verification of the one under the other succeeds, as does the verifier prepared for the
  key.
\<close>

theorem signatures_verify:
  "length (sk_sign (sk_from_seed seed) message) = 64 \<and> length (sk_verifying_key (sk_from_seed seed)) = 32 \<and>
   verify_strict (sk_verifying_key (sk_from_seed seed)) message (sk_sign (sk_from_seed seed) message) = Inr () \<and>
   rbind (prepared_new (sk_verifying_key (sk_from_seed seed)))
     (\<lambda>v. prepared_verify_strict v message (sk_sign (sk_from_seed seed) message)) = Inr ()"
proof -
  have "length (sk_public (sk_from_seed seed)) = 32" by (simp add: signing_key_parts(2))
  then show ?thesis
    using prepared_agrees sk_sign_length [OF signing_key_parts(1)] sign_accepted
    by (simp add: sk_verifying_key_def)
qed

text \<open>
  C24. The prepared verifier is the plain one: preparing a key and then checking a signature gives, for
  every key, message and signature, the same answer as strict verification, the error included.
\<close>

theorem prepared_is_strict:
  assumes "length pk = 32" and "length signature = 64"
  shows "rbind (prepared_new pk) (\<lambda>v. prepared_verify_strict v message signature) =
    verify_strict pk message signature"
  by (rule prepared_agrees [OF assms])

theorem prepared_is_strict_witness:
  "rbind (prepared_new (replicate 32 1)) (\<lambda>v. prepared_verify_strict v [7] (replicate 64 2)) =
    verify_strict (replicate 32 1) [7] (replicate 64 2)"
  by (rule prepared_is_strict) simp_all

text \<open>
  C25. One scalar per commitment: two accepted signatures of the same message under the same key that
  share their first half are equal, so an accepted signature cannot be altered in its second half.
\<close>

theorem signature_not_malleable:
  assumes "length pk = 32" and "length sig1 = 64" and "length sig2 = 64"
    and "verify_strict pk message sig1 = Inr ()" and "verify_strict pk message sig2 = Inr ()"
    and "take 32 sig1 = take 32 sig2"
  shows "sig1 = sig2"
proof -
  obtain A s where 1: "pk = pt_bytes A" "sc_wf s" "drop 32 sig1 = sc_to_bytes s"
    "pt_bytes (commitment A s (take 32 sig1) pk message) = take 32 sig1"
    using assms(4) unfolding verify_strict_eq [OF assms(1,2)] by blast
  obtain B t where 2: "pk = pt_bytes B" "sc_wf t" "drop 32 sig2 = sc_to_bytes t"
    "pt_bytes (commitment B t (take 32 sig2) pk message) = take 32 sig2"
    using assms(5) unfolding verify_strict_eq [OF assms(1,3)] by blast
  have "A = B" using 1(1) 2(1) by (simp add: pt_bytes_inject)
  moreover have "pt_bytes (commitment A s (take 32 sig1) pk message) = pt_bytes (commitment B t (take 32 sig2) pk message)"
    by (rule trans [OF 1(4) trans [OF assms(6) 2(4) [symmetric]]])
  ultimately have "smul (int (sc_val s)) base_point = smul (int (sc_val t)) base_point"
    unfolding pt_bytes_inject commitment_def assms(6) by simp
  then have "int (sc_val s) = int (sc_val t)"
    using sc_val_of [OF 1(2)] sc_val_of [OF 2(2)] unfolding smul_base_eq by simp
  then have "from_le (sc_to_bytes s) = from_le (sc_to_bytes t)" by (simp add: sc_to_bytes_val)
  moreover have "length (sc_to_bytes s) = 32" "length (sc_to_bytes t) = 32"
    using 1(3) 2(3) assms(2,3) by (simp_all flip: 1(3) 2(3))
  ultimately have "sc_to_bytes s = sc_to_bytes t" by (metis to_le_from_le)
  then show ?thesis using 1(3) 2(3) assms(6) by (metis append_take_drop_id)
qed

theorem signature_not_malleable_witness:
  "sk_sign (sk_from_seed [3]) [4] = take 32 (sk_sign (sk_from_seed [3]) [4]) @ drop 32 (sk_sign (sk_from_seed [3]) [4])"
proof (rule signature_not_malleable [of "sk_public (sk_from_seed [3])" _ _ "[4]"])
  show "length (sk_public (sk_from_seed [3])) = 32" by (simp add: signing_key_parts(2))
  show "length (sk_sign (sk_from_seed [3]) [4]) = 64" by (rule sk_sign_length [OF signing_key_parts(1)])
  then show "length (take 32 (sk_sign (sk_from_seed [3]) [4]) @ drop 32 (sk_sign (sk_from_seed [3]) [4])) = 64" by simp
  show "verify_strict (sk_public (sk_from_seed [3])) [4] (sk_sign (sk_from_seed [3]) [4]) = Inr ()" by (rule sign_accepted)
  then show "verify_strict (sk_public (sk_from_seed [3])) [4]
      (take 32 (sk_sign (sk_from_seed [3]) [4]) @ drop 32 (sk_sign (sk_from_seed [3]) [4])) = Inr ()" by simp
  show "take 32 (sk_sign (sk_from_seed [3]) [4]) =
      take 32 (take 32 (sk_sign (sk_from_seed [3]) [4]) @ drop 32 (sk_sign (sk_from_seed [3]) [4]))" by simp
qed

end
