(* ===== verification/CoreTypes.thy ===== *)
theory CoreTypes
  imports WireHead Hpke Ed25519Correct
begin

text \<open>
  The client's errors and identities (crates/blindplane-core/src/error.rs, identity.rs), and the
  environment its operations run in: the operating system's entropy and the build feature
  \<open>fault-resistant\<close>.
\<close>

datatype client_error =
    Randomness
  | InvalidKeyIdentity
  | InvalidSignerKey
  | NoRecipients
  | DuplicateRecipient
  | DuplicateIndex
  | InvalidIndexScope
  | InvalidRecordInput
  | PayloadTooLarge
  | KeyDerivation
  | HpkeSeal
  | HpkeOpen
  | PayloadSeal
  | PayloadOpen
  | NoEnvelopeForRecipient
  | InvalidRekeyContext
  | ManifestRevisionOverflow
  | InvalidVaultParameters
  | Wire wire_error

record 'w client_env =
  env_os :: "'w os"
  env_fault_resistant :: bool

section \<open>Authors\<close>

record author =
  au_signing_seed :: bytes

definition author_generate :: "'w client_env \<Rightarrow> ('w, client_error, author) eff" where
  "author_generate E =
    ebind (emap_err (\<lambda>_. Randomness) (rand_fill (env_os E) (replicate 32 0))) (\<lambda>seed.
    pure_eff (Inr \<lparr>au_signing_seed = seed\<rparr>))"

definition author_from_secret_bytes :: "bytes \<Rightarrow> author" where
  "author_from_secret_bytes secret = \<lparr>au_signing_seed = secret\<rparr>"

definition author_public_key :: "author \<Rightarrow> bytes" where
  "author_public_key a = sk_verifying_key (sk_from_seed (au_signing_seed a))"

definition author_secret_bytes :: "author \<Rightarrow> bytes" where
  "author_secret_bytes a = au_signing_seed a"

definition author_sign :: "author \<Rightarrow> sealed_record \<Rightarrow> sealed_record" where
  "author_sign a r =
    (let r = r\<lparr>sr_signer_public_key := author_public_key a\<rparr>;
         r = r\<lparr>sr_signature := sk_sign (sk_from_seed (au_signing_seed a)) (signing_bytes r)\<rparr>
     in r)"

section \<open>Recipients\<close>

record recipient_info =
  rp_recipient_id :: str
  rp_key_epoch :: u64
  rp_recipient_key_id :: bytes
  rp_public_key :: bytes

definition RECIPIENT_KEY_ID_DOMAIN :: bytes where
  "RECIPIENT_KEY_ID_DOMAIN = ascii ''blindplane/recipient-key-id/v1''"

definition recipient_key_id :: "bytes \<Rightarrow> bytes" where
  "recipient_key_id pk =
    (let hasher = sha256_new;
         hasher = sha256_update hasher RECIPIENT_KEY_ID_DOMAIN;
         hasher = sha256_update hasher pk
     in sha256_finalize hasher)"

definition from_verified_key :: "str \<Rightarrow> u64 \<Rightarrow> bytes \<Rightarrow> bytes \<Rightarrow> client_error + recipient_info" where
  "from_verified_key recipient_id key_epoch pk expected_key_id =
    (let actual_key_id = recipient_key_id pk in
     if recipient_id = [] \<or> key_epoch = 0 \<or> \<not> is_set (ct_eq_bytes actual_key_id expected_key_id)
     then Inl InvalidKeyIdentity
     else Inr \<lparr>rp_recipient_id = recipient_id, rp_key_epoch = key_epoch,
       rp_recipient_key_id = actual_key_id, rp_public_key = pk\<rparr>)"

record recipient_keypair =
  kp_recipient :: recipient_info
  kp_secret :: static_secret

definition keypair_assemble :: "str \<Rightarrow> u64 \<Rightarrow> static_secret \<Rightarrow> recipient_keypair" where
  "keypair_assemble recipient_id key_epoch secret =
    (let pk = ss_public secret
     in \<lparr>kp_recipient = \<lparr>rp_recipient_id = recipient_id, rp_key_epoch = key_epoch,
           rp_recipient_key_id = recipient_key_id pk, rp_public_key = pk\<rparr>,
         kp_secret = secret\<rparr>)"

definition keypair_generate :: "'w client_env \<Rightarrow> str \<Rightarrow> u64 \<Rightarrow> ('w, client_error, recipient_keypair) eff" where
  "keypair_generate E recipient_id key_epoch =
    (if recipient_id = [] \<or> key_epoch = 0 then pure_eff (Inl InvalidKeyIdentity)
     else ebind (emap_err (\<lambda>_. Randomness) (static_generate (env_os E))) (\<lambda>secret.
       pure_eff (Inr (keypair_assemble recipient_id key_epoch secret))))"

definition keypair_from_secret_bytes :: "str \<Rightarrow> u64 \<Rightarrow> bytes \<Rightarrow> client_error + recipient_keypair" where
  "keypair_from_secret_bytes recipient_id key_epoch secret_bytes =
    (if recipient_id = [] \<or> key_epoch = 0 then Inl InvalidKeyIdentity
     else Inr (keypair_assemble recipient_id key_epoch (static_from_bytes secret_bytes)))"

definition keypair_recipient :: "recipient_keypair \<Rightarrow> recipient_info" where
  "keypair_recipient kp = kp_recipient kp"

definition keypair_secret_bytes :: "recipient_keypair \<Rightarrow> bytes" where
  "keypair_secret_bytes kp = static_to_bytes (kp_secret kp)"

record pinned_signer =
  ps_verifier :: prepared_verifier

definition pinned_signer_new :: "bytes \<Rightarrow> client_error + pinned_signer" where
  "pinned_signer_new pk =
    map_err (\<lambda>_. InvalidSignerKey)
      (rbind (prepare_verifier pk) (\<lambda>v. Inr \<lparr>ps_verifier = v\<rparr>))"

definition pinned_signer_public_key :: "pinned_signer \<Rightarrow> bytes" where
  "pinned_signer_public_key s = pv_public_key (ps_verifier s)"

section \<open>Well-formed identities\<close>

lemma recipient_key_id_spec:
  "recipient_key_id pk = sha256_spec (RECIPIENT_KEY_ID_DOMAIN @ pk)"
  using sha256_finalize_spec [OF sha256_holds_update [OF sha256_holds_update [OF sha256_holds_new]],
      of RECIPIENT_KEY_ID_DOMAIN pk]
  by (simp add: recipient_key_id_def Let_def)

lemma recipient_key_id_length [simp]: "length (recipient_key_id pk) = 32"
  by (simp add: recipient_key_id_spec)

text \<open>What the private fields of the three types always satisfy.\<close>

definition recipient_info_wf :: "recipient_info \<Rightarrow> bool" where
  "recipient_info_wf r \<longleftrightarrow> rp_recipient_id r \<noteq> [] \<and> rp_key_epoch r \<noteq> 0 \<and>
     rp_recipient_key_id r = recipient_key_id (rp_public_key r)"

definition keypair_wf :: "recipient_keypair \<Rightarrow> bool" where
  "keypair_wf kp \<longleftrightarrow> recipient_info_wf (kp_recipient kp) \<and> static_wf (kp_secret kp) \<and>
     rp_public_key (kp_recipient kp) = ss_public (kp_secret kp)"

lemma from_verified_key_wf:
  "from_verified_key i k pk h = Inr r \<Longrightarrow> recipient_info_wf r \<and> rp_public_key r = pk \<and> rp_recipient_key_id r = h"
  by (auto simp: from_verified_key_def recipient_info_wf_def Let_def split: if_splits)

lemma keypair_assemble_wf:
  "i \<noteq> [] \<Longrightarrow> k \<noteq> 0 \<Longrightarrow> static_wf s \<Longrightarrow> keypair_wf (keypair_assemble i k s)"
  by (simp add: keypair_assemble_def keypair_wf_def recipient_info_wf_def Let_def)

lemma keypair_from_secret_bytes_wf:
  "keypair_from_secret_bytes i k bs = Inr kp \<Longrightarrow> length bs = 32 \<Longrightarrow> keypair_wf kp"
  by (auto simp: keypair_from_secret_bytes_def intro: keypair_assemble_wf static_from_bytes_wf split: if_splits)

section \<open>Signing\<close>

lemma author_sign_sel [simp]:
  "sr_format_version (author_sign a r) = sr_format_version r"
  "sr_suite (author_sign a r) = sr_suite r"
  "sr_context (author_sign a r) = sr_context r"
  "sr_manifest_revision (author_sign a r) = sr_manifest_revision r"
  "sr_previous_manifest_hash (author_sign a r) = sr_previous_manifest_hash r"
  "sr_key_commitment (author_sign a r) = sr_key_commitment r"
  "sr_nonce (author_sign a r) = sr_nonce r"
  "sr_ciphertext (author_sign a r) = sr_ciphertext r"
  "sr_recipients (author_sign a r) = sr_recipients r"
  "sr_indexes (author_sign a r) = sr_indexes r"
  "sr_signer_public_key (author_sign a r) = author_public_key a"
  by (simp_all add: author_sign_def Let_def)

lemma author_sign_valid:
  shows "length (sr_signature (author_sign a r)) = 64"
    "verify_strict (author_public_key a)
      (signing_bytes (author_sign a r)) (sr_signature (author_sign a r)) = Inr ()"
proof -
  have "signing_bytes (r\<lparr>sr_signer_public_key := k, sr_signature := s\<rparr>) = signing_bytes (r\<lparr>sr_signer_public_key := k\<rparr>)" for k s
    by (simp add: signing_bytes_put)
  then show "length (sr_signature (author_sign a r)) = 64"
    "verify_strict (author_public_key a)
      (signing_bytes (author_sign a r)) (sr_signature (author_sign a r)) = Inr ()"
    by (simp_all add: author_sign_def author_public_key_def sk_verifying_key_def sign_accepted
        sk_sign_length signing_key_parts(1) Let_def)
qed

end
