(* ===== verification/CoreDerive.thy ===== *)
theory CoreDerive
  imports CoreTypes
begin

text \<open>
  Key derivation, envelope wrapping and the checks before and after sealing
  (crates/blindplane-core/src/derive.rs).
\<close>

definition DEK_LEN :: nat where "DEK_LEN = 32"
definition HPKE_INFO_DOMAIN :: bytes where "HPKE_INFO_DOMAIN = ascii ''blindplane/hpke-dek/v1''"
definition HPKE_AAD_DOMAIN :: bytes where "HPKE_AAD_DOMAIN = ascii ''blindplane/hpke-envelope-aad/v1''"
definition INDEX_DOMAIN :: bytes where "INDEX_DOMAIN = ascii ''blindplane/exact-index/v1''"
definition DATA_KEY_DOMAIN :: bytes where "DATA_KEY_DOMAIN = ascii ''blindplane/data-key/v1''"
definition COMMITMENT_KEY_DOMAIN :: bytes where "COMMITMENT_KEY_DOMAIN = ascii ''blindplane/commitment-key/v1''"
definition COMMITMENT_DOMAIN :: bytes where "COMMITMENT_DOMAIN = ascii ''blindplane/key-commitment/v1''"

definition hpke_info :: "record_context \<Rightarrow> recipient_info \<Rightarrow> bytes" where
  "hpke_info context r =
    (let info = [];
         info = push_bytes info HPKE_INFO_DOMAIN;
         info = push_bytes info (canonical_bytes context);
         info = push_bytes info (rp_recipient_id r);
         info = info @ u64_to_be (rp_key_epoch r);
         info = info @ rp_recipient_key_id r
     in info)"

definition hpke_aad :: "record_context \<Rightarrow> recipient_info \<Rightarrow> bytes" where
  "hpke_aad context r =
    (let aad = [];
         aad = push_bytes aad HPKE_AAD_DOMAIN;
         aad = push_bytes aad (canonical_bytes context);
         aad = push_bytes aad (rp_recipient_id r);
         aad = aad @ u64_to_be (rp_key_epoch r);
         aad = aad @ rp_recipient_key_id r
     in aad)"

definition wrap_dek ::
  "'w client_env \<Rightarrow> recipient_info \<Rightarrow> bytes \<Rightarrow> record_context \<Rightarrow> ('w, client_error, recipient_envelope) eff" where
  "wrap_dek E r object_secret context =
    (let info = hpke_info context r;
         aad = hpke_aad context r in
     ebind (emap_err (\<lambda>_. HpkeSeal)
       (hpke_seal (env_os E) ChaCha20Poly1305 (rp_public_key r) info aad object_secret))
     (\<lambda>(encapsulated_key, wrapped_dek).
     pure_eff (Inr \<lparr>re_recipient_id = rp_recipient_id r, re_key_epoch = rp_key_epoch r,
       re_recipient_key_id = rp_recipient_key_id r, re_encapsulated_key = encapsulated_key,
       re_wrapped_dek = wrapped_dek\<rparr>)))"

definition unwrap_dek ::
  "sealed_record \<Rightarrow> recipient_envelope \<Rightarrow> recipient_keypair \<Rightarrow> client_error + bytes" where
  "unwrap_dek r envelope kp =
    (let descriptor = keypair_recipient kp;
         info = hpke_info (sr_context r) descriptor;
         aad = hpke_aad (sr_context r) descriptor in
     rbind (map_err (\<lambda>_. HpkeOpen) (hpke_open ChaCha20Poly1305 (kp_secret kp)
       (re_encapsulated_key envelope) info aad (re_wrapped_dek envelope))) (\<lambda>bs.
     rbind (reject (length bs \<noteq> DEK_LEN) HpkeOpen) (\<lambda>_.
     Inr bs)))"

definition derive_object_keys :: "bytes \<Rightarrow> record_context \<Rightarrow> client_error + bytes \<times> bytes" where
  "derive_object_keys object_secret context =
    (let salt = canonical_bytes context;
         prk = hkdf_extract salt object_secret;
         data_key = replicate 32 0;
         commitment_key = replicate 32 0;
         (ok1, data_key) = hkdf_expand prk DATA_KEY_DOMAIN data_key
     in if \<not> ok1 then Inl KeyDerivation
        else case hkdf_expand prk COMMITMENT_KEY_DOMAIN commitment_key of (ok2, commitment_key) \<Rightarrow>
          if \<not> ok2 then Inl KeyDerivation
          else Inr (data_key, commitment_key))"

definition mac_bytes :: "hmac256 \<Rightarrow> bytes \<Rightarrow> hmac256" where
  "mac_bytes mac bs =
    (let len = of_nat (length bs) :: u64;
         mac = hmac256_update mac (u64_to_be len)
     in hmac256_update mac bs)"

definition commit_key :: "bytes \<Rightarrow> suite \<Rightarrow> record_context \<Rightarrow> bytes" where
  "commit_key commitment_key suite context =
    (let mac = hmac256_new commitment_key;
         mac = hmac256_update mac COMMITMENT_DOMAIN;
         mac = hmac256_update mac [suite_code suite];
         mac = mac_bytes mac (canonical_bytes context)
     in hmac256_finalize mac)"

text \<open>The two loops of \<open>preflight\<close>.\<close>

fun preflight_recipients :: "validation_policy \<Rightarrow> recipient_info list \<Rightarrow> client_error + unit" where
  "preflight_recipients policy [] = Inr ()"
| "preflight_recipients policy (r # rs) =
    (let computed = recipient_key_id (rp_public_key r) in
     if rp_recipient_id r = [] \<or> max_identifier_bytes policy < length (rp_recipient_id r)
       \<or> rp_key_epoch r = 0 \<or> \<not> is_set (ct_eq_bytes computed (rp_recipient_key_id r))
     then Inl InvalidKeyIdentity
     else preflight_recipients policy rs)"

fun preflight_indexes :: "validation_policy \<Rightarrow> blind_index list \<Rightarrow> client_error + unit" where
  "preflight_indexes policy [] = Inr ()"
| "preflight_indexes policy (i # rest) =
    (if bi_label i = [] \<or> max_identifier_bytes policy < length (bi_label i)
       \<or> bi_canonicalizer_id i = [] \<or> max_identifier_bytes policy < length (bi_canonicalizer_id i)
       \<or> bi_schema_version i = 0 \<or> bi_canonicalizer_version i = 0 \<or> bi_key_epoch i = 0
     then Inl InvalidIndexScope
     else preflight_indexes policy rest)"

definition preflight ::
  "record_context \<Rightarrow> nat \<Rightarrow> recipient_info list \<Rightarrow> blind_index list \<Rightarrow> client_error + unit" where
  "preflight context plaintext_len recipients indexes =
    (let policy = default_policy;
         identifiers = [rc_tenant context, rc_object_id context, rc_field context] in
     rbind (reject (list_ex (\<lambda>value. value = [] \<or> max_identifier_bytes policy < length value) identifiers
         \<or> rc_epoch context = 0 \<or> rc_version context = 0 \<or> rc_schema_version context = 0)
       InvalidRecordInput) (\<lambda>_.
     rbind (reject (max_ciphertext_bytes policy < saturating_add_usize plaintext_len TAG_LEN)
       PayloadTooLarge) (\<lambda>_.
     rbind (reject (recipients = []) NoRecipients) (\<lambda>_.
     rbind (reject (max_recipients policy < length recipients \<or> max_indexes policy < length indexes)
       InvalidRecordInput) (\<lambda>_.
     rbind (preflight_recipients policy recipients) (\<lambda>_.
     preflight_indexes policy indexes))))))"

definition validate_own ::
  "'w client_env \<Rightarrow> sealed_record \<Rightarrow> validation_policy \<Rightarrow> client_error + unit" where
  "validate_own E r policy =
    (if env_fault_resistant E then map_err Wire (validate verify_strict r policy)
     else
       rbind (map_err Wire (validate_shape r policy)) (\<lambda>_.
       rbind (reject (allowed_signers policy = {}) (Wire NoTrustedSigners)) (\<lambda>_.
       reject (sr_signer_public_key r \<notin> allowed_signers policy) (Wire UntrustedSigner))))"

definition policy_for :: "bytes \<Rightarrow> validation_policy" where
  "policy_for signer = default_policy\<lparr>allowed_signers := {signer}\<rparr>"

section \<open>What the checks accept\<close>

definition recipient_info_ok :: "validation_policy \<Rightarrow> recipient_info \<Rightarrow> bool" where
  "recipient_info_ok p r \<longleftrightarrow> label_ok p (rp_recipient_id r) \<and> rp_key_epoch r \<noteq> 0 \<and>
     rp_recipient_key_id r = recipient_key_id (rp_public_key r)"

definition index_scope_ok :: "validation_policy \<Rightarrow> blind_index \<Rightarrow> bool" where
  "index_scope_ok p i \<longleftrightarrow> label_ok p (bi_label i) \<and> label_ok p (bi_canonicalizer_id i) \<and>
     bi_key_epoch i \<noteq> 0 \<and> bi_schema_version i \<noteq> 0 \<and> bi_canonicalizer_version i \<noteq> 0"

lemma preflight_recipients_iff:
  "preflight_recipients p rs = Inr u \<longleftrightarrow> (\<forall>r\<in>set rs. recipient_info_ok p r)"
  by (induction rs) (auto simp: Let_def recipient_info_ok_def label_ok_def not_less)

lemma preflight_indexes_iff:
  "preflight_indexes p is = Inr u \<longleftrightarrow> (\<forall>i\<in>set is. index_scope_ok p i)"
  by (induction "is") (auto simp: index_scope_ok_def label_ok_def not_less)

lemma preflight_iff:
  "preflight c n rs is = Inr u \<longleftrightarrow>
    label_ok default_policy (rc_tenant c) \<and> label_ok default_policy (rc_object_id c) \<and>
    label_ok default_policy (rc_field c) \<and> rc_epoch c \<noteq> 0 \<and> rc_version c \<noteq> 0 \<and> rc_schema_version c \<noteq> 0 \<and>
    n + TAG_LEN \<le> max_ciphertext_bytes default_policy \<and> rs \<noteq> [] \<and>
    length rs \<le> max_recipients default_policy \<and> length is \<le> max_indexes default_policy \<and>
    (\<forall>r\<in>set rs. recipient_info_ok default_policy r) \<and> (\<forall>i\<in>set is. index_scope_ok default_policy i)"
proof -
  have sat: "max_ciphertext_bytes default_policy < saturating_add_usize n TAG_LEN \<longleftrightarrow>
      max_ciphertext_bytes default_policy < n + TAG_LEN"
    by (simp add: saturating_add_usize_def default_policy_def usize_max_def TAG_LEN_def)
  show ?thesis
    unfolding preflight_def Let_def rbind_eq_Inr reject_eq_Inr preflight_recipients_iff preflight_indexes_iff sat
    by (simp add: label_ok_def not_less conj_ac)
qed

lemma preflight_errors:
  "preflight c n rs is = Inl err \<Longrightarrow>
    err \<in> {InvalidRecordInput, PayloadTooLarge, NoRecipients, InvalidKeyIdentity, InvalidIndexScope}"
proof -
  have r: "preflight_recipients p rs = Inl err \<Longrightarrow> err = InvalidKeyIdentity" for p
    by (induction rs) (auto simp: Let_def split: if_splits)
  have i: "preflight_indexes p is = Inl err \<Longrightarrow> err = InvalidIndexScope" for p
    by (induction "is") (auto split: if_splits)
  assume "preflight c n rs is = Inl err"
  then show ?thesis
    unfolding preflight_def Let_def rbind_eq_Inl rbind_eq_Inr reject_eq_Inl using r i by blast
qed

lemma policy_for_sel [simp]: "allowed_signers (policy_for k) = {k}"
  by (simp add: policy_for_def)

lemma policy_for_limits [simp]: "limits_ok (policy_for k) r \<longleftrightarrow> limits_ok default_policy r"
  by (simp add: limits_ok_def label_ok_def policy_for_def)

lemma validate_own_iff:
  "validate_own E r (policy_for k) = Inr u \<longleftrightarrow> limits_ok default_policy r \<and> sr_signer_public_key r = k \<and>
    (env_fault_resistant E \<longrightarrow>
      verify_strict (sr_signer_public_key r) (signing_bytes r) (sr_signature r) = Inr ())"
  by (auto simp: validate_own_def result_simps validate_iff structure_ok_def validate_shape_def validate_limits_iff)

text \<open>For a record its own author signed, both builds accept the same records.\<close>

lemma validate_own_signed:
  shows "validate_own E (author_sign a r) (policy_for (author_public_key a)) = Inr () \<longleftrightarrow>
    validate verify_strict (author_sign a r) (policy_for (author_public_key a)) = Inr ()"
  by (auto simp: validate_own_iff validate_iff structure_ok_def author_sign_valid)

lemma validate_signed_iff:
  shows "validate verify_strict (author_sign a r) (policy_for (author_public_key a)) = Inr () \<longleftrightarrow>
    limits_ok default_policy (author_sign a r)"
  by (simp add: validate_iff structure_ok_def author_sign_valid)

section \<open>Keys and envelopes\<close>

lemma derive_object_keys_total:
  "derive_object_keys object_secret context =
    (let prk = hmac_spec sha256_spec 64 (canonical_bytes context) object_secret
     in Inr (hmac_spec sha256_spec 64 prk (DATA_KEY_DOMAIN @ [1]),
             hmac_spec sha256_spec 64 prk (COMMITMENT_KEY_DOMAIN @ [1])))"
proof -
  have e: "hkdf_extract salt ikm = hmac_spec sha256_spec 64 salt ikm" for salt ikm
    using hmac256_finalize_spec [OF hmac256_holds_update [OF hmac256_holds_new, of salt ikm]]
    by (simp add: hkdf_extract_def hmac256_mac_def)
  have "length (replicate 32 (0 :: u8)) = 32" by simp
  note x = hkdf_expand_32 [OF this]
  show ?thesis unfolding derive_object_keys_def Let_def x e by simp
qed

lemma derive_object_keys_lengths:
  "derive_object_keys object_secret context = Inr (data_key, commitment_key) \<Longrightarrow> length data_key = 32"
  by (auto simp: derive_object_keys_total Let_def)

lemma commit_key_spec:
  "commit_key key s c = hmac_spec sha256_spec 64 key
    (COMMITMENT_DOMAIN @ [suite_code s] @ lp (canonical_bytes c))"
proof -
  have "hmac256_holds key (mac_bytes (hmac256_update (hmac256_update (hmac256_new key) COMMITMENT_DOMAIN)
      [suite_code s]) (canonical_bytes c))
      (((([] @ COMMITMENT_DOMAIN) @ [suite_code s]) @ u64_to_be (of_nat (length (canonical_bytes c)))) @ canonical_bytes c)"
    unfolding mac_bytes_def Let_def by (intro hmac256_holds_update hmac256_holds_new)
  from hmac256_finalize_spec [OF this] show ?thesis
    by (simp add: commit_key_def Let_def lp_def)
qed

lemma commit_key_length [simp]: "length (commit_key key s c) = 32"
  by (simp add: commit_key_spec)

lemma hpke_seal_Inr:
  assumes "os_ok os" "hpke_seal os ChaCha20Poly1305 pk info aad m w = (Inr (enc, c), w')"
  obtains bs where "rand_fill os (replicate 32 0) w = (Inr bs, w')" "length bs = 32"
    "seal_with_ephemeral ChaCha20Poly1305 (static_from_bytes bs) pk None info aad m = Inr (enc, c)"
    "static_wf (static_from_bytes bs)"
proof -
  from assms(2) obtain e where g: "static_generate os w = (Inr e, w')"
    and s: "seal_with_ephemeral ChaCha20Poly1305 e pk None info aad m = Inr (enc, c)"
    by (auto simp: hpke_seal_def result_simps)
  from g obtain bs where bs: "rand_fill os (replicate 32 0) w = (Inr bs, w')" "e = static_from_bytes bs"
    by (auto simp: static_generate_def result_simps)
  have "length bs = 32" using rand_fill_length [OF assms(1) bs(1)] by simp
  then show thesis using that [OF bs(1)] s bs(2) static_from_bytes_wf by blast
qed

text \<open>The envelope as \<open>wrap_dek\<close> fills it.\<close>

definition envelope_for :: "recipient_info \<Rightarrow> recipient_envelope \<Rightarrow> bool" where
  "envelope_for r e \<longleftrightarrow> re_recipient_id e = rp_recipient_id r \<and> re_key_epoch e = rp_key_epoch r \<and>
     re_recipient_key_id e = rp_recipient_key_id r"

lemma wrap_dek_Inr:
  assumes "os_ok (env_os E)" "wrap_dek E r secret c w = (Inr e, w')"
  shows "envelope_for r e \<and> length (re_encapsulated_key e) = 32 \<and> length (re_wrapped_dek e) = length secret + 16"
proof -
  from assms(2) obtain enc ct where h: "hpke_seal (env_os E) ChaCha20Poly1305 (rp_public_key r)
      (hpke_info c r) (hpke_aad c r) secret w = (Inr (enc, ct), w')"
    and e: "e = \<lparr>re_recipient_id = rp_recipient_id r, re_key_epoch = rp_key_epoch r,
       re_recipient_key_id = rp_recipient_key_id r, re_encapsulated_key = enc, re_wrapped_dek = ct\<rparr>"
    by (auto simp: wrap_dek_def result_simps Let_def)
  from hpke_seal_Inr [OF assms(1) h] obtain bs where
    "seal_with_ephemeral ChaCha20Poly1305 (static_from_bytes bs) (rp_public_key r) None (hpke_info c r)
      (hpke_aad c r) secret = Inr (enc, ct)" "static_wf (static_from_bytes bs)" by metis
  from hpke_base.seal_shape [OF this(2,1)] show ?thesis by (simp add: e envelope_for_def)
qed

text \<open>Wrapping fails only without entropy, or for a public key some ephemeral key shares zero with.\<close>

definition unusable_key :: "bytes \<Rightarrow> bool" where
  "unusable_key pk \<longleftrightarrow> (\<exists>bs. length bs = 32 \<and> diffie_hellman (static_from_bytes bs) pk = None)"

lemma wrap_dek_error:
  assumes "os_ok (env_os E)" "wrap_dek E r secret c w = (Inl err, w')"
  shows "err = HpkeSeal \<and> (os_failed (env_os E) \<or> unusable_key (rp_public_key r))"
proof -
  from assms(2) obtain e where err: "err = HpkeSeal" and h: "hpke_seal (env_os E) ChaCha20Poly1305
      (rp_public_key r) (hpke_info c r) (hpke_aad c r) secret w = (Inl e, w')"
    by (auto simp: wrap_dek_def result_simps Let_def)
  from h consider e1 w1 where "rand_fill (env_os E) (replicate 32 0) w = (Inl e1, w1)"
    | bs w1 where "rand_fill (env_os E) (replicate 32 0) w = (Inr bs, w1)"
      "seal_with_ephemeral ChaCha20Poly1305 (static_from_bytes bs) (rp_public_key r) None
        (hpke_info c r) (hpke_aad c r) secret = Inl e"
    by (auto simp: hpke_seal_def static_generate_def result_simps)
  then show ?thesis
  proof cases
    case 1
    show ?thesis using rand_fill_error [OF 1] err by simp
  next
    case 2
    have "length bs = 32" using rand_fill_length [OF assms(1) 2(1)] by simp
    moreover have "diffie_hellman (static_from_bytes bs) (rp_public_key r) = None"
      using hpke_seal_total [of "static_from_bytes bs" "rp_public_key r" "hpke_info c r" "hpke_aad c r" secret] 2(2)
      by auto
    ultimately show ?thesis using err by (auto simp: unusable_key_def)
  qed
qed

lemma unwrap_wrap:
  assumes os: "os_ok (env_os E)" and wf: "keypair_wf kp"
    and w: "wrap_dek E (kp_recipient kp) secret (sr_context r) w = (Inr e, w')" and len: "length secret = 32"
  shows "unwrap_dek r e kp = Inr secret"
proof -
  let ?info = "hpke_info (sr_context r) (kp_recipient kp)" and ?aad = "hpke_aad (sr_context r) (kp_recipient kp)"
  have pk: "rp_public_key (kp_recipient kp) = ss_public (kp_secret kp)" using wf by (simp add: keypair_wf_def)
  from w obtain enc ct where h: "hpke_seal (env_os E) ChaCha20Poly1305 (ss_public (kp_secret kp)) ?info ?aad secret w =
      (Inr (enc, ct), w')" and e: "re_encapsulated_key e = enc" "re_wrapped_dek e = ct"
    by (auto simp: wrap_dek_def result_simps Let_def pk)
  from hpke_seal_Inr [OF os h] obtain bs where bs: "rand_fill (env_os E) (replicate 32 0) w = (Inr bs, w')"
    "seal_with_ephemeral ChaCha20Poly1305 (static_from_bytes bs) (ss_public (kp_secret kp)) None ?info ?aad secret = Inr (enc, ct)"
    "static_wf (static_from_bytes bs)" by metis
  have "static_wf (kp_secret kp)" using wf by (simp add: keypair_wf_def)
  from hpke_base.unseal_seal [OF bs(3) this bs(2)] len show ?thesis
    by (simp add: unwrap_dek_def keypair_recipient_def e DEK_LEN_def Let_def)
qed

end
