(* ===== verification/CoreSeal.thy ===== *)
theory CoreSeal
  imports CoreDerive
begin

text \<open>
  Sealing, opening, granting and rekeying (crates/blindplane-core/src/sealing.rs), each operation
  with the draws of randomness in the order of the code.
\<close>

section \<open>Operations\<close>

definition recipient_sort_key :: "recipient_info \<Rightarrow> str \<times> u64" where
  "recipient_sort_key r = (rp_recipient_id r, rp_key_epoch r)"

text \<open>\<open>windows(2).any(p)\<close> and the envelope loop of \<open>seal\<close>.\<close>

fun windows_any :: "('a \<Rightarrow> 'a \<Rightarrow> bool) \<Rightarrow> 'a list \<Rightarrow> bool" where
  "windows_any p (x # y # rest) \<longleftrightarrow> p x y \<or> windows_any p (y # rest)"
| "windows_any p _ \<longleftrightarrow> False"

fun wrap_all ::
  "'w client_env \<Rightarrow> bytes \<Rightarrow> record_context \<Rightarrow> recipient_info list \<Rightarrow> ('w, client_error, recipient_envelope list) eff" where
  "wrap_all E object_secret context [] = pure_eff (Inr [])"
| "wrap_all E object_secret context (r # rs) =
    ebind (wrap_dek E r object_secret context) (\<lambda>e.
    ebind (wrap_all E object_secret context rs) (\<lambda>es.
    pure_eff (Inr (e # es))))"

definition seal ::
  "'w client_env \<Rightarrow> author \<Rightarrow> record_context \<Rightarrow> bytes \<Rightarrow> recipient_info list \<Rightarrow> blind_index list \<Rightarrow> suite \<Rightarrow>
   ('w, client_error, sealed_record) eff" where
  "seal E author context plaintext recipients indexes suite =
    ebind (pure_eff (preflight context (length plaintext) recipients indexes)) (\<lambda>_.
    let sorted_recipients = sort_key recipient_sort_key recipients in
    if windows_any (\<lambda>a b. rp_recipient_id a = rp_recipient_id b \<and> rp_key_epoch a = rp_key_epoch b) sorted_recipients
    then pure_eff (Inl DuplicateRecipient) else
    let sorted_indexes = sort_key (\<lambda>i. (bi_label i, bi_key_epoch i)) indexes in
    if windows_any (\<lambda>a b. bi_label a = bi_label b \<and> bi_key_epoch a = bi_key_epoch b) sorted_indexes
    then pure_eff (Inl DuplicateIndex) else
    ebind (emap_err (\<lambda>_. Randomness) (secret_32 (env_os E))) (\<lambda>object_secret.
    ebind (pure_eff (derive_object_keys object_secret context)) (\<lambda>(data_key, commitment_key).
    let key_commitment = commit_key commitment_key suite context in
    ebind (emap_err (\<lambda>_. Randomness) (rand_fill (env_os E) (replicate (nonce_len suite) 0))) (\<lambda>nonce.
    let aad = payload_aad suite context in
    ebind (pure_eff (map_err (\<lambda>_. PayloadSeal) (suite_seal suite data_key nonce aad plaintext))) (\<lambda>ciphertext.
    ebind (wrap_all E object_secret context sorted_recipients) (\<lambda>envelopes.
    let r = \<lparr>sr_format_version = FORMAT_VERSION, sr_suite = suite, sr_context = context,
              sr_manifest_revision = 1, sr_previous_manifest_hash = replicate 32 0,
              sr_key_commitment = key_commitment, sr_nonce = nonce, sr_ciphertext = ciphertext,
              sr_recipients = envelopes, sr_indexes = sorted_indexes,
              sr_signer_public_key = author_public_key author, sr_signature = replicate 64 0\<rparr>;
        r = author_sign author r in
    ebind (pure_eff (validate_own E r (policy_for (author_public_key author)))) (\<lambda>_.
    pure_eff (Inr r))))))))"

definition open_validated :: "sealed_record \<Rightarrow> recipient_keypair \<Rightarrow> client_error + bytes" where
  "open_validated r kp =
    rbind (ok_or (recipient r (rp_recipient_id (kp_recipient kp)) (rp_key_epoch (kp_recipient kp))
      (rp_recipient_key_id (kp_recipient kp))) NoEnvelopeForRecipient) (\<lambda>envelope.
    rbind (unwrap_dek r envelope kp) (\<lambda>object_secret.
    rbind (derive_object_keys object_secret (sr_context r)) (\<lambda>(data_key, commitment_key).
    let commitment = commit_key commitment_key (sr_suite r) (sr_context r) in
    rbind (reject (\<not> is_set (ct_eq_bytes commitment (sr_key_commitment r))) PayloadOpen) (\<lambda>_.
    map_err (\<lambda>_. PayloadOpen)
      (suite_open (sr_suite r) data_key (sr_nonce r) (sr_payload_aad r) (sr_ciphertext r))))))"

definition open_record :: "sealed_record \<Rightarrow> recipient_keypair \<Rightarrow> bytes \<Rightarrow> client_error + bytes" where
  "open_record r kp expected_signer =
    rbind (map_err Wire (validate verify_strict r (policy_for expected_signer))) (\<lambda>_.
    open_validated r kp)"

definition open_pinned ::
  "sealed_record \<Rightarrow> recipient_keypair \<Rightarrow> pinned_signer \<Rightarrow> client_error + bytes" where
  "open_pinned r kp signer =
    rbind (map_err Wire (validate_pinned verify_strict r (ps_verifier signer) default_policy)) (\<lambda>_.
    open_validated r kp)"

definition open_at_head ::
  "sealed_record \<Rightarrow> recipient_keypair \<Rightarrow> bytes \<Rightarrow> freshness_head \<Rightarrow> client_error + bytes" where
  "open_at_head r kp expected_signer head =
    rbind (map_err Wire (verify_current verify_strict head r (policy_for expected_signer))) (\<lambda>_.
    open_record r kp expected_signer)"

definition open_at_head_pinned ::
  "sealed_record \<Rightarrow> recipient_keypair \<Rightarrow> pinned_signer \<Rightarrow> freshness_head \<Rightarrow> client_error + bytes" where
  "open_at_head_pinned r kp signer head =
    rbind (map_err Wire (verify_current_pinned verify_strict head r (ps_verifier signer)
      default_policy)) (\<lambda>_.
    rbind (map_err Wire (validate_pinned verify_strict r (ps_verifier signer) default_policy)) (\<lambda>_.
    open_validated r kp))"

definition grant_recipient ::
  "'w client_env \<Rightarrow> sealed_record \<Rightarrow> recipient_keypair \<Rightarrow> author \<Rightarrow> recipient_info \<Rightarrow>
   ('w, client_error, sealed_record) eff" where
  "grant_recipient E r granting author new_recipient =
    ebind (pure_eff (map_err Wire (validate verify_strict r
      (policy_for (author_public_key author))))) (\<lambda>_.
    if list_ex (\<lambda>existing. re_recipient_id existing = rp_recipient_id new_recipient
        \<and> re_key_epoch existing = rp_key_epoch new_recipient) (sr_recipients r)
    then pure_eff (Inl DuplicateRecipient) else
    ebind (pure_eff (ok_or (recipient r (rp_recipient_id (kp_recipient granting))
      (rp_key_epoch (kp_recipient granting)) (rp_recipient_key_id (kp_recipient granting)))
      NoEnvelopeForRecipient)) (\<lambda>current_envelope.
    ebind (pure_eff (unwrap_dek r current_envelope granting)) (\<lambda>object_secret.
    let updated = r;
        updated = updated\<lparr>sr_previous_manifest_hash := manifest_hash r\<rparr> in
    ebind (pure_eff (ok_or (checked_add64 (sr_manifest_revision r) 1) ManifestRevisionOverflow)) (\<lambda>revision.
    let updated = updated\<lparr>sr_manifest_revision := revision\<rparr> in
    ebind (wrap_dek E new_recipient object_secret (sr_context r)) (\<lambda>envelope.
    let updated = updated\<lparr>sr_recipients := sr_recipients updated @ [envelope]\<rparr>;
        updated = updated\<lparr>sr_recipients :=
          sort_key (\<lambda>e. (re_recipient_id e, re_key_epoch e)) (sr_recipients updated)\<rparr>;
        updated = author_sign author updated in
    ebind (pure_eff (validate_own E updated (policy_for (author_public_key author)))) (\<lambda>_.
    pure_eff (Inr updated)))))))"

definition rekey ::
  "'w client_env \<Rightarrow> sealed_record \<Rightarrow> recipient_keypair \<Rightarrow> author \<Rightarrow> record_context \<Rightarrow> recipient_info list \<Rightarrow>
   blind_index list \<Rightarrow> ('w, client_error, sealed_record) eff" where
  "rekey E r opening author next_context remaining next_indexes =
    (if rc_tenant next_context \<noteq> rc_tenant (sr_context r)
        \<or> rc_object_id next_context \<noteq> rc_object_id (sr_context r)
        \<or> rc_field next_context \<noteq> rc_field (sr_context r)
        \<or> rc_epoch next_context \<le> rc_epoch (sr_context r)
        \<or> rc_version next_context \<le> rc_version (sr_context r)
     then pure_eff (Inl InvalidRekeyContext)
     else
     let next_context = next_context\<lparr>rc_schema_version :=
           max (rc_schema_version next_context) (rc_schema_version (sr_context r))\<rparr> in
     ebind (pure_eff (open_record r opening (author_public_key author))) (\<lambda>plaintext.
     ebind (seal E author next_context plaintext remaining next_indexes (sr_suite r)) (\<lambda>next_record.
     let next_record = next_record\<lparr>sr_previous_manifest_hash := manifest_hash r\<rparr> in
     ebind (pure_eff (ok_or (checked_add64 (sr_manifest_revision r) 1) ManifestRevisionOverflow)) (\<lambda>revision.
     let next_record = next_record\<lparr>sr_manifest_revision := revision\<rparr>;
         next_record = author_sign author next_record in
     ebind (pure_eff (validate_own E next_record (policy_for (author_public_key author)))) (\<lambda>_.
     pure_eff (Inr next_record))))))"

section \<open>Sorting and wrapping\<close>

lemma windows_any_sorted:
  "sorted (map f xs) \<Longrightarrow> \<not> windows_any (\<lambda>a b. f a = f b) xs \<longleftrightarrow> sorted_wrt (<) (map f xs)"
proof (induction "\<lambda>a b. f a = f b" xs rule: windows_any.induct)
  case (1 x y rest)
  have "f x \<le> f y" and s: "sorted (map f (y # rest))" using "1.prems" by simp_all
  then show ?case
    using "1.hyps" by (auto simp: less_le intro: order_trans)
qed simp_all

lemma recipients_distinct:
  "\<not> windows_any (\<lambda>a b. rp_recipient_id a = rp_recipient_id b \<and> rp_key_epoch a = rp_key_epoch b)
      (sort_key recipient_sort_key rs) \<longleftrightarrow>
    sorted_wrt (<) (map recipient_sort_key (sort_key recipient_sort_key rs))"
  using windows_any_sorted [of recipient_sort_key "sort_key recipient_sort_key rs"]
  by (simp add: recipient_sort_key_def)

lemma indexes_distinct:
  "\<not> windows_any (\<lambda>a b. bi_label a = bi_label b \<and> bi_key_epoch a = bi_key_epoch b)
      (sort_key (\<lambda>i. (bi_label i, bi_key_epoch i)) is) \<longleftrightarrow>
    sorted_wrt (<) (map index_key (sort_key index_key is))"
proof -
  have k: "(\<lambda>i. (bi_label i, bi_key_epoch i)) = index_key" by (simp add: fun_eq_iff index_key_def)
  show ?thesis
    using windows_any_sorted [of index_key "sort_key index_key is"] unfolding k
    by (simp add: index_key_def)
qed

lemma list_all2_in_set1: "list_all2 P xs ys \<Longrightarrow> x \<in> set xs \<Longrightarrow> \<exists>y\<in>set ys. P x y"
  by (induction rule: list_all2_induct) auto

lemma list_all2_in_set2: "list_all2 P xs ys \<Longrightarrow> y \<in> set ys \<Longrightarrow> \<exists>x\<in>set xs. P x y"
  by (induction rule: list_all2_induct) auto

text \<open>Every envelope of a sealed record is a fresh wrapping of the object secret for its recipient.\<close>

definition wrapped :: "'w client_env \<Rightarrow> bytes \<Rightarrow> record_context \<Rightarrow> recipient_info \<Rightarrow> recipient_envelope \<Rightarrow> bool" where
  "wrapped E secret c r e \<longleftrightarrow> (\<exists>w w'. wrap_dek E r secret c w = (Inr e, w'))"

lemma wrap_all_Inr: "wrap_all E secret c rs w = (Inr es, w') \<Longrightarrow> list_all2 (wrapped E secret c) rs es"
proof (induction rs arbitrary: es w)
  case (Cons r rs)
  then show ?case by (auto simp: result_simps wrapped_def)
qed (simp add: result_simps)

lemma wrap_all_error:
  assumes "os_ok (env_os E)"
  shows "wrap_all E secret c rs w = (Inl err, w') \<Longrightarrow>
    err = HpkeSeal \<and> (os_failed (env_os E) \<or> (\<exists>q\<in>set rs. unusable_key (rp_public_key q)))"
  by (induction rs arbitrary: w) (auto simp: result_simps dest: wrap_dek_error [OF assms])

lemma wrapped_key: "os_ok (env_os E) \<Longrightarrow> wrapped E secret c r e \<Longrightarrow> recipient_key e = recipient_sort_key r"
  using wrap_dek_Inr by (fastforce simp: wrapped_def recipient_key_def recipient_sort_key_def envelope_for_def)

lemma wrapped_keys:
  "os_ok (env_os E) \<Longrightarrow> list_all2 (wrapped E secret c) rs es \<Longrightarrow>
    map recipient_key es = map recipient_sort_key rs"
  by (induction rs arbitrary: es) (auto simp: list_all2_Cons1 wrapped_key)

lemma recipient_iff:
  "limits_ok p r \<Longrightarrow> recipient r i k h = Some e \<longleftrightarrow>
    e \<in> set (sr_recipients r) \<and> re_recipient_id e = i \<and> re_key_epoch e = k \<and> re_recipient_key_id e = h"
  unfolding recipient_def limits_ok_def by (intro find_sorted_key) blast

lemma suite_seal_good: "suite_seal s k n a m = Inr c \<Longrightarrow> length k = 32 \<Longrightarrow> suite_good s k n"
  by (cases s) (auto simp: suite_seal_def seal_in_place_def aes_seal_in_place_def suite_good_def split: if_splits)

section \<open>What seal returns\<close>

text \<open>
  \<open>carries r secret pt\<close>: the payload part of the record is \<open>pt\<close> under the keys of the object
  secret, with the matching commitment.
\<close>

definition carries :: "sealed_record \<Rightarrow> bytes \<Rightarrow> bytes \<Rightarrow> bool" where
  "carries r secret pt \<longleftrightarrow> length secret = 32 \<and> (\<exists>data_key commitment_key.
     derive_object_keys secret (sr_context r) = Inr (data_key, commitment_key) \<and>
     sr_key_commitment r = commit_key commitment_key (sr_suite r) (sr_context r) \<and>
     suite_seal (sr_suite r) data_key (sr_nonce r) (payload_aad (sr_suite r) (sr_context r)) pt = Inr (sr_ciphertext r))"

definition seals ::
  "'w client_env \<Rightarrow> record_context \<Rightarrow> bytes \<Rightarrow> recipient_info list \<Rightarrow> blind_index list \<Rightarrow> suite \<Rightarrow> bytes \<Rightarrow>
   sealed_record \<Rightarrow> bool" where
  "seals E c pt rs is s secret r \<longleftrightarrow> sr_context r = c \<and> sr_suite r = s \<and> carries r secret pt \<and>
     list_all2 (wrapped E secret c) (sort_key recipient_sort_key rs) (sr_recipients r) \<and>
     sr_indexes r = sort_key index_key is"

lemma index_sort_key: "(\<lambda>i. (bi_label i, bi_key_epoch i)) = index_key"
  by (simp add: fun_eq_iff index_key_def)

lemma seal_Inr:
  assumes os: "os_ok (env_os E)" and s: "seal E a c pt rs is s w = (Inr r, w')"
  obtains secret r0 where "seals E c pt rs is s secret r" "r = author_sign a r0"
    "validate_own E r (policy_for (author_public_key a)) = Inr ()"
    "sr_manifest_revision r = 1" "preflight c (length pt) rs is = Inr ()"
proof -
  from s obtain w1 w2 w3 secret data_key commitment_key nonce ct es where
    pre: "preflight c (length pt) rs is = Inr ()" and
    sec: "secret_32 (env_os E) w = (Inr secret, w1)" and
    keys: "derive_object_keys secret c = Inr (data_key, commitment_key)" and
    ct: "suite_seal s data_key nonce (payload_aad s c) pt = Inr ct" and
    es: "wrap_all E secret c (sort_key recipient_sort_key rs) w2 = (Inr es, w3)" and
    r: "r = author_sign a \<lparr>sr_format_version = FORMAT_VERSION, sr_suite = s, sr_context = c,
              sr_manifest_revision = 1, sr_previous_manifest_hash = replicate 32 0,
              sr_key_commitment = commit_key commitment_key s c, sr_nonce = nonce, sr_ciphertext = ct,
              sr_recipients = es, sr_indexes = sort_key index_key is,
              sr_signer_public_key = author_public_key a, sr_signature = replicate 64 0\<rparr>" and
    own: "validate_own E r (policy_for (author_public_key a)) = Inr ()"
    unfolding seal_def Let_def index_sort_key
    by (auto simp: result_simps split: if_splits)
  have "length secret = 32" by (rule secret_32_length [OF os sec])
  then have "seals E c pt rs is s secret r"
    using keys ct wrap_all_Inr [OF es] by (simp add: seals_def carries_def r)
  with r own pre show thesis using that by simp
qed

text \<open>Whatever passes the checks at the start of \<open>seal\<close> also passes the validation at its end.\<close>

lemma seal_limits:
  assumes os: "os_ok (env_os E)"
    and pre: "preflight c (length pt) rs is = Inr u"
    and rdist: "sorted_wrt (<) (map recipient_sort_key (sort_key recipient_sort_key rs))"
    and idist: "sorted_wrt (<) (map index_key (sort_key index_key is))"
    and s: "seals E c pt rs is s secret r"
    and hdr: "sr_format_version r = FORMAT_VERSION" "sr_manifest_revision r = 1"
      "sr_previous_manifest_hash r = replicate 32 0" "length (sr_signature r) = 64"
  shows "limits_ok default_policy r"
proof -
  note p = pre [unfolded preflight_iff]
  have es: "list_all2 (wrapped E secret c) (sort_key recipient_sort_key rs) (sr_recipients r)"
    and cx: "sr_context r = c" and ix: "sr_indexes r = sort_key index_key is"
    and sec: "length secret = 32"
    using s by (simp_all add: seals_def carries_def)
  have env: "label_ok default_policy (re_recipient_id e) \<and> re_key_epoch e \<noteq> 0 \<and>
      length (re_encapsulated_key e) = X25519_KEY_LEN \<and> length (re_wrapped_dek e) = WRAPPED_DEK_LEN"
    if e: "e \<in> set (sr_recipients r)" for e
  proof -
    obtain q where q: "q \<in> set rs" "wrapped E secret c q e"
      using list_all2_in_set2 [OF es e] by auto
    then show ?thesis
      using p wrap_dek_Inr [OF os] sec
      by (fastforce simp: wrapped_def envelope_for_def recipient_info_ok_def wire_consts)
  qed
  have len: "length (sr_recipients r) = length rs"
    using list_all2_lengthD [OF es] by simp
  obtain dk where dk: "length dk = 32"
    "suite_seal (sr_suite r) dk (sr_nonce r) (payload_aad (sr_suite r) c) pt = Inr (sr_ciphertext r)"
    using s by (auto simp: seals_def carries_def dest: derive_object_keys_lengths)
  have good: "suite_good (sr_suite r) dk (sr_nonce r)" by (rule suite_seal_good [OF dk(2,1)])
  have ct: "length (sr_ciphertext r) = length pt + 16" by (rule suite_aead.seal_length [OF good dk(2)])
  have "sr_recipients r \<noteq> []" using len p by auto
  moreover have "sorted_wrt (<) (map recipient_key (sr_recipients r))"
    using rdist by (simp add: wrapped_keys [OF os es])
  moreover have "length (sr_nonce r) = nonce_len (sr_suite r)" using good by (simp add: suite_good_def)
  ultimately show ?thesis
    using p env len ct idist hdr unfolding limits_ok_def cx ix
    by (auto simp: index_scope_ok_def TAG_LEN_def)
qed

lemma strict_sort_key: "sorted_wrt (<) (map f (sort_key f xs)) \<longleftrightarrow> distinct (map f xs)"
  by (simp add: strict_sorted_iff distinct_map)

lemma suite_seal_error:
  assumes "suite_seal s k n aad pt = Inl err" "length k = 32" "length n = nonce_len s"
  shows "s = Aes256Gcm"
proof (rule ccontr)
  assume "s \<noteq> Aes256Gcm"
  then have "suite_good s k n" using assms(2,3) by (cases s) (simp_all add: suite_good_def)
  from suite_seal_eq [OF this] assms(1) show False by simp
qed

text \<open>
  Why sealing may fail: the checks of \<open>preflight\<close>, a repeated recipient or index, the entropy
  source, the suite this build lacks, or a recipient key with an all-zero shared secret.
\<close>

definition seal_reason ::
  "'w client_env \<Rightarrow> record_context \<Rightarrow> bytes \<Rightarrow> recipient_info list \<Rightarrow> blind_index list \<Rightarrow> suite \<Rightarrow> client_error \<Rightarrow> bool" where
  "seal_reason E c pt rs is s err \<longleftrightarrow>
     preflight c (length pt) rs is = Inl err \<or>
     err = DuplicateRecipient \<and> \<not> distinct (map recipient_sort_key rs) \<or>
     err = DuplicateIndex \<and> \<not> distinct (map index_key is) \<or>
     err = Randomness \<and> os_failed (env_os E) \<or>
     err = PayloadSeal \<and> s = Aes256Gcm \<or>
     err = HpkeSeal \<and> (os_failed (env_os E) \<or> (\<exists>q\<in>set rs. unusable_key (rp_public_key q)))"

lemma seal_error:
  assumes os: "os_ok (env_os E)"
    and s: "seal E a c pt rs is s w = (Inl err, w')"
  shows "seal_reason E c pt rs is s err"
proof (rule ccontr)
  assume no: "\<not> ?thesis"
  note no = no [unfolded seal_reason_def de_Morgan_disj]
  have nwrap: "wrap_all E x y (sort_key recipient_sort_key rs) v \<noteq> (Inl err, v')" for x y v v'
    using no wrap_all_error [OF os] by fastforce
  have nkeys: "derive_object_keys x y \<noteq> Inl e" for x y e by (simp add: derive_object_keys_total Let_def)
  have nsec: "secret_32 (env_os E) v = (Inl e, v') \<Longrightarrow> err \<noteq> Randomness" for e v v'
    using no by (auto dest: secret_32_error)
  have nrand: "rand_fill (env_os E) b v = (Inl e, v') \<Longrightarrow> err \<noteq> Randomness" for b e v v'
    using no by (auto dest: rand_fill_error)
  have npay: "err \<noteq> PayloadSeal" if "derive_object_keys x c = Inr (k, k')" "rand_fill (env_os E) (replicate (nonce_len s) 0) v = (Inr n, v')"
      "suite_seal s k n aad pt = Inl e" for k k' x n v v' e aad
    using no suite_seal_error [OF that(3) derive_object_keys_lengths [OF that(1)]] rand_fill_length [OF os that(2)] by simp
  have rdist: "\<not> windows_any (\<lambda>a b. rp_recipient_id a = rp_recipient_id b \<and> rp_key_epoch a = rp_key_epoch b)
      (sort_key recipient_sort_key rs) \<or> err \<noteq> DuplicateRecipient"
    using no unfolding recipients_distinct strict_sort_key by blast
  have idist: "\<not> windows_any (\<lambda>a b. bi_label a = bi_label b \<and> bi_key_epoch a = bi_key_epoch b)
      (sort_key index_key is) \<or> err \<noteq> DuplicateIndex"
    using no unfolding indexes_distinct [unfolded index_sort_key] strict_sort_key by blast
  obtain w1 w2 w3 secret data_key commitment_key nonce ct es r where
    pre: "preflight c (length pt) rs is = Inr ()" and
    rd: "\<not> windows_any (\<lambda>a b. rp_recipient_id a = rp_recipient_id b \<and> rp_key_epoch a = rp_key_epoch b)
      (sort_key recipient_sort_key rs)" and
    id: "\<not> windows_any (\<lambda>a b. bi_label a = bi_label b \<and> bi_key_epoch a = bi_key_epoch b)
      (sort_key index_key is)" and
    sec: "secret_32 (env_os E) w = (Inr secret, w1)" and
    keys: "derive_object_keys secret c = Inr (data_key, commitment_key)" and
    ct: "suite_seal s data_key nonce (payload_aad s c) pt = Inr ct" and
    es: "wrap_all E secret c (sort_key recipient_sort_key rs) w2 = (Inr es, w3)" and
    r: "r = author_sign a \<lparr>sr_format_version = FORMAT_VERSION, sr_suite = s, sr_context = c,
              sr_manifest_revision = 1, sr_previous_manifest_hash = replicate 32 0,
              sr_key_commitment = commit_key commitment_key s c, sr_nonce = nonce, sr_ciphertext = ct,
              sr_recipients = es, sr_indexes = sort_key index_key is,
              sr_signer_public_key = author_public_key a, sr_signature = replicate 64 0\<rparr>" and
    own: "validate_own E r (policy_for (author_public_key a)) = Inl err"
    using s no(1) nwrap nkeys rdist idist unfolding seal_def Let_def index_sort_key
    by (auto simp: result_simps split: if_splits dest: nsec nrand npay)
  have len: "length secret = 32" by (rule secret_32_length [OF os sec])
  have "seals E c pt rs is s secret r"
    using keys ct wrap_all_Inr [OF es] len by (simp add: seals_def carries_def r)
  moreover have "length (sr_signature r) = 64" unfolding r by (rule author_sign_valid(1))
  ultimately have "limits_ok default_policy r"
    using seal_limits [OF os pre rd [unfolded recipients_distinct] id [folded index_sort_key, unfolded indexes_distinct]]
    by (simp add: r)
  then have "validate_own E r (policy_for (author_public_key a)) = Inr ()"
    unfolding validate_own_iff by (simp add: r author_sign_valid)
  with own show False by simp
qed

section \<open>Opening\<close>

lemma open_validated_with:
  assumes "recipient r (rp_recipient_id (kp_recipient kp)) (rp_key_epoch (kp_recipient kp))
      (rp_recipient_key_id (kp_recipient kp)) = Some e"
    and "unwrap_dek r e kp = Inr secret" and c: "carries r secret pt"
  shows "open_validated r kp = Inr pt"
proof -
  obtain dk ck where k: "derive_object_keys secret (sr_context r) = Inr (dk, ck)"
    "sr_key_commitment r = commit_key ck (sr_suite r) (sr_context r)"
    "suite_seal (sr_suite r) dk (sr_nonce r) (payload_aad (sr_suite r) (sr_context r)) pt = Inr (sr_ciphertext r)"
    using c by (auto simp: carries_def)
  have "suite_good (sr_suite r) dk (sr_nonce r)"
    by (rule suite_seal_good [OF k(3) derive_object_keys_lengths [OF k(1)]])
  then have "suite_open (sr_suite r) dk (sr_nonce r) (sr_payload_aad r) (sr_ciphertext r) = Inr pt"
    using k(3) by (simp add: suite_aead.unseal_iff sr_payload_aad_def)
  then show ?thesis using assms(1,2) k(1,2) by (simp add: open_validated_def)
qed

text \<open>A receiver of one of the wrapped envelopes of a valid record opens it.\<close>

lemma wrapped_opens:
  assumes os: "os_ok (env_os E)" and wf: "keypair_wf kp"
    and lim: "limits_ok p r" and e: "e \<in> set (sr_recipients r)"
    and w: "wrapped E secret (sr_context r) (kp_recipient kp) e" and c: "carries r secret pt"
  shows "open_validated r kp = Inr pt"
proof -
  have ef: "envelope_for (kp_recipient kp) e" and u: "unwrap_dek r e kp = Inr secret"
    using w wrap_dek_Inr [OF os] unwrap_wrap [OF os wf] c by (auto simp: wrapped_def carries_def)
  show ?thesis
    by (rule open_validated_with [OF _ u c]) (use ef e in \<open>simp add: recipient_iff [OF lim] envelope_for_def\<close>)
qed

lemma seals_opens:
  assumes os: "os_ok (env_os E)" and wf: "keypair_wf kp"
    and lim: "limits_ok p r" and s: "seals E c pt rs is s secret r" and kp: "kp_recipient kp \<in> set rs"
  shows "open_validated r kp = Inr pt"
proof -
  have "list_all2 (wrapped E secret c) (sort_key recipient_sort_key rs) (sr_recipients r)"
    using s by (simp add: seals_def)
  from list_all2_in_set1 [OF this] kp obtain e where
    "e \<in> set (sr_recipients r)" "wrapped E secret c (kp_recipient kp) e" by auto
  then show ?thesis using wrapped_opens [OF os wf lim] s by (auto simp: seals_def)
qed

section \<open>Granting and rekeying\<close>

lemma sort_insert_set: "set (sort_key f (xs @ [x])) = insert x (set xs)"
  by simp

lemma validate_mono_limits: "validate vf r (policy_for k) = Inr () \<Longrightarrow> limits_ok default_policy r"
  by (simp add: validate_iff structure_ok_def)

lemma open_record_valid:
  "validate verify_strict r (policy_for k) = Inr () \<Longrightarrow> open_record r kp k = open_validated r kp"
  by (simp add: open_record_def)

text \<open>Opening looks at nothing but the payload part and the envelope.\<close>

lemma open_validated_cong:
  assumes "recipient r (rp_recipient_id (kp_recipient kp)) (rp_key_epoch (kp_recipient kp)) (rp_recipient_key_id (kp_recipient kp)) =
      recipient r' (rp_recipient_id (kp_recipient kp)) (rp_key_epoch (kp_recipient kp)) (rp_recipient_key_id (kp_recipient kp))"
    and "sr_suite r' = sr_suite r" "sr_context r' = sr_context r" "sr_key_commitment r' = sr_key_commitment r"
      "sr_nonce r' = sr_nonce r" "sr_ciphertext r' = sr_ciphertext r"
  shows "open_validated r' kp = open_validated r kp"
  using assms by (simp add: open_validated_def unwrap_dek_def sr_payload_aad_def Let_def)

lemma grant_Inr:
  assumes "grant_recipient E r g a n w = (Inr r', w')"
  obtains cur secret e w0 rev where
    "validate verify_strict r (policy_for (author_public_key a)) = Inr ()"
    "\<forall>x\<in>set (sr_recipients r). recipient_key x \<noteq> recipient_sort_key n"
    "recipient r (rp_recipient_id (kp_recipient g)) (rp_key_epoch (kp_recipient g)) (rp_recipient_key_id (kp_recipient g)) = Some cur"
    "unwrap_dek r cur g = Inr secret"
    "checked_add64 (sr_manifest_revision r) 1 = Some rev"
    "wrap_dek E n secret (sr_context r) w0 = (Inr e, w')"
    "r' = author_sign a (r\<lparr>sr_previous_manifest_hash := manifest_hash r, sr_manifest_revision := rev,
       sr_recipients := sort_key recipient_key (sr_recipients r @ [e])\<rparr>)"
    "validate_own E r' (policy_for (author_public_key a)) = Inr ()"
proof -
  have k: "(\<lambda>e. (re_recipient_id e, re_key_epoch e)) = recipient_key" by (simp add: fun_eq_iff recipient_key_def)
  show thesis
    using assms that unfolding grant_recipient_def Let_def k
    by (auto simp: result_simps list_ex_iff recipient_key_def recipient_sort_key_def split: if_splits)
qed

text \<open>A signed successor record is accepted by the head of its predecessor.\<close>

lemma successor_advances:
  assumes val: "validate vf r' p = Inr ()"
    and rev: "checked_add64 (sr_manifest_revision r) 1 = Some (sr_manifest_revision r')"
    and prev: "sr_previous_manifest_hash r' = manifest_hash r"
    and who: "sr_signer_public_key r' = sr_signer_public_key r"
    and ident: "rc_tenant (sr_context r') = rc_tenant (sr_context r)" "rc_object_id (sr_context r') = rc_object_id (sr_context r)"
      "rc_field (sr_context r') = rc_field (sr_context r)"
    and le: "rc_version (sr_context r) \<le> rc_version (sr_context r')" "rc_epoch (sr_context r) \<le> rc_epoch (sr_context r')"
  shows "advance vf (from_validated r) r' p = Inr (from_validated r')"
proof -
  have "sr_manifest_revision r' = saturating_add64 (sr_manifest_revision r) 1"
    using rev by (simp add: checked_add64_Some saturating_add64_def)
  then show ?thesis
    using val prev who ident le by (simp add: advance_iff from_validated_def same_identity_def)
qed

lemma grant_effect:
  assumes os: "os_ok (env_os E)"
    and g: "grant_recipient E r gr a n w = (Inr r', w')"
  shows "advance verify_strict (from_validated r) r' (policy_for (author_public_key a)) = Inr (from_validated r')"
    and "\<And>kp. recipient_sort_key (kp_recipient kp) \<noteq> recipient_sort_key n \<Longrightarrow>
      open_record r' kp (author_public_key a) = open_record r kp (author_public_key a)"
    and "\<And>kp. kp_recipient kp = n \<Longrightarrow> keypair_wf kp \<Longrightarrow>
      open_record r' kp (author_public_key a) = open_record r gr (author_public_key a)"
    and "\<exists>e. set (sr_recipients r') = insert e (set (sr_recipients r)) \<and> envelope_for n e"
proof -
  let ?pk = "author_public_key a" and ?vf = "verify_strict"
  from g obtain cur secret e w0 rev where
    val: "validate ?vf r (policy_for ?pk) = Inr ()" and
    fresh: "\<forall>x\<in>set (sr_recipients r). recipient_key x \<noteq> recipient_sort_key n" and
    cur: "recipient r (rp_recipient_id (kp_recipient gr)) (rp_key_epoch (kp_recipient gr)) (rp_recipient_key_id (kp_recipient gr)) = Some cur" and
    unw: "unwrap_dek r cur gr = Inr secret" and
    rev: "checked_add64 (sr_manifest_revision r) 1 = Some rev" and
    wr: "wrap_dek E n secret (sr_context r) w0 = (Inr e, w')" and
    r': "r' = author_sign a (r\<lparr>sr_previous_manifest_hash := manifest_hash r, sr_manifest_revision := rev,
       sr_recipients := sort_key recipient_key (sr_recipients r @ [e])\<rparr>)" and
    own: "validate_own E r' (policy_for ?pk) = Inr ()"
    by (rule grant_Inr)
  have val': "validate ?vf r' (policy_for ?pk) = Inr ()"
    using own unfolding r' by (simp only: validate_own_signed)
  note lim = validate_mono_limits [OF val] and lim' = validate_mono_limits [OF val']
  have signer: "sr_signer_public_key r = ?pk" using val by (simp add: validate_iff)
  have keep: "sr_suite r' = sr_suite r" "sr_context r' = sr_context r" "sr_key_commitment r' = sr_key_commitment r"
    "sr_nonce r' = sr_nonce r" "sr_ciphertext r' = sr_ciphertext r"
    by (simp_all add: r')
  have rs: "set (sr_recipients r') = insert e (set (sr_recipients r))" by (simp add: r')
  have efor: "envelope_for n e" using wrap_dek_Inr [OF os wr] by blast
  then have ekey: "recipient_key e = recipient_sort_key n"
    by (simp add: recipient_key_def recipient_sort_key_def envelope_for_def)
  show "advance ?vf (from_validated r) r' (policy_for ?pk) = Inr (from_validated r')"
    by (rule successor_advances [OF val']) (use rev signer in \<open>simp_all add: r'\<close>)
  show "\<exists>e. set (sr_recipients r') = insert e (set (sr_recipients r)) \<and> envelope_for n e"
    using rs efor by blast
  show "open_record r' kp ?pk = open_record r kp ?pk" if "recipient_sort_key (kp_recipient kp) \<noteq> recipient_sort_key n" for kp
  proof -
    have "recipient r' i k h = Some x \<longleftrightarrow> recipient r i k h = Some x" if "(i, k) \<noteq> recipient_sort_key n" for i k h x
      unfolding recipient_iff [OF lim] recipient_iff [OF lim'] rs
      using that ekey by (auto simp: recipient_key_def)
    then have "recipient r' i k h = recipient r i k h" if "(i, k) \<noteq> recipient_sort_key n" for i k h
      using that by (metis not_Some_eq)
    then show ?thesis
      using that open_validated_cong [OF _ keep, of kp]
      by (simp add: open_record_valid [OF val] open_record_valid [OF val'] recipient_sort_key_def)
  qed
  show "open_record r' kp ?pk = open_record r gr ?pk"
    if kp: "kp_recipient kp = n" "keypair_wf kp" for kp
  proof -
    have len: "length secret = 32" using unw by (auto simp: unwrap_dek_def result_simps DEK_LEN_def Let_def)
    have "recipient r' (rp_recipient_id n) (rp_key_epoch n) (rp_recipient_key_id n) = Some e"
      using efor rs by (simp add: recipient_iff [OF lim'] envelope_for_def)
    moreover have "unwrap_dek r' e kp = Inr secret"
      by (rule unwrap_wrap [OF os kp(2) _ len]) (use wr kp(1) keep in simp)
    ultimately have "open_validated r' kp = open_validated r gr"
      using cur unw keep kp(1) by (simp add: open_validated_def sr_payload_aad_def)
    then show ?thesis by (simp add: open_record_valid [OF val] open_record_valid [OF val'])
  qed
qed

lemma rekey_Inr:
  assumes "rekey E r op a nc rem ixs w = (Inr r', w')"
  obtains pt n rev where
    "rc_tenant nc = rc_tenant (sr_context r)" "rc_object_id nc = rc_object_id (sr_context r)"
    "rc_field nc = rc_field (sr_context r)" "rc_epoch (sr_context r) < rc_epoch nc" "rc_version (sr_context r) < rc_version nc"
    "open_record r op (author_public_key a) = Inr pt"
    "seal E a (nc\<lparr>rc_schema_version := max (rc_schema_version nc) (rc_schema_version (sr_context r))\<rparr>) pt rem ixs (sr_suite r) w = (Inr n, w')"
    "checked_add64 (sr_manifest_revision r) 1 = Some rev"
    "r' = author_sign a (n\<lparr>sr_previous_manifest_hash := manifest_hash r, sr_manifest_revision := rev\<rparr>)"
    "validate_own E r' (policy_for (author_public_key a)) = Inr ()"
  using assms that unfolding rekey_def Let_def
  by (auto simp: result_simps not_le split: if_splits)

lemma rekey_effect:
  assumes os: "os_ok (env_os E)"
    and rk: "rekey E r op a nc rem ixs w = (Inr r', w')"
  shows "advance verify_strict (from_validated r) r' (policy_for (author_public_key a)) = Inr (from_validated r')"
    and "rc_epoch (sr_context r) < rc_epoch (sr_context r')"
    and "\<And>kp. kp_recipient kp \<in> set rem \<Longrightarrow> keypair_wf kp \<Longrightarrow>
      open_record r' kp (author_public_key a) = open_record r op (author_public_key a)"
    and "\<And>kp. recipient_sort_key (kp_recipient kp) \<notin> recipient_sort_key ` set rem \<Longrightarrow>
      open_record r' kp (author_public_key a) = Inl NoEnvelopeForRecipient"
proof -
  let ?pk = "author_public_key a" and ?vf = "verify_strict"
  let ?c = "nc\<lparr>rc_schema_version := max (rc_schema_version nc) (rc_schema_version (sr_context r))\<rparr>"
  from rk obtain pt n rev where
    cx: "rc_tenant nc = rc_tenant (sr_context r)" "rc_object_id nc = rc_object_id (sr_context r)"
      "rc_field nc = rc_field (sr_context r)" "rc_epoch (sr_context r) < rc_epoch nc" "rc_version (sr_context r) < rc_version nc" and
    op: "open_record r op ?pk = Inr pt" and
    sl: "seal E a ?c pt rem ixs (sr_suite r) w = (Inr n, w')" and
    rev: "checked_add64 (sr_manifest_revision r) 1 = Some rev" and
    r': "r' = author_sign a (n\<lparr>sr_previous_manifest_hash := manifest_hash r, sr_manifest_revision := rev\<rparr>)" and
    own: "validate_own E r' (policy_for ?pk) = Inr ()"
    by (rule rekey_Inr)
  from op have val: "validate ?vf r (policy_for ?pk) = Inr ()"
    by (auto simp: open_record_def result_simps)
  have signer: "sr_signer_public_key r = ?pk" using val by (simp add: validate_iff)
  have val': "validate ?vf r' (policy_for ?pk) = Inr ()"
    using own unfolding r' by (simp only: validate_own_signed)
  note lim' = validate_mono_limits [OF val']
  obtain secret where "seals E ?c pt rem ixs (sr_suite r) secret n" using seal_Inr [OF os sl] by metis
  then have s: "seals E ?c pt rem ixs (sr_suite r) secret r'"
    unfolding r' seals_def carries_def by (auto simp del: ex_simps)
  then have cr: "sr_context r' = ?c" by (simp add: seals_def)
  show "advance ?vf (from_validated r) r' (policy_for ?pk) = Inr (from_validated r')"
    by (rule successor_advances [OF val']) (use rev signer cx cr in \<open>simp_all add: r'\<close>)
  show "rc_epoch (sr_context r) < rc_epoch (sr_context r')" using cx by (simp add: cr)
  show "open_record r' kp ?pk = open_record r op ?pk"
    if "kp_recipient kp \<in> set rem" "keypair_wf kp" for kp
    using seals_opens [OF os that(2) lim' s that(1)] by (simp add: open_record_valid [OF val'] op)
  show "open_record r' kp ?pk = Inl NoEnvelopeForRecipient"
    if "recipient_sort_key (kp_recipient kp) \<notin> recipient_sort_key ` set rem" for kp
  proof -
    have "recipient_key ` set (sr_recipients r') = recipient_sort_key ` set rem"
      using wrapped_keys [OF os] s unfolding seals_def by (metis set_map set_sort)
    then have "recipient r' (rp_recipient_id (kp_recipient kp)) (rp_key_epoch (kp_recipient kp)) h \<noteq> Some e" for h e
      using that unfolding recipient_iff [OF lim']
      by (metis imageI recipient_key_def recipient_sort_key_def)
    then have "recipient r' (rp_recipient_id (kp_recipient kp)) (rp_key_epoch (kp_recipient kp)) h = None" for h
      by (metis not_Some_eq)
    then show ?thesis by (simp add: open_record_valid [OF val'] open_validated_def)
  qed
qed

section \<open>Why granting and rekeying may fail\<close>

lemma successor_limits:
  assumes "limits_ok p r" "h \<noteq> replicate 32 0" "m \<noteq> 0" "m \<noteq> 1"
    "sr_recipients r' = sr_recipients r" "sr_format_version r' = sr_format_version r"
    "sr_context r' = sr_context r" "sr_suite r' = sr_suite r" "sr_nonce r' = sr_nonce r"
    "sr_ciphertext r' = sr_ciphertext r" "sr_indexes r' = sr_indexes r"
    "sr_previous_manifest_hash r' = h" "sr_manifest_revision r' = m"
  shows "limits_ok p (author_sign a r')"
  using assms by (simp add: limits_ok_def author_sign_valid)

lemma checked_successor:
  assumes "checked_add64 n 1 = Some m" "n \<noteq> 0"
  shows "m \<noteq> 0" "m \<noteq> 1"
proof -
  have m: "m = n + 1" "unat n + 1 < 2 ^ 64" using assms(1) by (simp_all add: checked_add64_Some)
  then have "unat m = unat n + 1" by (simp add: unat_word_ariths)
  then show "m \<noteq> 0" "m \<noteq> 1" using assms(2) by (auto simp: unat_eq_zero)
qed

lemma validate_own_limits:
  shows "validate_own E (author_sign a r) (policy_for (author_public_key a)) = Inl err \<Longrightarrow>
    \<not> limits_ok default_policy (author_sign a r) \<and> (\<exists>x. err = Wire x)"
proof -
  assume v: "validate_own E (author_sign a r) (policy_for (author_public_key a)) = Inl err"
  then have "\<exists>x. err = Wire x" by (auto simp: validate_own_def result_simps split: if_splits)
  moreover have "validate_own E (author_sign a r) (policy_for (author_public_key a)) \<noteq> Inr ()" using v by simp
  ultimately show ?thesis by (simp add: validate_own_iff author_sign_valid)
qed

text \<open>
  Granting fails when the granter cannot open the record, for a repeated recipient, at the last
  revision, without entropy or for an unusable key, and when the grown record breaks a limit.
\<close>

definition grant_reason ::
  "'w client_env \<Rightarrow> sealed_record \<Rightarrow> recipient_keypair \<Rightarrow> author \<Rightarrow> recipient_info \<Rightarrow> client_error \<Rightarrow> bool" where
  "grant_reason E r g a n err \<longleftrightarrow>
     open_record r g (author_public_key a) = Inl err \<or>
     err = DuplicateRecipient \<and> (\<exists>e\<in>set (sr_recipients r). recipient_key e = recipient_sort_key n) \<or>
     err = ManifestRevisionOverflow \<and> checked_add64 (sr_manifest_revision r) 1 = None \<or>
     err = HpkeSeal \<and> (os_failed (env_os E) \<or> unusable_key (rp_public_key n)) \<or>
     (\<exists>x. err = Wire x) \<and> (length (sr_recipients r) = max_recipients default_policy \<or>
       \<not> label_ok default_policy (rp_recipient_id n) \<or> rp_key_epoch n = 0 \<or> manifest_hash r = replicate 32 0)"

lemma grant_error:
  assumes os: "os_ok (env_os E)"
    and g: "grant_recipient E r gr a n w = (Inl err, w')"
  shows "grant_reason E r gr a n err"
proof (rule ccontr)
  assume no: "\<not> ?thesis"
  let ?pk = "author_public_key a" and ?vf = "verify_strict"
  note no = no [unfolded grant_reason_def de_Morgan_disj]
  have k: "(\<lambda>e. (re_recipient_id e, re_key_epoch e)) = recipient_key" by (simp add: fun_eq_iff recipient_key_def)
  have op: "open_record r gr ?pk \<noteq> Inl err" using no by blast
  have nw: "wrap_dek E n x y v \<noteq> (Inl err, v')" for x y v v' using no wrap_dek_error [OF os] by blast
  have fresh: "list_ex (\<lambda>x. re_recipient_id x = rp_recipient_id n \<and> re_key_epoch x = rp_key_epoch n) (sr_recipients r)
      \<Longrightarrow> err \<noteq> DuplicateRecipient"
    using no by (auto simp: list_ex_iff recipient_key_def recipient_sort_key_def)
  from g op nw obtain cur secret rev e w0 w1 r' where
    val: "validate ?vf r (policy_for ?pk) = Inr ()" and
    nodup: "\<forall>x\<in>set (sr_recipients r). recipient_key x \<noteq> recipient_sort_key n" and
    cur: "recipient r (rp_recipient_id (kp_recipient gr)) (rp_key_epoch (kp_recipient gr)) (rp_recipient_key_id (kp_recipient gr)) = Some cur" and
    unw: "unwrap_dek r cur gr = Inr secret" and
    rev: "checked_add64 (sr_manifest_revision r) 1 = Some rev" and
    wr: "wrap_dek E n secret (sr_context r) w0 = (Inr e, w1)" and
    r': "r' = r\<lparr>sr_previous_manifest_hash := manifest_hash r, sr_manifest_revision := rev,
       sr_recipients := sort_key recipient_key (sr_recipients r @ [e])\<rparr>" and
    own: "validate_own E (author_sign a r') (policy_for ?pk) = Inl err"
    using no fresh unfolding grant_recipient_def Let_def k open_record_def open_validated_def
    by (auto simp: result_simps list_ex_iff recipient_key_def recipient_sort_key_def split: if_splits)
  note lim = validate_mono_limits [OF val, unfolded limits_ok_def]
  have len: "length secret = 32" using unw by (auto simp: unwrap_dek_def result_simps DEK_LEN_def Let_def)
  note e = wrap_dek_Inr [OF os wr]
  then have ekey: "recipient_key e = recipient_sort_key n"
    by (simp add: recipient_key_def recipient_sort_key_def envelope_for_def)
  have bad: "length (sr_recipients r) \<noteq> max_recipients default_policy \<and> label_ok default_policy (rp_recipient_id n) \<and>
      rp_key_epoch n \<noteq> 0 \<and> manifest_hash r \<noteq> replicate 32 0"
    using no validate_own_limits [OF own] by blast
  have "sorted_wrt (<) (map recipient_key (sort_key recipient_key (sr_recipients r @ [e])))"
    using lim nodup unfolding strict_sort_key ekey
    by (auto simp: strict_sorted_iff ekey)
  moreover have "sort_key recipient_key (sr_recipients r @ [e]) \<noteq> []"
    by (metis append_is_Nil_conv length_0_conv length_sort not_Cons_self2)
  moreover have "length (sr_recipients r) + 1 \<le> max_recipients default_policy" using lim bad by simp
  moreover have "rev \<noteq> 0" "rev \<noteq> 1" using checked_successor [OF rev] lim by blast+
  ultimately have "limits_ok default_policy (author_sign a r')"
    using lim bad e len unfolding limits_ok_def r'
    by (auto simp: envelope_for_def wire_consts author_sign_valid)
  with validate_own_limits [OF own] show False by blast
qed

text \<open>Rekeying fails for the context, or as opening or sealing does, or at the last revision.\<close>

definition rekey_fits :: "sealed_record \<Rightarrow> record_context \<Rightarrow> bool" where
  "rekey_fits r nc \<longleftrightarrow> rc_tenant nc = rc_tenant (sr_context r) \<and> rc_object_id nc = rc_object_id (sr_context r) \<and>
     rc_field nc = rc_field (sr_context r) \<and> rc_epoch (sr_context r) < rc_epoch nc \<and>
     rc_version (sr_context r) < rc_version nc"

definition rekey_reason ::
  "'w client_env \<Rightarrow> sealed_record \<Rightarrow> recipient_keypair \<Rightarrow> author \<Rightarrow> record_context \<Rightarrow> recipient_info list \<Rightarrow>
   blind_index list \<Rightarrow> client_error \<Rightarrow> bool" where
  "rekey_reason E r op a nc rem ixs err \<longleftrightarrow>
     (if rekey_fits r nc then
        open_record r op (author_public_key a) = Inl err \<or>
        (\<exists>pt. open_record r op (author_public_key a) = Inr pt \<and>
          seal_reason E (nc\<lparr>rc_schema_version := max (rc_schema_version nc) (rc_schema_version (sr_context r))\<rparr>)
            pt rem ixs (sr_suite r) err) \<or>
        err = ManifestRevisionOverflow \<and> checked_add64 (sr_manifest_revision r) 1 = None \<or>
        (\<exists>x. err = Wire x) \<and> manifest_hash r = replicate 32 0
      else err = InvalidRekeyContext)"

lemma rekey_error:
  assumes os: "os_ok (env_os E)"
    and rk: "rekey E r op a nc rem ixs w = (Inl err, w')"
  shows "rekey_reason E r op a nc rem ixs err"
proof (cases "rekey_fits r nc")
  case False
  then show ?thesis using rk
    by (auto simp: rekey_def rekey_fits_def rekey_reason_def not_le result_simps split: if_splits)
next
  case True
  let ?pk = "author_public_key a"
  let ?c = "nc\<lparr>rc_schema_version := max (rc_schema_version nc) (rc_schema_version (sr_context r))\<rparr>"
  show ?thesis
  proof (rule ccontr)
    assume no: "\<not> ?thesis"
    note no = no [unfolded rekey_reason_def if_P [OF True] de_Morgan_disj]
    have ns: "open_record r op ?pk = Inr pt \<Longrightarrow> seal E a ?c pt rem ixs (sr_suite r) v \<noteq> (Inl err, v')" for pt v v'
      using no seal_error [OF os] by blast
    from rk no ns obtain pt n w1 rev where
      op: "open_record r op ?pk = Inr pt" and
      sl: "seal E a ?c pt rem ixs (sr_suite r) w = (Inr n, w1)" and
      rev: "checked_add64 (sr_manifest_revision r) 1 = Some rev" and
      own: "validate_own E (author_sign a (n\<lparr>sr_previous_manifest_hash := manifest_hash r,
        sr_manifest_revision := rev\<rparr>)) (policy_for ?pk) = Inl err"
      using True unfolding rekey_def rekey_fits_def Let_def
      by (auto simp: result_simps not_le split: if_splits)
    have val: "validate verify_strict r (policy_for ?pk) = Inr ()"
      using op by (auto simp: open_record_def result_simps)
    have rev1: "rev \<noteq> 0" "rev \<noteq> 1"
      using checked_successor [OF rev] validate_mono_limits [OF val] by (auto simp: limits_ok_def)
    from seal_Inr [OF os sl] obtain r0 where "n = author_sign a r0"
      "validate_own E n (policy_for ?pk) = Inr ()" by metis
    then have lim: "limits_ok default_policy n" by (simp add: validate_own_iff)
    have "manifest_hash r \<noteq> replicate 32 0" using no validate_own_limits [OF own] by blast
    from successor_limits [OF lim this rev1] have
      "limits_ok default_policy (author_sign a (n\<lparr>sr_previous_manifest_hash := manifest_hash r,
        sr_manifest_revision := rev\<rparr>))" by simp
    with validate_own_limits [OF own] show False by blast
  qed
qed

section \<open>Properties\<close>

text \<open>The sealing environments of the witnesses: entropy that is always the same.\<close>

definition fixed_os :: "unit os" where
  "fixed_os = \<lparr>os_getentropy = (\<lambda>n w. (Some (replicate n 7), w)), os_urandom = (\<lambda>n w. (None, w))\<rparr>"

definition sample_env :: "unit client_env" where
  "sample_env = \<lparr>env_os = fixed_os, env_fault_resistant = True\<rparr>"

definition sample_author :: author where
  "sample_author = author_from_secret_bytes (replicate 32 3)"

definition sample_keypair :: recipient_keypair where
  "sample_keypair = keypair_assemble [97] 1 (static_from_bytes (replicate 32 7))"

lemma sample_env_ok: "os_ok (env_os sample_env)"
  by (auto simp: sample_env_def fixed_os_def os_ok_def)

lemma sample_keypair_ok: "keypair_wf sample_keypair"
  unfolding sample_keypair_def by (rule keypair_assemble_wf) (simp_all add: static_from_bytes_wf)

text \<open>
  C5. What a client seals, every server and every named recipient accepts: a sealed record carries
  the requested context and suite, validates against the author's key, and opens to the plaintext
  for each recipient it was sealed for; and
  when sealing fails, it fails for its inputs, the entropy source, an unavailable suite or an
  unusable recipient key, never because its own record does not validate.
\<close>

theorem seal_correct:
  assumes "os_ok (env_os E)"
    and "\<forall>kp\<in>kps. keypair_wf kp \<and> kp_recipient kp \<in> set rs"
  shows "(case seal E a c pt rs is s w of
      (Inr r, _) \<Rightarrow> sr_context r = c \<and> sr_suite r = s \<and> sr_manifest_revision r = 1 \<and>
        validate verify_strict r (policy_for (author_public_key a)) = Inr () \<and>
        (\<forall>kp\<in>kps. open_record r kp (author_public_key a) = Inr pt)
    | (Inl err, _) \<Rightarrow> seal_reason E c pt rs is s err)"
proof -
  obtain res w' where res: "seal E a c pt rs is s w = (res, w')" by (cases "seal E a c pt rs is s w")
  show ?thesis
  proof (cases res)
    case (Inl err)
    show ?thesis using seal_error [OF assms(1)] res unfolding Inl prod.case sum.case by simp
  next
    case (Inr r)
    from seal_Inr [OF assms(1) res [unfolded Inr]] obtain secret r0 where
      s: "seals E c pt rs is s secret r" and r: "r = author_sign a r0"
      and own: "validate_own E r (policy_for (author_public_key a)) = Inr ()"
      and rev: "sr_manifest_revision r = 1" by metis
    have val: "validate verify_strict r (policy_for (author_public_key a)) = Inr ()"
      using own unfolding r by (simp only: validate_own_signed)
    have "open_record r kp (author_public_key a) = Inr pt" if "kp \<in> kps" for kp
      using seals_opens [OF assms(1) _ validate_mono_limits [OF val] s, of kp] assms(2) that
      by (simp add: open_record_valid [OF val])
    with s rev val show ?thesis by (simp add: res Inr seals_def)
  qed
qed

theorem seal_correct_witness:
  "(case seal sample_env sample_author (sr_context sample_record) [1, 2, 3] [kp_recipient sample_keypair] []
      XChaCha20Poly1305 () of
      (Inr r, _) \<Rightarrow> sr_context r = sr_context sample_record \<and> sr_suite r = XChaCha20Poly1305 \<and> sr_manifest_revision r = 1 \<and>
        validate verify_strict r (policy_for (author_public_key sample_author)) = Inr () \<and>
        (\<forall>kp\<in>{sample_keypair}. open_record r kp (author_public_key sample_author) = Inr [1, 2, 3])
    | (Inl err, _) \<Rightarrow> seal_reason sample_env (sr_context sample_record) [1, 2, 3]
        [kp_recipient sample_keypair] [] XChaCha20Poly1305 err)"
  by (rule seal_correct [OF sample_env_ok]) (simp add: sample_keypair_ok)

text \<open>
  C6. Granting access is one link of the signed chain and touches nobody else: the head of the old
  record accepts the new one, exactly one envelope is added, it is the new recipient's, everyone
  with another (id, epoch) opens the new record as before, and the new recipient reads what the
  granting recipient reads.
\<close>

theorem grant_correct:
  assumes "os_ok (env_os E)" and "kp_recipient nkp = n" and "keypair_wf nkp"
    and "recipient_sort_key (kp_recipient other) \<noteq> recipient_sort_key n"
  shows "(case grant_recipient E r g a n w of
      (Inr r', _) \<Rightarrow>
        advance verify_strict (from_validated r) r' (policy_for (author_public_key a)) =
          Inr (from_validated r') \<and>
        (\<exists>e. set (sr_recipients r') = insert e (set (sr_recipients r)) \<and> envelope_for n e) \<and>
        open_record r' other (author_public_key a) = open_record r other (author_public_key a) \<and>
        open_record r' nkp (author_public_key a) = open_record r g (author_public_key a)
    | (Inl err, _) \<Rightarrow> grant_reason E r g a n err)"
proof -
  obtain res w' where res: "grant_recipient E r g a n w = (res, w')" by (cases "grant_recipient E r g a n w")
  show ?thesis
  proof (cases res)
    case (Inr r')
    note e = grant_effect [OF assms(1) res [unfolded Inr]]
    show ?thesis using e(1) e(2) [OF assms(4)] e(3) [OF assms(2,3)] e(4) by (simp add: res Inr)
  next
    case (Inl err)
    show ?thesis using grant_error [OF assms(1) res [unfolded Inl]] by (simp add: res Inl)
  qed
qed

theorem grant_correct_witness:
  "(case grant_recipient sample_env sample_record sample_keypair sample_author
        (kp_recipient sample_keypair\<lparr>rp_key_epoch := 1\<rparr>) () of
      (Inr r', _) \<Rightarrow>
        advance verify_strict (from_validated sample_record) r'
          (policy_for (author_public_key sample_author)) = Inr (from_validated r') \<and>
        (\<exists>e. set (sr_recipients r') = insert e (set (sr_recipients sample_record)) \<and>
          envelope_for (kp_recipient sample_keypair\<lparr>rp_key_epoch := 1\<rparr>) e) \<and>
        open_record r' (keypair_assemble [98] 1 (static_from_bytes (replicate 32 8)))
            (author_public_key sample_author) =
          open_record sample_record (keypair_assemble [98] 1 (static_from_bytes (replicate 32 8)))
            (author_public_key sample_author) \<and>
        open_record r' sample_keypair (author_public_key sample_author) =
          open_record sample_record sample_keypair (author_public_key sample_author)
    | (Inl err, _) \<Rightarrow> grant_reason sample_env sample_record sample_keypair sample_author
        (kp_recipient sample_keypair\<lparr>rp_key_epoch := 1\<rparr>) err)"
proof (rule grant_correct [OF sample_env_ok _ sample_keypair_ok])
  show "kp_recipient sample_keypair = kp_recipient sample_keypair\<lparr>rp_key_epoch := 1\<rparr>"
    by (simp add: sample_keypair_def keypair_assemble_def Let_def)
  show "recipient_sort_key (kp_recipient (keypair_assemble [98] 1 (static_from_bytes (replicate 32 8)))) \<noteq>
      recipient_sort_key (kp_recipient sample_keypair\<lparr>rp_key_epoch := 1\<rparr>)"
    by (simp add: sample_keypair_def keypair_assemble_def recipient_sort_key_def Let_def)
qed

text \<open>
  C7. Rekeying revokes going forward: the head of the old record accepts the new one, the access
  epoch strictly grows, every remaining recipient reads the same plaintext as the opener did, and
  whoever is not among the remaining (id, epoch) pairs finds no envelope.
\<close>

theorem rekey_correct:
  assumes "os_ok (env_os E)" and "kp_recipient stay \<in> set rem" and "keypair_wf stay"
    and "recipient_sort_key (kp_recipient gone) \<notin> recipient_sort_key ` set rem"
  shows "(case rekey E r opener a nc rem ixs w of
      (Inr r', _) \<Rightarrow>
        advance verify_strict (from_validated r) r' (policy_for (author_public_key a)) =
          Inr (from_validated r') \<and>
        rc_epoch (sr_context r) < rc_epoch (sr_context r') \<and>
        open_record r' stay (author_public_key a) = open_record r opener (author_public_key a) \<and>
        open_record r' gone (author_public_key a) = Inl NoEnvelopeForRecipient
    | (Inl err, _) \<Rightarrow> rekey_reason E r opener a nc rem ixs err)"
proof -
  obtain res w' where res: "rekey E r opener a nc rem ixs w = (res, w')" by (cases "rekey E r opener a nc rem ixs w")
  show ?thesis
  proof (cases res)
    case (Inr r')
    note e = rekey_effect [OF assms(1) res [unfolded Inr]]
    show ?thesis using e(1,2) e(3) [OF assms(2,3)] e(4) [OF assms(4)] by (simp add: res Inr)
  next
    case (Inl err)
    show ?thesis using rekey_error [OF assms(1) res [unfolded Inl]] by (simp add: res Inl)
  qed
qed

theorem rekey_correct_witness:
  "(case rekey sample_env sample_record sample_keypair sample_author
        ((sr_context sample_record)\<lparr>rc_epoch := 5, rc_version := 5\<rparr>) [kp_recipient sample_keypair] [] () of
      (Inr r', _) \<Rightarrow>
        advance verify_strict (from_validated sample_record) r'
          (policy_for (author_public_key sample_author)) = Inr (from_validated r') \<and>
        rc_epoch (sr_context sample_record) < rc_epoch (sr_context r') \<and>
        open_record r' sample_keypair (author_public_key sample_author) =
          open_record sample_record sample_keypair (author_public_key sample_author) \<and>
        open_record r' (keypair_assemble [98] 1 (static_from_bytes (replicate 32 8)))
          (author_public_key sample_author) = Inl NoEnvelopeForRecipient
    | (Inl err, _) \<Rightarrow> rekey_reason sample_env sample_record sample_keypair sample_author
        ((sr_context sample_record)\<lparr>rc_epoch := 5, rc_version := 5\<rparr>) [kp_recipient sample_keypair] [] err)"
  by (rule rekey_correct [OF sample_env_ok _ sample_keypair_ok])
     (simp_all add: sample_keypair_def keypair_assemble_def recipient_sort_key_def Let_def)

text \<open>
  The pinned paths are the plain ones: for a signer prepared from a key, \<open>open_pinned\<close> and
  \<open>open_at_head_pinned\<close> return what \<open>open\<close> and \<open>open_at_head\<close> return for that key, errors included.
\<close>

theorem pinned_open_equiv:
  assumes "pinned_signer_new pk = Inr p" and "length pk = 32"
  shows "open_pinned r kp p = open_record r kp pk \<and> open_at_head_pinned r kp p h = open_at_head r kp pk h"
proof -
  obtain v where v: "prepare_verifier pk = Inr v" "ps_verifier p = v"
    using assms(1) by (auto simp: pinned_signer_new_def result_simps)
  note pv = prepare_verifier_is [OF assms(2) v(1)]
  have "validate_pinned verify_strict r (ps_verifier p) default_policy = validate verify_strict r (policy_for pk)"
    unfolding policy_for_def v(2) pv(1) [symmetric]
    by (rule validate_pinned_same) (simp add: pv)
  then show ?thesis
    by (simp add: open_pinned_def open_record_def open_at_head_pinned_def open_at_head_def
        verify_current_def verify_current_pinned_def)
qed

theorem pinned_open_equiv_witness:
  "\<exists>p. pinned_signer_new (author_public_key sample_author) = Inr p \<and>
    open_pinned sample_record sample_keypair p = open_record sample_record sample_keypair (author_public_key sample_author)"
proof -
  have "\<exists>v. prepared_new (author_public_key sample_author) = Inr v"
    using prepared_new_cases(3) [OF signing_key_parts(3) [unfolded smul_smul [symmetric]]]
    by (auto simp: author_public_key_def sk_verifying_key_def signing_key_parts(2))
  then obtain p where p: "pinned_signer_new (author_public_key sample_author) = Inr p"
    by (auto simp: pinned_signer_new_def prepare_verifier_def result_simps)
  have "length (author_public_key sample_author) = 32" by (simp add: author_public_key_def sk_verifying_key_def)
  with pinned_open_equiv [OF p] p show ?thesis by blast
qed

end
