(* ===== verification/CoreIndex.thy ===== *)
theory CoreIndex
  imports CoreDerive
begin

text \<open>
  Blind-index search keys and definitions (crates/blindplane-core/src/indexes.rs): the equality
  token of a value is a truncated MAC over an unambiguous encoding of its scope and the value.
\<close>

record exact_index_definition =
  xd_label :: str
  xd_schema_version :: u32
  xd_key_epoch :: u64

datatype search_key = SearchKey bytes

definition raw_bytes :: "str \<Rightarrow> u32 \<Rightarrow> u64 \<Rightarrow> client_error + exact_index_definition" where
  "raw_bytes label schema_version key_epoch =
    (let mx = max_identifier_bytes default_policy in
     if label = [] \<or> mx < length label \<or> schema_version = 0 \<or> key_epoch = 0
     then Inl InvalidIndexScope
     else Inr \<lparr>xd_label = label, xd_schema_version = schema_version, xd_key_epoch = key_epoch\<rparr>)"

definition search_key_generate :: "'w client_env \<Rightarrow> ('w, client_error, search_key) eff" where
  "search_key_generate E =
    emap_err (\<lambda>_. Randomness) (ebind (secret_32 (env_os E)) (\<lambda>s. pure_eff (Inr (SearchKey s))))"

fun search_key_to_bytes :: "search_key \<Rightarrow> bytes" where
  "search_key_to_bytes (SearchKey bs) = bs"

definition exact_token_raw ::
  "search_key \<Rightarrow> str \<Rightarrow> exact_index_definition \<Rightarrow> bytes \<Rightarrow> client_error + blind_index" where
  "exact_token_raw key tenant d value =
    rbind (reject (tenant = [] \<or> max_identifier_bytes default_policy < length tenant) InvalidIndexScope) (\<lambda>_.
    let mac = hmac256_new (search_key_to_bytes key);
        mac = hmac256_update mac INDEX_DOMAIN;
        mac = mac_bytes mac tenant;
        mac = mac_bytes mac (xd_label d);
        mac = hmac256_update mac (u32_to_be (xd_schema_version d));
        mac = mac_bytes mac (ascii ''raw_bytes'');
        mac = hmac256_update mac (u16_to_be 1);
        mac = hmac256_update mac (u64_to_be (xd_key_epoch d));
        mac = mac_bytes mac value;
        digest = hmac256_finalize mac;
        token = take 16 digest
    in Inr \<lparr>bi_label = xd_label d, bi_schema_version = xd_schema_version d,
         bi_canonicalizer_id = ascii ''raw_bytes'', bi_canonicalizer_version = 1,
         bi_key_epoch = xd_key_epoch d, bi_token = token\<rparr>)"

text \<open>What is fed to the MAC.\<close>

definition token_input :: "str \<Rightarrow> exact_index_definition \<Rightarrow> bytes \<Rightarrow> bytes" where
  "token_input tenant d value =
    INDEX_DOMAIN @ lp tenant @ lp (xd_label d) @ u32_to_be (xd_schema_version d) @
    lp (ascii ''raw_bytes'') @ u16_to_be 1 @ u64_to_be (xd_key_epoch d) @ lp value"

definition token_mac :: "search_key \<Rightarrow> bytes \<Rightarrow> bytes" where
  "token_mac key m = take 16 (hmac_spec sha256_spec 64 (search_key_to_bytes key) m)"

lemma mac_bytes_holds: "hmac256_holds k h m \<Longrightarrow> hmac256_holds k (mac_bytes h bs) (m @ lp bs)"
  using hmac256_holds_update [OF hmac256_holds_update [of k h m "u64_to_be (of_nat (length bs))"], of bs]
  by (simp add: mac_bytes_def lp_def Let_def)

lemma exact_token_raw_eq:
  "exact_token_raw key tenant d value =
    (if label_ok default_policy tenant then
       Inr \<lparr>bi_label = xd_label d, bi_schema_version = xd_schema_version d,
         bi_canonicalizer_id = ascii ''raw_bytes'', bi_canonicalizer_version = 1, bi_key_epoch = xd_key_epoch d,
         bi_token = take 16 (hmac_spec sha256_spec 64 (search_key_to_bytes key) (token_input tenant d value))\<rparr>
     else Inl InvalidIndexScope)"
proof -
  let ?k = "search_key_to_bytes key"
  have "hmac256_holds ?k
      (mac_bytes (hmac256_update (hmac256_update (mac_bytes (hmac256_update (mac_bytes (mac_bytes (hmac256_update
        (hmac256_new ?k) INDEX_DOMAIN) tenant) (xd_label d)) (u32_to_be (xd_schema_version d)))
        (ascii ''raw_bytes'')) (u16_to_be 1)) (u64_to_be (xd_key_epoch d))) value)
      ((((((((([] @ INDEX_DOMAIN) @ lp tenant) @ lp (xd_label d)) @ u32_to_be (xd_schema_version d)) @
        lp (ascii ''raw_bytes'')) @ u16_to_be 1) @ u64_to_be (xd_key_epoch d)) @ lp value))"
    by (intro mac_bytes_holds hmac256_holds_update hmac256_holds_new)
  note fin = hmac256_finalize_spec [OF this]
  show ?thesis
    unfolding exact_token_raw_def Let_def fin
    by (simp add: token_input_def label_ok_def reject_def del: ascii_Cons)
qed

lemma token_input_inject:
  assumes eq: "token_input t d v = token_input t' d' v'"
    and len: "length t \<le> usize_max" "length t' \<le> usize_max" "length (xd_label d) \<le> usize_max"
      "length (xd_label d') \<le> usize_max" "length v \<le> usize_max" "length v' \<le> usize_max"
  shows "t = t' \<and> d = d' \<and> v = v'"
proof -
  have 1: "lp t @ lp (xd_label d) @ u32_to_be (xd_schema_version d) @ lp (ascii ''raw_bytes'') @ u16_to_be 1 @
      u64_to_be (xd_key_epoch d) @ lp v = lp t' @ lp (xd_label d') @ u32_to_be (xd_schema_version d') @
      lp (ascii ''raw_bytes'') @ u16_to_be 1 @ u64_to_be (xd_key_epoch d') @ lp v'"
    using eq unfolding token_input_def append_same_eq same_append_eq .
  note 2 = lp_inject [OF 1 len(1,2)]
  note 3 = lp_inject [OF 2 [THEN conjunct2] len(3,4)]
  have 4: "xd_schema_version d = xd_schema_version d'" "u64_to_be (xd_key_epoch d) @ lp v = u64_to_be (xd_key_epoch d') @ lp v'"
    using 3 [THEN conjunct2] by (simp_all add: append_eq_append_conv)
  have 5: "xd_key_epoch d = xd_key_epoch d'" "lp v @ [] = lp v' @ []"
    using 4(2) by (simp_all add: append_eq_append_conv)
  have "v = v'" using lp_inject [OF 5(2) len(5,6)] by blast
  then show ?thesis using 2 3 4(1) 5(1) by (cases d; cases d') simp
qed

section \<open>Properties\<close>

text \<open>
  C33. Blind-index tokens are scoped: the token is the first 16 bytes of HMAC-SHA-256 over an
  encoding of tenant, definition and value from which all three can be read back: two entries with
  one token come from the same tenant, definition and value, unless their two MAC inputs are
  different with the same truncated tag; and the entry passes the index checks of sealing and
  validation.
\<close>

theorem exact_token_scoped:
  assumes "exact_token_raw key t d v = Inr i" and "exact_token_raw key t' d' v' = Inr i'" and "bi_token i = bi_token i'"
    and "raw_bytes (xd_label d) (xd_schema_version d) (xd_key_epoch d) = Inr d"
    and "raw_bytes (xd_label d') (xd_schema_version d') (xd_key_epoch d') = Inr d'"
    and "length v \<le> usize_max" and "length v' \<le> usize_max"
  shows "((t = t' \<and> d = d' \<and> v = v') \<or> (token_input t d v \<noteq> token_input t' d' v' \<and>
      token_mac key (token_input t d v) = token_mac key (token_input t' d' v'))) \<and>
    bi_token i = token_mac key (token_input t d v) \<and>
    index_scope_ok default_policy i \<and> length (bi_token i) = INDEX_TOKEN_LEN"
proof -
  have lab: "label_ok default_policy t" "label_ok default_policy t'"
    using assms(1,2) by (auto simp: exact_token_raw_eq split: if_splits)
  have dl: "label_ok default_policy (xd_label d)" "label_ok default_policy (xd_label d')"
    "xd_schema_version d \<noteq> 0" "xd_key_epoch d \<noteq> 0"
    using assms(4,5) by (auto simp: raw_bytes_def label_ok_def Let_def split: if_splits)
  have small: "label_ok default_policy x \<Longrightarrow> length x \<le> usize_max" for x
    by (simp add: label_ok_def default_policy_def usize_max_def)
  have i: "i = \<lparr>bi_label = xd_label d, bi_schema_version = xd_schema_version d,
         bi_canonicalizer_id = ascii ''raw_bytes'', bi_canonicalizer_version = 1, bi_key_epoch = xd_key_epoch d,
         bi_token = take 16 (hmac_spec sha256_spec 64 (search_key_to_bytes key) (token_input t d v))\<rparr>"
    and i': "bi_token i' = take 16 (hmac_spec sha256_spec 64 (search_key_to_bytes key) (token_input t' d' v'))"
    using assms(1,2) lab by (auto simp: exact_token_raw_eq)
  have "index_scope_ok default_policy i \<and> length (bi_token i) = INDEX_TOKEN_LEN"
    using dl by (simp add: i index_scope_ok_def label_ok_def default_policy_def wire_consts)
  moreover have "(t = t' \<and> d = d' \<and> v = v') \<or> token_input t d v \<noteq> token_input t' d' v'"
    using token_input_inject [of t d v t' d' v'] lab dl small assms(6,7) by blast
  moreover have "bi_token i = token_mac key (token_input t d v)" by (simp add: i token_mac_def)
  moreover have "token_mac key (token_input t d v) = token_mac key (token_input t' d' v')"
    using assms(3) i i' by (simp add: token_mac_def)
  ultimately show ?thesis by blast
qed

theorem exact_token_scoped_witness:
  "\<exists>i. exact_token_raw (SearchKey (replicate 32 5)) [116] \<lparr>xd_label = [108], xd_schema_version = 1, xd_key_epoch = 1\<rparr> [1, 2] = Inr i \<and>
    index_scope_ok default_policy i \<and> length (bi_token i) = INDEX_TOKEN_LEN"
proof -
  let ?d = "\<lparr>xd_label = [108], xd_schema_version = 1, xd_key_epoch = 1\<rparr>"
  have "label_ok default_policy [116]" by (simp add: label_ok_def default_policy_def)
  then obtain i where i: "exact_token_raw (SearchKey (replicate 32 5)) [116] ?d [1, 2] = Inr i"
    by (simp add: exact_token_raw_eq)
  have d: "raw_bytes (xd_label ?d) (xd_schema_version ?d) (xd_key_epoch ?d) = Inr ?d"
    by (simp add: raw_bytes_def default_policy_def)
  have "length [1 :: u8, 2] \<le> usize_max" by (simp add: usize_max_def)
  from exact_token_scoped [OF i i refl d d this this] i show ?thesis by blast
qed

end
