(* ===== verification/CoreBatch.thy ===== *)
theory CoreBatch
  imports CoreSeal
begin

text \<open>
  Parallel batch sealing (crates/blindplane-core/src/batch.rs). Which randomness each worker sees
  depends on the scheduler: \<open>worlds i\<close> is the state of the outside world in which the call for
  item \<open>i\<close> happens to run. The result is a list, or \<open>None\<close> where the code would panic (a write out
  of range, or a slot no worker filled).
\<close>

record batch_item =
  ba_context :: record_context
  ba_plaintext :: bytes
  ba_recipients :: "recipient_info list"
  ba_indexes :: "blind_index list"

definition seal_item ::
  "'w client_env \<Rightarrow> author \<Rightarrow> suite \<Rightarrow> 'w \<Rightarrow> batch_item \<Rightarrow> client_error + sealed_record" where
  "seal_item E author suite w item =
    fst (seal E author (ba_context item) (ba_plaintext item) (ba_recipients item) (ba_indexes item) suite w)"

text \<open>One worker: the results of a chunk that starts at item \<open>offset\<close>.\<close>

definition seal_chunk_items ::
  "'w client_env \<Rightarrow> author \<Rightarrow> suite \<Rightarrow> (nat \<Rightarrow> 'w) \<Rightarrow> nat \<Rightarrow> batch_item list \<Rightarrow> (client_error + sealed_record) list" where
  "seal_chunk_items E author suite worlds offset chunk =
    map (\<lambda>(i, item). seal_item E author suite (worlds (offset + i)) item) (enumerate 0 chunk)"

text \<open>\<open>results[offset + i] = Some(result)\<close>, and the loop over one worker's results.\<close>

definition put_slot :: "nat \<Rightarrow> 'r option list option \<Rightarrow> nat \<times> 'r \<Rightarrow> 'r option list option" where
  "put_slot offset results ir =
    (case results of None \<Rightarrow> None | Some results \<Rightarrow>
     case ir of (i, r) \<Rightarrow>
       if offset + i < length results then Some (results[offset + i := Some r]) else None)"

definition join_handle :: "'r option list option \<Rightarrow> nat \<times> 'r list \<Rightarrow> 'r option list option" where
  "join_handle results handle =
    (case handle of (offset, chunk_results) \<Rightarrow> foldl (put_slot offset) results (enumerate 0 chunk_results))"

definition seal_batch ::
  "'w client_env \<Rightarrow> nat \<Rightarrow> (nat \<Rightarrow> 'w) \<Rightarrow> author \<Rightarrow> batch_item list \<Rightarrow> suite \<Rightarrow>
   (client_error + sealed_record) list option" where
  "seal_batch E parallelism worlds author items suite =
    (let workers = min parallelism (max (length items) 1) in
     if workers \<le> 1 \<or> length items \<le> 1
     then Some (seal_chunk_items E author suite worlds 0 items)
     else
       let chunk_size = (length items + workers - 1) div workers;
           handles = map (\<lambda>(chunk_index, chunk).
             (chunk_index * chunk_size,
              seal_chunk_items E author suite worlds (chunk_index * chunk_size) chunk))
             (enumerate 0 (chunks chunk_size items));
           results = foldl join_handle (Some (replicate (length items) None)) handles
       in case results of None \<Rightarrow> None
          | Some slots \<Rightarrow> if list_all (\<lambda>slot. slot \<noteq> None) slots then Some (map the slots) else None)"

section \<open>Every slot is filled once, in order\<close>

lemma put_slots:
  "length prefix = offset \<Longrightarrow> length mid = length rs \<Longrightarrow>
    foldl (put_slot offset) (Some (prefix @ mid @ suffix)) (enumerate 0 rs) = Some (prefix @ map Some rs @ suffix)"
proof (induction rs arbitrary: mid suffix rule: rev_induct)
  case (snoc r rs)
  then obtain m x where mid: "mid = m @ [x]" "length m = length rs"
    by (cases mid rule: rev_cases) auto
  have "foldl (put_slot offset) (Some (prefix @ m @ ([x] @ suffix))) (enumerate 0 rs) =
      Some (prefix @ map Some rs @ [x] @ suffix)"
    by (rule snoc.IH) (use snoc.prems mid in auto)
  then have "foldl (put_slot offset) (Some (prefix @ mid @ suffix)) (enumerate 0 (rs @ [r])) =
      put_slot offset (Some (prefix @ map Some rs @ [x] @ suffix)) (length rs, r)"
    by (simp add: mid enumerate_append_eq)
  also have "\<dots> = Some (prefix @ map Some (rs @ [r]) @ suffix)"
    using snoc.prems(1) by (simp add: put_slot_def list_update_append)
  finally show ?case .
qed simp

text \<open>The list of results of the items from \<open>k\<close> on.\<close>

definition results_from :: "'w client_env \<Rightarrow> author \<Rightarrow> suite \<Rightarrow> (nat \<Rightarrow> 'w) \<Rightarrow> nat \<Rightarrow> batch_item list \<Rightarrow>
    (client_error + sealed_record) list" where
  "results_from E a s ws k items = map (\<lambda>(i, item). seal_item E a s (ws i) item) (enumerate k items)"

lemma seal_chunk_items_from: "seal_chunk_items E a s ws k items = results_from E a s ws k items"
  by (rule nth_equalityI) (simp_all add: seal_chunk_items_def results_from_def nth_enumerate_eq)

lemma results_from_append:
  "results_from E a s ws k (xs @ ys) = results_from E a s ws k xs @ results_from E a s ws (k + length xs) ys"
  by (simp add: results_from_def enumerate_append_eq)

lemma results_from_length [simp]: "length (results_from E a s ws k items) = length items"
  by (simp add: results_from_def)

lemma join_handles:
  "0 < c \<Longrightarrow> length prefix = j * c \<or> items = [] \<Longrightarrow>
    foldl join_handle (Some (prefix @ replicate (length items) None))
      (map (\<lambda>(ci, chunk). (ci * c, seal_chunk_items E a s ws (ci * c) chunk)) (enumerate j (chunks c items))) =
    Some (prefix @ map Some (results_from E a s ws (j * c) items))"
proof (induction c items arbitrary: prefix j rule: chunks.induct)
  case (1 c items)
  show ?case
  proof (cases "items = [] \<or> c = 0")
    case True
    then show ?thesis using "1.prems" by (cases "c = 0") (auto simp: results_from_def)
  next
    case False
    let ?h = "take c items" and ?t = "drop c items"
    have items: "replicate (length items) (None :: (client_error + sealed_record) option) =
        replicate (length ?h) None @ replicate (length ?t) None"
      by (simp flip: replicate_add)
    have ch: "chunks c items = ?h # chunks c ?t" using False by (simp add: chunks.simps [of c items])
    have "join_handle (Some (prefix @ replicate (length items) None)) (j * c, seal_chunk_items E a s ws (j * c) ?h) =
        Some (prefix @ map Some (results_from E a s ws (j * c) ?h) @ replicate (length ?t) None)"
      unfolding join_handle_def prod.case seal_chunk_items_from items
      by (rule put_slots) (use "1.prems" False in auto)
    moreover have "foldl join_handle (Some ((prefix @ map Some (results_from E a s ws (j * c) ?h)) @ replicate (length ?t) None))
        (map (\<lambda>(ci, chunk). (ci * c, seal_chunk_items E a s ws (ci * c) chunk)) (enumerate (Suc j) (chunks c ?t))) =
      Some ((prefix @ map Some (results_from E a s ws (j * c) ?h)) @ map Some (results_from E a s ws (Suc j * c) ?t))"
      by (rule "1.IH") (use "1.prems" False in auto)
    moreover have "results_from E a s ws (j * c) items =
        results_from E a s ws (j * c) ?h @ results_from E a s ws (Suc j * c) ?t"
    proof (cases "?t = []")
      case True
      then show ?thesis by (simp add: results_from_def)
    next
      case False
      then have "length ?h = c" by simp
      then show ?thesis
        using results_from_append [of E a s ws "j * c" ?h ?t] by (simp add: add.commute)
    qed
    ultimately show ?thesis by (simp add: ch)
  qed
qed

section \<open>Properties\<close>

text \<open>
  C34. Batch sealing never panics and keeps the order: for any number of available cores and any
  schedule of the randomness, \<open>seal_batch\<close> returns exactly one result per item, the \<open>i\<close>-th being
  that of \<open>seal\<close> on the \<open>i\<close>-th item. The chunk arithmetic fills every slot exactly once.
\<close>

theorem seal_batch_in_order:
  "seal_batch E parallelism worlds author items suite =
    Some (map (\<lambda>(i, item). seal_item E author suite (worlds i) item) (enumerate 0 items))"
proof -
  let ?n = "length items" and ?w = "min parallelism (max (length items) 1)"
  let ?c = "(?n + ?w - 1) div ?w"
  have m: "map (\<lambda>(i, item). seal_item E author suite (worlds i) item) (enumerate 0 items) =
      results_from E author suite worlds 0 items"
    by (simp add: results_from_def)
  show ?thesis
  proof (cases "?w \<le> 1 \<or> ?n \<le> 1")
    case True
    then show ?thesis by (simp only: seal_batch_def Let_def if_True seal_chunk_items_from m)
  next
    case False
    then have "1 < ?w" "1 < ?n" by (simp_all only: not_le de_Morgan_disj)
    then have "0 < ?c" unfolding div_greater_zero_iff by linarith
    from join_handles [OF this, of "[]" 0 items E author suite worlds]
    have j: "foldl join_handle (Some (replicate ?n None))
        (map (\<lambda>(ci, chunk). (ci * ?c, seal_chunk_items E author suite worlds (ci * ?c) chunk)) (enumerate 0 (chunks ?c items))) =
      Some (map Some (results_from E author suite worlds 0 items))"
      by simp
    have all: "list_all (\<lambda>slot. slot \<noteq> None) (map Some xs)" "map the (map Some xs) = xs" for xs :: "'r list"
      by (simp_all add: list_all_iff comp_def)
    show ?thesis
      unfolding seal_batch_def Let_def j m if_not_P [OF False] by (simp only: option.case all if_True)
  qed
qed

end
