(* ===== verification/CoreVault.thy ===== *)
theory CoreVault
  imports CoreTypes Argon2Correct
begin

text \<open>
  The client's vault key (crates/blindplane-core/src/vault.rs): the key under which a client keeps
  its secrets, derived from a password, and the choice of the payload suite.
\<close>

definition fastest_payload_suite :: suite where
  "fastest_payload_suite = fastest_available"

definition derive_vault_key :: "bytes \<Rightarrow> bytes \<Rightarrow> argon2_params \<Rightarrow> (client_error + bytes) option" where
  "derive_vault_key password salt params =
    do {
      r \<leftarrow> argon2id password salt params;
      Some (rbind (map_err (\<lambda>_. InvalidVaultParameters) r) (\<lambda>derived.
        if length derived \<noteq> 32 then Inl InvalidVaultParameters else Inr derived))
    }"

text \<open>
  Deriving a vault key never panics; it succeeds exactly for valid Argon2id parameters with an
  output of 32 bytes, with the Argon2id hash as the key, and every refusal names the vault
  parameters.
\<close>

theorem vault_key_spec:
  "derive_vault_key password salt params = Some (
    if argon2_valid salt params \<and> ap_output_len params = 32
    then Inr (rfc_argon2id password salt params) else Inl InvalidVaultParameters)"
  by (auto simp: derive_vault_key_def argon2id_spec rfc_argon2id_length)

end
