(* ===== verification/Composition.thy ===== *)
theory Composition
  imports CoreSeal CoreIndex CoreBatch Service
begin

text \<open>
  Lemmas across components: what a client seals has a well-typed encoding of bounded length, so
  the relay parses it, files it and finds it again.
\<close>

section \<open>Sealed records are well typed\<close>

lemma many_put_bound: "\<forall>x\<in>set xs. length (put x) \<le> n \<Longrightarrow> length (many_put put xs) \<le> length xs * n"
  by (induction xs) (auto simp: many_put_def)

text \<open>A record within the default limits has fewer than ten million bytes.\<close>

lemma encode_bound:
  assumes lim: "limits_ok default_policy r"
    and env: "\<forall>e\<in>set (sr_recipients r). length (re_recipient_key_id e) = 32"
    and idx: "\<forall>i\<in>set (sr_indexes r). length (bi_token i) = INDEX_TOKEN_LEN"
    and hash: "length (sr_previous_manifest_hash r) = 32" "length (sr_key_commitment r) = 32"
      "length (sr_signer_public_key r) = 32"
  shows "length (encode r) \<le> 10000000"
proof -
  note l = lim [unfolded limits_ok_def label_ok_def]
  have "length (envelope_put e) \<le> 400" if "e \<in> set (sr_recipients r)" for e
    using l env that by (auto simp: envelope_put_def default_policy_def wire_consts)
  then have "length (many_put envelope_put (sr_recipients r)) \<le> length (sr_recipients r) * 400"
    by (intro many_put_bound) blast
  then have es: "length (many_put envelope_put (sr_recipients r)) \<le> 256 * 400"
    using l by (simp add: default_policy_def)
  have "length (index_put i) \<le> 560" if "i \<in> set (sr_indexes r)" for i
    using l idx that by (auto simp: index_put_def default_policy_def wire_consts)
  then have "length (many_put index_put (sr_indexes r)) \<le> length (sr_indexes r) * 560"
    by (intro many_put_bound) blast
  then have ixs: "length (many_put index_put (sr_indexes r)) \<le> 32 * 560"
    using l by (simp add: default_policy_def)
  have n: "length (sr_nonce r) \<le> 24" using l by (cases "sr_suite r") simp_all
  have c: "length (canonical_bytes (sr_context r)) \<le> 1000"
    using l by (simp add: canonical_bytes_length default_policy_def)
  have "length (sr_ciphertext r) \<le> 8388608" "length (sr_signature r) = 64"
    using l by (simp_all add: default_policy_def)
  with es ixs n c hash show ?thesis
    by (simp add: encode_put signing_bytes_put RECORD_DOMAIN_def)
qed

text \<open>What the types of the client's arguments guarantee: UTF-8 strings and 16-byte tokens.\<close>

definition inputs_wf :: "record_context \<Rightarrow> recipient_info list \<Rightarrow> blind_index list \<Rightarrow> bool" where
  "inputs_wf c rs is \<longleftrightarrow> context_wf c \<and> (\<forall>r\<in>set rs. utf8_valid (rp_recipient_id r)) \<and> (\<forall>i\<in>set is. index_wf i)"

lemma sealed_record_wf:
  assumes os: "os_ok (env_os E)" and wf: "inputs_wf c rs is"
    and s: "seals E c pt rs is su secret r" and r: "r = author_sign a r0"
    and lim: "limits_ok default_policy r" and pre: "preflight c (length pt) rs is = Inr ()"
    and prev: "length (sr_previous_manifest_hash r) = 32"
  shows "record_wf r"
proof -
  have es: "list_all2 (wrapped E secret c) (sort_key recipient_sort_key rs) (sr_recipients r)"
    and cx: "sr_context r = c" and ix: "set (sr_indexes r) = set is" and com: "length (sr_key_commitment r) = 32"
    using s by (auto simp: seals_def carries_def)
  have env: "envelope_wf e" if e: "e \<in> set (sr_recipients r)" for e
  proof -
    obtain q where q: "q \<in> set rs" "wrapped E secret c q e"
      using list_all2_in_set2 [OF es e] by auto
    then have "envelope_for q e" using wrap_dek_Inr [OF os] by (auto simp: wrapped_def)
    then show ?thesis
      using wf q(1) pre [unfolded preflight_iff]
      by (auto simp: envelope_wf_def envelope_for_def inputs_wf_def recipient_info_ok_def)
  qed
  have key: "length (sr_signer_public_key r) = 32"
    by (simp add: r author_public_key_def sk_verifying_key_def)
  have "length (encode r) \<le> 10000000"
    by (rule encode_bound [OF lim]) (use env ix wf com prev key in \<open>auto simp: envelope_wf_def inputs_wf_def index_wf_def\<close>)
  then show ?thesis
    using env ix wf com prev key cx by (auto simp: record_wf_def inputs_wf_def usize_max_def)
qed

section \<open>What the relay does with a valid record\<close>

lemma valid_record_decodes:
  assumes "record_wf r" "validate vf r (policy_for k) = Inr ()"
  shows "decode vf (encode r) (policy_for k) = Inr r"
proof -
  have "structure_ok vf (policy_for k) r" using assms(2) by (simp add: validate_iff)
  moreover have "policy_fits (policy_for k)"
    by (simp add: policy_fits_def policy_for_def default_policy_def bytes_limit_def)
  ultimately show ?thesis
    using limits_parsed_ok [OF assms(1)] assms(1) by (simp add: decode_iff record_wf_def structure_ok_def)
qed

lemma put_valid_record:
  assumes "decode vf bs (ry_policy ry) = Inr r" "validate vf r (ry_policy ry) = Inr ()"
    and "\<forall>e. st_records (ry_store ry) (key_of r) = Some e \<longrightarrow> stamp e < stamp r"
  shows "\<exists>rc ry'. put_encoded vf ry (key_of r) bs = Inr (rc, ry')"
proof -
  have "\<exists>rc st. store_put vf (ry_store ry) r (ry_policy ry) = Inr (rc, st)"
    using assms(2,3) by (auto simp: store_put_Inr stamp_def)
  then show ?thesis using assms(1) by (auto simp: put_encoded_def key_of_def)
qed

lemma store_search_mem:
  assumes "store_inv st" "st_records st k = Some r" "i \<in> set (sr_indexes r)"
  shows "r \<in> set (store_search st (rc_tenant (sr_context r)) (bi_label i) (bi_key_epoch i) (bi_token i))"
proof -
  let ?S = "{k. \<exists>q. st_records st k = Some q \<and> rc_tenant (sr_context q) = rc_tenant (sr_context r) \<and>
      (\<exists>j\<in>set (sr_indexes q). bi_label j = bi_label i \<and> bi_key_epoch j = bi_key_epoch i \<and> bi_token j = bi_token i)}"
  have "k' \<in> index_find (st_index st) (rc_tenant (sr_context r), bi_label i, bi_key_epoch i, bi_token i)"
    if q: "st_records st k' = Some q" "rc_tenant (sr_context q) = rc_tenant (sr_context r)" "j \<in> set (sr_indexes q)"
      "bi_label j = bi_label i" "bi_key_epoch j = bi_key_epoch i" "bi_token j = bi_token i" for k' q j
  proof -
    have "(rc_tenant (sr_context r), bi_label i, bi_key_epoch i, bi_token i) \<in> record_index_ids q"
      using q unfolding record_index_ids_def set_map by (intro image_eqI [of _ _ j]) (simp_all add: index_id_of_def)
    with q(1) show ?thesis unfolding store_inv_find [OF assms(1)] by blast
  qed
  then have "?S \<subseteq> index_find (st_index st) (rc_tenant (sr_context r), bi_label i, bi_key_epoch i, bi_token i)"
    by blast
  moreover have "finite (index_find (st_index st) x)" for x
    using assms(1) by (cases x) (auto simp: store_inv_def index_proper_def index_find_def split: option.split)
  ultimately have "finite ?S" by (rule finite_subset)
  moreover have "k \<in> ?S" using assms(2,3) by blast
  ultimately show ?thesis
    unfolding store_search_spec [OF assms(1)] using assms(2) by (auto intro!: image_eqI [of _ _ k])
qed

text \<open>Everything a sealed record is, from the author's side and from the readers'.\<close>

lemma sealed_valid:
  assumes "os_ok (env_os E)" and "seal E a c pt rs is s w = (Inr r, w')"
  shows "validate verify_strict r (policy_for (author_public_key a)) = Inr ()"
    "sr_context r = c" "sr_manifest_revision r = 1"
    "keypair_wf kp \<Longrightarrow> kp_recipient kp \<in> set rs \<Longrightarrow> open_record r kp (author_public_key a) = Inr pt"
    "inputs_wf c rs is \<Longrightarrow> record_wf r"
proof -
  from seal_Inr [OF assms] obtain secret r0 where
    s: "seals E c pt rs is s secret r" and r: "r = author_sign a r0"
    and own: "validate_own E r (policy_for (author_public_key a)) = Inr ()" and rev: "sr_manifest_revision r = 1"
    and pre: "preflight c (length pt) rs is = Inr ()" by metis
  show val: "validate verify_strict r (policy_for (author_public_key a)) = Inr ()"
    using own unfolding r by (simp only: validate_own_signed)
  note lim = validate_mono_limits [OF val]
  have prev: "length (sr_previous_manifest_hash r) = 32"
    using lim rev by (simp add: limits_ok_def)
  show "record_wf r" if "inputs_wf c rs is" by (rule sealed_record_wf [OF assms(1) that s r lim pre prev])
  show "sr_context r = c" using s by (simp add: seals_def)
  show "sr_manifest_revision r = 1" by (rule rev)
  show "open_record r kp (author_public_key a) = Inr pt" if "keypair_wf kp" "kp_recipient kp \<in> set rs"
    using seals_opens [OF assms(1) that(1) lim s that(2)] by (simp add: open_record_valid [OF val])
qed

text \<open>A key that was generated is never unusable, so sealing to it fails only without randomness.\<close>

lemma generated_key_usable: "static_wf k \<Longrightarrow> \<not> unusable_key (ss_public k)"
  using static_agree(2) [OF static_from_bytes_wf, of _ k] by (fastforce simp: unusable_key_def)

lemma seal_total:
  assumes "os_ok (env_os E)" and "preflight c (length pt) rs is = Inr ()"
    and "distinct (map recipient_sort_key rs)" and "distinct (map index_key is)" and "s \<noteq> Aes256Gcm"
    and "\<forall>q\<in>set rs. \<exists>k. static_wf k \<and> rp_public_key q = ss_public k"
  shows "(\<exists>r. fst (seal E a c pt rs is s w) = Inr r) \<or> os_failed (env_os E)"
proof (cases "seal E a c pt rs is s w")
  case (Pair res w')
  show ?thesis
  proof (cases res)
    case (Inl err)
    have "\<not> unusable_key (rp_public_key q)" if "q \<in> set rs" for q
      using assms(6) that generated_key_usable by metis
    then show ?thesis
      using seal_error [OF assms(1) Pair [unfolded Inl]] assms(2-5) by (auto simp: seal_reason_def)
  qed (simp add: Pair)
qed

section \<open>From the client to the relay and back\<close>

definition key_for :: "record_context \<Rightarrow> record_key" where
  "key_for c = RecordKey (rc_tenant c) (rc_object_id c) (rc_field c)"

definition store_of :: "sealed_record \<Rightarrow> store_request" where
  "store_of r = \<lparr>sq_tenant = rc_tenant (sr_context r), sq_object_id = rc_object_id (sr_context r),
     sq_field = rc_field (sr_context r), sq_record = base64_encode (encode r)\<rparr>"

definition search_of :: "record_context \<Rightarrow> blind_index \<Rightarrow> search_request" where
  "search_of c i = \<lparr>hq_tenant = rc_tenant c, hq_label = bi_label i, hq_key_epoch = bi_key_epoch i,
     hq_token = hex_encode (bi_token i)\<rparr>"

text \<open>What a service holding the record answers.\<close>

definition serves :: "relay \<Rightarrow> sealed_record \<Rightarrow> bool" where
  "serves ry r \<longleftrightarrow> fetch_record ry (fetch_of (store_of r)) = Inr (base64_encode (encode r)) \<and>
     (\<forall>i\<in>set (sr_indexes r). \<exists>texts. search_records ry (search_of (sr_context r) i) = Inr texts \<and>
        base64_encode (encode r) \<in> set texts)"

lemma store_serves:
  assumes "reachable vf (policy_for k) ry" and wf: "record_wf r" and val: "validate vf r (policy_for k) = Inr ()"
    and fresh: "\<forall>e. st_records (ry_store ry) (key_of r) = Some e \<longrightarrow> stamp e < stamp r"
  shows "\<exists>resp ry'. store_record vf ry (store_of r) = Inr (resp, ry') \<and> serves ry' r"
proof -
  have inv: "relay_inv vf (policy_for k) ry" by (rule reachable_inv [OF assms(1)])
  then have pol: "ry_policy ry = policy_for k" by (simp add: relay_inv_def)
  have dec: "decode vf (encode r) (ry_policy ry) = Inr r" using valid_record_decodes [OF wf val] pol by simp
  have len: "length (encode r) \<le> usize_max" using wf by (simp add: record_wf_def)
  have key: "key_of r = RecordKey (sq_tenant (store_of r)) (sq_object_id (store_of r)) (sq_field (store_of r))"
    by (simp add: key_of_def store_of_def)
  obtain rc ry' where put: "put_encoded vf ry (key_of r) (encode r) = Inr (rc, ry')"
    using put_valid_record [OF dec _ fresh] val pol by auto
  obtain resp where st: "store_record vf ry (store_of r) = Inr (resp, ry')"
    using put by (auto simp: store_record_def store_of_def key_of_def b64.dec_enc Let_def)
  have sto: "st_records (ry_store ry') (key_of r) = Some r"
    using put_encoded_stored [OF len put] dec by auto
  have "relay_inv vf (policy_for k) (serve vf (Put (key_of r) (encode r)) ry)"
    by (rule relay_inv_serve [OF inv]) (simp add: len)
  then have "store_inv (ry_store ry')" by (simp add: put relay_inv_def)
  note mem = store_search_mem [OF this sto]
  have "\<exists>texts. search_records ry' (search_of (sr_context r) i) = Inr texts \<and> base64_encode (encode r) \<in> set texts"
    if i: "i \<in> set (sr_indexes r)" for i
  proof -
    have "length (bi_token i) = 16" using wf i by (auto simp: record_wf_def index_wf_def wire_consts)
    then have "search_records ry' (search_of (sr_context r) i) = Inr (map base64_encode (search_encoded ry'
        (rc_tenant (sr_context r)) (bi_label i) (bi_key_epoch i) (bi_token i)))"
      by (simp add: search_records_def search_of_def hex.dec_enc token16_def)
    then show ?thesis using mem [OF i] by (auto simp: search_encoded_def)
  qed
  moreover have "fetch_record ry' (fetch_of (store_of r)) = Inr (base64_encode (encode r))"
    using sto unfolding key by (simp add: fetch_record_def fetch_of_def get_encoded_def store_get_def Let_def)
  ultimately show ?thesis using st by (auto simp: serves_def)
qed

section \<open>Properties\<close>

text \<open>
  C4. Sealing succeeds: with an entropy source that works, a portable suite, arguments that pass the
  preflight check, and distinct recipients that hold generated keys and distinct indexes, seal
  returns a record, and every one of the recipients opens it.
\<close>

theorem seal_succeeds:
  assumes "os_ok (env_os E)" and "\<not> os_failed (env_os E)"
    and "preflight c (length pt) (map kp_recipient kps) is = Inr ()"
    and "distinct (map (\<lambda>kp. recipient_sort_key (kp_recipient kp)) kps)" and "distinct (map index_key is)"
    and "s \<noteq> Aes256Gcm" and "\<forall>kp\<in>set kps. keypair_wf kp"
  shows "\<exists>r w'. seal E a c pt (map kp_recipient kps) is s w = (Inr r, w') \<and>
    (\<forall>kp\<in>set kps. open_record r kp (author_public_key a) = Inr pt)"
proof -
  have "\<exists>k. static_wf k \<and> rp_public_key q = ss_public k" if "q \<in> set (map kp_recipient kps)" for q
    using assms(7) that by (auto simp: keypair_wf_def)
  then have "\<exists>r. fst (seal E a c pt (map kp_recipient kps) is s w) = Inr r"
    using seal_total [OF assms(1,3) _ assms(5,6), of a w] assms(2,4) by (simp add: comp_def)
  then obtain r w' where r: "seal E a c pt (map kp_recipient kps) is s w = (Inr r, w')"
    by (metis prod.collapse)
  have "open_record r kp (author_public_key a) = Inr pt" if "kp \<in> set kps" for kp
    using sealed_valid(4) [OF assms(1) r] assms(7) that by simp
  with r show ?thesis by blast
qed

theorem seal_succeeds_witness:
  "\<exists>r w'. seal sample_env sample_author (sr_context sample_record) [1, 2, 3] [kp_recipient sample_keypair] []
      XChaCha20Poly1305 () = (Inr r, w') \<and>
    open_record r sample_keypair (author_public_key sample_author) = Inr [1, 2, 3]"
proof -
  have "preflight (sr_context sample_record) (length [1 :: u8, 2, 3]) (map kp_recipient [sample_keypair]) [] = Inr ()"
    using sample_keypair_ok
    by (simp add: preflight_iff sample_record_def default_policy_def label_ok_def TAG_LEN_def sample_keypair_def
        keypair_assemble_def recipient_info_ok_def keypair_wf_def recipient_info_wf_def Let_def)
  from seal_succeeds [OF sample_env_ok _ this] show ?thesis
    using sample_keypair_ok by (simp add: os_failed_def sample_env_def fixed_os_def)
qed

end
