(* ===== verification/Cli.thy ===== *)
theory Cli
  imports Composition CoreVault Password
begin

text \<open>
  The command line (crates/blindplane-cli/src/main.rs): its dispatch and the self-check, one record
  sealed, stored by a relay, fetched, decoded and opened. The result is the lines printed; a failed
  \<open>expect\<close> or assertion is a panic with its message. The report on hardware support is the one of the
  portable build (crates/blindplane-crypto/src/lib.rs); \<open>accel\<close> is the cargo feature of that name.
\<close>

record acceleration =
  ac_sha256_hardware :: bool
  ac_sha512_hardware :: bool
  ac_aes_hardware :: bool
  ac_accel_feature :: bool

definition sha256_hardware :: bool where "sha256_hardware = False"
definition sha512_is_hardware :: bool where "sha512_is_hardware = False"

definition acceleration_detect :: "bool \<Rightarrow> acceleration" where
  "acceleration_detect accel =
    \<lparr>ac_sha256_hardware = sha256_hardware, ac_sha512_hardware = sha512_is_hardware,
     ac_aes_hardware = aes_available, ac_accel_feature = accel\<rparr>"

definition acceleration_text :: "acceleration \<Rightarrow> str" where
  "acceleration_text a =
    ascii ''accel='' @ (if ac_accel_feature a then ascii ''on'' else ascii ''off'') @
    ascii '' sha256='' @ (if ac_sha256_hardware a then ascii ''hardware'' else ascii ''portable'') @
    ascii '' sha512='' @ (if ac_sha512_hardware a then ascii ''hardware'' else ascii ''portable'') @
    ascii '' aes-gcm='' @ (if ac_aes_hardware a then ascii ''hardware'' else ascii ''unavailable'')"

definition expect :: "string \<Rightarrow> ('w, 'e, 'a) eff \<Rightarrow> ('w, string, 'a) eff" where
  "expect message m = emap_err (\<lambda>_. message) m"

text \<open>\<open>fetched.windows(n).any(|window| window == text)\<close>.\<close>

definition contains_window :: "bytes \<Rightarrow> bytes \<Rightarrow> bool" where
  "contains_window xs part \<longleftrightarrow>
    list_ex (\<lambda>i. take (length part) (drop i xs) = part) [0..<length xs + 1 - length part]"

definition check_context :: record_context where
  "check_context = \<lparr>rc_tenant = ascii ''acme'', rc_object_id = ascii ''record-1'', rc_field = ascii ''notes'',
    rc_epoch = 1, rc_version = 1, rc_schema_version = 1\<rparr>"

definition check_plaintext :: bytes where
  "check_plaintext = ascii ''the relay never sees this''"

definition selfcheck :: "'w client_env \<Rightarrow> bool \<Rightarrow> ('w, string, str list) eff" where
  "selfcheck E accel =
    (let out = [ascii ''acceleration: '' @ acceleration_text (acceleration_detect accel)] in
    ebind (expect ''CSPRNG'' (author_generate E)) (\<lambda>author.
    ebind (expect ''keypair'' (keypair_generate E (ascii ''alice'') 1)) (\<lambda>alice.
    let context = check_context;
        plaintext = check_plaintext in
    ebind (expect ''seal'' (seal E author context plaintext [keypair_recipient alice] [] fastest_payload_suite)) (\<lambda>r.
    let policy = default_policy\<lparr>allowed_signers := {author_public_key author}\<rparr>;
        relay = relay_new policy;
        key = RecordKey (rc_tenant context) (rc_object_id context) (rc_field context) in
    ebind (expect ''store'' (pure_eff (put_encoded verify_strict relay key (encode r)))) (\<lambda>(receipt, relay).
    let out = out @ [ascii ''relay accepted version '' @ decimal (unat (wr_version receipt)) @
          ascii '' revision '' @ decimal (unat (wr_manifest_revision receipt))] in
    ebind (expect ''fetch'' (pure_eff (get_encoded relay key))) (\<lambda>fetched.
    if contains_window fetched plaintext
    then pure_eff (Inl ''plaintext must not appear in the stored bytes'')
    else
    ebind (expect ''decode'' (pure_eff (decode verify_strict fetched (ry_policy relay)))) (\<lambda>decoded.
    ebind (expect ''open'' (pure_eff (open_record decoded alice (author_public_key author)))) (\<lambda>opened.
    if opened \<noteq> plaintext then pure_eff (Inl ''assertion left == right failed'')
    else pure_eff (Inr (out @ [ascii ''self-check passed: sealed, relayed, and opened '' @
        decimal (length plaintext) @ ascii '' bytes'']))))))))))"

definition cli_main :: "'w client_env \<Rightarrow> bool \<Rightarrow> str list \<Rightarrow> ('w, string, str list) eff" where
  "cli_main E accel args =
    (let command = (if 1 < length args then args ! 1 else ascii ''help'')
     in if command = ascii ''selfcheck'' then selfcheck E accel
        else if command = ascii ''acceleration'' then pure_eff (Inr [acceleration_text (acceleration_detect accel)])
        else pure_eff (Inr [ascii ''blindplane <selfcheck|acceleration>'']))"

section \<open>The steps of the self-check\<close>

lemma expect_cases: "expect msg m w = (case m w of (r, w') \<Rightarrow> (map_err (\<lambda>_. msg) r, w'))"
  by (simp add: expect_def emap_err_def)

lemma expect_pure [simp]: "expect msg (pure_eff (Inr x)) = pure_eff (Inr x)"
  by (simp add: fun_eq_iff expect_cases pure_eff_def)

lemma author_generate_error: "author_generate E w = (Inl e, w') \<Longrightarrow> os_failed (env_os E)"
  by (auto simp: author_generate_def result_simps dest: rand_fill_error)

lemma keypair_generate_cases:
  assumes "os_ok (env_os E)" "i \<noteq> []" "k \<noteq> 0"
  shows "case keypair_generate E i k w of (Inr kp, w') \<Rightarrow> keypair_wf kp \<and> rp_recipient_id (kp_recipient kp) = i \<and>
      rp_key_epoch (kp_recipient kp) = k \<and> (\<exists>s. static_wf s \<and> rp_public_key (kp_recipient kp) = ss_public s)
    | (Inl e, w') \<Rightarrow> os_failed (env_os E)"
proof (cases "rand_fill (env_os E) (replicate 32 0) w")
  case (Pair r w')
  then show ?thesis
    using assms rand_fill_length [OF assms(1), of "replicate 32 0" w] rand_fill_error [of "env_os E" "replicate 32 0" w]
    by (cases r) (auto simp: keypair_generate_def static_generate_def ebind_def emap_err_def pure_eff_def
      keypair_assemble_wf static_from_bytes_wf, auto simp: keypair_assemble_def Let_def intro: static_from_bytes_wf)
qed

lemma check_preflight:
  assumes "keypair_wf kp" "rp_recipient_id (kp_recipient kp) = ascii ''alice''" "rp_key_epoch (kp_recipient kp) = 1"
  shows "preflight check_context (length check_plaintext) [keypair_recipient kp] [] = Inr ()"
  using assms
  by (simp add: preflight_iff check_context_def check_plaintext_def default_policy_def label_ok_def TAG_LEN_def
      keypair_recipient_def keypair_wf_def recipient_info_ok_def recipient_info_wf_def)

lemma check_inputs: "rp_recipient_id (kp_recipient kp) = ascii ''alice'' \<Longrightarrow> inputs_wf check_context [keypair_recipient kp] []"
  by (simp add: inputs_wf_def context_wf_def check_context_def keypair_recipient_def utf8_valid.simps(2))

text \<open>A fresh relay takes the record and returns its bytes.\<close>

lemma check_store:
  assumes wf: "record_wf r" and val: "validate verify_strict r (policy_for k) = Inr ()"
    and cx: "sr_context r = check_context" and rev: "sr_manifest_revision r = 1"
  shows "\<exists>rc ry. put_encoded verify_strict (relay_new (policy_for k))
      (RecordKey (rc_tenant check_context) (rc_object_id check_context) (rc_field check_context)) (encode r) = Inr (rc, ry) \<and>
    wr_version rc = 1 \<and> wr_manifest_revision rc = 1 \<and> ry_policy ry = policy_for k \<and>
    get_encoded ry (RecordKey (rc_tenant check_context) (rc_object_id check_context) (rc_field check_context)) = Inr (encode r)"
proof -
  let ?ry = "relay_new (policy_for k)"
  have key: "key_of r = RecordKey (rc_tenant check_context) (rc_object_id check_context) (rc_field check_context)"
    by (simp add: key_of_def cx)
  have dec: "decode verify_strict (encode r) (ry_policy ?ry) = Inr r"
    using valid_record_decodes [OF wf val] by (simp add: relay_new_def)
  obtain rc ry where put: "put_encoded verify_strict ?ry (key_of r) (encode r) = Inr (rc, ry)"
    using put_valid_record [OF dec] val by (auto simp: relay_new_def store_new_def)
  have len: "length (encode r) \<le> usize_max" using wf by (simp add: record_wf_def)
  have "st_records (ry_store ry) (key_of r) = Some r" "ry_policy ry = policy_for k" "wr_version rc = 1"
      "wr_manifest_revision rc = 1"
    using put_encoded_stored [OF len put] dec by (auto simp: cx rev check_context_def relay_new_def)
  then show ?thesis using put unfolding key by (auto simp: get_encoded_def store_get_def)
qed

text \<open>The scan of the stored bytes finds the text wherever it starts.\<close>

lemma contains_window_iff: "contains_window xs part \<longleftrightarrow> (\<exists>pre post. xs = pre @ part @ post)"
proof
  assume "contains_window xs part"
  then obtain i where "take (length part) (drop i xs) = part"
    by (auto simp: contains_window_def list_ex_iff)
  then have "xs = take i xs @ part @ drop (length part) (drop i xs)"
    by (metis append_take_drop_id)
  then show "\<exists>pre post. xs = pre @ part @ post" by blast
next
  assume "\<exists>pre post. xs = pre @ part @ post"
  then obtain pre post where "xs = pre @ part @ post" by blast
  then show "contains_window xs part"
    by (auto simp: contains_window_def list_ex_iff intro!: bexI [of _ "length pre"])
qed

section \<open>Properties\<close>

text \<open>
  C19. The result of the self-check, exactly: when the operating system gives randomness, an author
  and a reader are generated and a record is sealed for that reader; then the relay takes it as
  version 1 and revision 1 and the reader gets the 25 bytes of plaintext back, so the three lines
  are printed, unless the plaintext stands somewhere in the bytes of that record, which is the one
  assertion that can fail.
\<close>

theorem selfcheck_passes:
  assumes "os_ok (env_os E)" and "\<not> os_failed (env_os E)"
  shows "\<exists>author alice r w1 w2 w3.
    author_generate E w = (Inr author, w1) \<and>
    keypair_generate E (ascii ''alice'') 1 w1 = (Inr alice, w2) \<and>
    seal E author check_context check_plaintext [keypair_recipient alice] [] fastest_payload_suite w2 = (Inr r, w3) \<and>
    selfcheck E accel w =
      (if \<exists>pre post. encode r = pre @ check_plaintext @ post
       then Inl ''plaintext must not appear in the stored bytes''
       else Inr [ascii ''acceleration: '' @ acceleration_text (acceleration_detect accel),
         ascii ''relay accepted version 1 revision 1'',
         ascii ''self-check passed: sealed, relayed, and opened 25 bytes''], w3)"
proof -
  obtain author w1 where a: "author_generate E w = (Inr author, w1)"
    using author_generate_error [of E w] assms(2) by (metis sum.exhaust prod.exhaust)
  have ks: "case keypair_generate E (ascii ''alice'') 1 w1 of (Inr kp, w') \<Rightarrow> keypair_wf kp \<and>
      rp_recipient_id (kp_recipient kp) = ascii ''alice'' \<and> rp_key_epoch (kp_recipient kp) = 1 \<and>
      (\<exists>s. static_wf s \<and> rp_public_key (kp_recipient kp) = ss_public s) | (Inl e, w') \<Rightarrow> os_failed (env_os E)"
    by (rule keypair_generate_cases [OF assms(1)]) simp_all
  obtain alice w2 where k: "keypair_generate E (ascii ''alice'') 1 w1 = (Inr alice, w2)"
      and kp: "keypair_wf alice" "rp_recipient_id (kp_recipient alice) = ascii ''alice''" "rp_key_epoch (kp_recipient alice) = 1"
      and pk: "\<exists>s. static_wf s \<and> rp_public_key (kp_recipient alice) = ss_public s"
    using ks assms(2) by (auto simp del: ascii_Cons split: prod.splits sum.splits)
  let ?pk = "author_public_key author"
  have s0: "fastest_payload_suite \<noteq> Aes256Gcm"
    by (simp add: fastest_payload_suite_def fastest_available_def aes_available_def)
  obtain r w3 where r: "seal E author check_context check_plaintext [keypair_recipient alice] [] fastest_payload_suite w2 = (Inr r, w3)"
    using seal_total [OF assms(1) check_preflight [OF kp] _ _ s0, of author w2] pk assms(2)
    by (auto simp: keypair_recipient_def prod_eq_iff)
  note v = sealed_valid [OF assms(1) r] and wf = sealed_valid(5) [OF assms(1) r check_inputs [OF kp(2)]]
  obtain rc ry where st: "put_encoded verify_strict (relay_new (policy_for ?pk))
        (RecordKey (rc_tenant check_context) (rc_object_id check_context) (rc_field check_context)) (encode r) = Inr (rc, ry)"
      "wr_version rc = 1" "wr_manifest_revision rc = 1" "ry_policy ry = policy_for ?pk"
      "get_encoded ry (RecordKey (rc_tenant check_context) (rc_object_id check_context) (rc_field check_context)) = Inr (encode r)"
    using check_store [OF wf v(1-3)] by blast
  have dec: "decode verify_strict (encode r) (policy_for ?pk) = Inr r" by (rule valid_record_decodes [OF wf v(1)])
  have opened: "open_record r alice ?pk = Inr check_plaintext"
    using v(4) [OF kp(1)] by (simp add: keypair_recipient_def)
  have digits: "decimal 1 = ascii ''1''" "decimal (length check_plaintext) = ascii ''25''"
    by (simp_all add: check_plaintext_def decimal.simps)
  have "selfcheck E accel w = (if contains_window (encode r) check_plaintext
      then Inl ''plaintext must not appear in the stored bytes''
      else Inr [ascii ''acceleration: '' @ acceleration_text (acceleration_detect accel),
        ascii ''relay accepted version 1 revision 1'',
        ascii ''self-check passed: sealed, relayed, and opened 25 bytes''], w3)"
    by (simp add: selfcheck_def Let_def ebind_def expect_cases pure_eff_def a k r st dec opened digits
        del: ascii_Cons flip: policy_for_def) (simp add: check_plaintext_def decimal.simps [of "Suc 0"])
  with a k r show ?thesis unfolding contains_window_iff by blast
qed

theorem selfcheck_passes_witness:
  "\<exists>author alice r w1 w2 w3.
    author_generate sample_env () = (Inr author, w1) \<and>
    keypair_generate sample_env (ascii ''alice'') 1 w1 = (Inr alice, w2) \<and>
    seal sample_env author check_context check_plaintext [keypair_recipient alice] [] fastest_payload_suite w2 = (Inr r, w3) \<and>
    selfcheck sample_env False () =
      (if \<exists>pre post. encode r = pre @ check_plaintext @ post
       then Inl ''plaintext must not appear in the stored bytes''
       else Inr [ascii ''acceleration: accel=off sha256=portable sha512=portable aes-gcm=unavailable'',
         ascii ''relay accepted version 1 revision 1'',
         ascii ''self-check passed: sealed, relayed, and opened 25 bytes''], w3)"
proof -
  have line: "ascii ''acceleration: '' @ acceleration_text (acceleration_detect False) =
      ascii ''acceleration: accel=off sha256=portable sha512=portable aes-gcm=unavailable''"
    by (simp add: acceleration_text_def acceleration_detect_def sha256_hardware_def sha512_is_hardware_def aes_available_def)
  have "\<not> os_failed (env_os sample_env)" by (simp add: os_failed_def sample_env_def fixed_os_def)
  from selfcheck_passes [OF sample_env_ok this, of "()" False] show ?thesis unfolding line .
qed

end
