(* ===== verification/Spec2Isabelle.thy ===== *)
theory Spec2Isabelle
  imports Prelude BlockStream MachineInts Sha2 CryptoTypes Utf8 WireTypes WireCursor WireEncode WireRecord WireHead RelayStore Relay CtUtil Kdf ChaCha Poly1305 Aead Codec Service SimpleKey Blake2b Argon2 Argon2Correct Password Field FieldValue FieldBytes Entropy Montgomery Hpke CoreTypes CoreDerive CoreSeal CoreIndex CoreBatch CoreVault Composition Cli Limbs Scalar ScalarDigits Edwards Ed25519 EdwardsEncoding EdwardsMul BasePointOrder Ladder Ed25519Correct
begin

text \<open>
  Blindplane (crates/blindplane-*): sealed records that a server stores, validates, indexes and
  serves without being able to read them.

  The parts of the program and how they interact. A client (blindplane-core) seals a payload into
  one signed record: the payload under an AEAD key derived from a fresh object secret, that secret
  wrapped for every recipient with HPKE, a commitment to the key, blind-index tokens, and an
  Ed25519 signature over a canonical binary encoding. The record format, its parser, its limits
  and the client's freshness head are blindplane-wire. A relay (blindplane-relay, with the HTTP
  operations of blindplane-blazingly) decodes and validates a record, refuses one that is not
  newer than what it holds, files it under its signed identity and its index tokens, and serves
  the bytes back. Every primitive is blindplane-crypto.

  Theories, in the order of the calls:
  \<^item> Prelude, MachineInts, BlockStream: results as sums, reads and writes of integers as bytes,
    checked and saturating arithmetic, and the one buffering argument that SHA-2 and Poly1305 share
    (locale of a block stream).
  \<^item> CryptoTypes, CtUtil, Sha2, Kdf, ChaCha, Poly1305, Aead: crates/blindplane-crypto/src/util.rs,
    sha2/, kdf.rs, chacha/mod.rs, poly1305/mod.rs, aead/ and the portable aes/mod.rs. Words are kept
    at the width of the source (32, 64, 128 bits). The lemmas relate each implementation, fed in any
    pieces, to its standard: FIPS 180-4, RFC 2104, RFC 5869, RFC 8439.
  \<^item> Fips180, Rfc7693, Rfc8439, Rfc9106, with Arx for what their descriptions share: the standards,
    written apart from the code down to the constants and the mixing functions (SHA-2 compression,
    BLAKE2b, the ChaCha20 block and HChaCha20, the Argon2 compression). They use nothing of the
    program's models but the readings of integers as bytes in Prelude. HMAC, HKDF, the padding and
    chaining of SHA-2, the AEAD and the filling of the Argon2 memory are specified in the theories of
    the code, over these functions.
  \<^item> Entropy: rand.rs. The operating system is the record \<open>os\<close> of its two calls over a world state;
    an operation that draws randomness is a function from world to result and world.
  \<^item> Field, FieldValue, FieldBytes, Montgomery: field/ and montgomery.rs. The five 51-bit limbs stand
    for an integer modulo 2^255-19; \<open>FE_BOUND\<close> = 2^51 + 2^13 bounds the limbs after every
    operation, which is what makes all 128-bit intermediates exact.
  \<^item> Hpke: hpke/. Modes base and auth; the locale \<open>envelope_scheme\<close> is the contract the client uses.
  \<^item> WireTypes, WireCursor, WireEncode, WireRecord, WireHead, Utf8: crates/blindplane-wire/src. The
    codecs are put together from pairs of a writer and a reader (locale \<open>wire_codec\<close>); validation is
    characterised by the declarative predicates \<open>limits_ok\<close> and \<open>structure_ok\<close>.
  \<^item> RelayStore, Relay, Service, Codec: crates/blindplane-relay/src and crates/blindplane-blazingly/src.
    The relay is a state machine over requests (\<open>reachable\<close>, \<open>run\<close>) with the invariant \<open>relay_inv\<close>.
  \<^item> Blake2b, Argon2, Argon2Compress, Argon2Correct: argon2/. BLAKE2b and Argon2id with one lane; what
    can panic in the source returns an option. The specification writes out the window of referable
    blocks of RFC 9106.
  \<^item> SimpleKey, Password: simple/key.rs, simple/mod.rs and simple/password.rs.
  \<^item> Limbs, Scalar, ScalarDigits: scalar/. Arithmetic modulo the order of the Ed25519 group on 64-bit
    limbs, and the two signed-digit expansions that scalar multiplication walks through.
  \<^item> Edwards, Ed25519: edwards/point.rs, niels.rs, tables.rs, scalar_mul.rs, vartime.rs and keys.rs. The
    four point representations with their formulas, the tables, the multiplications, the point
    encoding, signing keys, strict verification and the prepared verifier.
  \<^item> Octal, Primality, CurvePrimes, GF, EdwardsCurve, Multiples, EdwardsGroup: the mathematics these
    rest on. The field as a type, the primality of its characteristic and of the group order, the
    curve as a type of commutative group; every formula of the code computes the group operation.
  \<^item> EdwardsEncoding, EdwardsMul, BasePointOrder, Ladder, Ed25519Correct: the point codec, the
    multiplications as multiples in the group, the order of the base point, the X25519 ladder as
    multiplication, and from them agreement of shared secrets and the correctness of signatures.
  \<^item> CoreTypes, CoreDerive, CoreSeal, CoreIndex, CoreBatch, CoreVault: crates/blindplane-core/src.
    Identities, key derivation, sealing, opening, granting, rekeying, blind indexes, batches, vault keys.
  \<^item> Composition, Cli and this theory: the path of a record through all of them, and the self-check of
    crates/blindplane-cli/src/main.rs, which walks it.

  What the groups of lemmas show. Wire: decoding and encoding are inverse, signing bytes are
  injective, accepted records form a hash chain. Relay: consistency of records and index, exact
  search, no rollback, no replay, progress. Crypto: each routine computes its standard. Core: what
  is sealed validates and opens for each named recipient, granting and rekeying are accepted links
  of the chain with exactly the stated effect, and every error has its cause. Properties with an
  effectful operation are case distinctions on its result: the case of success states what holds,
  the case of an error states the reason for it, so a model that always failed would not satisfy
  them.

  Parameters and hypotheses. The entropy source is a parameter; \<open>os_ok\<close> is its documented
  contract (the whole buffer is written, or the call fails). The scheduler's assignment of randomness
  to the items of a batch is a parameter. Nothing is assumed of the cryptography: that two key pairs
  agree on their shared secret and that a signature of the client verifies are theorems about the
  code, down to the limbs of the field.

  Bounds and fuel. No definition uses fuel: every loop of the source is a structural recursion, a
  fold over a list that exists before the loop starts, or a while loop whose end is proved (padding
  of the hashes, BLAKE2b). Lengths are bounded by \<open>usize_max\<close> =
  2^64-1 where the code converts between \<open>usize\<close> and \<open>u64\<close>; HKDF by its 255 blocks.

  Not modelled, and why. The AArch64 back ends (aes/arm, chacha/neon.rs, sha2/*/arm.rs) are vendor
  instructions; the development models the portable build, in which AES-256-GCM is unavailable.
  Display texts of errors and erasure of memory on drop have no effect a caller can observe.
  Allocation always succeeds in the model, also that of the memory of Argon2id, and a batch can always
  create its threads: the panic of \<open>scope.spawn\<close> is not modelled. JSON,
  routing and the length attributes of the HTTP models belong to the web framework, which is not in
  the repository. The benchmarks, the examples and the research lab only call the library.
\<close>

section \<open>Properties of the whole\<close>

text \<open>
  C1. The life of a record: what a client seals, a relay that pins the client's key and holds nothing
  as new under the same identity stores through its HTTP operation; it then serves the same text
  for a fetch and finds it under every blind index of the record; and a reader decodes that text
  and opens it to the plaintext. Sealing fails only for one of the listed reasons.
\<close>

theorem end_to_end:
  assumes "os_ok (env_os E)" and "inputs_wf c rs is"
    and "keypair_wf kp" and "kp_recipient kp \<in> set rs"
    and "reachable verify_strict (policy_for (author_public_key a)) ry"
    and "\<forall>e. st_records (ry_store ry) (key_for c) = Some e \<longrightarrow> stamp e < (rc_version c, 1)"
  shows "(case seal E a c pt rs is s w of
      (Inr r, _) \<Rightarrow>
        (\<exists>resp ry'. store_record verify_strict ry (store_of r) = Inr (resp, ry') \<and> serves ry' r) \<and>
        (\<exists>bs. base64_decode (base64_encode (encode r)) = Some bs \<and>
          decode verify_strict bs (policy_for (author_public_key a)) = Inr r) \<and>
        open_record r kp (author_public_key a) = Inr pt
    | (Inl err, _) \<Rightarrow> seal_reason E c pt rs is s err)"
proof -
  let ?vf = "verify_strict" and ?pk = "author_public_key a"
  obtain res w' where res: "seal E a c pt rs is s w = (res, w')" by (cases "seal E a c pt rs is s w")
  show ?thesis
  proof (cases res)
    case (Inl err)
    show ?thesis using seal_error [OF assms(1) res [unfolded Inl]] by (simp add: res Inl)
  next
    case (Inr r)
    note f = sealed_valid [OF assms(1) res [unfolded Inr]] and wf = sealed_valid(5) [OF assms(1) res [unfolded Inr] assms(2)]
    have "\<exists>resp ry'. store_record ?vf ry (store_of r) = Inr (resp, ry') \<and> serves ry' r"
      by (rule store_serves [OF assms(5) wf f(1)])
         (use assms(6) f(2,3) in \<open>simp add: key_of_def key_for_def stamp_def\<close>)
    then show ?thesis using valid_record_decodes [OF wf f(1)] f(4) [OF assms(3,4)] by (simp add: res Inr b64.dec_enc)
  qed
qed

theorem end_to_end_witness:
  "(case seal sample_env sample_author (sr_context sample_record) [1, 2, 3] [kp_recipient sample_keypair] []
      XChaCha20Poly1305 () of
      (Inr r, _) \<Rightarrow>
        (\<exists>resp ry'. store_record verify_strict
            (relay_new (policy_for (author_public_key sample_author))) (store_of r) = Inr (resp, ry') \<and> serves ry' r) \<and>
        (\<exists>bs. base64_decode (base64_encode (encode r)) = Some bs \<and>
          decode verify_strict bs (policy_for (author_public_key sample_author)) = Inr r) \<and>
        open_record r sample_keypair (author_public_key sample_author) = Inr [1, 2, 3]
    | (Inl err, _) \<Rightarrow> seal_reason sample_env (sr_context sample_record) [1, 2, 3] [kp_recipient sample_keypair] []
        XChaCha20Poly1305 err)"
proof (rule end_to_end [OF sample_env_ok _ sample_keypair_ok _ reachable.created])
  show "inputs_wf (sr_context sample_record) [kp_recipient sample_keypair] []"
    by (simp add: inputs_wf_def context_wf_def sample_record_def sample_keypair_def keypair_assemble_def
        utf8_valid.simps(2) Let_def)
  show "\<forall>e. st_records (ry_store (relay_new (policy_for (author_public_key sample_author))))
      (key_for (sr_context sample_record)) = Some e \<longrightarrow> stamp e < (rc_version (sr_context sample_record), 1)"
    by (simp add: relay_new_def store_new_def)
qed simp

end
